(* ===== verification/Prelude.thy ===== *)
theory Prelude
  imports Complex_Main "HOL-Library.Word" "HOL-Library.Multiset"
begin

text \<open>
  Shared vocabulary of the development: the C integer types, byte-addressed memory with
  little-endian loads and stores (the engine's pages are 4096-byte buffers that the code
  reads through casts to packed structs), flat byte strings, and the lemma collections
  the component theories use.

  Memory is a function from offsets to bytes. A store past the end of a page is
  undefined behaviour in C; here it changes a byte at an offset of 4096 or more, which
  \<open>page_wf\<close> excludes, so preserving \<open>page_wf\<close> is part of every page operation's
  correctness.
\<close>

section \<open>Types\<close>

type_synonym byte = "8 word"
type_synonym u8 = "8 word"
type_synonym u16 = "16 word"
type_synonym u32 = "32 word"
type_synonym u64 = "64 word"
type_synonym mem = "nat \<Rightarrow> byte"
type_synonym page = mem

named_theorems mem_simps "loads from memory after stores"
named_theorems wf_intros "introduction rules for page well-formedness"

declare add_2_eq_Suc [simp del] add_2_eq_Suc' [simp del]

section \<open>Little-endian loads and stores\<close>

fun peek :: "nat \<Rightarrow> mem \<Rightarrow> nat \<Rightarrow> nat" where
  "peek 0 m a = 0"
| "peek (Suc n) m a = unat (m a) + 256 * peek n m (Suc a)"

fun poke :: "nat \<Rightarrow> mem \<Rightarrow> nat \<Rightarrow> nat \<Rightarrow> mem" where
  "poke 0 m a v = m"
| "poke (Suc n) m a v = poke n (m(a := of_nat v)) (Suc a) (v div 256)"

lemma unat_byte_less [simp]: "unat (b :: byte) < 256"
  using unsigned_less [of b, where ?'a = nat] by simp

lemma peek_less: "peek n m a < 256 ^ n"
proof (induction n arbitrary: a)
  case 0
  then show ?case by simp
next
  case (Suc n)
  have "unat (m a) + 256 * peek n m (Suc a) < 256 * (peek n m (Suc a) + 1)" by simp
  also have "\<dots> \<le> 256 * 256 ^ n" using Suc [of "Suc a"] by (intro mult_le_mono2) simp
  finally show ?case by simp
qed

lemma poke_other: "i < a \<or> a + n \<le> i \<Longrightarrow> poke n m a v i = m i"
  by (induction n m a v rule: poke.induct) auto

lemma poke_inside: "a \<le> i \<Longrightarrow> i < a + n \<Longrightarrow> poke n m a v i = of_nat (v div 256 ^ (i - a))"
proof (induction n m a v rule: poke.induct)
  case (2 n m a v)
  show ?case
  proof (cases "i = a")
    case False
    then have "i - a = Suc (i - Suc a)" using 2 by simp
    then show ?thesis using 2 False by (simp add: div_mult2_eq fun_upd_def)
  qed (simp add: poke_other)
qed simp

lemma poke_at: "poke n m a v i = (if a \<le> i \<and> i < a + n then of_nat (v div 256 ^ (i - a)) else m i)"
  using poke_inside [of a i n m v] poke_other [of i a n m v] by auto

lemma peek_cong: "(\<And>i. a \<le> i \<Longrightarrow> i < a + n \<Longrightarrow> m i = m' i) \<Longrightarrow> peek n m a = peek n m' a"
  by (induction n arbitrary: a) auto

lemma peek_poke_disjoint: "b + k \<le> a \<or> a + n \<le> b \<Longrightarrow> peek k (poke n m a v) b = peek k m b"
  by (rule peek_cong) (auto simp: poke_other)

lemma peek_poke_same: "peek n (poke n m a v) a = v mod 256 ^ n"
proof (induction n arbitrary: m a v)
  case 0
  then show ?case by simp
next
  case (Suc n)
  have "poke n (m(a := of_nat v)) (Suc a) (v div 256) a = of_nat v"
    by (simp add: poke_other)
  then show ?case
    by (simp add: Suc unat_of_nat mod_mult2_eq)
qed

lemma poke_peek_same: "poke n m a (peek n m a) = m"
proof (induction n arbitrary: m a)
  case 0
  then show ?case by simp
next
  case (Suc n)
  have "of_nat (unat (m a) + 256 * peek n m (Suc a)) = (m a :: byte)"
  proof -
    have "(of_nat 256 :: byte) = 0" by simp
    then show ?thesis by (simp del: of_nat_numeral)
  qed
  moreover have "(unat (m a) + 256 * peek n m (Suc a)) div 256 = peek n m (Suc a)"
    by simp
  ultimately show ?case by (simp add: Suc)
qed

definition get_u8 :: "mem \<Rightarrow> nat \<Rightarrow> u8" where
  "get_u8 m a = m a"

definition get_u16 :: "mem \<Rightarrow> nat \<Rightarrow> u16" where
  "get_u16 m a = of_nat (peek 2 m a)"

definition get_u32 :: "mem \<Rightarrow> nat \<Rightarrow> u32" where
  "get_u32 m a = of_nat (peek 4 m a)"

definition get_u64 :: "mem \<Rightarrow> nat \<Rightarrow> u64" where
  "get_u64 m a = of_nat (peek 8 m a)"

definition put_u8 :: "mem \<Rightarrow> nat \<Rightarrow> u8 \<Rightarrow> mem" where
  "put_u8 m a v = m(a := v)"

definition put_u16 :: "mem \<Rightarrow> nat \<Rightarrow> u16 \<Rightarrow> mem" where
  "put_u16 m a v = poke 2 m a (unat v)"

definition put_u32 :: "mem \<Rightarrow> nat \<Rightarrow> u32 \<Rightarrow> mem" where
  "put_u32 m a v = poke 4 m a (unat v)"

definition put_u64 :: "mem \<Rightarrow> nat \<Rightarrow> u64 \<Rightarrow> mem" where
  "put_u64 m a v = poke 8 m a (unat v)"

lemmas get_defs = get_u8_def get_u16_def get_u32_def get_u64_def
lemmas put_defs = put_u8_def put_u16_def put_u32_def put_u64_def

lemma unat_u16_less: "unat (v :: u16) < 65536"
  using unsigned_less [of v, where ?'a = nat] by simp

lemma unat_u32_less: "unat (v :: u32) < 4294967296"
  using unsigned_less [of v, where ?'a = nat] by simp

lemma unat_u64_less: "unat (v :: u64) < 18446744073709551616"
  using unsigned_less [of v, where ?'a = nat] by simp

lemma get_put_same [simp, mem_simps]:
  "get_u8 (put_u8 m a v8) a = v8"
  "get_u16 (put_u16 m a v16) a = v16"
  "get_u32 (put_u32 m a v32) a = v32"
  "get_u64 (put_u64 m a v64) a = v64"
  using unat_u16_less [of v16] unat_u32_less [of v32] unat_u64_less [of v64]
  by (simp_all add: get_defs put_defs peek_poke_same)

lemma poke_one: "m(a := v) = poke 1 m a (unat v)"
  by simp

lemma peek_one: "m a = of_nat (peek 1 m a)"
  by simp

lemma put_u8_poke: "put_u8 m a v = poke 1 m a (unat v)"
  by (simp add: put_u8_def)

lemma get_u8_peek: "get_u8 m a = of_nat (peek 1 m a)"
  by (simp add: get_u8_def)

lemmas put_pokes = put_u8_poke put_u16_def put_u32_def put_u64_def
lemmas get_peeks = get_u8_peek get_u16_def get_u32_def get_u64_def

lemma get_put_u8 [simp, mem_simps]:
  "b + 1 \<le> a \<or> a + 1 \<le> b \<Longrightarrow> get_u8 (put_u8 m a v) b = get_u8 m b"
  "b + 2 \<le> a \<or> a + 1 \<le> b \<Longrightarrow> get_u16 (put_u8 m a v) b = get_u16 m b"
  "b + 4 \<le> a \<or> a + 1 \<le> b \<Longrightarrow> get_u32 (put_u8 m a v) b = get_u32 m b"
  "b + 8 \<le> a \<or> a + 1 \<le> b \<Longrightarrow> get_u64 (put_u8 m a v) b = get_u64 m b"
  unfolding get_peeks put_pokes by (subst peek_poke_disjoint; simp)+

lemma get_put_u16 [simp, mem_simps]:
  "b + 1 \<le> a \<or> a + 2 \<le> b \<Longrightarrow> get_u8 (put_u16 m a v) b = get_u8 m b"
  "b + 2 \<le> a \<or> a + 2 \<le> b \<Longrightarrow> get_u16 (put_u16 m a v) b = get_u16 m b"
  "b + 4 \<le> a \<or> a + 2 \<le> b \<Longrightarrow> get_u32 (put_u16 m a v) b = get_u32 m b"
  "b + 8 \<le> a \<or> a + 2 \<le> b \<Longrightarrow> get_u64 (put_u16 m a v) b = get_u64 m b"
  unfolding get_peeks put_pokes by (subst peek_poke_disjoint; simp)+

lemma get_put_u32 [simp, mem_simps]:
  "b + 1 \<le> a \<or> a + 4 \<le> b \<Longrightarrow> get_u8 (put_u32 m a v) b = get_u8 m b"
  "b + 2 \<le> a \<or> a + 4 \<le> b \<Longrightarrow> get_u16 (put_u32 m a v) b = get_u16 m b"
  "b + 4 \<le> a \<or> a + 4 \<le> b \<Longrightarrow> get_u32 (put_u32 m a v) b = get_u32 m b"
  "b + 8 \<le> a \<or> a + 4 \<le> b \<Longrightarrow> get_u64 (put_u32 m a v) b = get_u64 m b"
  unfolding get_peeks put_pokes by (subst peek_poke_disjoint; simp)+

lemma get_put_u64 [simp, mem_simps]:
  "b + 1 \<le> a \<or> a + 8 \<le> b \<Longrightarrow> get_u8 (put_u64 m a v) b = get_u8 m b"
  "b + 2 \<le> a \<or> a + 8 \<le> b \<Longrightarrow> get_u16 (put_u64 m a v) b = get_u16 m b"
  "b + 4 \<le> a \<or> a + 8 \<le> b \<Longrightarrow> get_u32 (put_u64 m a v) b = get_u32 m b"
  "b + 8 \<le> a \<or> a + 8 \<le> b \<Longrightarrow> get_u64 (put_u64 m a v) b = get_u64 m b"
  unfolding get_peeks put_pokes by (subst peek_poke_disjoint; simp)+

section \<open>Bulk copies: memcpy and memset\<close>

definition bytes_at :: "mem \<Rightarrow> nat \<Rightarrow> nat \<Rightarrow> byte list" where
  "bytes_at m a n = map (\<lambda>i. m (a + i)) [0..<n]"

definition blit :: "mem \<Rightarrow> nat \<Rightarrow> byte list \<Rightarrow> mem" where
  "blit m a bs = (\<lambda>i. if a \<le> i \<and> i < a + length bs then bs ! (i - a) else m i)"

definition fill :: "mem \<Rightarrow> nat \<Rightarrow> nat \<Rightarrow> byte \<Rightarrow> mem" where
  "fill m a n v = (\<lambda>i. if a \<le> i \<and> i < a + n then v else m i)"

lemma length_bytes_at [simp]: "length (bytes_at m a n) = n"
  by (simp add: bytes_at_def)

lemma nth_bytes_at [simp]: "i < n \<Longrightarrow> bytes_at m a n ! i = m (a + i)"
  by (simp add: bytes_at_def)

lemma bytes_at_cong: "(\<And>i. a \<le> i \<Longrightarrow> i < a + n \<Longrightarrow> m i = m' i) \<Longrightarrow> bytes_at m a n = bytes_at m' a n"
  by (simp add: bytes_at_def)

lemma bytes_at_blit_same [simp, mem_simps]: "n = length bs \<Longrightarrow> bytes_at (blit m a bs) a n = bs"
  by (rule nth_equalityI) (simp_all add: blit_def)

lemma bytes_at_blit_other [simp, mem_simps]:
  "b + n \<le> a \<or> a + length bs \<le> b \<Longrightarrow> bytes_at (blit m a bs) b n = bytes_at m b n"
  by (rule bytes_at_cong) (auto simp: blit_def)

lemma bytes_at_poke: "b + k \<le> a \<or> a + n \<le> b \<Longrightarrow> bytes_at (poke n m a v) b k = bytes_at m b k"
  by (rule bytes_at_cong) (auto simp: poke_other)

lemma bytes_at_put [simp, mem_simps]:
  "b + n \<le> a \<or> a + 1 \<le> b \<Longrightarrow> bytes_at (put_u8 m a v8) b n = bytes_at m b n"
  "b + n \<le> a \<or> a + 2 \<le> b \<Longrightarrow> bytes_at (put_u16 m a v16) b n = bytes_at m b n"
  "b + n \<le> a \<or> a + 4 \<le> b \<Longrightarrow> bytes_at (put_u32 m a v32) b n = bytes_at m b n"
  "b + n \<le> a \<or> a + 8 \<le> b \<Longrightarrow> bytes_at (put_u64 m a v64) b n = bytes_at m b n"
  unfolding put_pokes by (subst bytes_at_poke; simp)+

lemma peek_blit_other: "b + k \<le> a \<or> a + length bs \<le> b \<Longrightarrow> peek k (blit m a bs) b = peek k m b"
  by (rule peek_cong) (auto simp: blit_def)

lemma get_blit_other [simp, mem_simps]:
  "b + 1 \<le> a \<or> a + length bs \<le> b \<Longrightarrow> get_u8 (blit m a bs) b = get_u8 m b"
  "b + 2 \<le> a \<or> a + length bs \<le> b \<Longrightarrow> get_u16 (blit m a bs) b = get_u16 m b"
  "b + 4 \<le> a \<or> a + length bs \<le> b \<Longrightarrow> get_u32 (blit m a bs) b = get_u32 m b"
  "b + 8 \<le> a \<or> a + length bs \<le> b \<Longrightarrow> get_u64 (blit m a bs) b = get_u64 m b"
  unfolding get_peeks by (subst peek_blit_other; simp)+

lemma peek_shift: "(\<And>i. i < n \<Longrightarrow> m (a + i) = m' (b + i)) \<Longrightarrow> peek n m a = peek n m' b"
proof (induction n arbitrary: a b)
  case 0
  then show ?case by simp
next
  case (Suc n)
  have "m a = m' b" using Suc.prems [of 0] by simp
  moreover have "peek n m (Suc a) = peek n m' (Suc b)"
    using Suc.prems [of "Suc i" for i] by (intro Suc.IH) simp
  ultimately show ?case by simp
qed

lemma peek_blit_copy:
  "a \<le> b \<Longrightarrow> b + k \<le> a + n \<Longrightarrow> peek k (blit m a (bytes_at m' c n)) b = peek k m' (c + (b - a))"
  by (rule peek_shift) (auto simp: blit_def intro!: arg_cong [of _ _ m'])

lemma get_blit_copy [mem_simps]:
  "a \<le> b \<Longrightarrow> b + 1 \<le> a + n \<Longrightarrow> get_u8 (blit m a (bytes_at m' c n)) b = get_u8 m' (c + (b - a))"
  "a \<le> b \<Longrightarrow> b + 2 \<le> a + n \<Longrightarrow> get_u16 (blit m a (bytes_at m' c n)) b = get_u16 m' (c + (b - a))"
  "a \<le> b \<Longrightarrow> b + 4 \<le> a + n \<Longrightarrow> get_u32 (blit m a (bytes_at m' c n)) b = get_u32 m' (c + (b - a))"
  "a \<le> b \<Longrightarrow> b + 8 \<le> a + n \<Longrightarrow> get_u64 (blit m a (bytes_at m' c n)) b = get_u64 m' (c + (b - a))"
  unfolding get_peeks by (subst peek_blit_copy; simp)+

lemma peek_fill_zero: "a \<le> b \<Longrightarrow> b + k \<le> a + n \<Longrightarrow> peek k (fill m a n 0) b = 0"
  by (induction k arbitrary: b) (simp_all add: fill_def)

lemma get_fill_zero [simp, mem_simps]:
  "a \<le> b \<Longrightarrow> b + 1 \<le> a + n \<Longrightarrow> get_u8 (fill m a n 0) b = 0"
  "a \<le> b \<Longrightarrow> b + 2 \<le> a + n \<Longrightarrow> get_u16 (fill m a n 0) b = 0"
  "a \<le> b \<Longrightarrow> b + 4 \<le> a + n \<Longrightarrow> get_u32 (fill m a n 0) b = 0"
  "a \<le> b \<Longrightarrow> b + 8 \<le> a + n \<Longrightarrow> get_u64 (fill m a n 0) b = 0"
  unfolding get_peeks by (subst peek_fill_zero; simp)+

section \<open>Pages\<close>

abbreviation PAGE_SIZE :: nat where
  "PAGE_SIZE \<equiv> 4096"

text \<open>Nothing is stored past the end of the 4096-byte buffer.\<close>

definition page_wf :: "page \<Rightarrow> bool" where
  "page_wf p \<longleftrightarrow> (\<forall>i\<ge>PAGE_SIZE. p i = 0)"

lemma page_wf_poke: "page_wf p \<Longrightarrow> a + n \<le> PAGE_SIZE \<Longrightarrow> page_wf (poke n p a v)"
  by (simp add: page_wf_def poke_other)

lemma page_wf_put [wf_intros]:
  "page_wf p \<Longrightarrow> a + 1 \<le> PAGE_SIZE \<Longrightarrow> page_wf (put_u8 p a v8)"
  "page_wf p \<Longrightarrow> a + 2 \<le> PAGE_SIZE \<Longrightarrow> page_wf (put_u16 p a v16)"
  "page_wf p \<Longrightarrow> a + 4 \<le> PAGE_SIZE \<Longrightarrow> page_wf (put_u32 p a v32)"
  "page_wf p \<Longrightarrow> a + 8 \<le> PAGE_SIZE \<Longrightarrow> page_wf (put_u64 p a v64)"
  unfolding put_pokes by (rule page_wf_poke; simp)+

lemma page_wf_blit [wf_intros]: "page_wf p \<Longrightarrow> a + length bs \<le> PAGE_SIZE \<Longrightarrow> page_wf (blit p a bs)"
  by (simp add: page_wf_def blit_def)

lemma page_wf_fill [wf_intros]: "page_wf p \<Longrightarrow> a + n \<le> PAGE_SIZE \<Longrightarrow> page_wf (fill p a n v)"
  by (simp add: page_wf_def fill_def)

lemma page_wf_zero [simp, wf_intros]: "page_wf (\<lambda>_. 0)"
  by (simp add: page_wf_def)

lemma page_wf_ext: "page_wf p \<Longrightarrow> page_wf q \<Longrightarrow> (\<And>i. i < PAGE_SIZE \<Longrightarrow> p i = q i) \<Longrightarrow> p = q"
  by (rule ext) (metis page_wf_def not_le)

section \<open>List updates\<close>

lemma nth_list_update_at: "j < length xs \<Longrightarrow> xs[i := x] ! j = (if i = j then x else xs ! j)"
  by (cases "i = j") auto

section \<open>Searching by index\<close>

lemma find_index_takeWhile:
  "(case find (\<lambda>i. P (xs ! i)) [0..<length xs] of Some i \<Rightarrow> i | None \<Rightarrow> length xs) =
    length (takeWhile (\<lambda>x. \<not> P x) xs)"
proof (induction xs)
  case Nil
  then show ?case by simp
next
  case (Cons x xs)
  have "find (\<lambda>i. P ((x # xs) ! i)) [0..<length (x # xs)] =
    (if P x then Some 0 else map_option Suc (find (\<lambda>i. P (xs ! i)) [0..<length xs]))"
  proof -
    have "[0..<length (x # xs)] = 0 # map Suc [0..<length xs]"
      by (metis length_Cons list.simps(9) map_Suc_upt upt_conv_Cons zero_less_Suc)
    moreover have "find Q (map Suc ns) = map_option Suc (find (\<lambda>i. Q (Suc i)) ns)" for Q ns
      by (induction ns) auto
    ultimately show ?thesis by (simp del: upt_Suc)
  qed
  then show ?case using Cons by (simp split: option.splits)
qed

lemma find_index_some: "find P [0..<n] = Some i \<Longrightarrow> i < n \<and> P i \<and> (\<forall>j<i. \<not> P j)"
  by (auto simp: find_Some_iff)

lemma find_index_map_of:
  "map_option (\<lambda>i. snd (xs ! i)) (find (\<lambda>i. fst (xs ! i) = k) [0..<length xs]) = map_of xs k"
proof (cases "find (\<lambda>i. fst (xs ! i) = k) [0..<length xs]")
  case None
  then have "\<forall>i<length xs. fst (xs ! i) \<noteq> k" by (simp add: find_None_iff)
  then have "k \<notin> fst ` set xs" by (metis imageE in_set_conv_nth)
  then have "map_of xs k = None" by (simp add: map_of_eq_None_iff)
  then show ?thesis using None by simp
next
  case (Some i)
  have eq: "take i xs @ xs ! i # drop (Suc i) xs = xs"
    using find_index_some [OF Some] by (simp add: id_take_nth_drop [symmetric])
  have "k \<notin> fst ` set (take i xs)"
  proof -
    have "\<forall>j<length (take i xs). fst (take i xs ! j) \<noteq> k" using find_index_some [OF Some] by simp
    then show ?thesis by (metis imageE in_set_conv_nth)
  qed
  then have "map_of (take i xs) k = None" by (simp add: map_of_eq_None_iff)
  moreover have "map_of (xs ! i # drop (Suc i) xs) k = Some (snd (xs ! i))"
    using find_index_some [OF Some] by (cases "xs ! i") auto
  ultimately have "map_of (take i xs @ xs ! i # drop (Suc i) xs) k = Some (snd (xs ! i))"
    by (simp add: map_add_def)
  then show ?thesis unfolding eq using Some by simp
qed

section \<open>Pages that agree on a range\<close>

lemma get_cong:
  assumes "\<And>i. a \<le> i \<Longrightarrow> i < a + n \<Longrightarrow> m i = m' i"
  shows "1 \<le> n \<Longrightarrow> get_u8 m a = get_u8 m' a" "2 \<le> n \<Longrightarrow> get_u16 m a = get_u16 m' a"
    "4 \<le> n \<Longrightarrow> get_u32 m a = get_u32 m' a" "8 \<le> n \<Longrightarrow> get_u64 m a = get_u64 m' a"
  unfolding get_peeks by (rule arg_cong [where f = of_nat], rule peek_cong, rule assms; simp)+

end
