(* ===== verification/SlottedPage.thy ===== *)
theory SlottedPage
  imports Prelude
begin

unbundle bit_operations_syntax

text \<open>
  \<open>slotted_page.c\<close> and \<open>slotted_page.h\<close>: the 24-byte page header, the CRC32 checksum,
  tuple insertion and tuple lookup. A page that satisfies \<open>slotted_ok\<close> represents a list
  of tuples, \<open>tuples_of\<close>; insertion appends to that list.
\<close>

section \<open>Header and constants\<close>

datatype PageType = PAGE_TYPE_INVALID | PAGE_TYPE_ROW | PAGE_TYPE_FTS_POSTING
  | PAGE_TYPE_LENGTH_MAP | PAGE_TYPE_BTREE_LEAF | PAGE_TYPE_BTREE_INTERNAL
  | PAGE_TYPE_TOMBSTONE_BITSET | PAGE_TYPE_VECTOR_DATA

text \<open>The enumeration's values; 7 is the additional page type that \<open>unified_shard.h\<close>
  defines as a macro and casts to the enumeration.\<close>

fun page_type_code :: "PageType \<Rightarrow> u16" where
  "page_type_code PAGE_TYPE_INVALID = 0"
| "page_type_code PAGE_TYPE_ROW = 1"
| "page_type_code PAGE_TYPE_FTS_POSTING = 2"
| "page_type_code PAGE_TYPE_LENGTH_MAP = 3"
| "page_type_code PAGE_TYPE_BTREE_LEAF = 4"
| "page_type_code PAGE_TYPE_BTREE_INTERNAL = 5"
| "page_type_code PAGE_TYPE_TOMBSTONE_BITSET = 6"
| "page_type_code PAGE_TYPE_VECTOR_DATA = 7"

abbreviation hdr_lsn :: "page \<Rightarrow> u64" where "hdr_lsn p \<equiv> get_u64 p 0"
abbreviation hdr_page_id :: "page \<Rightarrow> u32" where "hdr_page_id p \<equiv> get_u32 p 8"
abbreviation hdr_checksum :: "page \<Rightarrow> u32" where "hdr_checksum p \<equiv> get_u32 p 12"
abbreviation hdr_page_type :: "page \<Rightarrow> u16" where "hdr_page_type p \<equiv> get_u16 p 16"
abbreviation hdr_lower :: "page \<Rightarrow> u16" where "hdr_lower p \<equiv> get_u16 p 18"
abbreviation hdr_upper :: "page \<Rightarrow> u16" where "hdr_upper p \<equiv> get_u16 p 20"
abbreviation hdr_slot_count :: "page \<Rightarrow> u16" where "hdr_slot_count p \<equiv> get_u16 p 22"

text \<open>Sizes of the packed C structs.\<close>

abbreviation (input) sizeof_PageHeader :: nat where "sizeof_PageHeader \<equiv> 24"
abbreviation (input) sizeof_Slot :: nat where "sizeof_Slot \<equiv> 4"

definition slot_offset :: "page \<Rightarrow> nat \<Rightarrow> u16" where
  "slot_offset p i = get_u16 p (sizeof_PageHeader + sizeof_Slot * i)"

definition slot_length :: "page \<Rightarrow> nat \<Rightarrow> u16" where
  "slot_length p i = get_u16 p (sizeof_PageHeader + sizeof_Slot * i + 2)"

section \<open>CRC32\<close>

fun crc32_bits :: "nat \<Rightarrow> u32 \<Rightarrow> u32" where
  "crc32_bits 0 r = r"
| "crc32_bits (Suc j) r =
     crc32_bits j ((if r AND 1 \<noteq> 0 then 0 else 0xEDB88320) XOR drop_bit 1 r)"

definition crc32_for_byte :: "u32 \<Rightarrow> u32" where
  "crc32_for_byte r = crc32_bits 8 r XOR 0xFF000000"

text \<open>The function-static table, filled on the first call.\<close>

definition crc32_table :: "u32 list" where
  "crc32_table = map (\<lambda>i. crc32_for_byte (of_nat i)) [0..<256]"

definition crc32_update :: "u32 \<Rightarrow> byte \<Rightarrow> u32" where
  "crc32_update crc b = crc32_table ! unat ((ucast crc :: byte) XOR b) XOR drop_bit 8 crc"

definition calculate_crc32 :: "byte list \<Rightarrow> u32" where
  "calculate_crc32 data = NOT (foldl crc32_update 0 data)"

section \<open>Page operations\<close>

definition slotted_page_init :: "page \<Rightarrow> u32 \<Rightarrow> PageType \<Rightarrow> page" where
  "slotted_page_init p page_id ty =
     (let p = fill p 0 PAGE_SIZE 0;
          p = put_u64 p 0 0;
          p = put_u32 p 8 page_id;
          p = put_u32 p 12 0;
          p = put_u16 p 16 (page_type_code ty);
          p = put_u16 p 22 0;
          p = put_u16 p 18 (of_nat sizeof_PageHeader)
      in put_u16 p 20 (of_nat PAGE_SIZE))"

definition slotted_page_compute_checksum :: "page \<Rightarrow> page" where
  "slotted_page_compute_checksum p =
     (let p = put_u32 p 12 0
      in put_u32 p 12 (calculate_crc32 (bytes_at p 0 PAGE_SIZE)))"

definition slotted_page_verify_checksum :: "page \<Rightarrow> bool" where
  "slotted_page_verify_checksum p =
     (let stored_checksum = hdr_checksum p;
          temp = blit (\<lambda>_. 0) 0 (bytes_at p 0 PAGE_SIZE);
          temp = put_u32 temp 12 0
      in calculate_crc32 (bytes_at temp 0 PAGE_SIZE) = stored_checksum)"

text \<open>The difference of the two 16-bit bounds is computed as \<open>int\<close> and converted to
  \<open>uint32_t\<close> by the comparison, so it wraps when the bounds are crossed.\<close>

definition slotted_page_insert_tuple :: "page \<Rightarrow> byte list \<Rightarrow> u16 \<Rightarrow> bool \<times> page" where
  "slotted_page_insert_tuple p tuple_data tuple_len =
     (let needed_space = (of_nat sizeof_Slot + ucast tuple_len :: u32) in
      if (ucast (hdr_upper p) - ucast (hdr_lower p) :: u32) < needed_space then (False, p)
      else
        let p = put_u16 p 20 (hdr_upper p - tuple_len);
            tuple_offset = hdr_upper p;
            p = blit p (unat tuple_offset) (take (unat tuple_len) tuple_data);
            slot = unat (hdr_lower p);
            p = put_u16 p slot tuple_offset;
            p = put_u16 p (slot + 2) tuple_len;
            p = put_u16 p 18 (hdr_lower p + of_nat sizeof_Slot);
            p = put_u16 p 22 (hdr_slot_count p + 1)
        in (True, p))"

text \<open>The returned pointer is the pair of the offset in the page and the length stored
  through \<open>out_len\<close>; \<open>None\<close> is \<open>NULL\<close>.\<close>

definition slotted_page_get_tuple :: "page \<Rightarrow> u16 \<Rightarrow> (nat \<times> u16) option" where
  "slotted_page_get_tuple p slot_idx =
     (if hdr_slot_count p \<le> slot_idx then None
      else Some (unat (slot_offset p (unat slot_idx)), slot_length p (unat slot_idx)))"

section \<open>The checksum is the complement of the IEEE 802.3 CRC-32\<close>

text \<open>Reference definition: the reflected polynomial, one bit at a time, register and
  result complemented.\<close>

definition ieee_step :: "u32 \<Rightarrow> u32" where
  "ieee_step q = (if q AND 1 \<noteq> 0 then 0xEDB88320 else 0) XOR drop_bit 1 q"

definition ieee_byte :: "u32 \<Rightarrow> byte \<Rightarrow> u32" where
  "ieee_byte s b = (ieee_step ^^ 8) (s XOR ucast b)"

definition ieee_crc32 :: "byte list \<Rightarrow> u32" where
  "ieee_crc32 bs = NOT (foldl ieee_byte 0xFFFFFFFF bs)"

lemma and_one_bit: "(q :: u32) AND 1 \<noteq> 0 \<longleftrightarrow> bit q 0"
  by (simp add: and_one_eq bit_0 odd_iff_mod_2_eq_one)

lemma ieee_step_xor: "ieee_step (a XOR b) = ieee_step a XOR ieee_step b"
  unfolding ieee_step_def and_one_bit
  by (intro bit_word_eqI) (auto simp: bit_simps)

lemma ieee_steps_xor: "(ieee_step ^^ n) (a XOR b) = (ieee_step ^^ n) a XOR (ieee_step ^^ n) b"
  by (induction n) (simp_all add: ieee_step_xor)

lemma ieee_steps_high:
  "(\<And>i. i < n \<Longrightarrow> \<not> bit q i) \<Longrightarrow> (ieee_step ^^ n) q = drop_bit n q"
proof (induction n arbitrary: q)
  case 0
  then show ?case by simp
next
  case (Suc n)
  have q: "ieee_step q = drop_bit 1 q"
    using Suc.prems [of 0] by (simp add: ieee_step_def and_one_bit)
  have "(ieee_step ^^ n) (drop_bit 1 q) = drop_bit n (drop_bit 1 q)"
    by (rule Suc.IH) (use Suc.prems in \<open>simp add: bit_simps\<close>)
  then show ?case by (simp add: funpow_Suc_right q del: funpow.simps)
qed

text \<open>The code's bit loop tests for a clear bit; run on the complement of the low \<open>n + k\<close>
  bits it tracks the reference loop.\<close>

lemma crc32_bits_ieee:
  "r XOR q = mask (n + k) \<Longrightarrow> n + k \<le> 32 \<Longrightarrow> crc32_bits n r XOR (ieee_step ^^ n) q = mask k"
proof (induction n arbitrary: r q)
  case 0
  then show ?case by simp
next
  case (Suc n)
  have b: "bit r 0 \<longleftrightarrow> \<not> bit q 0"
  proof -
    have "bit (r XOR q) 0" using Suc.prems by (simp add: bit_mask_iff)
    then show ?thesis by (auto simp: bit_simps)
  qed
  have m: "drop_bit 1 r XOR drop_bit 1 q = mask (n + k)"
  proof -
    have "drop_bit 1 r XOR drop_bit 1 q = drop_bit 1 (r XOR q)" by simp
    also have "\<dots> = mask (n + k)" using Suc.prems
      by (intro bit_word_eqI) (auto simp: bit_simps)
    finally show ?thesis .
  qed
  let ?r = "(if r AND 1 \<noteq> 0 then 0 else 0xEDB88320) XOR drop_bit 1 r"
  have "?r XOR ieee_step q = mask (n + k)"
    using b m by (auto simp: ieee_step_def and_one_bit simp flip: m intro!: bit_word_eqI simp: bit_simps)
  then have "crc32_bits n ?r XOR (ieee_step ^^ n) (ieee_step q) = mask k"
    using Suc.prems by (intro Suc.IH) simp_all
  then show ?case by (simp add: funpow_Suc_right del: funpow.simps)
qed

lemma crc32_for_byte_ieee:
  "crc32_for_byte (ucast (NOT x :: byte)) = (ieee_step ^^ 8) (ucast x) XOR 0xFF000000"
proof -
  have "(ucast (NOT x) :: u32) XOR ucast x = mask (8 + 0)"
    by (intro bit_word_eqI) (auto simp: bit_simps dest: bit_imp_le_length)
  then have "crc32_bits 8 (ucast (NOT x)) XOR (ieee_step ^^ 8) (ucast x) = mask 0"
    by (rule crc32_bits_ieee) simp
  then have "crc32_bits 8 (ucast (NOT x)) = (ieee_step ^^ 8) (ucast x)"
    by (metis bit.xor_left_self mask_0 xor.right_neutral)
  then show ?thesis by (simp add: crc32_for_byte_def)
qed

lemma crc32_table_nth: "crc32_table ! unat (x :: byte) = crc32_for_byte (ucast x)"
  by (simp add: crc32_table_def)

lemma bit_u32_high: "32 \<le> k \<Longrightarrow> \<not> bit (c :: u32) k"
  using bit_imp_le_length [of c k] by auto

lemma bit_u32_shift: "bit (c :: u32) (8 + n) \<Longrightarrow> n < 24"
  using bit_u32_high [of "8 + n" c] by (cases "n < 24") simp_all

lemma xor_cancel: "(a XOR k) XOR (b XOR k) = a XOR (b :: u32)"
  by (intro bit_word_eqI) (auto simp: bit_simps)

lemma ieee_byte_split:
  "ieee_byte c b = (ieee_step ^^ 8) (ucast (ucast c XOR b :: byte)) XOR drop_bit 8 c"
proof -
  have "c XOR ucast b = (ucast (ucast c XOR b :: byte) :: u32) XOR push_bit 8 (drop_bit 8 c)"
    by (intro bit_word_eqI) (auto simp: bit_simps dest: bit_u32_shift)
  moreover have "(ieee_step ^^ 8) (push_bit 8 (drop_bit 8 c)) = drop_bit 8 c"
    by (subst ieee_steps_high) (auto simp: bit_simps intro!: bit_word_eqI dest: bit_u32_shift)
  ultimately show ?thesis by (simp add: ieee_byte_def ieee_steps_xor del: funpow.simps)
qed

lemma bit_top_byte: "bit (0xFF000000 :: u32) i \<longleftrightarrow> 24 \<le> i \<and> i < 32"
proof -
  have "(0xFF000000 :: u32) = push_bit 24 (mask 8)"
    by (simp add: mask_eq_exp_minus_1 push_bit_eq_mult)
  then show ?thesis by (simp only: bit_push_bit_iff bit_mask_iff) auto
qed

lemma drop_bit_not:
  assumes K: "\<And>i. bit K i \<longleftrightarrow> 24 \<le> i \<and> i < 32"
  shows "drop_bit 8 (NOT c) = NOT (drop_bit 8 c) XOR (K :: u32)"
proof (intro bit_word_eqI)
  fix i assume "i < LENGTH(32)"
  then show "bit (drop_bit 8 (NOT c)) i = bit (NOT (drop_bit 8 c) XOR K) i"
    using bit_u32_high [of "8 + i" c]
    by (cases "i < 24") (simp_all add: bit_drop_bit_eq bit_not_iff bit_xor_iff K)
qed

lemma crc32_update_ieee: "crc32_update (NOT c) b = NOT (ieee_byte c b)"
proof -
  have n: "ucast (NOT c) XOR b = NOT (ucast c XOR b :: byte)"
    by (intro bit_word_eqI) (auto simp: bit_simps)
  have "drop_bit 8 (NOT c) = NOT (drop_bit 8 c) XOR 0xFF000000"
    by (rule drop_bit_not) (rule bit_top_byte)
  then have "crc32_update (NOT c) b =
      ((ieee_step ^^ 8) (ucast (ucast c XOR b :: byte)) XOR 0xFF000000) XOR
        (NOT (drop_bit 8 c) XOR 0xFF000000)"
    by (simp only: crc32_update_def n crc32_table_nth crc32_for_byte_ieee)
  also have "\<dots> = (ieee_step ^^ 8) (ucast (ucast c XOR b :: byte)) XOR NOT (drop_bit 8 c)"
    by (rule xor_cancel)
  finally show ?thesis by (simp only: ieee_byte_split bit.xor_compl_right)
qed

lemma foldl_crc32_ieee: "foldl crc32_update (NOT c) bs = NOT (foldl ieee_byte c bs)"
  by (induction bs arbitrary: c) (simp_all add: crc32_update_ieee)

lemma calculate_crc32_ieee: "calculate_crc32 data = NOT (ieee_crc32 data)"
  proof -
  have "NOT (0xFFFFFFFF :: u32) = 0" by simp
  then show ?thesis using foldl_crc32_ieee [of "0xFFFFFFFF" data]
    by (simp only: calculate_crc32_def ieee_crc32_def)
qed

section \<open>Error detection\<close>

lemma ieee_step_inj: "ieee_step a = ieee_step b \<Longrightarrow> a = b"
proof -
  assume e: "ieee_step a = ieee_step b"
  have top: "bit (ieee_step q) 31 \<longleftrightarrow> bit q 0" for q
    by (auto simp: ieee_step_def and_one_bit bit_simps dest: bit_imp_le_length [of q 32])
  have low: "bit a 0 = bit b 0" using e top by metis
  with e have "drop_bit 1 a = drop_bit 1 b"
    by (auto simp: ieee_step_def and_one_bit split: if_splits) (metis bit.xor_left_self)
  then have "bit a (Suc i) = bit b (Suc i)" for i
    by (metis bit_drop_bit_eq comp_apply plus_1_eq_Suc)
  with low show "a = b" by (metis bit_word_eqI not0_implies_Suc)
qed

lemma ieee_steps_inj: "(ieee_step ^^ n) a = (ieee_step ^^ n) b \<Longrightarrow> a = b"
  by (induction n) (auto dest: ieee_step_inj)

lemma ieee_byte_inj_state: "ieee_byte c x = ieee_byte d x \<Longrightarrow> c = d"
  unfolding ieee_byte_def by (drule ieee_steps_inj) (metis bit.xor_left_self xor.commute)

lemma ieee_byte_inj_byte: "ieee_byte c x = ieee_byte c y \<Longrightarrow> x = y"
proof -
  assume "ieee_byte c x = ieee_byte c y"
  then have "c XOR (ucast x :: u32) = c XOR ucast y"
    unfolding ieee_byte_def by (rule ieee_steps_inj)
  then have e: "(ucast x :: u32) = ucast y" by (metis bit.xor_left_self)
  have "unat (ucast z :: u32) = unat z" for z :: byte
    by (simp add: unsigned_ucast_eq take_bit_eq_mod order.strict_trans [OF unat_byte_less])
  with e show "x = y" by (metis word_unat_eq_iff)
qed

lemma foldl_ieee_inj: "foldl ieee_byte c bs = foldl ieee_byte d bs \<Longrightarrow> c = d"
  by (induction bs arbitrary: c d) (auto dest: ieee_byte_inj_state)

lemma crc32_single_byte:
  "calculate_crc32 (us @ x # vs) = calculate_crc32 (us @ y # vs) \<Longrightarrow> x = y"
  by (auto simp: calculate_crc32_ieee ieee_crc32_def dest!: foldl_ieee_inj dest: ieee_byte_inj_byte)

section \<open>Well-formed pages and their tuples\<close>

definition slotted_ok :: "page \<Rightarrow> bool" where
  "slotted_ok p \<longleftrightarrow> page_wf p \<and>
     unat (hdr_lower p) = sizeof_PageHeader + sizeof_Slot * unat (hdr_slot_count p) \<and>
     unat (hdr_lower p) \<le> unat (hdr_upper p) \<and> unat (hdr_upper p) \<le> PAGE_SIZE \<and>
     (\<forall>i < unat (hdr_slot_count p).
        unat (hdr_upper p) \<le> unat (slot_offset p i) \<and>
        unat (slot_offset p i) + unat (slot_length p i) \<le> PAGE_SIZE)"

definition tuple_at :: "page \<Rightarrow> nat \<Rightarrow> byte list" where
  "tuple_at p i = bytes_at p (unat (slot_offset p i)) (unat (slot_length p i))"

definition tuples_of :: "page \<Rightarrow> byte list list" where
  "tuples_of p = map (tuple_at p) [0..<unat (hdr_slot_count p)]"

definition free_space :: "page \<Rightarrow> nat" where
  "free_space p = unat (hdr_upper p) - unat (hdr_lower p)"

lemma length_tuples_of [simp]: "length (tuples_of p) = unat (hdr_slot_count p)"
  by (simp add: tuples_of_def)

lemma slotted_ok_wf: "slotted_ok p \<Longrightarrow> page_wf p"
  by (simp add: slotted_ok_def)

lemma page_wf_init_zero: "page_wf p \<Longrightarrow> page_wf (fill p 0 PAGE_SIZE v)"
  by (rule page_wf_fill) simp_all

lemma init_page_wf [wf_intros]: "page_wf p \<Longrightarrow> page_wf (slotted_page_init p pid ty)"
  unfolding slotted_page_init_def Let_def by (intro page_wf_put page_wf_init_zero) simp_all

lemma init_fields [simp, mem_simps]:
  "hdr_lsn (slotted_page_init p pid ty) = 0"
  "hdr_page_id (slotted_page_init p pid ty) = pid"
  "hdr_checksum (slotted_page_init p pid ty) = 0"
  "hdr_page_type (slotted_page_init p pid ty) = page_type_code ty"
  "hdr_lower (slotted_page_init p pid ty) = 24"
  "hdr_upper (slotted_page_init p pid ty) = 4096"
  "hdr_slot_count (slotted_page_init p pid ty) = 0"
  by (simp_all add: slotted_page_init_def)

lemma init_slotted_ok: "page_wf p \<Longrightarrow> slotted_ok (slotted_page_init p pid ty)"
  by (simp add: slotted_ok_def init_page_wf)

lemma init_tuples [simp]: "tuples_of (slotted_page_init p pid ty) = []"
  by (simp add: tuples_of_def)

text \<open>Initialisation forgets the buffer's previous contents.\<close>

lemma init_forgets: "page_wf p \<Longrightarrow> page_wf q \<Longrightarrow> slotted_page_init p pid ty = slotted_page_init q pid ty"
proof -
  assume "page_wf p" "page_wf q"
  then have "fill p 0 PAGE_SIZE 0 = fill q 0 PAGE_SIZE 0"
    by (auto simp: fill_def page_wf_def)
  then show ?thesis by (simp add: slotted_page_init_def)
qed

lemma u16_room:
  assumes "unat l \<le> unat u"
  shows "(ucast (u :: u16) - ucast (l :: u16) :: u32) < 4 + ucast (n :: u16)
    \<longleftrightarrow> unat u - unat l < 4 + unat n"
proof -
  have c: "unat (ucast w :: u32) = unat w" for w :: u16
    using unat_u16_less [of w] by (simp add: unsigned_ucast_eq take_bit_eq_mod)
  have a: "unat (ucast u - ucast l :: u32) = unat u - unat l"
    using assms by (simp add: unat_sub c word_le_nat_alt)
  have b: "unat (4 + ucast n :: u32) = 4 + unat n"
    using unat_u16_less [of n] by (simp add: unat_word_ariths c)
  show ?thesis by (simp only: word_less_nat_alt a b)
qed

lemma unat_u16_add: "unat (w :: u16) + k < 65536 \<Longrightarrow> unat (w + of_nat k) = unat w + k"
  by (simp add: unat_word_ariths unat_of_nat)

lemma unat_u16_sub: "unat (v :: u16) \<le> unat w \<Longrightarrow> unat (w - v) = unat w - unat v"
  by (simp add: unat_sub word_le_nat_alt)

lemma insert_full:
  "slotted_ok p \<Longrightarrow> free_space p < 4 + unat len \<Longrightarrow> slotted_page_insert_tuple p data len = (False, p)"
  by (simp add: slotted_page_insert_tuple_def slotted_ok_def free_space_def u16_room)

lemma insert_fits:
  assumes "slotted_ok p" "4 + unat len \<le> free_space p" "length data = unat len"
  defines "p1 \<equiv> put_u16 p 20 (hdr_upper p - len)"
  defines "p2 \<equiv> blit p1 (unat (hdr_upper p) - unat len) data"
  defines "p3 \<equiv> put_u16 p2 (unat (hdr_lower p)) (hdr_upper p - len)"
  defines "p4 \<equiv> put_u16 p3 (unat (hdr_lower p) + 2) len"
  shows "slotted_page_insert_tuple p data len =
    (True, put_u16 (put_u16 p4 18 (hdr_lower p + 4)) 22 (hdr_slot_count p + 1))"
proof -
  let ?U = "unat (hdr_upper p)" and ?L = "unat (hdr_lower p)"
  have ok: "24 \<le> ?L" "?L + 4 + unat len \<le> ?U" "?U \<le> 4096"
    using assms by (auto simp: slotted_ok_def free_space_def)
  have u: "unat (hdr_upper p - len) = ?U - unat len" using ok by (simp add: unat_u16_sub)
  have room: "\<not> (ucast (hdr_upper p) - ucast (hdr_lower p) :: u32) < 4 + ucast len"
    using ok by (subst u16_room) simp_all
  have f: "get_u16 p1 20 = hdr_upper p - len" "get_u16 p2 18 = hdr_lower p"
    "get_u16 p4 18 = hdr_lower p" "get_u16 p4 22 = hdr_slot_count p"
    using ok assms by (simp_all add: p1_def p2_def p3_def p4_def)
  have g: "get_u16 (put_u16 p4 18 w) 22 = hdr_slot_count p" for w using f by simp
  have d: "take (unat len) data = data" using assms by simp
  show ?thesis
    unfolding slotted_page_insert_tuple_def Let_def
    using room by (simp add: d u f [unfolded p1_def p2_def p3_def p4_def u]
        g [unfolded p1_def p2_def p3_def p4_def u] p1_def p2_def p3_def p4_def)
qed

text \<open>The header and the slots after a successful insertion.\<close>

lemma insert_result:
  assumes "slotted_ok p" "4 + unat len \<le> free_space p" "length data = unat len"
  obtains p' where "slotted_page_insert_tuple p data len = (True, p')"
    and "page_wf p'"
    and "hdr_lsn p' = hdr_lsn p" "hdr_page_id p' = hdr_page_id p"
    and "hdr_checksum p' = hdr_checksum p" "hdr_page_type p' = hdr_page_type p"
    and "hdr_slot_count p' = hdr_slot_count p + 1"
    and "hdr_lower p' = hdr_lower p + 4" "hdr_upper p' = hdr_upper p - len"
    and "\<And>i. i < unat (hdr_slot_count p) \<Longrightarrow> slot_offset p' i = slot_offset p i"
    and "\<And>i. i < unat (hdr_slot_count p) \<Longrightarrow> slot_length p' i = slot_length p i"
    and "slot_offset p' (unat (hdr_slot_count p)) = hdr_upper p - len"
    and "slot_length p' (unat (hdr_slot_count p)) = len"
    and "\<And>a n. unat (hdr_upper p) \<le> a \<Longrightarrow> bytes_at p' a n = bytes_at p a n"
    and "bytes_at p' (unat (hdr_upper p) - unat len) (unat len) = data"
proof -
  define p1 where "p1 = put_u16 p 20 (hdr_upper p - len)"
  define p2 where "p2 = blit p1 (unat (hdr_upper p) - unat len) data"
  define p3 where "p3 = put_u16 p2 (unat (hdr_lower p)) (hdr_upper p - len)"
  define p4 where "p4 = put_u16 p3 (unat (hdr_lower p) + 2) len"
  define p' where "p' = put_u16 (put_u16 p4 18 (hdr_lower p + 4)) 22 (hdr_slot_count p + 1)"
  note ps = p'_def p4_def p3_def p2_def p1_def
  have ok: "24 + 4 * unat (hdr_slot_count p) = unat (hdr_lower p)"
    "unat (hdr_lower p) + 4 + unat len \<le> unat (hdr_upper p)" "unat (hdr_upper p) \<le> 4096" "page_wf p"
    using assms(1,2) by (auto simp: slotted_ok_def free_space_def)
  show thesis
  proof (rule that [of p'])
    show "slotted_page_insert_tuple p data len = (True, p')"
      unfolding ps using assms by (rule insert_fits)
    show "page_wf p'" unfolding ps using ok assms(3)
      by (intro page_wf_put page_wf_blit) simp_all
  qed (use ok assms(3) in \<open>simp_all add: ps slot_offset_def slot_length_def\<close>)
qed

lemma insert_ok:
  assumes "slotted_ok p" "4 + unat len \<le> free_space p" "length data = unat len"
  shows "\<exists>p'. slotted_page_insert_tuple p data len = (True, p') \<and> slotted_ok p' \<and>
    tuples_of p' = tuples_of p @ [data] \<and> free_space p' = free_space p - (4 + unat len) \<and>
    hdr_page_type p' = hdr_page_type p \<and> hdr_page_id p' = hdr_page_id p \<and> hdr_lsn p' = hdr_lsn p"
proof -
  obtain p' where r: "slotted_page_insert_tuple p data len = (True, p')" "page_wf p'"
    "hdr_lsn p' = hdr_lsn p" "hdr_page_id p' = hdr_page_id p" "hdr_page_type p' = hdr_page_type p"
    and h: "hdr_slot_count p' = hdr_slot_count p + 1" "hdr_lower p' = hdr_lower p + 4"
      "hdr_upper p' = hdr_upper p - len"
    and s: "\<And>i. i < unat (hdr_slot_count p) \<Longrightarrow> slot_offset p' i = slot_offset p i"
      "\<And>i. i < unat (hdr_slot_count p) \<Longrightarrow> slot_length p' i = slot_length p i"
      "slot_offset p' (unat (hdr_slot_count p)) = hdr_upper p - len"
      "slot_length p' (unat (hdr_slot_count p)) = len"
    and b: "\<And>a n. unat (hdr_upper p) \<le> a \<Longrightarrow> bytes_at p' a n = bytes_at p a n"
      "bytes_at p' (unat (hdr_upper p) - unat len) (unat len) = data"
    using assms by (rule insert_result) blast
  let ?n = "unat (hdr_slot_count p)"
  have ok: "24 + 4 * ?n = unat (hdr_lower p)" "unat (hdr_lower p) + 4 + unat len \<le> unat (hdr_upper p)"
    "unat (hdr_upper p) \<le> 4096"
    "\<And>i. i < ?n \<Longrightarrow> unat (hdr_upper p) \<le> unat (slot_offset p i) \<and>
        unat (slot_offset p i) + unat (slot_length p i) \<le> 4096"
    using assms(1,2) by (auto simp: slotted_ok_def free_space_def)
  have u: "unat (hdr_slot_count p + 1) = ?n + 1" "unat (hdr_lower p + 4) = unat (hdr_lower p) + 4"
    "unat (hdr_upper p - len) = unat (hdr_upper p) - unat len"
    using ok unat_u16_add [of "hdr_slot_count p" 1] unat_u16_add [of "hdr_lower p" 4]
    by (simp_all add: unat_u16_sub)
  have t: "tuple_at p' i = tuple_at p i" if "i < ?n" for i
    using s b(1) ok(4) that by (simp add: tuple_at_def)
  have tn: "tuple_at p' ?n = data" by (simp add: tuple_at_def s u b)
  have "tuples_of p' = tuples_of p @ [data]"
    by (simp add: tuples_of_def h u t tn)
  moreover have "slotted_ok p'"
    unfolding slotted_ok_def h u using r(2) ok s
    by (auto simp: less_Suc_eq u intro: order_trans [of _ "unat (hdr_upper p)"])
  ultimately show ?thesis using r ok by (simp add: free_space_def h u)
qed

lemma get_tuple_ok:
  assumes "slotted_ok p" "i < hdr_slot_count p"
  shows "\<exists>off len. slotted_page_get_tuple p i = Some (off, len) \<and> off + unat len \<le> PAGE_SIZE \<and>
    bytes_at p off (unat len) = tuples_of p ! unat i"
  using assms
  by (auto simp: slotted_page_get_tuple_def slotted_ok_def tuples_of_def tuple_at_def word_less_nat_alt
      word_le_nat_alt)

lemma get_tuple_none: "slotted_page_get_tuple p i = None \<longleftrightarrow> hdr_slot_count p \<le> i"
  by (simp add: slotted_page_get_tuple_def)

section \<open>Checksum verification\<close>

text \<open>What the checksum is computed over: the page with its checksum field zeroed.\<close>

definition checksum_image :: "page \<Rightarrow> byte list" where
  "checksum_image p = bytes_at (put_u32 p 12 0) 0 PAGE_SIZE"

lemma image_put_checksum [simp]: "checksum_image (put_u32 p 12 w) = checksum_image p"
  unfolding checksum_image_def by (rule bytes_at_cong) (simp add: put_u32_def poke_at)

lemma compute_checksum_eq:
  "slotted_page_compute_checksum p = put_u32 p 12 (calculate_crc32 (checksum_image p))"
  unfolding slotted_page_compute_checksum_def Let_def checksum_image_def [symmetric]
  by (rule ext) (simp add: put_u32_def poke_at)

lemma verify_checksum_eq:
  "slotted_page_verify_checksum p \<longleftrightarrow> calculate_crc32 (checksum_image p) = hdr_checksum p"
proof -
  have "bytes_at (put_u32 (blit (\<lambda>_. 0) 0 (bytes_at p 0 PAGE_SIZE)) 12 0) 0 PAGE_SIZE =
      checksum_image p"
    unfolding checksum_image_def
    by (rule bytes_at_cong) (simp add: put_u32_def poke_at blit_def del: upt_conv_Cons)
  then show ?thesis by (simp only: slotted_page_verify_checksum_def Let_def)
qed

lemma image_upd:
  assumes "a < PAGE_SIZE" "\<not> (12 \<le> a \<and> a < 16)"
  obtains us vs where "\<And>v. checksum_image (p(a := v)) = us @ v # vs"
proof -
  let ?xs = "checksum_image p"
  have "checksum_image (p(a := v)) = take a ?xs @ v # drop (Suc a) ?xs" for v
  proof -
    have "checksum_image (p(a := v)) = ?xs[a := v]"
      unfolding checksum_image_def using assms
      by (intro nth_equalityI) (auto simp: nth_list_update put_u32_def poke_at)
    then show ?thesis using assms by (simp add: upd_conv_take_nth_drop checksum_image_def)
  qed
  then show thesis by (rule that)
qed

lemma checksum_field_upd: "12 \<le> a \<Longrightarrow> a < 16 \<Longrightarrow> hdr_checksum (p(a := v)) = hdr_checksum p \<Longrightarrow> v = p a"
proof -
  assume a: "12 \<le> a" "a < 16" and e: "hdr_checksum (p(a := v)) = hdr_checksum p"
  have "peek 4 (p(a := v)) 12 = peek 4 p 12"
    using arg_cong [OF e, of unat] peek_less [of 4 p 12] peek_less [of 4 "p(a := v)" 12]
    by (simp add: get_u32_def unat_of_nat)
  then have "poke 4 p 12 (peek 4 (p(a := v)) 12) a = poke 4 p 12 (peek 4 p 12) a" by simp
  moreover have "poke 4 p 12 (peek 4 (p(a := v)) 12) a = v" 
    using a fun_cong [OF poke_peek_same [of 4 "p(a := v)" 12], of a] by (simp add: poke_at)
  ultimately show "v = p a" by (simp add: poke_peek_same)
qed

section \<open>Properties\<close>

text \<open>C37: calculate_crc32, whose table is filled by a shifted bit loop, computes the bitwise
  complement of the IEEE 802.3 CRC-32 of its input, whatever the input is.\<close>

theorem crc32_is_complemented_ieee: "calculate_crc32 data = NOT (ieee_crc32 data)"
  by (rule calculate_crc32_ieee)

text \<open>C21: A page stamped by slotted_page_compute_checksum verifies, and changing any one byte
  of its 4096 bytes (the stored checksum included) to another value makes
  slotted_page_verify_checksum fail.\<close>

theorem stamped_page_detects_byte_error:
  assumes "a < PAGE_SIZE"
  shows "slotted_page_verify_checksum ((slotted_page_compute_checksum p)(a := v)) \<longleftrightarrow>
    v = slotted_page_compute_checksum p a"
proof -
  let ?q = "slotted_page_compute_checksum p"
  have ok: "calculate_crc32 (checksum_image ?q) = hdr_checksum ?q"
    by (simp add: compute_checksum_eq)
  have "v = ?q a" if "slotted_page_verify_checksum (?q(a := v))"
  proof (cases "12 \<le> a \<and> a < 16")
    case True
    then have "checksum_image (?q(a := v)) = checksum_image ?q"
      unfolding checksum_image_def by (intro bytes_at_cong) (auto simp: put_u32_def poke_at)
    then show ?thesis using that True ok by (auto simp: verify_checksum_eq intro!: checksum_field_upd)
  next
    case False
    obtain us vs where i: "\<And>v. checksum_image (?q(a := v)) = us @ v # vs"
      using assms False by (rule image_upd) blast
    have "hdr_checksum (?q(a := v)) = hdr_checksum ?q" using False by (intro get_cong) auto
    then have "calculate_crc32 (us @ v # vs) = calculate_crc32 (us @ ?q a # vs)"
      using that ok i [of v] i [of "?q a"] by (simp add: verify_checksum_eq)
    then show ?thesis by (rule crc32_single_byte)
  qed
  then show ?thesis using ok by (auto simp: verify_checksum_eq)
qed

theorem stamped_page_detects_byte_error_witness:
  "slotted_page_verify_checksum ((slotted_page_compute_checksum (\<lambda>_. 7))(100 := 7)) \<longleftrightarrow>
    7 = slotted_page_compute_checksum (\<lambda>_. 7) 100"
  by (rule stamped_page_detects_byte_error) simp

text \<open>C23: On a well-formed slotted page slotted_page_insert_tuple returns false and leaves the
  page alone exactly when the tuple and its 4-byte slot do not fit between the slot array and
  the tuples; otherwise it appends the tuple to the page's list of tuples, keeps the earlier
  ones, the page type and the page id, and keeps the page well-formed.\<close>

theorem insert_tuple_appends:
  assumes "slotted_ok p" "length data = unat len"
  shows "case slotted_page_insert_tuple p data len of
      (False, p') \<Rightarrow> free_space p < 4 + unat len \<and> p' = p
    | (True, p') \<Rightarrow> 4 + unat len \<le> free_space p \<and> slotted_ok p' \<and> tuples_of p' = tuples_of p @ [data] \<and>
        free_space p' = free_space p - (4 + unat len) \<and>
        hdr_page_type p' = hdr_page_type p \<and> hdr_page_id p' = hdr_page_id p"
proof (cases "free_space p < 4 + unat len")
  case True
  then show ?thesis using assms by (simp add: insert_full)
next
  case False
  then show ?thesis using insert_ok [of p len data] assms by auto
qed

theorem insert_tuple_appends_witness:
  "\<exists>p'. slotted_page_insert_tuple (slotted_page_init (\<lambda>_. 0) 3 PAGE_TYPE_ROW) [7, 8] 2 = (True, p') \<and>
    slotted_ok p' \<and> tuples_of p' = [[7, 8]] \<and> free_space p' = 4066"
  using insert_tuple_appends [of "slotted_page_init (\<lambda>_. 0) 3 PAGE_TYPE_ROW" "[7, 8]" 2]
  by (auto simp: init_slotted_ok free_space_def split: prod.splits bool.splits)

text \<open>The tuples of a list that a page takes: each one for which there is still room.\<close>

fun fitting :: "nat \<Rightarrow> byte list list \<Rightarrow> byte list list" where
  "fitting room [] = []"
| "fitting room (t # ts) =
     (if 4 + length t \<le> room then t # fitting (room - (4 + length t)) ts else fitting room ts)"

definition insert_tuples :: "byte list list \<Rightarrow> page \<Rightarrow> page" where
  "insert_tuples = fold (\<lambda>t p. snd (slotted_page_insert_tuple p t (of_nat (length t))))"

lemma insert_tuples_fitting:
  assumes "slotted_ok p" "\<forall>t \<in> set ts. length t < 2 ^ 16"
  shows "slotted_ok (insert_tuples ts p) \<and> tuples_of (insert_tuples ts p) = tuples_of p @ fitting (free_space p) ts"
  using assms
proof (induction ts arbitrary: p)
  case Nil
  then show ?case by (simp add: insert_tuples_def)
next
  case (Cons t ts)
  have len: "unat (of_nat (length t) :: u16) = length t" using Cons.prems(2) by (simp add: unat_of_nat take_bit_nat_eq_self)
  have step: "insert_tuples (t # ts) p = insert_tuples ts (snd (slotted_page_insert_tuple p t (of_nat (length t))))"
    by (simp add: insert_tuples_def)
  show ?case
  proof (cases "4 + length t \<le> free_space p")
    case True
    then show ?thesis
      using insert_ok [OF Cons.prems(1), of "of_nat (length t)" t] len Cons.IH Cons.prems(2) by (fastforce simp: step)
  next
    case False
    then show ?thesis
      using insert_full [OF Cons.prems(1), of "of_nat (length t)" t] len Cons.IH [OF Cons.prems(1)] Cons.prems(2)
      by (simp add: step)
  qed
qed

text \<open>C24: Whatever tuples are inserted one after the other into a page that slotted_page_init has
  prepared, slotted_page_get_tuple gives back exactly those for which there was still room, under
  consecutive slot numbers and byte for byte, however many were inserted or refused in between.
  The pointer and length it returns lie inside the page; every other index yields NULL.\<close>

theorem inserted_tuples_are_returned:
  assumes "page_wf buf" "\<forall>t \<in> set ts. length t < 2 ^ 16"
  shows "let kept = fitting (PAGE_SIZE - 24) ts in
    case slotted_page_get_tuple (insert_tuples ts (slotted_page_init buf pid ty)) i of
      None \<Rightarrow> length kept \<le> unat i
    | Some (off, len) \<Rightarrow> unat i < length kept \<and> off + unat len \<le> PAGE_SIZE \<and>
        bytes_at (insert_tuples ts (slotted_page_init buf pid ty)) off (unat len) = kept ! unat i"
proof -
  let ?p = "insert_tuples ts (slotted_page_init buf pid ty)"
  have room: "free_space (slotted_page_init buf pid ty) = PAGE_SIZE - 24" by (simp add: free_space_def)
  have p: "slotted_ok ?p" "tuples_of ?p = fitting (PAGE_SIZE - 24) ts"
    using insert_tuples_fitting [OF init_slotted_ok [OF assms(1)] assms(2), of pid ty] room by simp_all
  have n: "length (tuples_of ?p) = unat (hdr_slot_count ?p)" by (simp add: tuples_of_def)
  show ?thesis
    using get_tuple_none [of ?p i] get_tuple_ok [OF p(1), of i] p(2) n
    by (cases "hdr_slot_count ?p \<le> i") (auto simp: word_le_nat_alt word_less_nat_alt)
qed

theorem inserted_tuples_are_returned_witness:
  "let p = insert_tuples [[7, 8], replicate 4080 1, [9]] (slotted_page_init (\<lambda>_. 0) 3 PAGE_TYPE_ROW) in
    \<exists>off. slotted_page_get_tuple p 1 = Some (off, 1) \<and> off < PAGE_SIZE \<and> bytes_at p off 1 = [9]"
proof -
  let ?ts = "[[7, 8], replicate 4080 1, [9]] :: byte list list"
  have kept: "fitting (PAGE_SIZE - 24) ?ts = [[7, 8], [9]]" by simp
  have "case slotted_page_get_tuple (insert_tuples ?ts (slotted_page_init (\<lambda>_. 0) 3 PAGE_TYPE_ROW)) 1 of
      None \<Rightarrow> length [[7, 8], [9 :: byte]] \<le> unat (1 :: u16)
    | Some (off, len) \<Rightarrow> unat (1 :: u16) < length [[7, 8], [9 :: byte]] \<and> off + unat len \<le> PAGE_SIZE \<and>
        bytes_at (insert_tuples ?ts (slotted_page_init (\<lambda>_. 0) 3 PAGE_TYPE_ROW)) off (unat len) = [[7, 8], [9]] ! unat (1 :: u16)"
    using inserted_tuples_are_returned [of "\<lambda>_. 0" ?ts, where pid = 3 and ty = PAGE_TYPE_ROW and i = 1] unfolding kept Let_def by (simp add: page_wf_def)
  then obtain off len where g: "slotted_page_get_tuple (insert_tuples ?ts (slotted_page_init (\<lambda>_. 0) 3 PAGE_TYPE_ROW)) 1 = Some (off, len)"
    "off + unat len \<le> PAGE_SIZE" "bytes_at (insert_tuples ?ts (slotted_page_init (\<lambda>_. 0) 3 PAGE_TYPE_ROW)) off (unat len) = [9]"
    by (auto split: option.splits)
  have "unat len = 1" using arg_cong [OF g(3), of length] by simp
  then have "len = 1" by (simp add: word_unat_eq_iff)
  then show ?thesis unfolding Let_def using g by auto
qed

end
