(* ===== verification/Vfs.thy ===== *)
theory Vfs
  imports SlottedPage
begin

text \<open>
  \<open>fts_vfs.c\<close> and \<open>fts_vfs.h\<close>: positional reads and writes of the shard's data file and
  batched writes. The file and the kernel's behaviour on the next requests are one state,
  \<open>datafile\<close>: a request can complete, transfer fewer bytes, or fail, as the plan says;
  an empty plan means that every request completes.

  The portable backend over \<open>pread\<close> and \<open>pwrite\<close> is the one the buffer pool is
  composed with. The io_uring backend, whose library is not part of the repository, takes
  that library's operations as a parameter; it is modelled in \<open>Uring\<close> and not composed with
  the pool.
\<close>

section \<open>Files\<close>

datatype io_outcome = IO_full | IO_short nat | IO_error

record datafile =
  df_bytes :: mem
  df_size :: nat
  df_plan :: "io_outcome list"

definition next_outcome :: "io_outcome list \<Rightarrow> io_outcome" where
  "next_outcome plan = (case plan of [] \<Rightarrow> IO_full | x # _ \<Rightarrow> x)"

definition transferred :: "io_outcome \<Rightarrow> nat \<Rightarrow> int" where
  "transferred out n = (case out of IO_full \<Rightarrow> int n | IO_short k \<Rightarrow> int (min k n) | IO_error \<Rightarrow> - 1)"

definition os_pread :: "int \<Rightarrow> mem \<Rightarrow> nat \<Rightarrow> nat \<Rightarrow> datafile \<Rightarrow> int \<times> mem \<times> datafile" where
  "os_pread fd buf cnt off d =
     (if fd < 0 then (- 1, buf, d)
      else let res = transferred (next_outcome (df_plan d)) (min cnt (df_size d - off))
        in (res, blit buf 0 (bytes_at (df_bytes d) off (nat res)), d\<lparr>df_plan := tl (df_plan d)\<rparr>))"

definition os_pwrite :: "int \<Rightarrow> mem \<Rightarrow> nat \<Rightarrow> nat \<Rightarrow> datafile \<Rightarrow> int \<times> datafile" where
  "os_pwrite fd buf cnt off d =
     (if fd < 0 then (- 1, d)
      else let res = transferred (next_outcome (df_plan d)) cnt
        in (res, d\<lparr>df_bytes := blit (df_bytes d) off (bytes_at buf 0 (nat res)),
                  df_size := (if res \<le> 0 then df_size d else max (df_size d) (off + nat res)),
                  df_plan := tl (df_plan d)\<rparr>))"

definition df_ok :: "datafile \<Rightarrow> bool" where
  "df_ok d \<longleftrightarrow> (\<forall>i\<ge>df_size d. df_bytes d i = 0)"

lemma transferred_le: "transferred out n \<le> int n"
  by (simp add: transferred_def split: io_outcome.split)

lemma pwrite_ok: "df_ok d \<Longrightarrow> df_ok (snd (os_pwrite fd buf cnt off d))"
  by (auto simp: os_pwrite_def df_ok_def Let_def blit_def)

lemma pread_file: "df_bytes (snd (snd (os_pread fd buf cnt off d))) = df_bytes d"
  "df_size (snd (snd (os_pread fd buf cnt off d))) = df_size d"
  by (simp_all add: os_pread_def Let_def)

section \<open>The portable backend\<close>

record vfs_ctx =
  vc_batch :: "(nat \<times> int) list"   \<comment> \<open>\<open>batch_user_data\<close> and \<open>batch_results\<close>, \<open>batch_count\<close> of them\<close>
  vc_initialized :: bool

abbreviation (input) MAX_BATCH_EVENTS :: nat where "MAX_BATCH_EVENTS \<equiv> 1024"

definition fts_vfs_init :: "vfs_ctx \<Rightarrow> u32 \<Rightarrow> int \<times> vfs_ctx" where
  "fts_vfs_init ctx queue_size = (0, ctx\<lparr>vc_initialized := True\<rparr>)"

definition fts_vfs_destroy :: "vfs_ctx \<Rightarrow> vfs_ctx" where
  "fts_vfs_destroy ctx = ctx\<lparr>vc_initialized := False\<rparr>"

definition fts_vfs_read_sync :: "int \<Rightarrow> mem \<Rightarrow> nat \<Rightarrow> nat \<Rightarrow> datafile \<Rightarrow> int \<times> mem \<times> datafile" where
  "fts_vfs_read_sync fd buf cnt off d = os_pread fd buf cnt off d"

definition fts_vfs_write_sync :: "int \<Rightarrow> mem \<Rightarrow> nat \<Rightarrow> nat \<Rightarrow> datafile \<Rightarrow> int \<times> datafile" where
  "fts_vfs_write_sync fd buf cnt off d = os_pwrite fd buf cnt off d"

definition fts_vfs_batch_begin :: "vfs_ctx \<Rightarrow> vfs_ctx" where
  "fts_vfs_batch_begin ctx = ctx\<lparr>vc_batch := []\<rparr>"

definition fts_vfs_batch_add_write ::
  "vfs_ctx \<Rightarrow> int \<Rightarrow> mem \<Rightarrow> nat \<Rightarrow> nat \<Rightarrow> nat \<Rightarrow> datafile \<Rightarrow> int \<times> vfs_ctx \<times> datafile" where
  "fts_vfs_batch_add_write ctx fd buf cnt off user_data d =
     (let (res, d') = os_pwrite fd buf cnt off d;
          code = (if 0 \<le> res then 0 else - 1);
          ctx' = (if length (vc_batch ctx) < MAX_BATCH_EVENTS
                  then ctx\<lparr>vc_batch := vc_batch ctx @ [(user_data, code)]\<rparr> else ctx)
      in (code, ctx', d'))"

text \<open>The completed user data, in order; the C function returns their number.\<close>

definition fts_vfs_batch_submit_and_wait :: "vfs_ctx \<Rightarrow> nat \<Rightarrow> nat list" where
  "fts_vfs_batch_submit_and_wait ctx max_events =
     take max_events (map fst (filter (\<lambda>(u, r). 0 \<le> r) (vc_batch ctx)))"

section \<open>Requests that complete\<close>

lemma pwrite_full:
  "0 \<le> fd \<Longrightarrow> df_plan d = [] \<Longrightarrow> 0 < cnt \<Longrightarrow> os_pwrite fd buf cnt off d =
    (int cnt, d\<lparr>df_bytes := blit (df_bytes d) off (bytes_at buf 0 cnt),
                  df_size := max (df_size d) (off + cnt)\<rparr>)"
  by (simp add: os_pwrite_def next_outcome_def transferred_def)

lemma pread_full:
  "0 \<le> fd \<Longrightarrow> df_plan d = [] \<Longrightarrow> os_pread fd buf cnt off d =
    (int (min cnt (df_size d - off)),
     blit buf 0 (bytes_at (df_bytes d) off (min cnt (df_size d - off))), d)"
  by (simp add: os_pread_def next_outcome_def transferred_def)

end
