(* ===== verification/Wal.thy ===== *)
theory Wal
  imports Vfs
begin

text \<open>
  \<open>wal.c\<close> and \<open>wal.h\<close>: the append-only write-ahead log. The log file is the list of
  its bytes; \<open>wal_synced\<close> is the length that \<open>fdatasync\<close> has made durable. The plan
  of request outcomes is as in \<open>Vfs\<close>.
\<close>

section \<open>State and records\<close>

datatype WALRecordType = WAL_REC_INSERT | WAL_REC_UPDATE | WAL_REC_COMMIT | WAL_REC_ABORT
  | WAL_BTREE_SPLIT | WAL_FTS_TOMBSTONE | WAL_FTS_DELTA_INSERT

fun wal_type_code :: "WALRecordType \<Rightarrow> u8" where
  "wal_type_code WAL_REC_INSERT = 1"
| "wal_type_code WAL_REC_UPDATE = 2"
| "wal_type_code WAL_REC_COMMIT = 3"
| "wal_type_code WAL_REC_ABORT = 4"
| "wal_type_code WAL_BTREE_SPLIT = 5"
| "wal_type_code WAL_FTS_TOMBSTONE = 6"
| "wal_type_code WAL_FTS_DELTA_INSERT = 7"

record WALHeader =
  wh_lsn :: u64
  wh_txn_id :: u32
  wh_record_type :: u8
  wh_page_id :: u32
  wh_slot_id :: u16
  wh_payload_len :: u32

abbreviation (input) sizeof_WALHeader :: nat where "sizeof_WALHeader \<equiv> 23"

text \<open>The packed struct in memory, and back.\<close>

definition wal_header_mem :: "WALHeader \<Rightarrow> mem" where
  "wal_header_mem h =
     (let m = put_u64 (\<lambda>_. 0) 0 (wh_lsn h);
          m = put_u32 m 8 (wh_txn_id h);
          m = put_u8 m 12 (wh_record_type h);
          m = put_u32 m 13 (wh_page_id h);
          m = put_u16 m 17 (wh_slot_id h)
      in put_u32 m 19 (wh_payload_len h))"

definition wal_header_of :: "mem \<Rightarrow> WALHeader" where
  "wal_header_of m =
     \<lparr>wh_lsn = get_u64 m 0, wh_txn_id = get_u32 m 8, wh_record_type = get_u8 m 12,
      wh_page_id = get_u32 m 13, wh_slot_id = get_u16 m 17, wh_payload_len = get_u32 m 19\<rparr>"

record WALManager =
  wal_fd :: int
  wal_filepath :: string
  wal_current_lsn :: u64
  wal_file :: "byte list"
  wal_synced :: nat
  wal_plan :: "io_outcome list"

section \<open>System calls on the log\<close>

definition os_append :: "WALManager \<Rightarrow> byte list \<Rightarrow> int \<times> WALManager" where
  "os_append w bs =
     (if wal_fd w < 0 then (- 1, w)
      else let res = transferred (next_outcome (wal_plan w)) (length bs)
        in (res, w\<lparr>wal_file := wal_file w @ take (nat res) bs, wal_plan := tl (wal_plan w)\<rparr>))"

definition os_fdatasync :: "WALManager \<Rightarrow> int \<times> WALManager" where
  "os_fdatasync w =
     (let w' = w\<lparr>wal_plan := tl (wal_plan w)\<rparr> in
      if next_outcome (wal_plan w) = IO_full then (0, w'\<lparr>wal_synced := length (wal_file w)\<rparr>)
      else (- 1, w'))"

definition os_read :: "WALManager \<Rightarrow> nat \<Rightarrow> nat \<Rightarrow> int \<times> byte list \<times> WALManager" where
  "os_read w pos cnt =
     (let res = transferred (next_outcome (wal_plan w)) (min cnt (length (wal_file w) - pos))
      in (res, take (nat res) (drop pos (wal_file w)), w\<lparr>wal_plan := tl (wal_plan w)\<rparr>))"

section \<open>Operations\<close>

text \<open>\<open>contents\<close> is what the file at \<open>filepath\<close> holds, \<open>opened\<close> the descriptor or a
  negative number, \<open>plan\<close> the outcome of later requests.\<close>

definition wal_init :: "string \<Rightarrow> byte list \<Rightarrow> int \<Rightarrow> io_outcome list \<Rightarrow> int \<times> WALManager" where
  "wal_init filepath contents opened plan =
     (let w = \<lparr>wal_fd = opened, wal_filepath = take 255 filepath, wal_current_lsn = 0,
               wal_file = contents, wal_synced = length contents, wal_plan = plan\<rparr>
      in if opened < 0 then (- 1, w)
         else (0, w\<lparr>wal_current_lsn := of_nat (length contents)\<rparr>))"

definition wal_append_record ::
  "WALManager \<Rightarrow> u32 \<Rightarrow> WALRecordType \<Rightarrow> u32 \<Rightarrow> u16 \<Rightarrow> byte list option \<Rightarrow> u32 \<Rightarrow> u64 \<times> WALManager" where
  "wal_append_record w txn_id rec_type page_id slot_id payload payload_len =
     (let hdr = \<lparr>wh_lsn = wal_current_lsn w + 1, wh_txn_id = txn_id,
                 wh_record_type = wal_type_code rec_type, wh_page_id = page_id,
                 wh_slot_id = slot_id, wh_payload_len = payload_len\<rparr>;
          (n, w1) = os_append w (bytes_at (wal_header_mem hdr) 0 sizeof_WALHeader)
      in if n \<noteq> int sizeof_WALHeader then (0, w1)
         else case payload of
             Some bytes \<Rightarrow>
               if 0 < payload_len then
                 (let (k, w2) = os_append w1 (take (unat payload_len) bytes)
                  in if k \<noteq> int (unat payload_len) then (0, w2)
                     else (wh_lsn hdr, w2\<lparr>wal_current_lsn := wh_lsn hdr\<rparr>))
               else (wh_lsn hdr, w1\<lparr>wal_current_lsn := wh_lsn hdr\<rparr>)
           | None \<Rightarrow> (wh_lsn hdr, w1\<lparr>wal_current_lsn := wh_lsn hdr\<rparr>))"

definition wal_flush :: "WALManager \<Rightarrow> int \<times> WALManager" where
  "wal_flush w = (if 0 \<le> wal_fd w then os_fdatasync w else (- 1, w))"

text \<open>The replay loop from file position \<open>pos\<close>. \<open>junk\<close> is the indeterminate content of
  the header variable before the read; a short read of the header overwrites a part of it.
  The callback's effect is a function on a state \<open>'s\<close>; \<open>None\<close> is a null callback.\<close>

lemma os_read_file [simp]: "wal_file (snd (snd (os_read w pos n))) = wal_file w"
  by (simp add: os_read_def Let_def)

lemma os_read_bound: "fst (os_read w pos n) \<le> int (length (wal_file w) - pos)"
  using transferred_le [of _ "min n (length (wal_file w) - pos)"]
  by (simp add: os_read_def Let_def) (meson dual_order.trans min.cobounded2 of_nat_mono)

lemma os_readD:
  "(n, x) = os_read w pos c \<Longrightarrow> (data, w1) = x \<Longrightarrow> wal_file w1 = wal_file w \<and> n \<le> int (length (wal_file w) - pos)"
  using os_read_file [of w pos c] os_read_bound [of w pos c] by (metis fst_conv snd_conv)

function wal_replay_loop ::
  "mem \<Rightarrow> (WALHeader \<Rightarrow> byte list option \<Rightarrow> 's \<Rightarrow> 's) option \<Rightarrow> WALManager \<Rightarrow> nat \<Rightarrow> nat \<Rightarrow> 's
    \<Rightarrow> nat \<times> 's \<times> WALManager" where
  "wal_replay_loop junk apply_cb w pos replayed s =
     (let (n, data, w1) = os_read w pos sizeof_WALHeader in
      if n \<le> 0 then (replayed, s, w1)
      else
        let hdr = wal_header_of (blit junk 0 data); plen = unat (wh_payload_len hdr);
            pos1 = pos + nat n in
        if 0 < plen then
          (let (k, bytes, w2) = os_read w1 pos1 plen in
           if k \<noteq> int plen then (replayed, s, w2)
           else wal_replay_loop junk apply_cb w2 (pos1 + plen) (Suc replayed)
                  (case apply_cb of None \<Rightarrow> s | Some f \<Rightarrow> f hdr (Some bytes) s))
        else wal_replay_loop junk apply_cb w1 pos1 (Suc replayed)
               (case apply_cb of None \<Rightarrow> s | Some f \<Rightarrow> f hdr None s))"
  by pat_completeness auto
termination
proof (relation "measure (\<lambda>(junk, cb, w, pos, replayed, s). length (wal_file w) - pos)", goal_cases)
  case 1
  then show ?case by simp
next
  case (2 junk apply_cb w pos replayed s x n xa data w1 hdr plen pos1 xb k xc bytes w2)
  then have "(n, xa) = os_read w pos 23" "(k, xc) = os_read w1 pos1 plen" by simp_all
  then have "wal_file w1 = wal_file w \<and> n \<le> int (length (wal_file w) - pos)"
    "wal_file w2 = wal_file w1 \<and> k \<le> int (length (wal_file w1) - pos1)"
    using 2 by (metis os_readD)+
  then show ?case using 2 by auto
next
  case (3 junk apply_cb w pos replayed s x n xa data w1 hdr plen pos1)
  then have "(n, xa) = os_read w pos 23" by simp
  then have "wal_file w1 = wal_file w \<and> n \<le> int (length (wal_file w) - pos)"
    using 3 by (metis os_readD)
  then show ?case using 3 by auto
qed

declare wal_replay_loop.simps [simp del]

definition wal_replay_recovery ::
  "mem \<Rightarrow> (WALHeader \<Rightarrow> byte list option \<Rightarrow> 's \<Rightarrow> 's) option \<Rightarrow> WALManager \<Rightarrow> 's
    \<Rightarrow> int \<times> 's \<times> WALManager" where
  "wal_replay_recovery junk apply_cb w s =
     (if wal_fd w < 0 then (- 1, s, w)
      else let (n, s', w') = wal_replay_loop junk apply_cb w 0 0 s in (int n, s', w'))"

definition wal_close :: "WALManager \<Rightarrow> WALManager" where
  "wal_close w = (if 0 \<le> wal_fd w then (snd (wal_flush w))\<lparr>wal_fd := - 1\<rparr> else w)"

section \<open>The header codec\<close>

text \<open>A fixed-width struct that is written and read as one block.\<close>

locale fixed_codec =
  fixes enc :: "'a \<Rightarrow> byte list" and dec :: "mem \<Rightarrow> 'a" and width :: nat
  assumes enc_length: "length (enc x) = width"
    and dec_enc: "dec (blit m 0 (enc x)) = x"
begin

lemma dec_prefix: "take width bs = enc x \<Longrightarrow> dec (blit m 0 (take width bs)) = x"
  by (simp add: dec_enc)

lemma enc_inj: "enc x = enc y \<Longrightarrow> x = y"
  by (metis dec_enc)

lemma enc_append: "take width (enc x @ rest) = enc x" "drop width (enc x @ rest) = rest"
  by (simp_all add: enc_length)

end

definition wal_header_bytes :: "WALHeader \<Rightarrow> byte list" where
  "wal_header_bytes h = bytes_at (wal_header_mem h) 0 sizeof_WALHeader"

interpretation wal_header: fixed_codec wal_header_bytes wal_header_of 23
  by unfold_locales
    (simp_all add: wal_header_bytes_def wal_header_of_def get_blit_copy, simp add: wal_header_mem_def)

section \<open>Appending\<close>

definition record_header :: "u64 \<Rightarrow> u32 \<Rightarrow> WALRecordType \<Rightarrow> u32 \<Rightarrow> u16 \<Rightarrow> u32 \<Rightarrow> WALHeader" where
  "record_header lsn txn ty page slot plen =
     \<lparr>wh_lsn = lsn, wh_txn_id = txn, wh_record_type = wal_type_code ty, wh_page_id = page,
      wh_slot_id = slot, wh_payload_len = plen\<rparr>"

text \<open>What one record looks like in the file, and what a replay of it delivers.\<close>

definition record_bytes :: "WALHeader \<times> byte list option \<Rightarrow> byte list" where
  "record_bytes r = wal_header_bytes (fst r) @ (case snd r of None \<Rightarrow> [] | Some bs \<Rightarrow> bs)"

definition record_ok :: "WALHeader \<times> byte list option \<Rightarrow> bool" where
  "record_ok r \<longleftrightarrow> (case snd r of None \<Rightarrow> wh_payload_len (fst r) = 0
     | Some bs \<Rightarrow> 0 < length bs \<and> unat (wh_payload_len (fst r)) = length bs)"

text \<open>The payload of a call, normalised: no payload bytes and no payload are the same.\<close>

definition payload_of :: "byte list option \<Rightarrow> u32 \<Rightarrow> byte list option" where
  "payload_of payload plen = (if plen = 0 then None else map_option (take (unat plen)) payload)"

definition payload_ok :: "byte list option \<Rightarrow> u32 \<Rightarrow> bool" where
  "payload_ok payload plen \<longleftrightarrow> (case payload of None \<Rightarrow> plen = 0 | Some bs \<Rightarrow> unat plen \<le> length bs)"

lemma append_success:
  fixes txn page :: u32 and slot :: u16 and ty :: WALRecordType
  assumes "0 \<le> wal_fd w" "wal_plan w = []" "payload_ok payload plen"
  defines "h \<equiv> record_header (wal_current_lsn w + 1) txn ty page slot plen"
  shows "wal_append_record w txn ty page slot payload plen =
    (wal_current_lsn w + 1,
     w\<lparr>wal_file := wal_file w @ record_bytes (h, payload_of payload plen),
       wal_current_lsn := wal_current_lsn w + 1\<rparr>)"
proof -
  have z: "0 < plen \<longleftrightarrow> plen \<noteq> 0" by (simp add: word_neq_0_conv)
  show ?thesis
    using assms
    by (cases payload)
      (auto simp: wal_append_record_def os_append_def next_outcome_def transferred_def Let_def
        record_bytes_def payload_of_def payload_ok_def record_header_def wal_header_bytes_def z
        min_absorb2)
qed

lemma record_ok_append:
  "payload_ok payload plen \<Longrightarrow>
    record_ok (record_header lsn txn ty page slot plen, payload_of payload plen)"
  by (cases payload)
    (auto simp: record_ok_def payload_ok_def payload_of_def record_header_def min_absorb2
      unat_gt_0 word_neq_0_conv)

section \<open>Replay\<close>

lemma os_read_full:
  "wal_plan w = [] \<Longrightarrow> os_read w pos n =
    (int (min n (length (wal_file w) - pos)), take n (drop pos (wal_file w)), w)"
  by (simp add: os_read_def next_outcome_def transferred_def min_def)

definition deliver :: "(WALHeader \<Rightarrow> byte list option \<Rightarrow> 's \<Rightarrow> 's) option \<Rightarrow> WALHeader \<times> byte list option \<Rightarrow> 's \<Rightarrow> 's" where
  "deliver cb r s = (case cb of None \<Rightarrow> s | Some f \<Rightarrow> f (fst r) (snd r) s)"

lemma replay_eof:
  "wal_plan w = [] \<Longrightarrow> length (wal_file w) \<le> pos \<Longrightarrow> wal_replay_loop junk cb w pos n s = (n, s, w)"
  by (subst wal_replay_loop.simps) (simp add: os_read_full)

lemma replay_record:
  assumes "wal_plan w = []" "record_ok r"
    and f: "drop pos (wal_file w) = record_bytes r @ rest"
  shows "wal_replay_loop junk cb w pos n s =
    wal_replay_loop junk cb w (pos + length (record_bytes r)) (Suc n) (deliver cb r s)"
proof -
  let ?h = "fst r"
  have len: "length (wal_file w) - pos = length (record_bytes r @ rest)"
    using f by (metis length_drop)
  have hl: "length (wal_header_bytes ?h) = 23" by (rule wal_header.enc_length)
  have t: "take 23 (drop pos (wal_file w)) = wal_header_bytes ?h"
    using hl by (simp add: f record_bytes_def)
  have r1: "os_read w pos 23 = (23, wal_header_bytes ?h, w)"
    using assms(1) hl len by (simp add: os_read_full t record_bytes_def)
  have dec: "wal_header_of (blit junk 0 (wal_header_bytes ?h)) = ?h" by (rule wal_header.dec_enc)
  show ?thesis
  proof (cases "snd r")
    case None
    then have "wh_payload_len ?h = 0" "length (record_bytes r) = 23"
      using assms(2) hl by (simp_all add: record_ok_def record_bytes_def)
    then show ?thesis using None
      by (subst wal_replay_loop.simps) (cases cb; simp add: r1 dec deliver_def)
  next
    case (Some bs)
    then have p: "unat (wh_payload_len ?h) = length bs" "0 < length bs"
      and rb: "record_bytes r = wal_header_bytes ?h @ bs"
      using assms(2) by (simp_all add: record_ok_def record_bytes_def)
    have d2: "drop (pos + 23) (wal_file w) = bs @ rest"
    proof -
      have "drop (pos + 23) (wal_file w) = drop 23 (drop pos (wal_file w))"
        by (simp add: add.commute)
      then show ?thesis using hl by (simp add: f rb)
    qed
    have "length (wal_file w) - (pos + 23) = length bs + length rest"
      using len hl by (simp add: rb)
    then have r2: "os_read w (pos + 23) (length bs) = (int (length bs), bs, w)"
      using assms(1) by (simp add: os_read_full d2)
    show ?thesis using Some p hl
      by (subst wal_replay_loop.simps) (cases cb; simp add: r1 dec r2 rb deliver_def add.assoc)
  qed
qed

lemma replay_records:
  assumes "wal_plan w = []" "\<forall>r \<in> set rs. record_ok r"
    and "drop pos (wal_file w) = concat (map record_bytes rs) @ rest"
  shows "wal_replay_loop junk cb w pos n s =
    wal_replay_loop junk cb w (pos + length (concat (map record_bytes rs))) (n + length rs)
      (fold (deliver cb) rs s)"
  using assms(2,3)
proof (induction rs arbitrary: pos n s)
  case Nil
  then show ?case by simp
next
  case (Cons r rs)
  let ?p = "pos + length (record_bytes r)"
  have "drop ?p (wal_file w) = drop (length (record_bytes r)) (drop pos (wal_file w))"
    by (simp add: add.commute)
  then have d: "drop ?p (wal_file w) = concat (map record_bytes rs) @ rest"
    using Cons.prems by simp
  have "wal_replay_loop junk cb w pos n s = wal_replay_loop junk cb w ?p (Suc n) (deliver cb r s)"
    using assms(1) Cons.prems by (intro replay_record) auto
  also have "\<dots> = wal_replay_loop junk cb w (?p + length (concat (map record_bytes rs)))
      (Suc n + length rs) (fold (deliver cb) rs (deliver cb r s))"
    using Cons.prems d by (intro Cons.IH) simp_all
  finally show ?case by (simp add: add.assoc)
qed

text \<open>A log whose last record lost a part of its payload: the complete records are
  delivered and the torn one is not.\<close>

lemma replay_torn:
  assumes "wal_plan w = []" "record_ok (h, Some bs)" "k < length bs"
    and "drop pos (wal_file w) = wal_header_bytes h @ take k bs"
  shows "wal_replay_loop junk cb w pos n s = (n, s, w)"
proof -
  have hl: "length (wal_header_bytes h) = 23" by (rule wal_header.enc_length)
  have len: "length (wal_file w) - pos = 23 + k"
    using assms(3,4) hl by (metis length_append length_drop length_take less_or_eq_imp_le min.absorb2)
  have r1: "os_read w pos 23 = (23, wal_header_bytes h, w)"
    using assms(1,4) hl len by (simp add: os_read_full)
  have "length (wal_file w) - (pos + 23) = k" using len by simp
  then have r2: "fst (os_read w (pos + 23) (length bs)) = int k"
    using assms(1,3) by (simp add: os_read_full)
  have p: "unat (wh_payload_len h) = length bs" using assms(2) by (simp add: record_ok_def)
  obtain d w' where d: "os_read w (pos + 23) (length bs) = (int k, d, w')"
    using r2 by (metis prod.collapse)
  moreover have "w' = w" using d assms(1) by (simp add: os_read_full)
  ultimately show ?thesis using assms(3) p
    by (subst wal_replay_loop.simps) (auto simp: r1 wal_header.dec_enc Let_def)
qed

section \<open>Logging a sequence of records\<close>

record wal_call =
  call_txn :: u32
  call_type :: WALRecordType
  call_page :: u32
  call_slot :: u16
  call_payload :: "byte list option"
  call_len :: u32

fun wal_run :: "WALManager \<Rightarrow> wal_call list \<Rightarrow> WALManager" where
  "wal_run w [] = w"
| "wal_run w (c # cs) = wal_run (snd (wal_append_record w (call_txn c) (call_type c) (call_page c)
      (call_slot c) (call_payload c) (call_len c))) cs"

abbreviation call_ok :: "wal_call \<Rightarrow> bool" where
  "call_ok c \<equiv> payload_ok (call_payload c) (call_len c)"

text \<open>The records that a sequence of calls stands for, numbered from the log's LSN.\<close>

definition call_record :: "u64 \<Rightarrow> wal_call \<Rightarrow> WALHeader \<times> byte list option" where
  "call_record lsn c =
     (record_header (lsn + 1) (call_txn c) (call_type c) (call_page c) (call_slot c) (call_len c),
      payload_of (call_payload c) (call_len c))"

fun call_records :: "u64 \<Rightarrow> wal_call list \<Rightarrow> (WALHeader \<times> byte list option) list" where
  "call_records lsn [] = []"
| "call_records lsn (c # cs) = call_record lsn c # call_records (lsn + 1) cs"

lemma call_records_ok:
  "\<forall>c \<in> set cs. call_ok c \<Longrightarrow> \<forall>r \<in> set (call_records lsn cs). record_ok r"
  by (induction cs arbitrary: lsn) (auto simp: call_record_def intro: record_ok_append)

lemma length_call_records [simp]: "length (call_records lsn cs) = length cs"
  by (induction cs arbitrary: lsn) simp_all

lemma call_records_append:
  "call_records lsn (cs @ [c]) = call_records lsn cs @ [call_record (lsn + of_nat (length cs)) c]"
  by (induction cs arbitrary: lsn) (simp_all add: algebra_simps)

lemma wal_run_eq:
  assumes "0 \<le> wal_fd w" "wal_plan w = []" "\<forall>c \<in> set cs. call_ok c"
  shows "wal_run w cs = w\<lparr>wal_file := wal_file w @ concat (map record_bytes (call_records (wal_current_lsn w) cs)),
    wal_current_lsn := wal_current_lsn w + of_nat (length cs)\<rparr>"
  using assms
proof (induction cs arbitrary: w)
  case Nil
  then show ?case by simp
next
  case (Cons c cs)
  let ?w = "w\<lparr>wal_file := wal_file w @ record_bytes (call_record (wal_current_lsn w) c),
       wal_current_lsn := wal_current_lsn w + 1\<rparr>"
  have "wal_run w (c # cs) = wal_run ?w cs"
    using Cons.prems by (simp add: append_success call_record_def)
  also have "\<dots> = ?w\<lparr>wal_file := wal_file ?w @ concat (map record_bytes (call_records (wal_current_lsn ?w) cs)),
      wal_current_lsn := wal_current_lsn ?w + of_nat (length cs)\<rparr>"
    using Cons.prems by (intro Cons.IH) simp_all
  finally show ?case by (simp add: algebra_simps)
qed

text \<open>A log of complete records followed by a strict part of one record's payload.\<close>

lemma replay_torn_log:
  assumes "wal_plan w = []" "\<forall>r \<in> set rs. record_ok r" "record_ok (h, Some bs)" "k < length bs"
    and "wal_file w = concat (map record_bytes rs) @ wal_header_bytes h @ take k bs"
  shows "wal_replay_loop junk cb w 0 0 s = (length rs, fold (deliver cb) rs s, w)"
proof -
  have "wal_replay_loop junk cb w 0 0 s =
      wal_replay_loop junk cb w (0 + length (concat (map record_bytes rs))) (0 + length rs)
        (fold (deliver cb) rs s)"
    using assms by (intro replay_records) auto
  also have "\<dots> = (length rs, fold (deliver cb) rs s, w)"
    using assms by (subst replay_torn [where h = h and bs = bs and k = k]) simp_all
  finally show ?thesis .
qed

section \<open>Properties\<close>

text \<open>C13: A log that starts empty and receives any sequence of wal_append_record calls whose
  payload pointer and length agree is replayed by wal_replay_recovery as exactly those records,
  each once and in order, with consecutive LSNs from 1, its header fields and its payload; the
  function returns their number and never reads past the last record.\<close>

theorem replay_returns_appended_records:
  assumes "fd \<ge> 0" "\<forall>c \<in> set cs. call_ok c"
  shows "(let w = wal_run (snd (wal_init path [] fd [])) cs
    in wal_replay_recovery junk cb w s = (int (length cs), fold (deliver cb) (call_records 0 cs) s, w))"
proof -
  let ?w = "wal_run (snd (wal_init path [] fd [])) cs"
  have w: "?w = (snd (wal_init path [] fd []))\<lparr>
      wal_file := concat (map record_bytes (call_records 0 cs)), wal_current_lsn := of_nat (length cs)\<rparr>"
    using assms by (subst wal_run_eq) (simp_all add: wal_init_def)
  have p: "wal_plan ?w = []" "0 \<le> wal_fd ?w" "wal_file ?w = concat (map record_bytes (call_records 0 cs))"
    using assms by (simp_all add: w, simp_all add: wal_init_def)
  have "wal_replay_loop junk cb ?w 0 0 s =
      wal_replay_loop junk cb ?w (0 + length (wal_file ?w)) (0 + length (call_records 0 cs))
        (fold (deliver cb) (call_records 0 cs) s)"
    unfolding p(3) using assms p by (intro replay_records) (auto simp: call_records_ok)
  also have "\<dots> = (length cs, fold (deliver cb) (call_records 0 cs) s, ?w)"
    using p by (subst replay_eof) simp_all
  finally show ?thesis using p by (simp add: wal_replay_recovery_def Let_def)
qed

text \<open>Two calls for the concrete instances below.\<close>

definition sample_calls :: "wal_call list" where
  "sample_calls =
     [\<lparr>call_txn = 1, call_type = WAL_REC_INSERT, call_page = 5, call_slot = 0,
       call_payload = Some [1, 2, 3], call_len = 3\<rparr>,
      \<lparr>call_txn = 1, call_type = WAL_REC_COMMIT, call_page = 0, call_slot = 0,
       call_payload = None, call_len = 0\<rparr>]"

theorem replay_returns_appended_records_witness:
  "(let w = wal_run (snd (wal_init ''w.log'' [] 3 [])) sample_calls
    in wal_replay_recovery (\<lambda>_. 0) (Some (\<lambda>h bs lsns. lsns @ [wh_lsn h])) w [] = (2, [1, 2], w))"
  using replay_returns_appended_records [of 3 sample_calls "''w.log''" "\<lambda>_. 0"
      "Some (\<lambda>h bs lsns. lsns @ [wh_lsn h])" "[]"]
  by (simp add: sample_calls_def payload_ok_def Let_def deliver_def call_record_def record_header_def
      del: wal_run.simps)

text \<open>C27: If the process dies while the last record's payload is being written, so that the log
  ends in that record's header and a strict part of its payload, wal_replay_recovery delivers
  every earlier record and not the torn one.\<close>

theorem replay_drops_torn_payload:
  assumes "fd \<ge> 0" "\<forall>c \<in> set cs. call_ok c" "call_payload c = Some bs" "0 < length bs"
    and "unat (call_len c) = length bs" "k < length bs"
  shows "(let w = wal_run (snd (wal_init path [] fd [])) (cs @ [c]);
              torn = w\<lparr>wal_file := take (length (wal_file w) - (length bs - k)) (wal_file w)\<rparr>
    in wal_replay_recovery junk cb torn s =
        (int (length cs), fold (deliver cb) (call_records 0 cs) s, torn))"
proof -
  define h where "h = fst (call_record (of_nat (length cs)) c)"
  have c: "call_ok c" using assms by (simp add: payload_ok_def)
  have r: "call_record (of_nat (length cs)) c = (h, Some bs)"
    using assms by (auto simp: h_def call_record_def payload_of_def)
  have ok: "record_ok (h, Some bs)" using assms by (simp add: record_ok_def h_def call_record_def record_header_def)
  define w where "w = wal_run (snd (wal_init path [] fd [])) (cs @ [c])"
  have w: "w = (snd (wal_init path [] fd []))\<lparr>
      wal_file := concat (map record_bytes (call_records 0 (cs @ [c]))),
      wal_current_lsn := of_nat (length (cs @ [c]))\<rparr>"
    unfolding w_def using assms c by (subst wal_run_eq) (simp_all add: wal_init_def)
  define torn where "torn = w\<lparr>wal_file := take (length (wal_file w) - (length bs - k)) (wal_file w)\<rparr>"
  have f: "wal_file torn = concat (map record_bytes (call_records 0 cs)) @ wal_header_bytes h @ take k bs"
    using assms(6) by (simp add: torn_def w call_records_append r record_bytes_def)
  have "wal_replay_loop junk cb torn 0 0 s = (length (call_records 0 cs), fold (deliver cb) (call_records 0 cs) s, torn)"
    using assms ok f by (intro replay_torn_log) (auto simp: call_records_ok torn_def w wal_init_def)
  moreover have "\<not> wal_fd w < 0" using assms by (simp add: w wal_init_def)
  ultimately show ?thesis
    by (simp add: wal_replay_recovery_def Let_def w_def [symmetric] torn_def [symmetric])
qed

theorem replay_drops_torn_payload_witness:
  "(let w = wal_run (snd (wal_init ''w.log'' [] 3 [])) ([last sample_calls] @ [hd sample_calls]);
        torn = w\<lparr>wal_file := take (length (wal_file w) - (length [1, 2, 3 :: byte] - 1)) (wal_file w)\<rparr>
    in wal_replay_recovery (\<lambda>_. 0) (Some (\<lambda>h bs lsns. lsns @ [wh_lsn h])) torn [] = (1, [1], torn))"
proof -
  let ?cb = "Some (\<lambda>h bs lsns. lsns @ [wh_lsn h])"
  have r: "fold (deliver ?cb) (call_records 0 [last sample_calls]) [] = [1]"
    "int (length [last sample_calls]) = 1"
    by (simp_all add: sample_calls_def deliver_def call_record_def record_header_def)
  show ?thesis
    by (rule replay_drops_torn_payload [where cs = "[last sample_calls]" and c = "hd sample_calls" and s = "[]"
          and bs = "[1, 2, 3]" and k = 1 and cb = ?cb, unfolded r])
      (simp_all add: sample_calls_def payload_ok_def)
qed

end
