(* ===== verification/PageCache.thy ===== *)
theory PageCache
  imports Prelude
begin

text \<open>
  The contract between a page cache and its clients. A client fetches a page, reads or
  replaces its bytes through the handle, and releases it with a dirty flag; new pages are
  zeroed on the file before they are fetched.

  \<open>st N X ps P c\<close> says that the cache \<open>c\<close> is in a sound state: \<open>N\<close> pages are allocated,
  \<open>P\<close> gives their contents, \<open>ps\<close> lists the pages pinned now, with repetitions, and \<open>X\<close> the
  pages that were modified and not yet released as dirty. The buffer pool promises these
  laws for at most \<open>room\<close> simultaneous pins; the B-tree and the inverted index are proved
  from the laws alone.
\<close>

locale page_cache =
  fixes fetch :: "'c \<Rightarrow> u32 \<Rightarrow> 'f option \<times> 'c"
    and zero :: "'c \<Rightarrow> u32 \<Rightarrow> 'c"
    and unpin :: "'c \<Rightarrow> u32 \<Rightarrow> bool \<Rightarrow> 'h \<Rightarrow> 'c"
    and frame :: "'c \<Rightarrow> 'f \<Rightarrow> page"
    and update :: "'f \<Rightarrow> page \<Rightarrow> 'c \<Rightarrow> 'c"
    and loc :: "'c \<Rightarrow> u32 \<Rightarrow> 'f option"
    and st :: "nat \<Rightarrow> u32 set \<Rightarrow> u32 list \<Rightarrow> (u32 \<Rightarrow> page) \<Rightarrow> 'c \<Rightarrow> bool"
    and room :: nat
  assumes fetch_st: "st N X ps P c \<Longrightarrow> length ps < room \<Longrightarrow> pid \<noteq> - 1 \<Longrightarrow>
      \<exists>f c'. fetch c pid = (Some f, c') \<and> st N X (pid # ps) P c' \<and> loc c' pid = Some f \<and>
        (\<forall>q \<in> set ps. loc c' q = loc c q)"
    and frame_st: "st N X ps P c \<Longrightarrow> pid \<in> set ps \<Longrightarrow> loc c pid = Some f \<Longrightarrow> frame c f = P pid"
    and update_st: "st N X ps P c \<Longrightarrow> pid \<in> set ps \<Longrightarrow> loc c pid = Some f \<Longrightarrow> page_wf p \<Longrightarrow>
      st N (insert pid X) ps (P(pid := p)) (update f p c) \<and> loc (update f p c) = loc c"
    and unpin_dirty_st: "st N X ps P c \<Longrightarrow> pid \<in> set ps \<Longrightarrow> unat pid < N \<Longrightarrow>
      st N (X - {pid}) (remove1 pid ps) P (unpin c pid True h) \<and> loc (unpin c pid True h) = loc c"
    and unpin_clean_st: "st N X ps P c \<Longrightarrow> pid \<in> set ps \<Longrightarrow> pid \<notin> X \<Longrightarrow>
      st N X (remove1 pid ps) P (unpin c pid False h) \<and> loc (unpin c pid False h) = loc c"
    and alloc_st: "st N X ps P c \<Longrightarrow> length ps < room \<Longrightarrow> unat pid = N \<Longrightarrow> pid \<notin> set ps \<Longrightarrow>
      N + 1 < 2 ^ 32 \<Longrightarrow>
      \<exists>f c' p. fetch (zero c pid) pid = (Some f, c') \<and> page_wf p \<and>
        st (N + 1) (insert pid X) (pid # ps) (P(pid := p)) c' \<and> loc c' pid = Some f \<and>
        (\<forall>q \<in> set ps. loc c' q = loc c q)"
    and page_st: "st N X ps P c \<Longrightarrow> page_wf (P pid)"
    and room: "2 \<le> room"
begin

text \<open>Reading a page: fetch it, look at its bytes, release it clean.\<close>

lemma read_page:
  assumes "st N {} ps P c" "length ps < room" "pid \<noteq> - 1"
  obtains f c' where "fetch c pid = (Some f, c')" "frame c' f = P pid"
    "\<And>h. st N {} ps P (unpin c' pid False h)"
proof -
  obtain f c' where f: "fetch c pid = (Some f, c')" "st N {} (pid # ps) P c'" "loc c' pid = Some f"
    using fetch_st [OF assms] by blast
  show ?thesis
    using that [OF f(1)] frame_st [OF f(2) _ f(3)] unpin_clean_st [OF f(2), of pid] by simp
qed

text \<open>Rewriting a page: fetch it, replace its bytes, release it dirty.\<close>

lemma write_page:
  assumes "st N {} ps P c" "length ps < room" "pid \<noteq> - 1" "unat pid < N"
  obtains f c' where "fetch c pid = (Some f, c')" "frame c' f = P pid"
    "\<And>h p. page_wf p \<Longrightarrow> st N {} ps (P(pid := p)) (unpin (update f p c') pid True h)"
proof -
  obtain f c' where f: "fetch c pid = (Some f, c')" "st N {} (pid # ps) P c'" "loc c' pid = Some f"
    using fetch_st [OF assms(1-3)] by blast
  have "st N {} ps (P(pid := p)) (unpin (update f p c') pid True h)" if "page_wf p" for h p
    using unpin_dirty_st [of N "{pid}" "pid # ps" "P(pid := p)" "update f p c'" pid h]
      update_st [OF f(2) _ f(3) that] assms(4) by simp
  then show ?thesis using that [OF f(1)] frame_st [OF f(2) _ f(3)] by simp
qed

text \<open>Allocating a page: zero it on the file, fetch it, fill it, release it dirty.\<close>

lemma new_page:
  assumes "st N {} ps P c" "length ps < room" "unat pid = N" "pid \<notin> set ps" "N + 1 < 2 ^ 32"
  obtains f c' where "fetch (zero c pid) pid = (Some f, c')" "page_wf (frame c' f)"
    "\<And>h p. page_wf p \<Longrightarrow> st (N + 1) {} ps (P(pid := p)) (unpin (update f p c') pid True h)"
proof -
  obtain f c' p0 where f: "fetch (zero c pid) pid = (Some f, c')"
    "st (N + 1) {pid} (pid # ps) (P(pid := p0)) c'" "loc c' pid = Some f" "page_wf p0"
    using alloc_st [OF assms] by auto
  have "st (N + 1) {} ps (P(pid := p)) (unpin (update f p c') pid True h)" if "page_wf p" for h p
    using unpin_dirty_st [of "N + 1" "{pid}" "pid # ps" "P(pid := p)" "update f p c'" pid h]
      update_st [OF f(2) _ f(3) that] assms(3) by simp
  then show ?thesis using that [OF f(1)] frame_st [OF f(2) _ f(3)] f(4) by simp
qed

end

end
