(* ===== verification/BufferPool.thy ===== *)
theory BufferPool
  imports Wal PageCache
begin

text \<open>
  \<open>buffer_pool.c\<close> and \<open>buffer_pool.h\<close>: a fixed array of page frames with pin counts, dirty
  bits and clock eviction. A \<open>Frame *\<close> is the frame's index. The data file behind
  \<open>disk_fd\<close> and the log behind \<open>wal\<close> are part of the state.
\<close>

section \<open>State\<close>

record Frame =
  fr_page_id :: u32
  fr_pin_count :: u32
  fr_is_dirty :: bool
  fr_page_lsn :: u64
  fr_page_data :: page

record BufferPoolManager =
  bp_frames :: "Frame list"
  bp_pool_size :: u32
  bp_clock_hand :: u32
  bp_disk_fd :: int
  bp_wal :: "WALManager option"
  bp_vfs_ctx :: vfs_ctx
  bp_file :: datafile

datatype BufferPoolHint = HINT_NORMAL | HINT_SEQUENTIAL_SCAN

abbreviation (input) INVALID_PAGE_ID :: u32 where "INVALID_PAGE_ID \<equiv> - 1"

definition page_offset :: "u32 \<Rightarrow> nat" where
  "page_offset page_id = unat page_id * PAGE_SIZE"

section \<open>Operations\<close>

text \<open>\<open>calloc_ok\<close>: whether the frame array could be allocated; the code exits the process
  when it could not.\<close>

definition empty_frame :: Frame where
  "empty_frame = \<lparr>fr_page_id = INVALID_PAGE_ID, fr_pin_count = 0, fr_is_dirty = False,
     fr_page_lsn = 0, fr_page_data = (\<lambda>_. 0)\<rparr>"

definition buffer_pool_init ::
  "int \<Rightarrow> WALManager option \<Rightarrow> u32 \<Rightarrow> datafile \<Rightarrow> bool \<Rightarrow> BufferPoolManager option" where
  "buffer_pool_init disk_fd wal pool_size file calloc_ok =
     (if \<not> calloc_ok then None
      else Some \<lparr>bp_frames = replicate (unat pool_size) empty_frame, bp_pool_size = pool_size,
        bp_clock_hand = 0, bp_disk_fd = disk_fd, bp_wal = wal,
        bp_vfs_ctx = snd (fts_vfs_init \<lparr>vc_batch = [], vc_initialized = False\<rparr> 32),
        bp_file = file\<rparr>)"

definition buffer_pool_destroy :: "BufferPoolManager \<Rightarrow> BufferPoolManager" where
  "buffer_pool_destroy b = b\<lparr>bp_frames := [], bp_vfs_ctx := fts_vfs_destroy (bp_vfs_ctx b)\<rparr>"

text \<open>The linear search of the frame array, shared by four operations.\<close>

definition find_frame :: "BufferPoolManager \<Rightarrow> u32 \<Rightarrow> nat option" where
  "find_frame b page_id =
     find (\<lambda>i. fr_page_id (bp_frames b ! i) = page_id) [0..<unat (bp_pool_size b)]"

definition set_frame :: "nat \<Rightarrow> Frame \<Rightarrow> BufferPoolManager \<Rightarrow> BufferPoolManager" where
  "set_frame i f b = b\<lparr>bp_frames := (bp_frames b)[i := f]\<rparr>"

definition flush_wal :: "BufferPoolManager \<Rightarrow> BufferPoolManager" where
  "flush_wal b = (case bp_wal b of None \<Rightarrow> b | Some w \<Rightarrow> b\<lparr>bp_wal := Some (snd (wal_flush w))\<rparr>)"

text \<open>Flushing a page, as the states of the pool after each system call: the log sync, the page
  write, and the final state with the dirty bit cleared. A crash can come after any of them.\<close>

definition flush_page_states :: "BufferPoolManager \<Rightarrow> u32 \<Rightarrow> int \<times> BufferPoolManager list" where
  "flush_page_states b page_id =
     (if page_id = INVALID_PAGE_ID then (- 1, [b])
      else case find_frame b page_id of
          None \<Rightarrow> (- 1, [b])
        | Some i \<Rightarrow>
            let f = bp_frames b ! i in
            if fr_is_dirty f \<and> 0 \<le> bp_disk_fd b then
              let b1 = flush_wal b;
                  (res, file) = fts_vfs_write_sync (bp_disk_fd b1) (fr_page_data f) PAGE_SIZE
                                  (page_offset page_id) (bp_file b1);
                  b2 = b1\<lparr>bp_file := file\<rparr>
              in if res < 0 then (- 1, [b, b1, b2])
                 else (0, [b, b1, b2, set_frame i (f\<lparr>fr_is_dirty := False\<rparr>) b2])
            else (0, [b]))"

definition buffer_pool_flush_page :: "BufferPoolManager \<Rightarrow> u32 \<Rightarrow> int \<times> BufferPoolManager" where
  "buffer_pool_flush_page b page_id = (let (res, states) = flush_page_states b page_id in (res, last states))"

fun victim_loop :: "nat \<Rightarrow> BufferPoolManager \<Rightarrow> nat option \<times> BufferPoolManager" where
  "victim_loop 0 b = (None, b)"
| "victim_loop (Suc attempts) b =
     (let current_idx = unat (bp_clock_hand b);
          f = bp_frames b ! current_idx;
          b = b\<lparr>bp_clock_hand := (bp_clock_hand b + 1) mod bp_pool_size b\<rparr>
      in if fr_page_id f = INVALID_PAGE_ID \<or> fr_pin_count f = 0 then
           (Some current_idx,
            if fr_page_id f \<noteq> INVALID_PAGE_ID \<and> fr_is_dirty f
            then snd (buffer_pool_flush_page b (fr_page_id f)) else b)
         else victim_loop attempts b)"

definition find_victim_frame :: "BufferPoolManager \<Rightarrow> nat option \<times> BufferPoolManager" where
  "find_victim_frame b = victim_loop (unat (bp_pool_size b * 2)) b"

definition buffer_pool_fetch_page ::
  "BufferPoolManager \<Rightarrow> u32 \<Rightarrow> nat option \<times> BufferPoolManager" where
  "buffer_pool_fetch_page b page_id =
     (case find_frame b page_id of
        Some i \<Rightarrow>
          let f = bp_frames b ! i
          in (Some i, set_frame i (f\<lparr>fr_pin_count := fr_pin_count f + 1\<rparr>) b)
      | None \<Rightarrow>
          case find_victim_frame b of
            (None, b) \<Rightarrow> (None, b)
          | (Some idx, b) \<Rightarrow>
              let f = (bp_frames b ! idx)\<lparr>fr_page_id := page_id, fr_pin_count := 1,
                        fr_is_dirty := False, fr_page_lsn := 0\<rparr> in
              if 0 \<le> bp_disk_fd b then
                let (bytes_read, buf, file) =
                      fts_vfs_read_sync (bp_disk_fd b) (fr_page_data f) PAGE_SIZE
                        (page_offset page_id) (bp_file b);
                    buf = (if bytes_read < int PAGE_SIZE
                           then slotted_page_init buf page_id PAGE_TYPE_ROW else buf)
                in (Some idx, set_frame idx (f\<lparr>fr_page_data := buf\<rparr>) (b\<lparr>bp_file := file\<rparr>))
              else
                (Some idx, set_frame idx
                   (f\<lparr>fr_page_data := slotted_page_init (fr_page_data f) page_id PAGE_TYPE_ROW\<rparr>) b))"

definition buffer_pool_unpin_page ::
  "BufferPoolManager \<Rightarrow> u32 \<Rightarrow> bool \<Rightarrow> BufferPoolHint \<Rightarrow> BufferPoolManager" where
  "buffer_pool_unpin_page b page_id is_dirty hint =
     (case find_frame b page_id of
        None \<Rightarrow> b
      | Some i \<Rightarrow>
          let f = bp_frames b ! i;
              f = (if 0 < fr_pin_count f then f\<lparr>fr_pin_count := fr_pin_count f - 1\<rparr> else f);
              f = (if is_dirty then f\<lparr>fr_is_dirty := True\<rparr> else f);
              b = set_frame i f b
          in if fr_pin_count f = 0 \<and> hint = HINT_SEQUENTIAL_SCAN
             then b\<lparr>bp_clock_hand := of_nat i\<rparr> else b)"

text \<open>Clearing the dirty bits of completed batch writes.\<close>

definition mark_clean :: "nat list \<Rightarrow> BufferPoolManager \<Rightarrow> BufferPoolManager" where
  "mark_clean is b =
     fold (\<lambda>i b. set_frame i ((bp_frames b ! i)\<lparr>fr_is_dirty := False\<rparr>) b) is b"

abbreviation (input) BATCH_LIMIT :: nat where "BATCH_LIMIT \<equiv> 16"

definition flush_all_step :: "nat \<Rightarrow> BufferPoolManager \<times> nat \<Rightarrow> BufferPoolManager \<times> nat" where
  "flush_all_step i = (\<lambda>(b, submitted).
     let f = bp_frames b ! i in
     if fr_page_id f \<noteq> INVALID_PAGE_ID \<and> fr_is_dirty f \<and> 0 \<le> bp_disk_fd b then
       let off = page_offset (fr_page_id f);
           (code, ctx, file) = fts_vfs_batch_add_write (bp_vfs_ctx b) (bp_disk_fd b)
                                 (fr_page_data f) PAGE_SIZE off i (bp_file b);
           b = b\<lparr>bp_vfs_ctx := ctx, bp_file := file\<rparr>;
           (b, submitted) =
             (if code = 0 then (b, Suc submitted)
              else let (res, file) = fts_vfs_write_sync (bp_disk_fd b) (fr_page_data f) PAGE_SIZE
                                       off (bp_file b);
                       b = b\<lparr>bp_file := file\<rparr>
                in if 0 \<le> res then (set_frame i (f\<lparr>fr_is_dirty := False\<rparr>) b, submitted)
                   else (b, submitted))
       in if BATCH_LIMIT \<le> submitted then
            ((mark_clean (fts_vfs_batch_submit_and_wait (bp_vfs_ctx b) 32) b)
               \<lparr>bp_vfs_ctx := fts_vfs_batch_begin (bp_vfs_ctx b)\<rparr>, 0)
          else (b, submitted)
     else (b, submitted))"

definition buffer_pool_flush_all :: "BufferPoolManager \<Rightarrow> BufferPoolManager" where
  "buffer_pool_flush_all b =
     (let n = unat (bp_pool_size b);
          any_dirty = (\<exists>i < n. fr_page_id (bp_frames b ! i) \<noteq> INVALID_PAGE_ID \<and>
                               fr_is_dirty (bp_frames b ! i));
          b = (if any_dirty then flush_wal b else b);
          b = b\<lparr>bp_vfs_ctx := fts_vfs_batch_begin (bp_vfs_ctx b)\<rparr>;
          (b, submitted) = fold flush_all_step [0..<n] (b, 0)
      in if 0 < submitted
         then mark_clean (fts_vfs_batch_submit_and_wait (bp_vfs_ctx b) 32) b else b)"

text \<open>Access through a frame pointer.\<close>

definition frame_page :: "BufferPoolManager \<Rightarrow> nat \<Rightarrow> page" where
  "frame_page b i = fr_page_data (bp_frames b ! i)"

definition set_frame_page :: "nat \<Rightarrow> page \<Rightarrow> BufferPoolManager \<Rightarrow> BufferPoolManager" where
  "set_frame_page i p b = set_frame i ((bp_frames b ! i)\<lparr>fr_page_data := p\<rparr>) b"

lemma buffer_pool_flush_page_eq:
  "buffer_pool_flush_page b page_id =
     (if page_id = INVALID_PAGE_ID then (- 1, b)
      else case find_frame b page_id of
          None \<Rightarrow> (- 1, b)
        | Some i \<Rightarrow>
            let f = bp_frames b ! i in
            if fr_is_dirty f \<and> 0 \<le> bp_disk_fd b then
              let b = flush_wal b;
                  (res, file) = fts_vfs_write_sync (bp_disk_fd b) (fr_page_data f) PAGE_SIZE
                                  (page_offset page_id) (bp_file b);
                  b = b\<lparr>bp_file := file\<rparr>
              in if res < 0 then (- 1, b) else (0, set_frame i (f\<lparr>fr_is_dirty := False\<rparr>) b)
            else (0, b))"
  by (simp add: buffer_pool_flush_page_def flush_page_states_def Let_def split: option.split prod.split)

section \<open>Cached pages, pins and the logical contents\<close>

definition disk_page :: "datafile \<Rightarrow> u32 \<Rightarrow> page" where
  "disk_page d pid = (\<lambda>i. if i < PAGE_SIZE then df_bytes d (page_offset pid + i) else 0)"

definition on_file :: "datafile \<Rightarrow> u32 \<Rightarrow> bool" where
  "on_file d pid \<longleftrightarrow> page_offset pid + PAGE_SIZE \<le> df_size d"

definition row_page :: "u32 \<Rightarrow> page" where
  "row_page pid = slotted_page_init (\<lambda>_. 0) pid PAGE_TYPE_ROW"

definition load_page :: "datafile \<Rightarrow> u32 \<Rightarrow> page" where
  "load_page d pid = (if on_file d pid then disk_page d pid else row_page pid)"

text \<open>The logical content of a page: the cached copy if there is one.\<close>

definition bp_page :: "BufferPoolManager \<Rightarrow> u32 \<Rightarrow> page" where
  "bp_page b pid =
     (case if pid = INVALID_PAGE_ID then None else find_frame b pid of Some i \<Rightarrow> frame_page b i | None \<Rightarrow> load_page (bp_file b) pid)"

definition bp_pins :: "BufferPoolManager \<Rightarrow> u32 \<Rightarrow> nat" where
  "bp_pins b pid = (case find_frame b pid of Some i \<Rightarrow> unat (fr_pin_count (bp_frames b ! i)) | None \<Rightarrow> 0)"

definition bp_cached :: "BufferPoolManager \<Rightarrow> u32 \<Rightarrow> bool" where
  "bp_cached b pid \<longleftrightarrow> find_frame b pid \<noteq> None"

section \<open>The invariant\<close>

text \<open>
  \<open>N\<close> is the number of allocated pages and \<open>X\<close> the pages whose frame is being modified
  and not yet marked dirty. A clean frame of an allocated page outside \<open>X\<close> agrees with
  the file; a frame of a page that is not allocated (a scan may fetch one) is never dirty
  and holds the freshly initialised page.
\<close>

definition frame_ok :: "nat \<Rightarrow> u32 set \<Rightarrow> datafile \<Rightarrow> Frame \<Rightarrow> bool" where
  "frame_ok N X d f \<longleftrightarrow> page_wf (fr_page_data f) \<and>
     (fr_page_id f \<in> X \<longrightarrow> 0 < fr_pin_count f) \<and>
     (if fr_page_id f = INVALID_PAGE_ID then fr_pin_count f = 0 \<and> \<not> fr_is_dirty f
      else if unat (fr_page_id f) < N then
        (\<not> fr_is_dirty f \<and> fr_page_id f \<notin> X \<longrightarrow>
           on_file d (fr_page_id f) \<and> fr_page_data f = disk_page d (fr_page_id f))
      else \<not> fr_is_dirty f \<and> (fr_page_id f \<notin> X \<longrightarrow> fr_page_data f = row_page (fr_page_id f)))"

text \<open>No page is cached twice.\<close>

definition pages_distinct :: "BufferPoolManager \<Rightarrow> bool" where
  "pages_distinct b \<longleftrightarrow>
     (\<forall>i < unat (bp_pool_size b). \<forall>j < unat (bp_pool_size b).
        fr_page_id (bp_frames b ! i) = fr_page_id (bp_frames b ! j) \<longrightarrow>
        fr_page_id (bp_frames b ! i) \<noteq> INVALID_PAGE_ID \<longrightarrow> i = j)"

definition bp_ok :: "nat \<Rightarrow> u32 set \<Rightarrow> BufferPoolManager \<Rightarrow> bool" where
  "bp_ok N X b \<longleftrightarrow>
     length (bp_frames b) = unat (bp_pool_size b) \<and> 0 < unat (bp_pool_size b) \<and>
     unat (bp_pool_size b) < 2 ^ 31 \<and> unat (bp_clock_hand b) < unat (bp_pool_size b) \<and>
     0 \<le> bp_disk_fd b \<and> df_plan (bp_file b) = [] \<and> df_size (bp_file b) \<le> N * PAGE_SIZE \<and>
     N < 2 ^ 32 \<and>
     pages_distinct b \<and>
     (\<forall>i < unat (bp_pool_size b). frame_ok N X (bp_file b) (bp_frames b ! i)) \<and>
     (\<forall>q. unat q < N \<longrightarrow> on_file (bp_file b) q \<or> bp_cached b q) \<and>
     (\<forall>q \<in> X. bp_cached b q \<and> q \<noteq> INVALID_PAGE_ID)"

named_theorems bp_simps "fields of buffer-pool states"

lemma set_frame_simps [simp, bp_simps]:
  "bp_frames (set_frame i f b) = (bp_frames b)[i := f]"
  "bp_pool_size (set_frame i f b) = bp_pool_size b"
  "bp_clock_hand (set_frame i f b) = bp_clock_hand b"
  "bp_disk_fd (set_frame i f b) = bp_disk_fd b"
  "bp_wal (set_frame i f b) = bp_wal b"
  "bp_vfs_ctx (set_frame i f b) = bp_vfs_ctx b"
  "bp_file (set_frame i f b) = bp_file b"
  by (simp_all add: set_frame_def)

lemma flush_wal_simps [simp, bp_simps]:
  "bp_frames (flush_wal b) = bp_frames b"
  "bp_pool_size (flush_wal b) = bp_pool_size b"
  "bp_clock_hand (flush_wal b) = bp_clock_hand b"
  "bp_disk_fd (flush_wal b) = bp_disk_fd b"
  "bp_vfs_ctx (flush_wal b) = bp_vfs_ctx b"
  "bp_file (flush_wal b) = bp_file b"
  by (simp_all add: flush_wal_def split: option.split)

text \<open>Only the frames, the pool size and the file matter to the logical contents.\<close>

lemma find_frame_cong:
  "bp_pool_size b = bp_pool_size b' \<Longrightarrow>
    (\<And>i. i < unat (bp_pool_size b) \<Longrightarrow> fr_page_id (bp_frames b ! i) = fr_page_id (bp_frames b' ! i)) \<Longrightarrow>
    find_frame b pid = find_frame b' pid"
  unfolding find_frame_def by (rule find_cong) auto

lemma find_frame_sound:
  "find_frame b pid = Some i \<Longrightarrow> i < unat (bp_pool_size b) \<and> fr_page_id (bp_frames b ! i) = pid"
  by (auto simp: find_frame_def find_Some_iff)

lemma find_frame_none:
  "find_frame b pid = None \<longleftrightarrow> (\<forall>i < unat (bp_pool_size b). fr_page_id (bp_frames b ! i) \<noteq> pid)"
  by (auto simp: find_frame_def find_None_iff)

lemma find_frame_distinct:
  assumes "pages_distinct b" "pid \<noteq> INVALID_PAGE_ID"
  shows "find_frame b pid = Some i \<longleftrightarrow>
    i < unat (bp_pool_size b) \<and> fr_page_id (bp_frames b ! i) = pid"
proof
  assume i: "i < unat (bp_pool_size b) \<and> fr_page_id (bp_frames b ! i) = pid"
  then obtain j where j: "find_frame b pid = Some j"
    using find_frame_none [of b pid] by (cases "find_frame b pid") auto
  then have "j < unat (bp_pool_size b) \<and> fr_page_id (bp_frames b ! j) = pid"
    by (rule find_frame_sound)
  then have "j = i" using i assms by (metis pages_distinct_def)
  with j show "find_frame b pid = Some i" by simp
qed (rule find_frame_sound)

lemma bp_ok_distinct: "bp_ok N X b \<Longrightarrow> pages_distinct b"
  by (simp add: bp_ok_def)

lemmas find_frame_iff = find_frame_distinct [OF bp_ok_distinct]

lemma bp_ok_frame: "bp_ok N X b \<Longrightarrow> i < unat (bp_pool_size b) \<Longrightarrow> frame_ok N X (bp_file b) (bp_frames b ! i)"
  by (simp add: bp_ok_def)

lemma bp_cached_iff:
  "bp_cached b pid \<longleftrightarrow> (\<exists>i < unat (bp_pool_size b). fr_page_id (bp_frames b ! i) = pid)"
  by (auto simp: bp_cached_def find_frame_none)

lemma not_allocated_invalid: "bp_ok N X b \<Longrightarrow> unat q < N \<Longrightarrow> q \<noteq> INVALID_PAGE_ID"
  by (auto simp: bp_ok_def unsigned_minus_1_eq_mask mask_eq_exp_minus_1)

lemma not_on_file_beyond: "bp_ok N X b \<Longrightarrow> N \<le> unat q \<Longrightarrow> \<not> on_file (bp_file b) q"
  by (auto simp: bp_ok_def on_file_def page_offset_def)

lemma row_page_wf [simp, wf_intros]: "page_wf (row_page pid)"
  by (simp add: row_page_def init_page_wf)

lemma disk_page_wf [simp, wf_intros]: "page_wf (disk_page d pid)"
  by (simp add: disk_page_def page_wf_def)

lemma load_page_wf [simp, wf_intros]: "page_wf (load_page d pid)"
  by (simp add: load_page_def)

lemma bp_page_wf: "bp_ok N X b \<Longrightarrow> page_wf (bp_page b pid)"
  by (auto simp: bp_page_def frame_page_def bp_ok_def frame_ok_def dest!: find_frame_sound
      split: option.split)

text \<open>Two states with the same cached pages, contents and pins.\<close>

definition bp_same :: "BufferPoolManager \<Rightarrow> BufferPoolManager \<Rightarrow> bool" where
  "bp_same b b' \<longleftrightarrow> bp_pool_size b' = bp_pool_size b \<and> find_frame b' = find_frame b \<and>
     bp_page b' = bp_page b \<and> bp_pins b' = bp_pins b"

section \<open>Replacing a frame\<close>

text \<open>Every operation replaces one frame by one that satisfies \<open>frame_ok\<close>; the rest of
  the invariant follows when the frame keeps its page.\<close>

lemma find_frame_set_same:
  "length (bp_frames b) = unat (bp_pool_size b) \<Longrightarrow>
    fr_page_id f = fr_page_id (bp_frames b ! i) \<Longrightarrow> find_frame (set_frame i f b) pid = find_frame b pid"
  by (rule find_frame_cong) (auto simp: nth_list_update_at)

lemma bp_ok_length: "bp_ok N X b \<Longrightarrow> length (bp_frames b) = unat (bp_pool_size b)"
  by (simp add: bp_ok_def)

lemma bp_ok_set_same:
  assumes ok: "bp_ok N X b" and id: "fr_page_id f = fr_page_id (bp_frames b ! i)"
    and f: "frame_ok N X (bp_file b) f"
  shows "bp_ok N X (set_frame i f b)"
proof -
  have len: "length (bp_frames b) = unat (bp_pool_size b)" using ok by (rule bp_ok_length)
  have c: "bp_cached (set_frame i f b) = bp_cached b"
    by (simp add: fun_eq_iff bp_cached_def find_frame_set_same [OF len id])
  have ids: "fr_page_id ((bp_frames b)[i := f] ! j) = fr_page_id (bp_frames b ! j)"
    if "j < unat (bp_pool_size b)" for j
    using that id len by (auto simp: nth_list_update_at)
  have d: "pages_distinct (set_frame i f b)"
    using ok ids unfolding bp_ok_def pages_distinct_def set_frame_simps by metis
  have "frame_ok N X (bp_file b) ((bp_frames b)[i := f] ! j)" if "j < unat (bp_pool_size b)" for j
    using that f bp_ok_frame [OF ok] len by (auto simp: nth_list_update_at)
  then show ?thesis
    using ok d unfolding bp_ok_def c set_frame_simps length_list_update by blast
qed

lemma bp_ok_cong:
  assumes ok: "bp_ok N X b"
    and eqs: "bp_frames b' = bp_frames b" "bp_pool_size b' = bp_pool_size b"
      "bp_disk_fd b' = bp_disk_fd b" "bp_file b' = bp_file b"
    and hand: "unat (bp_clock_hand b') < unat (bp_pool_size b)"
  shows "bp_ok N X b'"
proof -
  have c: "bp_cached b' = bp_cached b"
    by (simp add: fun_eq_iff bp_cached_def find_frame_def eqs)
  have d: "pages_distinct b' = pages_distinct b"
    by (simp add: pages_distinct_def eqs)
  show ?thesis
    using ok hand unfolding bp_ok_def c d eqs by blast
qed

lemma bp_ok_hand: "bp_ok N X b \<Longrightarrow> unat (bp_clock_hand b) < unat (bp_pool_size b)"
  by (simp add: bp_ok_def)

lemma bp_ok_clock: "bp_ok N X b \<Longrightarrow> unat h < unat (bp_pool_size b) \<Longrightarrow> bp_ok N X (b\<lparr>bp_clock_hand := h\<rparr>)"
  by (erule bp_ok_cong) simp_all

lemma bp_ok_flush_wal: "bp_ok N X b \<Longrightarrow> bp_ok N X (flush_wal b)"
  by (rule bp_ok_cong) (auto dest: bp_ok_hand)

lemma bp_view_cong:
  assumes "bp_frames b = bp_frames b'" "bp_pool_size b = bp_pool_size b'"
  shows "find_frame b = find_frame b'" "bp_pins b = bp_pins b'"
    "bp_file b = bp_file b' \<Longrightarrow> bp_page b = bp_page b'" "bp_cached b = bp_cached b'"
  using assms by (auto simp: find_frame_def bp_pins_def bp_page_def frame_page_def bp_cached_def fun_eq_iff
      split: option.split)

section \<open>Writing a page back\<close>

definition write_page :: "datafile \<Rightarrow> u32 \<Rightarrow> page \<Rightarrow> datafile" where
  "write_page d pid p =
     d\<lparr>df_bytes := blit (df_bytes d) (page_offset pid) (bytes_at p 0 PAGE_SIZE),
       df_size := max (df_size d) (page_offset pid + PAGE_SIZE)\<rparr>"

lemma page_offset_disjoint:
  "p \<noteq> q \<Longrightarrow> page_offset p + PAGE_SIZE \<le> page_offset q \<or> page_offset q + PAGE_SIZE \<le> page_offset p"
proof -
  assume "p \<noteq> q"
  then have "unat p < unat q \<or> unat q < unat p" by (metis linorder_neqE_nat word_unat_eq_iff)
  then show ?thesis unfolding page_offset_def by linarith
qed

lemma disk_page_write:
  "page_wf p \<Longrightarrow> disk_page (write_page d pid p) q = (if q = pid then p else disk_page d q)"
  using page_offset_disjoint [of q pid]
  by (auto simp: disk_page_def write_page_def blit_def page_wf_def fun_eq_iff)

lemma on_file_write: "on_file (write_page d pid p) pid" "on_file d q \<Longrightarrow> on_file (write_page d pid p) q"
  by (auto simp: on_file_def write_page_def)

lemma write_page_plan [simp]: "df_plan (write_page d pid p) = df_plan d"
  by (simp add: write_page_def)

lemma write_back_frames:
  assumes ok: "bp_ok N X b" and i: "find_frame b pid = Some i" and pid: "pid \<noteq> INVALID_PAGE_ID"
    and f: "f = bp_frames b ! i" "fr_is_dirty f"
    and b': "b' = set_frame i (f\<lparr>fr_is_dirty := False\<rparr>) (b\<lparr>bp_file := write_page (bp_file b) pid (fr_page_data f)\<rparr>)"
  shows "unat pid < N" "page_wf (fr_page_data f)" "fr_page_id f = pid"
    and "bp_frames b' ! i = f\<lparr>fr_is_dirty := False\<rparr>"
    and "j \<noteq> i \<Longrightarrow> bp_frames b' ! j = bp_frames b ! j"
    and "fr_page_id (bp_frames b' ! k) = fr_page_id (bp_frames b ! k)"
    and "find_frame b' = find_frame b"
proof -
  have i': "i < length (bp_frames b)" "fr_page_id f = pid"
    using find_frame_sound [OF i] f bp_ok_length [OF ok] by auto
  then show "unat pid < N" "page_wf (fr_page_data f)" "fr_page_id f = pid"
    using bp_ok_frame [OF ok, of i] f pid bp_ok_length [OF ok] by (auto simp: frame_ok_def split: if_splits)
  show "bp_frames b' ! i = f\<lparr>fr_is_dirty := False\<rparr>" "\<And>j. j \<noteq> i \<Longrightarrow> bp_frames b' ! j = bp_frames b ! j"
    using i' by (simp_all add: b')
  show ids: "fr_page_id (bp_frames b' ! k) = fr_page_id (bp_frames b ! k)" for k
    using i' f by (cases "k = i") (auto simp: b')
  show "find_frame b' = find_frame b"
    by (rule ext, rule find_frame_cong) (simp_all add: ids, simp add: b')
qed

lemma bp_ok_write:
  assumes ok: "bp_ok N X b" and i: "find_frame b pid = Some i" and pid: "pid \<noteq> INVALID_PAGE_ID"
    and f: "f = bp_frames b ! i" "fr_is_dirty f"
    and b': "b' = set_frame i (f\<lparr>fr_is_dirty := False\<rparr>) (b\<lparr>bp_file := write_page (bp_file b) pid (fr_page_data f)\<rparr>)"
  shows "bp_ok N X b'"
proof -
  let ?d = "write_page (bp_file b) pid (fr_page_data f)"
  note w = write_back_frames [OF assms]
  have len: "length (bp_frames b) = unat (bp_pool_size b)" using ok by (rule bp_ok_length)
  have size: "df_size ?d \<le> N * PAGE_SIZE"
    using ok w(1) by (auto simp: bp_ok_def write_page_def page_offset_def)
  have bs: "bp_pool_size b' = bp_pool_size b" by (simp add: b')
  have d: "pages_distinct b'"
    using ok w(6) unfolding bp_ok_def pages_distinct_def bs by metis
  have fr: "frame_ok N X ?d (bp_frames b' ! j)" if j: "j < unat (bp_pool_size b)" for j
  proof (cases "j = i")
    case True
    then show ?thesis
      using bp_ok_frame [OF ok j] w(1,3,4) f pid
      by (auto simp: frame_ok_def disk_page_write [OF w(2) [unfolded f(1)]] on_file_write)
  next
    case False
    then have "fr_page_id (bp_frames b ! j) \<noteq> pid"
      using j i find_frame_iff [OF ok pid] by (metis option.inject)
    then show ?thesis
      using bp_ok_frame [OF ok j] w(5) [OF False]
      by (auto simp: frame_ok_def disk_page_write [OF w(2)] on_file_write)
  qed
  have on: "on_file ?d q \<or> bp_cached b' q" if "unat q < N" for q
    using that ok unfolding bp_ok_def bp_cached_def w(7) by (metis on_file_write(2))
  have X: "\<forall>q\<in>X. bp_cached b' q \<and> q \<noteq> INVALID_PAGE_ID"
    using ok unfolding bp_ok_def bp_cached_def w(7) by blast
  show ?thesis
    using ok d fr on X size len unfolding bp_ok_def by (simp add: b')
qed

lemma bp_same_write:
  assumes ok: "bp_ok N X b" and i: "find_frame b pid = Some i" and pid: "pid \<noteq> INVALID_PAGE_ID"
    and f: "f = bp_frames b ! i" "fr_is_dirty f"
    and b': "b' = set_frame i (f\<lparr>fr_is_dirty := False\<rparr>) (b\<lparr>bp_file := write_page (bp_file b) pid (fr_page_data f)\<rparr>)"
  shows "bp_same b b'"
proof -
  note w = write_back_frames [OF assms] and ok' = bp_ok_write [OF assms]
  have bs: "bp_pool_size b' = bp_pool_size b" "bp_file b' = write_page (bp_file b) pid (fr_page_data f)" by (simp_all add: b')
  have load: "load_page (bp_file b') q = load_page (bp_file b) q" if "q = INVALID_PAGE_ID \<or> find_frame b q = None" for q
  proof (cases "unat q < N")
    case True
    then have none: "find_frame b q = None" using that not_allocated_invalid [OF ok] by auto
    with True have "on_file (bp_file b) q" using ok unfolding bp_ok_def bp_cached_def by blast
    moreover have "q \<noteq> pid" using none i by auto
    ultimately show ?thesis by (simp add: bs load_page_def on_file_write disk_page_write [OF w(2)])
  next
    case False
    then show ?thesis using not_on_file_beyond [OF ok] not_on_file_beyond [OF ok'] by (simp add: load_page_def)
  qed
  have fr: "fr_page_data (bp_frames b' ! j) = fr_page_data (bp_frames b ! j)"
    "fr_pin_count (bp_frames b' ! j) = fr_pin_count (bp_frames b ! j)" for j
    using w(4) w(5) [of j] f(1) by (cases "j = i", simp_all)+
  have "bp_page b' q = bp_page b q" for q
    using load [of q] fr(1) unfolding bp_page_def w(7) frame_page_def by (auto split: option.split)
  moreover have "bp_pins b' = bp_pins b" by (auto simp: fun_eq_iff bp_pins_def w(7) fr(2) split: option.split)
  ultimately show ?thesis using w(7) by (simp add: bp_same_def bs fun_eq_iff)
qed

text \<open>What a successful flush leaves behind; the log is synced first.\<close>

lemma flush_page_eq:
  assumes ok: "bp_ok N X b" and i: "find_frame b pid = Some i" and pid: "pid \<noteq> INVALID_PAGE_ID"
  shows "buffer_pool_flush_page b pid =
    (0, if fr_is_dirty (bp_frames b ! i)
        then set_frame i ((bp_frames b ! i)\<lparr>fr_is_dirty := False\<rparr>)
          ((flush_wal b)\<lparr>bp_file := write_page (bp_file b) pid (fr_page_data (bp_frames b ! i))\<rparr>)
        else b)"
  using ok i pid
  by (simp add: buffer_pool_flush_page_eq bp_ok_def Let_def fts_vfs_write_sync_def pwrite_full write_page_def)

lemma flush_page_law:
  assumes ok: "bp_ok N X b" and i: "find_frame b pid = Some i" and pid: "pid \<noteq> INVALID_PAGE_ID"
  obtains b' where "buffer_pool_flush_page b pid = (0, b')" "bp_ok N X b'" "bp_same b b'"
    "bp_clock_hand b' = bp_clock_hand b"
    "fr_is_dirty (bp_frames b' ! i) = False" "fr_pin_count (bp_frames b' ! i) = fr_pin_count (bp_frames b ! i)"
    "fr_page_id (bp_frames b' ! i) = pid"
proof (cases "fr_is_dirty (bp_frames b ! i)")
  case False
  then show ?thesis
    using that [of b] flush_page_eq [OF ok i pid] ok find_frame_sound [OF i] by (simp add: bp_same_def)
next
  case True
  let ?w = "flush_wal b" and ?f = "bp_frames b ! i"
  let ?b = "set_frame i (?f\<lparr>fr_is_dirty := False\<rparr>) (?w\<lparr>bp_file := write_page (bp_file ?w) pid (fr_page_data ?f)\<rparr>)"
  have w: "bp_ok N X ?w" "find_frame ?w = find_frame b" "bp_same b ?w"
    using bp_ok_flush_wal [OF ok] bp_view_cong [of ?w b] by (simp_all add: bp_same_def)
  then have "bp_ok N X ?b" "bp_same ?w ?b"
    using bp_ok_write [OF w(1) _ pid, of i ?f ?b] bp_same_write [OF w(1) _ pid, of i ?f ?b] i True by simp_all
  then show ?thesis
    using that [of ?b] flush_page_eq [OF ok i pid] True w find_frame_sound [OF i] bp_ok_length [OF ok]
    by (simp add: bp_same_def)
qed

section \<open>Choosing a victim\<close>

definition evictable :: "Frame \<Rightarrow> bool" where
  "evictable f \<longleftrightarrow> fr_page_id f = INVALID_PAGE_ID \<or> fr_pin_count f = 0"

lemma clock_step:
  assumes "unat (h :: u32) < unat n" "unat n < 2 ^ 31"
  shows "unat ((h + 1) mod n) = (unat h + 1) mod unat n"
proof -
  have "unat (h + 1) = unat h + 1" using assms by (intro unat_add_lem [THEN iffD1, THEN trans]) auto
  then show ?thesis by (simp add: unat_mod_distrib)
qed

text \<open>The sweep stops at the first evictable frame; a dirty one is written back before it
  is handed out.\<close>

lemma bp_same_clock: "bp_same b (b\<lparr>bp_clock_hand := h\<rparr>)"
  using bp_view_cong [of "b\<lparr>bp_clock_hand := h\<rparr>" b] by (simp add: bp_same_def)

lemma bp_same_trans: "bp_same a b \<Longrightarrow> bp_same b c \<Longrightarrow> bp_same a c"
  by (simp add: bp_same_def)

lemma victim_loop_finds:
  "bp_ok N X b \<Longrightarrow> k < m \<Longrightarrow>
    evictable (bp_frames b ! ((unat (bp_clock_hand b) + k) mod unat (bp_pool_size b))) \<Longrightarrow>
    \<exists>idx b'. victim_loop m b = (Some idx, b') \<and> idx < unat (bp_pool_size b) \<and> bp_ok N X b' \<and>
      bp_same b b' \<and> evictable (bp_frames b' ! idx) \<and> \<not> fr_is_dirty (bp_frames b' ! idx)"
proof (induction m arbitrary: b k)
  case 0
  then show ?case by simp
next
  case (Suc m)
  let ?h = "bp_clock_hand b" and ?n = "bp_pool_size b"
  let ?b1 = "b\<lparr>bp_clock_hand := (?h + 1) mod ?n\<rparr>"
  let ?f = "bp_frames b ! unat ?h"
  have hand: "unat ?h < unat ?n" and n31: "unat ?n < 2 ^ 31" using Suc.prems by (auto simp: bp_ok_def)
  have step: "unat ((?h + 1) mod ?n) = (unat ?h + 1) mod unat ?n" using hand n31 by (rule clock_step)
  have ok1: "bp_ok N X ?b1"
    using hand by (intro bp_ok_clock [OF Suc.prems(1)]) (simp only: step, simp)
  have same1: "bp_same b ?b1" by (rule bp_same_clock)
  show ?case
  proof (cases "evictable ?f")
    case False
    with Suc.prems hand have "k \<noteq> 0" by (auto intro: ccontr)
    then obtain k' where k: "k = Suc k'" using not0_implies_Suc by blast
    have "\<exists>idx b'. victim_loop m ?b1 = (Some idx, b') \<and> idx < unat (bp_pool_size ?b1) \<and>
      bp_ok N X b' \<and> bp_same ?b1 b' \<and> evictable (bp_frames b' ! idx) \<and> \<not> fr_is_dirty (bp_frames b' ! idx)"
    proof (rule Suc.IH [OF ok1])
      show "k' < m" using Suc.prems k by simp
      show "evictable (bp_frames ?b1 ! ((unat (bp_clock_hand ?b1) + k') mod unat (bp_pool_size ?b1)))"
        using Suc.prems(3) k by (simp add: step mod_simps)
    qed
    then show ?thesis
      using False bp_same_trans [OF same1] by (auto simp: Let_def evictable_def)
  next
    case True
    show ?thesis
    proof (cases "fr_page_id ?f \<noteq> INVALID_PAGE_ID \<and> fr_is_dirty ?f")
      case False
      have "fr_page_id ?f = INVALID_PAGE_ID \<Longrightarrow> \<not> fr_is_dirty ?f"
        using bp_ok_frame [OF Suc.prems(1) hand] by (simp add: frame_ok_def)
      then show ?thesis using False True ok1 same1 hand by (auto simp: Let_def evictable_def)
    next
      case dirty: True
      then have ff: "find_frame ?b1 (fr_page_id ?f) = Some (unat ?h)"
        using hand by (subst find_frame_iff [OF ok1]) auto
      obtain b' where b': "buffer_pool_flush_page ?b1 (fr_page_id ?f) = (0, b')" "bp_ok N X b'"
        "bp_same ?b1 b'" "fr_is_dirty (bp_frames b' ! unat ?h) = False"
        "fr_pin_count (bp_frames b' ! unat ?h) = fr_pin_count ?f"
        using flush_page_law [OF ok1 ff] dirty by auto
      have "evictable (bp_frames b' ! unat ?h)" using True dirty b' by (simp add: evictable_def)
      then show ?thesis
        using b' True dirty hand bp_same_trans [OF same1] by (auto simp: Let_def evictable_def)
    qed
  qed
qed

lemma victim_loop_none:
  "bp_ok N X b \<Longrightarrow> (\<forall>i < unat (bp_pool_size b). \<not> evictable (bp_frames b ! i)) \<Longrightarrow>
    \<exists>b'. victim_loop m b = (None, b') \<and> bp_ok N X b' \<and> bp_same b b'"
proof (induction m arbitrary: b)
  case 0
  then show ?case by (auto simp: bp_same_def)
next
  case (Suc m)
  let ?h = "bp_clock_hand b" and ?n = "bp_pool_size b"
  let ?b1 = "b\<lparr>bp_clock_hand := (?h + 1) mod ?n\<rparr>"
  have hand: "unat ?h < unat ?n" and n31: "unat ?n < 2 ^ 31" using Suc.prems by (auto simp: bp_ok_def)
  have ok1: "bp_ok N X ?b1"
    using hand by (intro bp_ok_clock [OF Suc.prems(1)]) (simp only: clock_step [OF hand n31], simp)
  obtain b' where "victim_loop m ?b1 = (None, b')" "bp_ok N X b'" "bp_same ?b1 b'"
    using Suc.IH [OF ok1] Suc.prems by auto
  then show ?case
    using Suc.prems hand bp_same_trans [OF bp_same_clock] by (auto simp: Let_def evictable_def)
qed

lemma clock_reaches:
  assumes "h < (n::nat)" "i < n"
  obtains k where "k < n" "(h + k) mod n = i"
proof (cases "h \<le> i")
  case True
  then show ?thesis using assms that [of "i - h"] by simp
next
  case False
  then have "(h + (n + i - h)) mod n = i" using assms by simp
  then show ?thesis using assms False that [of "n + i - h"] by linarith
qed

lemma find_victim_law:
  assumes ok: "bp_ok N X b" and ev: "\<exists>i < unat (bp_pool_size b). evictable (bp_frames b ! i)"
  obtains idx b' where "find_victim_frame b = (Some idx, b')" "idx < unat (bp_pool_size b)"
    "bp_ok N X b'" "bp_same b b'" "evictable (bp_frames b' ! idx)" "\<not> fr_is_dirty (bp_frames b' ! idx)"
proof -
  from ev obtain i where i: "i < unat (bp_pool_size b)" "evictable (bp_frames b ! i)" by auto
  obtain k where k: "k < unat (bp_pool_size b)"
    "(unat (bp_clock_hand b) + k) mod unat (bp_pool_size b) = i"
    using clock_reaches [OF bp_ok_hand [OF ok] i(1)] by auto
  have "unat (bp_pool_size b * 2) = unat (bp_pool_size b) * 2"
    using ok by (auto simp: bp_ok_def unat_word_ariths)
  with k have "k < unat (bp_pool_size b * 2)" by simp
  from victim_loop_finds [OF ok this] k i that show ?thesis
    unfolding find_victim_frame_def by auto
qed

section \<open>Fetching and unpinning\<close>

lemma bp_pins_invalid: "bp_ok N X b \<Longrightarrow> bp_pins b INVALID_PAGE_ID = 0"
  using find_frame_sound [of b INVALID_PAGE_ID] bp_ok_frame [of N X b]
  by (fastforce simp: bp_pins_def frame_ok_def split: option.split)

text \<open>Which frame a page is found in after a load into frame \<open>idx\<close>.\<close>

definition loaded :: "BufferPoolManager \<Rightarrow> nat \<Rightarrow> u32 \<Rightarrow> BufferPoolManager" where
  "loaded b idx pid = set_frame idx \<lparr>fr_page_id = pid, fr_pin_count = 1, fr_is_dirty = False,
     fr_page_lsn = 0, fr_page_data = load_page (bp_file b) pid\<rparr> b"

lemma loaded_fields [simp]:
  "bp_pool_size (loaded b idx pid) = bp_pool_size b" "bp_file (loaded b idx pid) = bp_file b"
  by (simp_all add: loaded_def)

lemma loaded_at:
  assumes "bp_ok N X b" "idx < unat (bp_pool_size b)"
  shows "bp_frames (loaded b idx pid) ! idx = \<lparr>fr_page_id = pid, fr_pin_count = 1, fr_is_dirty = False,
      fr_page_lsn = 0, fr_page_data = load_page (bp_file b) pid\<rparr>"
    and "j \<noteq> idx \<Longrightarrow> bp_frames (loaded b idx pid) ! j = bp_frames b ! j"
  using assms bp_ok_length [OF assms(1)] by (simp_all add: loaded_def)

lemma loaded_lookup:
  assumes ok: "bp_ok N X b" and idx: "idx < unat (bp_pool_size b)" and miss: "find_frame b pid = None"
  defines "b' \<equiv> loaded b idx pid" and "v \<equiv> fr_page_id (bp_frames b ! idx)"
  shows "pages_distinct b'"
    and "q \<noteq> INVALID_PAGE_ID \<Longrightarrow> find_frame b' q = (if q = pid then Some idx else if q = v then None else find_frame b q)"
proof -
  have new: "fr_page_id (bp_frames b' ! idx) = pid" using loaded_at(1) [OF ok idx] by (simp add: b'_def)
  have at: "bp_frames b' ! j = bp_frames b ! j" if "j \<noteq> idx" for j using loaded_at(2) [OF ok idx that] by (simp add: b'_def)
  have bs: "bp_pool_size b' = bp_pool_size b" by (simp add: b'_def)
  have none: "fr_page_id (bp_frames b ! j) \<noteq> pid" if "j < unat (bp_pool_size b)" for j
    using that miss by (simp add: find_frame_none)
  show d: "pages_distinct b'"
    using bp_ok_distinct [OF ok] none unfolding pages_distinct_def bs by (metis at new)
  assume q: "q \<noteq> INVALID_PAGE_ID"
  have same: "fr_page_id (bp_frames b' ! j) = q \<longleftrightarrow> fr_page_id (bp_frames b ! j) = q"
    if "j < unat (bp_pool_size b)" "q \<noteq> pid" "q \<noteq> v" for j
    using that at [of j] by (cases "j = idx") (auto simp: new v_def)
  consider "q = pid" | "q = v" "q \<noteq> pid" | "q \<noteq> pid" "q \<noteq> v" by blast
  then show "find_frame b' q = (if q = pid then Some idx else if q = v then None else find_frame b q)"
  proof cases
    case 1
    then show ?thesis using idx find_frame_distinct [OF d q, of idx] by (simp add: new bs)
  next
    case 2
    have "fr_page_id (bp_frames b' ! j) \<noteq> q" if "j < unat (bp_pool_size b)" for j
      using that idx 2 q bp_ok_distinct [OF ok] at new unfolding v_def pages_distinct_def by metis
    then show ?thesis using 2 by (simp add: find_frame_none bs)
  next
    case 3
    then have "find_frame b' q = Some i \<longleftrightarrow> find_frame b q = Some i" for i
      using same [of i] by (auto simp: find_frame_distinct [OF d q] find_frame_distinct [OF bp_ok_distinct [OF ok] q] bs)
    then have "find_frame b' q = find_frame b q" by (metis not_None_eq)
    then show ?thesis using 3 by simp
  qed
qed

text \<open>The frame that is reused holds no page, or one that is unpinned and equal to its copy on file.\<close>

lemma victim_facts:
  assumes ok: "bp_ok N X b" and idx: "idx < unat (bp_pool_size b)"
    and old: "evictable (bp_frames b ! idx)" "\<not> fr_is_dirty (bp_frames b ! idx)"
  defines "v \<equiv> fr_page_id (bp_frames b ! idx)"
  shows "v \<noteq> INVALID_PAGE_ID \<Longrightarrow> v \<notin> X"
    and "v \<noteq> INVALID_PAGE_ID \<Longrightarrow> find_frame b v = Some idx"
    and "v \<noteq> INVALID_PAGE_ID \<Longrightarrow> bp_pins b v = 0"
    and "v \<noteq> INVALID_PAGE_ID \<Longrightarrow> fr_page_data (bp_frames b ! idx) = load_page (bp_file b) v"
    and "unat v < N \<Longrightarrow> on_file (bp_file b) v"
proof -
  have fo: "frame_ok N X (bp_file b) (bp_frames b ! idx)" by (rule bp_ok_frame [OF ok idx])
  show vX: "v \<notin> X" if "v \<noteq> INVALID_PAGE_ID"
    using fo old(1) that by (auto simp: v_def frame_ok_def evictable_def)
  show ff: "find_frame b v = Some idx" if "v \<noteq> INVALID_PAGE_ID"
    using that idx by (simp add: v_def find_frame_iff [OF ok])
  then show "bp_pins b v = 0" if "v \<noteq> INVALID_PAGE_ID"
    using that old(1) by (simp add: v_def bp_pins_def evictable_def)
  show "fr_page_data (bp_frames b ! idx) = load_page (bp_file b) v" if "v \<noteq> INVALID_PAGE_ID"
    using fo old(2) vX that not_on_file_beyond [OF ok, of v]
    by (auto simp: v_def frame_ok_def load_page_def split: if_splits)
  show "unat v < N \<Longrightarrow> on_file (bp_file b) v"
    using fo old(2) vX not_allocated_invalid [OF ok, of v] by (auto simp: v_def frame_ok_def)
qed

lemma loaded_ok:
  assumes ok: "bp_ok N X b" and idx: "idx < unat (bp_pool_size b)"
    and old: "evictable (bp_frames b ! idx)" "\<not> fr_is_dirty (bp_frames b ! idx)"
    and pid: "pid \<noteq> INVALID_PAGE_ID" and miss: "find_frame b pid = None"
  shows "bp_ok N X (loaded b idx pid)"
proof -
  let ?b = "loaded b idx pid"
  have len: "length (bp_frames b) = unat (bp_pool_size b)" using ok by (rule bp_ok_length)
  note at = loaded_at [OF ok idx, where pid = pid] and ff = loaded_lookup(2) [OF ok idx miss] and v = victim_facts [OF ok idx old]
  have Xpid: "pid \<notin> X" using ok miss unfolding bp_ok_def bp_cached_def by blast
  have "on_file (bp_file b) pid" if "unat pid < N"
    using ok miss that unfolding bp_ok_def bp_cached_def by blast
  then have "frame_ok N X (bp_file b) (bp_frames ?b ! idx)"
    using Xpid pid not_on_file_beyond [OF ok, of pid] by (simp add: at(1) frame_ok_def load_page_def)
  then have fr: "frame_ok N X (bp_file b) (bp_frames ?b ! j)" if "j < unat (bp_pool_size b)" for j
    using that at(2) [of j] bp_ok_frame [OF ok, of j] by (cases "j = idx") simp_all
  have on: "on_file (bp_file b) q \<or> bp_cached ?b q" if "unat q < N" for q
    using that ok v(5) ff [of q] not_allocated_invalid [OF ok, of q]
    unfolding bp_ok_def bp_cached_def by (metis option.distinct(1))
  have X: "bp_cached ?b q \<and> q \<noteq> INVALID_PAGE_ID" if "q \<in> X" for q
    using that ok v(1) ff [of q] Xpid unfolding bp_ok_def bp_cached_def by auto
  show ?thesis
    using ok loaded_lookup(1) [OF ok idx miss] fr on X len unfolding bp_ok_def by (simp add: loaded_def)
qed

lemma loaded_page:
  assumes ok: "bp_ok N X b" and idx: "idx < unat (bp_pool_size b)"
    and old: "evictable (bp_frames b ! idx)" "\<not> fr_is_dirty (bp_frames b ! idx)"
    and miss: "find_frame b pid = None"
  shows "bp_page (loaded b idx pid) = bp_page b"
proof (rule ext)
  fix q
  let ?b = "loaded b idx pid" and ?v = "fr_page_id (bp_frames b ! idx)"
  note at = loaded_at [OF ok idx, where pid = pid] and v = victim_facts [OF ok idx old]
  have dat: "frame_page ?b j = frame_page b j" if "find_frame b q = Some j" "q \<noteq> ?v" for j
    using find_frame_sound [OF that(1)] that(2) at(2) [of j] by (cases "j = idx") (auto simp: frame_page_def)
  have "frame_page ?b idx = load_page (bp_file b) pid" by (simp add: frame_page_def at(1))
  then show "bp_page ?b q = bp_page b q"
    using dat v(2,4) miss loaded_lookup(2) [OF ok idx miss, of q]
    by (auto simp: bp_page_def frame_page_def split: option.split)
qed

lemma loaded_pins:
  assumes ok: "bp_ok N X b" and idx: "idx < unat (bp_pool_size b)"
    and old: "evictable (bp_frames b ! idx)" "\<not> fr_is_dirty (bp_frames b ! idx)"
    and pid: "pid \<noteq> INVALID_PAGE_ID" and miss: "find_frame b pid = None"
  shows "bp_pins (loaded b idx pid) = (bp_pins b)(pid := 1)"
proof (rule ext)
  fix q
  let ?b = "loaded b idx pid" and ?v = "fr_page_id (bp_frames b ! idx)"
  note at = loaded_at [OF ok idx, where pid = pid] and v = victim_facts [OF ok idx old]
  have "bp_frames ?b ! j = bp_frames b ! j" if "find_frame b q = Some j" "q \<noteq> ?v" for j
    using find_frame_sound [OF that(1)] that(2) at(2) [of j] by (cases "j = idx") auto
  then show "bp_pins ?b q = ((bp_pins b)(pid := 1)) q"
    using v(3) pid bp_pins_invalid [OF ok] bp_pins_invalid [OF loaded_ok [OF assms]]
      loaded_lookup(2) [OF ok idx miss, of q] at(1)
    by (cases "q = INVALID_PAGE_ID") (auto simp: bp_pins_def split: option.split)
qed

lemma loaded_find:
  assumes ok: "bp_ok N X b" and idx: "idx < unat (bp_pool_size b)"
    and old: "evictable (bp_frames b ! idx)" "\<not> fr_is_dirty (bp_frames b ! idx)"
    and pid: "pid \<noteq> INVALID_PAGE_ID" and miss: "find_frame b pid = None"
  shows "find_frame (loaded b idx pid) pid = Some idx"
    and "0 < bp_pins b q \<Longrightarrow> find_frame (loaded b idx pid) q = find_frame b q"
proof -
  note ff = loaded_lookup(2) [OF ok idx miss]
  show "find_frame (loaded b idx pid) pid = Some idx" using ff [OF pid] by simp
  assume q: "0 < bp_pins b q"
  then have "q \<noteq> INVALID_PAGE_ID" "q \<noteq> pid" using bp_pins_invalid [OF ok] miss by (auto simp: bp_pins_def)
  then show "find_frame (loaded b idx pid) q = find_frame b q"
    using ff [of q] victim_facts(3) [OF ok idx old] q by auto
qed

text \<open>A fetch hits, or evicts a frame and reads the page; it fails only when every frame is
  pinned. No page's logical content changes.\<close>

definition bp_available :: "BufferPoolManager \<Rightarrow> u32 \<Rightarrow> bool" where
  "bp_available b pid \<longleftrightarrow>
     bp_cached b pid \<or> (\<exists>i < unat (bp_pool_size b). evictable (bp_frames b ! i))"

lemma find_frame_set_other:
  "bp_ok N X b \<Longrightarrow> fr_page_id f = fr_page_id (bp_frames b ! i) \<Longrightarrow>
    find_frame (set_frame i f b) = find_frame b"
  by (rule ext) (auto dest: bp_ok_length intro: find_frame_set_same)

lemma load_frame_page:
  assumes ok: "bp_ok N X b" and wf: "page_wf buf" and pid: "pid \<noteq> INVALID_PAGE_ID"
  shows "(let (n, buf', file) = fts_vfs_read_sync (bp_disk_fd b) buf PAGE_SIZE (page_offset pid) (bp_file b)
          in (if n < int PAGE_SIZE then slotted_page_init buf' pid PAGE_TYPE_ROW else buf', file))
         = (load_page (bp_file b) pid, bp_file b)"
proof (cases "on_file (bp_file b) pid")
  case True
  have "blit buf 0 (bytes_at (df_bytes (bp_file b)) (page_offset pid) PAGE_SIZE) = disk_page (bp_file b) pid"
    using wf by (auto simp: fun_eq_iff blit_def disk_page_def page_wf_def)
  moreover have "min PAGE_SIZE (df_size (bp_file b) - page_offset pid) = PAGE_SIZE"
    using True by (simp add: on_file_def)
  ultimately show ?thesis
    using ok True by (simp add: fts_vfs_read_sync_def pread_full bp_ok_def load_page_def)
next
  case False
  let ?n = "df_size (bp_file b) - page_offset pid"
  have n: "?n < PAGE_SIZE" using False by (auto simp: on_file_def)
  then have m: "min PAGE_SIZE ?n = ?n" by simp
  have "page_wf (blit buf 0 (bytes_at (df_bytes (bp_file b)) (page_offset pid) ?n))"
    using wf n by (intro page_wf_blit) simp_all
  then have "slotted_page_init (blit buf 0 (bytes_at (df_bytes (bp_file b)) (page_offset pid) ?n)) pid PAGE_TYPE_ROW
      = row_page pid"
    unfolding row_page_def by (rule init_forgets) simp
  then show ?thesis
    using ok n m False by (simp add: fts_vfs_read_sync_def pread_full bp_ok_def load_page_def)
qed

lemma loaded_frame:
  "(f :: Frame)\<lparr>fr_page_id := p, fr_pin_count := c, fr_is_dirty := d, fr_page_lsn := l, fr_page_data := x\<rparr>
    = \<lparr>fr_page_id = p, fr_pin_count = c, fr_is_dirty = d, fr_page_lsn = l, fr_page_data = x\<rparr>"
  by (cases f) simp

text \<open>A fetch that misses evicts a frame and loads the page into it.\<close>

lemma fetch_miss:
  assumes ok: "bp_ok N X b" and pid: "pid \<noteq> INVALID_PAGE_ID" and avail: "bp_available b pid" and miss: "find_frame b pid = None"
  obtains idx b1 where "buffer_pool_fetch_page b pid = (Some idx, loaded b1 idx pid)" "idx < unat (bp_pool_size b1)"
    "bp_ok N X b1" "bp_same b b1" "evictable (bp_frames b1 ! idx)" "\<not> fr_is_dirty (bp_frames b1 ! idx)"
proof -
  from miss avail have "\<exists>i < unat (bp_pool_size b). evictable (bp_frames b ! i)"
    by (simp add: bp_available_def bp_cached_def)
  then obtain idx b1 where b1: "find_victim_frame b = (Some idx, b1)" "idx < unat (bp_pool_size b)"
    "bp_ok N X b1" "bp_same b b1" "evictable (bp_frames b1 ! idx)" "\<not> fr_is_dirty (bp_frames b1 ! idx)"
    by (rule find_victim_law [OF ok])
  have same: "bp_pool_size b1 = bp_pool_size b" using b1(4) by (simp add: bp_same_def)
  have wf: "page_wf (fr_page_data (bp_frames b1 ! idx))"
    using bp_ok_frame [OF b1(3), of idx] b1(2) same by (simp add: frame_ok_def)
  obtain n buf fl where r: "fts_vfs_read_sync (bp_disk_fd b1) (fr_page_data (bp_frames b1 ! idx))
      PAGE_SIZE (page_offset pid) (bp_file b1) = (n, buf, fl)"
    by (metis prod_cases3)
  have "(if n < int PAGE_SIZE then slotted_page_init buf pid PAGE_TYPE_ROW else buf) =
      load_page (bp_file b1) pid" "fl = bp_file b1"
    using load_frame_page [OF b1(3) wf pid] by (simp_all add: r)
  then have "buffer_pool_fetch_page b pid = (Some idx, loaded b1 idx pid)"
    using miss b1 r by (simp add: buffer_pool_fetch_page_def Let_def bp_ok_def loaded_frame loaded_def)
  then show ?thesis using that b1 same by simp
qed

text \<open>A fetch caches no other page than the one it is asked for.\<close>

lemma fetch_caches:
  assumes ok: "bp_ok N X b" and pid: "pid \<noteq> INVALID_PAGE_ID" and avail: "bp_available b pid"
    and fetch: "buffer_pool_fetch_page b pid = (r, b')" and q: "q \<noteq> INVALID_PAGE_ID" "bp_cached b' q"
  shows "q = pid \<or> bp_cached b q"
proof (cases "find_frame b pid")
  case (Some i)
  then have "find_frame b' = find_frame b"
    using fetch find_frame_set_other [OF ok, of _ i]
    by (auto simp: buffer_pool_fetch_page_def Let_def)
  then show ?thesis using q(2) by (simp add: bp_cached_def)
next
  case None
  obtain idx b1 where m: "buffer_pool_fetch_page b pid = (Some idx, loaded b1 idx pid)" "idx < unat (bp_pool_size b1)"
    "bp_ok N X b1" "bp_same b b1"
    by (rule fetch_miss [OF ok pid avail None])
  have ff: "find_frame b1 = find_frame b" using m(4) by (simp add: bp_same_def)
  have "b' = loaded b1 idx pid" using fetch m(1) by simp
  then show ?thesis using loaded_lookup(2) [OF m(3,2), of pid q] None q ff by (auto simp: bp_cached_def split: if_splits)
qed

lemma fetch_law:
  assumes ok: "bp_ok N X b" and pid: "pid \<noteq> INVALID_PAGE_ID" and avail: "bp_available b pid"
    and pins: "bp_pins b pid + 1 < 2 ^ 32"
  obtains i b' where "buffer_pool_fetch_page b pid = (Some i, b')" "bp_ok N X b'"
    "find_frame b' pid = Some i" "bp_page b' = bp_page b"
    "bp_pins b' = (bp_pins b)(pid := bp_pins b pid + 1)" "bp_pool_size b' = bp_pool_size b"
    "\<And>q. 0 < bp_pins b q \<Longrightarrow> find_frame b' q = find_frame b q"
proof (cases "find_frame b pid")
  case (Some i)
  let ?f = "bp_frames b ! i"
  let ?b = "set_frame i (?f\<lparr>fr_pin_count := fr_pin_count ?f + 1\<rparr>) b"
  have i: "i < unat (bp_pool_size b)" "fr_page_id ?f = pid" using find_frame_sound [OF Some] by auto
  have len: "length (bp_frames b) = unat (bp_pool_size b)" using ok by (rule bp_ok_length)
  have inc: "unat (fr_pin_count ?f + 1) = unat (fr_pin_count ?f) + 1"
    using pins Some by (simp add: bp_pins_def unat_word_ariths)
  then have "0 < fr_pin_count ?f + 1" by (metis add_is_0 one_neq_zero unat_0 word_gt_0)
  then have fo: "frame_ok N X (bp_file b) (?f\<lparr>fr_pin_count := fr_pin_count ?f + 1\<rparr>)"
    using bp_ok_frame [OF ok i(1)] i pid by (auto simp: frame_ok_def split: if_splits)
  have ff: "find_frame ?b = find_frame b" by (rule find_frame_set_other [OF ok]) simp
  have "bp_ok N X ?b" by (rule bp_ok_set_same [OF ok _ fo]) simp
  moreover have "bp_page ?b = bp_page b"
    using len by (auto simp: fun_eq_iff bp_page_def ff frame_page_def nth_list_update_at
        dest!: find_frame_sound split: option.split)
  moreover have "bp_pins ?b = (bp_pins b)(pid := bp_pins b pid + 1)"
  proof (rule ext)
    fix q
    have "bp_frames ?b ! j = bp_frames b ! j" if "find_frame b q = Some j" "q \<noteq> pid" for j
      using find_frame_sound [OF that(1)] that(2) i len by (auto simp: nth_list_update_at)
    then show "bp_pins ?b q = ((bp_pins b)(pid := bp_pins b pid + 1)) q"
      using Some i len inc unfolding bp_pins_def ff by (auto split: option.split)
  qed
  ultimately show ?thesis
    using that [of i ?b] Some by (simp add: buffer_pool_fetch_page_def Let_def ff)
next
  case None
  obtain idx b1 where b1: "buffer_pool_fetch_page b pid = (Some idx, loaded b1 idx pid)" "idx < unat (bp_pool_size b1)"
    "bp_ok N X b1" "bp_same b b1" "evictable (bp_frames b1 ! idx)" "\<not> fr_is_dirty (bp_frames b1 ! idx)"
    by (rule fetch_miss [OF ok pid avail None])
  have same: "bp_pool_size b1 = bp_pool_size b" "find_frame b1 pid = None" "bp_pins b pid = 0"
    using b1(4) None by (simp_all add: bp_same_def bp_pins_def)
  show ?thesis
    using that [OF b1(1)] loaded_ok [OF b1(3,2,5,6) pid same(2)] loaded_page [OF b1(3,2,5,6) same(2)]
      loaded_pins [OF b1(3,2,5,6) pid same(2)] loaded_find [OF b1(3,2,5,6) pid same(2)] b1(4) same
    by (simp add: bp_same_def)
qed

text \<open>Fewer pinned pages than frames: some frame can be evicted.\<close>

lemma available_count:
  assumes ok: "bp_ok N X b" and few: "card {q. 0 < bp_pins b q} < unat (bp_pool_size b)"
  shows "\<exists>i < unat (bp_pool_size b). evictable (bp_frames b ! i)"
proof (rule ccontr)
  let ?n = "unat (bp_pool_size b)" and ?id = "\<lambda>i. fr_page_id (bp_frames b ! i)"
  assume "\<not> ?thesis"
  then have pinned: "?id i \<noteq> INVALID_PAGE_ID" "0 < unat (fr_pin_count (bp_frames b ! i))" if "i < ?n" for i
    using that by (auto simp: evictable_def unat_gt_0)
  have "inj_on ?id {..<?n}"
    using bp_ok_distinct [OF ok] pinned unfolding inj_on_def pages_distinct_def by blast
  moreover have "?id ` {..<?n} \<subseteq> {q. 0 < bp_pins b q}"
  proof clarify
    fix i assume i: "i < ?n"
    then have "find_frame b (?id i) = Some i" using pinned(1) by (simp add: find_frame_iff [OF ok])
    then show "0 < bp_pins b (?id i)" using pinned(2) [OF i] by (simp add: bp_pins_def)
  qed
  ultimately have "?n \<le> card {q. 0 < bp_pins b q}"
    by (metis card_image card_lessThan card_mono finite)
  with few show False by simp
qed

lemma fetch_none:
  assumes ok: "bp_ok N X b" and pid: "pid \<noteq> INVALID_PAGE_ID" and no: "\<not> bp_available b pid"
  obtains b' where "buffer_pool_fetch_page b pid = (None, b')" "bp_ok N X b'" "bp_same b b'"
proof -
  have "\<forall>i < unat (bp_pool_size b). \<not> evictable (bp_frames b ! i)" "find_frame b pid = None"
    using no by (auto simp: bp_available_def bp_cached_def)
  then show ?thesis
    using victim_loop_none [OF ok, of "unat (bp_pool_size b * 2)"] that
    by (auto simp: buffer_pool_fetch_page_def find_victim_frame_def)
qed

section \<open>Changing a page, releasing it, allocating a new one\<close>

lemma cached_frame:
  assumes ok: "bp_ok N X b" and pins: "0 < bp_pins b pid"
  obtains i where "find_frame b pid = Some i" "i < unat (bp_pool_size b)" "fr_page_id (bp_frames b ! i) = pid"
    "pid \<noteq> INVALID_PAGE_ID" "bp_pins b pid = unat (fr_pin_count (bp_frames b ! i))"
proof -
  obtain i where i: "find_frame b pid = Some i" using pins by (auto simp: bp_pins_def split: option.splits)
  moreover have "pid \<noteq> INVALID_PAGE_ID" using pins bp_pins_invalid [OF ok] by auto
  ultimately show ?thesis using that [of i] find_frame_sound [OF i] by (simp add: bp_pins_def)
qed

lemma other_frame:
  assumes "bp_ok N X b" "find_frame b pid = Some i" "pid \<noteq> INVALID_PAGE_ID" "j < unat (bp_pool_size b)" "j \<noteq> i"
  shows "fr_page_id (bp_frames b ! j) \<noteq> pid"
  using assms by (metis find_frame_iff option.inject)

text \<open>Replacing a frame by one for the same page, with any change of the set \<open>X\<close> at that page.\<close>

lemma bp_ok_set_X:
  assumes ok: "bp_ok N X b" and i: "find_frame b pid = Some i" and pid: "pid \<noteq> INVALID_PAGE_ID"
    and X: "X - {pid} = X' - {pid}" and id: "fr_page_id f = pid"
    and f: "frame_ok N X' (bp_file b) f"
  shows "bp_ok N X' (set_frame i f b)"
proof -
  have len: "length (bp_frames b) = unat (bp_pool_size b)" using ok by (rule bp_ok_length)
  have i': "i < unat (bp_pool_size b)" "fr_page_id f = fr_page_id (bp_frames b ! i)"
    using find_frame_sound [OF i] id by auto
  have ff: "find_frame (set_frame i f b) = find_frame b"
    by (rule find_frame_set_other [OF ok i'(2)])
  have "frame_ok N X' (bp_file b) ((bp_frames b)[i := f] ! j)" if j: "j < unat (bp_pool_size b)" for j
  proof (cases "j = i")
    case True
    then show ?thesis using f i' len by simp
  next
    case False
    then have "fr_page_id (bp_frames b ! j) \<in> X \<longleftrightarrow> fr_page_id (bp_frames b ! j) \<in> X'"
      using other_frame [OF ok i pid j] X by auto
    then show ?thesis using bp_ok_frame [OF ok j] False j len by (simp add: frame_ok_def)
  qed
  moreover have "\<forall>q\<in>X'. bp_cached b q \<and> q \<noteq> INVALID_PAGE_ID"
  proof
    fix q assume q: "q \<in> X'"
    show "bp_cached b q \<and> q \<noteq> INVALID_PAGE_ID"
    proof (cases "q = pid")
      case True
      then show ?thesis using i pid by (simp add: bp_cached_def)
    next
      case False
      then have "q \<in> X" using q X by auto
      then show ?thesis using ok by (simp add: bp_ok_def)
    qed
  qed
  moreover have "pages_distinct (set_frame i f b)"
    using bp_ok_distinct [OF ok] i' len unfolding pages_distinct_def set_frame_simps
    by (metis nth_list_update_at)
  ultimately show ?thesis
    using ok len unfolding bp_ok_def bp_cached_def ff by simp
qed

lemma set_page_law:
  assumes ok: "bp_ok N X b" and i: "find_frame b pid = Some i" and pins: "0 < bp_pins b pid" and wf: "page_wf p"
  shows "bp_ok N (insert pid X) (set_frame_page i p b)"
    "bp_page (set_frame_page i p b) = (bp_page b)(pid := p)"
    "bp_pins (set_frame_page i p b) = bp_pins b"
    "find_frame (set_frame_page i p b) = find_frame b"
    "bp_pool_size (set_frame_page i p b) = bp_pool_size b"
proof -
  let ?f = "(bp_frames b ! i)\<lparr>fr_page_data := p\<rparr>"
  obtain i': "i < unat (bp_pool_size b)" "fr_page_id (bp_frames b ! i) = pid" "pid \<noteq> INVALID_PAGE_ID"
    "0 < fr_pin_count (bp_frames b ! i)"
    using cached_frame [OF ok pins] i pins by (metis option.inject unat_gt_0 word_gt_0)
  have len: "length (bp_frames b) = unat (bp_pool_size b)" using ok by (rule bp_ok_length)
  have fo: "frame_ok N (insert pid X) (bp_file b) ?f"
    using bp_ok_frame [OF ok i'(1)] i' wf by (auto simp: frame_ok_def split: if_splits)
  show "bp_ok N (insert pid X) (set_frame_page i p b)"
    unfolding set_frame_page_def by (rule bp_ok_set_X [OF ok i i'(3) _ _ fo]) (auto simp: i')
  show ff: "find_frame (set_frame_page i p b) = find_frame b"
    unfolding set_frame_page_def by (rule find_frame_set_other [OF ok]) simp
  have bf: "bp_file (set_frame_page i p b) = bp_file b" by (simp add: set_frame_page_def)
  have at: "bp_frames (set_frame_page i p b) ! j = (if j = i then ?f else bp_frames b ! j)"
    if "j < unat (bp_pool_size b)" for j
    using that len by (auto simp: set_frame_page_def nth_list_update_at)
  have "j \<noteq> i" if "find_frame b q = Some j" "q \<noteq> pid" for q j
    using find_frame_sound [OF that(1)] that(2) i' by auto
  then show "bp_page (set_frame_page i p b) = (bp_page b)(pid := p)"
    using at i i' find_frame_sound [of b] unfolding bp_page_def ff frame_page_def bf
    by (auto simp: fun_eq_iff split: option.split)
  show "bp_pins (set_frame_page i p b) = bp_pins b"
    using at find_frame_sound [of b] by (auto simp: fun_eq_iff bp_pins_def ff split: option.split)
  show "bp_pool_size (set_frame_page i p b) = bp_pool_size b" by (simp add: set_frame_page_def)
qed

lemma unpin_law:
  assumes ok: "bp_ok N X b" and pins: "0 < bp_pins b pid"
    and dirty: "d \<Longrightarrow> unat pid < N" and clean: "\<not> d \<Longrightarrow> pid \<notin> X \<or> 1 < bp_pins b pid"
    and b'_def: "b' = buffer_pool_unpin_page b pid d hint"
  shows "bp_ok N (if d then X - {pid} else X) b'" "bp_page b' = bp_page b"
    "bp_pins b' = (bp_pins b)(pid := bp_pins b pid - 1)" "bp_pool_size b' = bp_pool_size b"
    "find_frame b' = find_frame b"
proof -
  obtain i where i: "find_frame b pid = Some i" "i < unat (bp_pool_size b)"
    "fr_page_id (bp_frames b ! i) = pid" "pid \<noteq> INVALID_PAGE_ID"
    "bp_pins b pid = unat (fr_pin_count (bp_frames b ! i))"
    using cached_frame [OF ok pins] by blast
  let ?X = "if d then X - {pid} else X" and ?g = "bp_frames b ! i"
  define f where "f = ?g\<lparr>fr_pin_count := fr_pin_count ?g - 1, fr_is_dirty := fr_is_dirty ?g \<or> d\<rparr>"
  have len: "length (bp_frames b) = unat (bp_pool_size b)" using ok by (rule bp_ok_length)
  have pos: "0 < fr_pin_count ?g" using pins i(5) by (metis unat_gt_0 word_gt_0)
  have dec: "unat (fr_pin_count ?g - 1) = unat (fr_pin_count ?g) - 1"
    using pos by (simp add: unat_minus_one word_gt_0)
  have upd: "(let f = ?g; f = (if 0 < fr_pin_count f then f\<lparr>fr_pin_count := fr_pin_count f - 1\<rparr> else f)
      in if d then f\<lparr>fr_is_dirty := True\<rparr> else f) = f"
    using pos by (simp add: f_def Let_def)
  define c where "c = set_frame i f b"
  have b': "b' = (if fr_pin_count f = 0 \<and> hint = HINT_SEQUENTIAL_SCAN
      then c\<lparr>bp_clock_hand := of_nat i\<rparr> else c)"
    using upd pos unfolding b'_def c_def
    by (simp add: buffer_pool_unpin_page_def i(1) Let_def f_def)
  have fo: "frame_ok N ?X (bp_file b) f"
  proof -
    have "0 < fr_pin_count ?g - 1" if "\<not> d" "pid \<in> X"
      using clean that i(5) dec by (metis unat_gt_0 word_gt_0 zero_less_diff)
    then show ?thesis
      using bp_ok_frame [OF ok i(2)] i(3,4) dirty by (auto simp: frame_ok_def f_def split: if_splits)
  qed
  have okc: "bp_ok N ?X c"
    unfolding c_def by (rule bp_ok_set_X [OF ok i(1,4) _ _ fo]) (auto simp: f_def i)
  have ff: "find_frame c = find_frame b"
    unfolding c_def by (rule find_frame_set_other [OF ok]) (simp add: f_def)
  have at: "bp_frames c ! j = (if j = i then f else bp_frames b ! j)" if "j < unat (bp_pool_size b)" for j
    using that len by (auto simp: c_def nth_list_update_at)
  have ni: "j \<noteq> i" if "find_frame b q = Some j" "q \<noteq> pid" for q j
    using find_frame_sound [OF that(1)] that(2) i by auto
  have bf: "bp_file c = bp_file b" by (simp add: c_def)
  have page: "bp_page c = bp_page b"
    using at find_frame_sound [of b] unfolding bp_page_def ff frame_page_def bf
    by (auto simp: fun_eq_iff f_def split: option.split)
  have pinsc: "bp_pins c = (bp_pins b)(pid := bp_pins b pid - 1)"
    using at ni i dec find_frame_sound [of b] unfolding bp_pins_def ff
    by (auto simp: fun_eq_iff f_def split: option.split)
  have idx: "unat (of_nat i :: u32) < unat (bp_pool_size c)"
    using i(2) by (simp add: c_def unat_of_nat le_less_trans [OF mod_less_eq_dividend])
  have same: "bp_same c (c\<lparr>bp_clock_hand := of_nat i\<rparr>)" by (rule bp_same_clock)
  show "bp_ok N ?X b'" using okc bp_ok_clock [OF okc idx] by (simp add: b')
  show "bp_page b' = bp_page b" using page same by (simp add: b' bp_same_def)
  show "bp_pins b' = (bp_pins b)(pid := bp_pins b pid - 1)" using pinsc same by (simp add: b' bp_same_def)
  show "bp_pool_size b' = bp_pool_size b" by (simp add: b' c_def)
  show "find_frame b' = find_frame b" using ff same by (simp add: b' bp_same_def)
qed

text \<open>A page is allocated by fetching the page after the last one and keeping it pinned.\<close>

lemma grow_law:
  assumes ok: "bp_ok N X b" and pid: "unat pid = N" and N: "N + 1 < 2 ^ 32" and pins: "0 < bp_pins b pid"
  shows "bp_ok (N + 1) (insert pid X) b"
proof -
  obtain i where i: "find_frame b pid = Some i" "i < unat (bp_pool_size b)"
    "fr_page_id (bp_frames b ! i) = pid" "pid \<noteq> INVALID_PAGE_ID"
    "bp_pins b pid = unat (fr_pin_count (bp_frames b ! i))"
    using cached_frame [OF ok pins] by blast
  have pos: "0 < fr_pin_count (bp_frames b ! i)" using pins i(5) by (metis unat_gt_0 word_gt_0)
  have "frame_ok (N + 1) (insert pid X) (bp_file b) (bp_frames b ! j)" if j: "j < unat (bp_pool_size b)" for j
  proof (cases "j = i")
    case True
    then show ?thesis using bp_ok_frame [OF ok j] i pos pid by (auto simp: frame_ok_def split: if_splits)
  next
    case False
    have "fr_page_id (bp_frames b ! j) \<noteq> pid" by (rule other_frame [OF ok i(1,4) j False])
    moreover from this have "unat (fr_page_id (bp_frames b ! j)) \<noteq> N" using pid by (metis word_unat_eq_iff)
    ultimately show ?thesis
      using bp_ok_frame [OF ok j] by (auto simp: frame_ok_def less_Suc_eq split: if_splits)
  qed
  moreover have "on_file (bp_file b) q \<or> bp_cached b q" if "unat q < N + 1" for q
  proof (cases "unat q = N")
    case True
    then have "q = pid" using pid by (metis word_unat_eq_iff)
    then show ?thesis using i(1) by (simp add: bp_cached_def)
  next
    case False
    then show ?thesis using that ok by (simp add: bp_ok_def)
  qed
  moreover have "bp_cached b pid" using i(1) by (simp add: bp_cached_def)
  ultimately show ?thesis using ok N i(4) unfolding bp_ok_def by simp
qed

section \<open>Allocation on the file\<close>

text \<open>The callers extend the data file by writing a zeroed page through the pool's VFS.\<close>

definition bp_write_zero :: "BufferPoolManager \<Rightarrow> u32 \<Rightarrow> int \<times> BufferPoolManager" where
  "bp_write_zero b pid =
     (let (res, file) = fts_vfs_write_sync (bp_disk_fd b) (\<lambda>_. 0) PAGE_SIZE (page_offset pid) (bp_file b)
      in (res, b\<lparr>bp_file := file\<rparr>))"

lemma bp_write_zero_eq:
  "bp_ok N X b \<Longrightarrow> bp_write_zero b pid =
    (int PAGE_SIZE, b\<lparr>bp_file := write_page (bp_file b) pid (\<lambda>_. 0)\<rparr>)"
  by (simp add: bp_write_zero_def bp_ok_def fts_vfs_write_sync_def pwrite_full write_page_def)

text \<open>Writing to the file at a page that no clean frame caches.\<close>

lemma bp_ok_write_file:
  assumes ok: "bp_ok N X b" and M: "unat pid < M" "M = N \<or> M = N + 1 \<and> unat pid = N" "M < 2 ^ 32"
    and free: "pid \<in> X \<or> \<not> bp_cached b pid" and wf: "page_wf p"
    and b': "b' = b\<lparr>bp_file := write_page (bp_file b) pid p\<rparr>"
  shows "bp_ok M X b'" "q \<noteq> pid \<Longrightarrow> bp_page b' q = bp_page b q"
    "bp_pins b' = bp_pins b" "find_frame b' = find_frame b"
proof -
  let ?d = "write_page (bp_file b) pid p"
  show ff: "find_frame b' = find_frame b" and "bp_pins b' = bp_pins b"
    by (rule bp_view_cong; simp add: b')+
  have NM: "N \<le> M" "M \<le> N + 1" using M by auto
  have size: "df_size ?d \<le> M * PAGE_SIZE"
    using ok M NM by (auto simp: bp_ok_def write_page_def page_offset_def)
  have new: "unat q < M \<Longrightarrow> q \<noteq> pid \<Longrightarrow> unat q < N" for q
    using M by (metis add.commute less_Suc_eq plus_1_eq_Suc word_unat_eq_iff)
  have fr: "frame_ok M X ?d (bp_frames b ! j)" if j: "j < unat (bp_pool_size b)" for j
  proof (cases "fr_page_id (bp_frames b ! j) = pid")
    case True
    then have "pid \<in> X" using free j by (auto simp: bp_cached_iff)
    then show ?thesis using bp_ok_frame [OF ok j] True M by (auto simp: frame_ok_def split: if_splits)
  next
    case False
    then show ?thesis
      using bp_ok_frame [OF ok j] NM new [of "fr_page_id (bp_frames b ! j)"]
      by (auto simp: frame_ok_def disk_page_write [OF wf] on_file_write split: if_splits)
  qed
  have d: "pages_distinct b'" using bp_ok_distinct [OF ok] by (simp add: pages_distinct_def b')
  have on: "\<forall>q. unat q < M \<longrightarrow> on_file ?d q \<or> bp_cached b q"
    using ok on_file_write new unfolding bp_ok_def by metis
  have c: "bp_cached b' = bp_cached b" by (simp add: fun_eq_iff bp_cached_def ff)
  have bf: "bp_file b' = ?d" by (simp add: b')
  show ok': "bp_ok M X b'"
    using ok d fr on size M unfolding bp_ok_def c by (simp add: b')
  show "bp_page b' q = bp_page b q" if q: "q \<noteq> pid"
  proof -
    have "load_page ?d q = load_page (bp_file b) q" if "q = INVALID_PAGE_ID \<or> find_frame b q = None"
    proof (cases "unat q < N")
      case True
      then have "on_file (bp_file b) q"
        using that ok not_allocated_invalid [OF ok True] unfolding bp_ok_def bp_cached_def by blast
      then show ?thesis using q by (simp add: load_page_def on_file_write disk_page_write [OF wf])
    next
      case False
      then have "\<not> on_file (bp_file b) q" "\<not> on_file (bp_file b') q"
        using not_on_file_beyond [OF ok] not_on_file_beyond [OF ok', of q] new [of q] q by force+
      then show ?thesis by (simp add: load_page_def b')
    qed
    then show ?thesis
      unfolding bp_page_def ff bf frame_page_def by (auto simp: b' split: option.split)
  qed
qed

lemma bp_ok_insert_X:
  assumes ok: "bp_ok N X b" and pins: "0 < bp_pins b pid"
  shows "bp_ok N (insert pid X) b"
proof -
  obtain i where i: "find_frame b pid = Some i" "i < unat (bp_pool_size b)"
    "fr_page_id (bp_frames b ! i) = pid" "pid \<noteq> INVALID_PAGE_ID"
    "bp_pins b pid = unat (fr_pin_count (bp_frames b ! i))"
    using cached_frame [OF ok pins] by blast
  have pos: "0 < fr_pin_count (bp_frames b ! i)" using pins i(5) by (metis unat_gt_0 word_gt_0)
  have "frame_ok N (insert pid X) (bp_file b) (bp_frames b ! i)"
    using bp_ok_frame [OF ok i(2)] i pos by (auto simp: frame_ok_def split: if_splits)
  then have "bp_ok N (insert pid X) (set_frame i (bp_frames b ! i) b)"
    by (intro bp_ok_set_X [OF ok i(1,4)]) (auto simp: i)
  then show ?thesis by (simp add: set_frame_def)
qed

lemma alloc_law:
  assumes ok: "bp_ok N X b" and pid: "unat pid = N" and N: "N + 1 < 2 ^ 32" and pins: "bp_pins b pid = 0"
    and room: "card {q. 0 < bp_pins b q} < unat (bp_pool_size b)"
  obtains i b' where "buffer_pool_fetch_page (snd (bp_write_zero b pid)) pid = (Some i, b')"
    "bp_ok (N + 1) (insert pid X) b'" "find_frame b' pid = Some i"
    "bp_page b' = (bp_page b)(pid := bp_page b' pid)" "bp_pins b' = (bp_pins b)(pid := 1)"
    "bp_pool_size b' = bp_pool_size b" "\<And>q. 0 < bp_pins b q \<Longrightarrow> find_frame b' q = find_frame b q"
proof -
  have inv: "pid \<noteq> INVALID_PAGE_ID"
    using pid N by (auto simp: unsigned_minus_1_eq_mask mask_eq_exp_minus_1)
  let ?z = "\<lambda>b. b\<lparr>bp_file := write_page (bp_file b) pid (\<lambda>_. 0)\<rparr>"
  have zero: "snd (bp_write_zero b pid) = ?z b" by (simp add: bp_write_zero_eq [OF ok])
  note wr = bp_ok_write_file [where pid = pid and p = "\<lambda>_. 0"]
  show ?thesis
  proof (cases "find_frame b pid")
    case None
    then have free: "pid \<in> X \<or> \<not> bp_cached b pid" by (simp add: bp_cached_def)
    have ok1: "bp_ok (N + 1) X (?z b)"
      by (rule wr(1) [OF ok _ _ N free]) (simp_all add: pid)
    have w: "bp_pins (?z b) = bp_pins b" "find_frame (?z b) = find_frame b"
      "q \<noteq> pid \<Longrightarrow> bp_page (?z b) q = bp_page b q" for q
      using wr(3,4) [OF ok _ _ N free, of "?z b"] wr(2) [OF ok _ _ N free, of "?z b" q] pid
      by simp_all
    have "bp_available (?z b) pid"
      using available_count [OF ok1] room w by (simp add: bp_available_def)
    then obtain i b' where f: "buffer_pool_fetch_page (?z b) pid = (Some i, b')" "bp_ok (N + 1) X b'"
      "find_frame b' pid = Some i" "bp_page b' = bp_page (?z b)"
      "bp_pins b' = (bp_pins (?z b))(pid := bp_pins (?z b) pid + 1)" "bp_pool_size b' = bp_pool_size (?z b)"
      "\<And>q. 0 < bp_pins (?z b) q \<Longrightarrow> find_frame b' q = find_frame (?z b) q"
      using fetch_law [OF ok1 inv] pins w by auto
    have "bp_ok (N + 1) (insert pid X) b'"
      by (rule bp_ok_insert_X [OF f(2)]) (simp add: f)
    moreover have "bp_page b' = (bp_page b)(pid := bp_page b' pid)"
      by (rule ext) (simp add: f(4) w)
    ultimately show ?thesis using that [of i b'] f w pins zero by simp
  next
    case (Some i)
    have "bp_available b pid" using Some by (simp add: bp_available_def bp_cached_def)
    then obtain j b1 where f: "buffer_pool_fetch_page b pid = (Some j, b1)" "bp_ok N X b1"
      "find_frame b1 pid = Some j" "bp_page b1 = bp_page b"
      "bp_pins b1 = (bp_pins b)(pid := bp_pins b pid + 1)" "bp_pool_size b1 = bp_pool_size b"
      "\<And>q. 0 < bp_pins b q \<Longrightarrow> find_frame b1 q = find_frame b q"
      using fetch_law [OF ok inv] pins by auto
    have fz: "buffer_pool_fetch_page (?z b) pid = (Some j, ?z b1)"
      using f(1) Some
      by (auto simp: buffer_pool_fetch_page_def find_frame_def set_frame_def Let_def)
    have ok1: "bp_ok (N + 1) (insert pid X) b1"
      by (rule grow_law [OF f(2) pid N]) (simp add: f)
    have w: "bp_ok (N + 1) (insert pid X) (?z b1)" "bp_pins (?z b1) = bp_pins b1"
      "find_frame (?z b1) = find_frame b1" "q \<noteq> pid \<Longrightarrow> bp_page (?z b1) q = bp_page b1 q" for q
      using wr(1,3,4) [OF ok1 _ _ N, of "?z b1"] wr(2) [OF ok1 _ _ N, of "?z b1" q] pid by simp_all
    have "bp_page (?z b1) = (bp_page b)(pid := bp_page (?z b1) pid)"
      by (rule ext) (simp add: f(4) w)
    then show ?thesis using that [of j "?z b1"] fz f w pins zero by simp
  qed
qed

section \<open>The page-cache contract\<close>

definition bp_st :: "nat \<Rightarrow> u32 set \<Rightarrow> u32 list \<Rightarrow> (u32 \<Rightarrow> page) \<Rightarrow> BufferPoolManager \<Rightarrow> bool" where
  "bp_st N X ps P b \<longleftrightarrow> bp_ok N X b \<and> bp_page b = P \<and> bp_pins b = count_list ps \<and>
     4 \<le> unat (bp_pool_size b)"

lemma bp_st_room: "bp_st N X ps P b \<Longrightarrow> length ps < 4 \<Longrightarrow>
  card {q. 0 < bp_pins b q} < unat (bp_pool_size b)"
proof -
  assume st: "bp_st N X ps P b" "length ps < 4"
  have "{q. 0 < bp_pins b q} = set ps" using st by (auto simp: bp_st_def count_list_0_iff neq0_conv [symmetric] simp del: neq0_conv)
  then show ?thesis using st card_length [of ps] by (simp add: bp_st_def)
qed

lemma bp_st_pins: "bp_st N X ps P b \<Longrightarrow> 0 < bp_pins b pid \<longleftrightarrow> pid \<in> set ps"
  by (auto simp: bp_st_def count_list_0_iff neq0_conv [symmetric] simp del: neq0_conv)

lemma bp_st_fetch:
  assumes st: "bp_st N X ps P b" and len: "length ps < 4" and pid: "pid \<noteq> INVALID_PAGE_ID"
  shows "\<exists>f c'. buffer_pool_fetch_page b pid = (Some f, c') \<and> bp_st N X (pid # ps) P c' \<and>
    find_frame c' pid = Some f \<and> (\<forall>q \<in> set ps. find_frame c' q = find_frame b q)"
proof -
  have ok: "bp_ok N X b" using st by (simp add: bp_st_def)
  have "bp_available b pid"
    using available_count [OF ok bp_st_room [OF st len]] by (simp add: bp_available_def)
  moreover have "bp_pins b pid + 1 < 2 ^ 32"
    using st len count_le_length [of ps pid] by (simp add: bp_st_def)
  ultimately obtain i b' where f: "buffer_pool_fetch_page b pid = (Some i, b')" "bp_ok N X b'"
    "find_frame b' pid = Some i" "bp_page b' = bp_page b"
    "bp_pins b' = (bp_pins b)(pid := bp_pins b pid + 1)" "bp_pool_size b' = bp_pool_size b"
    "\<And>q. 0 < bp_pins b q \<Longrightarrow> find_frame b' q = find_frame b q"
    using fetch_law [OF ok pid] by blast
  have "bp_st N X (pid # ps) P b'" using f st by (auto simp: bp_st_def fun_eq_iff)
  then show ?thesis using f bp_st_pins [OF st] by auto
qed

lemma bp_st_frame:
  assumes st: "bp_st N X ps P b" and pid: "pid \<in> set ps" and f: "find_frame b pid = Some f"
  shows "frame_page b f = P pid"
proof -
  have "bp_pins b INVALID_PAGE_ID = 0"
    by (rule bp_pins_invalid [of N X]) (use st in \<open>simp add: bp_st_def\<close>)
  then have "pid \<noteq> INVALID_PAGE_ID" using pid bp_st_pins [OF st, of pid] by auto
  then show ?thesis using st f by (auto simp: bp_st_def bp_page_def)
qed

lemma bp_st_update:
  assumes st: "bp_st N X ps P b" and pid: "pid \<in> set ps" and f: "find_frame b pid = Some f" and wf: "page_wf p"
  shows "bp_st N (insert pid X) ps (P(pid := p)) (set_frame_page f p b) \<and>
    find_frame (set_frame_page f p b) = find_frame b"
  using set_page_law [of N X b pid f p] st f wf bp_st_pins [OF st, of pid] pid by (simp add: bp_st_def)

lemma count_list_remove1: "count_list (remove1 x xs) = (count_list xs)(x := count_list xs x - 1)"
  by (rule ext, induction xs) (auto split: if_splits)

lemma bp_st_unpin_dirty:
  assumes st: "bp_st N X ps P b" and pid: "pid \<in> set ps" and N: "unat pid < N"
  shows "bp_st N (X - {pid}) (remove1 pid ps) P (buffer_pool_unpin_page b pid True h) \<and>
    find_frame (buffer_pool_unpin_page b pid True h) = find_frame b"
  using unpin_law [of N X b pid True, OF _ _ _ _ refl] st N bp_st_pins [OF st, of pid] pid
  by (simp add: bp_st_def count_list_remove1)

lemma bp_st_unpin_clean:
  assumes st: "bp_st N X ps P b" and pid: "pid \<in> set ps" and X: "pid \<notin> X"
  shows "bp_st N X (remove1 pid ps) P (buffer_pool_unpin_page b pid False h) \<and>
    find_frame (buffer_pool_unpin_page b pid False h) = find_frame b"
  using unpin_law [of N X b pid False, OF _ _ _ _ refl] st X bp_st_pins [OF st, of pid] pid
  by (simp add: bp_st_def count_list_remove1)

lemma bp_st_alloc:
  assumes st: "bp_st N X ps P b" and len: "length ps < 4" and pid: "unat pid = N" "pid \<notin> set ps"
    and N: "N + 1 < 2 ^ 32"
  shows "\<exists>f c' p. buffer_pool_fetch_page (snd (bp_write_zero b pid)) pid = (Some f, c') \<and> page_wf p \<and>
    bp_st (N + 1) (insert pid X) (pid # ps) (P(pid := p)) c' \<and> find_frame c' pid = Some f \<and>
    (\<forall>q \<in> set ps. find_frame c' q = find_frame b q)"
proof -
  have ok: "bp_ok N X b" and zero: "bp_pins b pid = 0"
    using st bp_st_pins [OF st, of pid] pid by (auto simp: bp_st_def)
  obtain i b' where f: "buffer_pool_fetch_page (snd (bp_write_zero b pid)) pid = (Some i, b')"
    "bp_ok (N + 1) (insert pid X) b'" "find_frame b' pid = Some i"
    "bp_page b' = (bp_page b)(pid := bp_page b' pid)" "bp_pins b' = (bp_pins b)(pid := 1)"
    "bp_pool_size b' = bp_pool_size b" "\<And>q. 0 < bp_pins b q \<Longrightarrow> find_frame b' q = find_frame b q"
    using alloc_law [OF ok pid(1) N zero bp_st_room [OF st len]] by blast
  have "bp_st (N + 1) (insert pid X) (pid # ps) (P(pid := bp_page b' pid)) b'"
    unfolding bp_st_def
  proof (intro conjI f(2))
    have "bp_page b = P" using st by (simp add: bp_st_def)
    then show "bp_page b' = P(pid := bp_page b' pid)" using f(4) by (rule back_subst [of "\<lambda>P. bp_page b' = P(pid := bp_page b' pid)", rotated])
    show "bp_pins b' = count_list (pid # ps)" "4 \<le> unat (bp_pool_size b')"
      using f(5,6) st zero by (auto simp: bp_st_def fun_eq_iff)
  qed
  moreover have "\<forall>q \<in> set ps. find_frame b' q = find_frame b q"
    using f(7) by (simp add: bp_st_pins [OF st])
  ultimately have "buffer_pool_fetch_page (snd (bp_write_zero b pid)) pid = (Some i, b') \<and>
    page_wf (bp_page b' pid) \<and> bp_st (N + 1) (insert pid X) (pid # ps) (P(pid := bp_page b' pid)) b' \<and>
    find_frame b' pid = Some i \<and> (\<forall>q \<in> set ps. find_frame b' q = find_frame b q)"
    by (intro conjI f(1,3) bp_page_wf [OF f(2)])
  then show ?thesis by (intro exI)
qed

lemma bp_st_page_wf: "bp_st N X ps P b \<Longrightarrow> page_wf (P pid)"
  by (auto simp: bp_st_def bp_page_wf)

interpretation pool: page_cache buffer_pool_fetch_page "\<lambda>b pid. snd (bp_write_zero b pid)"
  buffer_pool_unpin_page frame_page set_frame_page find_frame bp_st 4
  by unfold_locales
    (rule bp_st_fetch bp_st_frame bp_st_update bp_st_unpin_dirty bp_st_unpin_clean bp_st_alloc
      bp_st_page_wf; assumption | simp)+

text \<open>The log behind the pool is not part of the pages.\<close>

lemma bp_st_wal:
  assumes "bp_st N X ps P b"
  shows "bp_st N X ps P (b\<lparr>bp_wal := w\<rparr>) \<and> find_frame (b\<lparr>bp_wal := w\<rparr>) = find_frame b"
proof -
  let ?b = "b\<lparr>bp_wal := w\<rparr>"
  have "bp_ok N X ?b"
    by (rule bp_ok_cong [of N X b]) (use assms in \<open>auto simp: bp_st_def dest: bp_ok_hand\<close>)
  then show ?thesis
    using assms bp_view_cong [of ?b b] by (simp add: bp_st_def)
qed

section \<open>A fresh pool\<close>

lemma init_st:
  assumes "0 \<le> fd" "df_plan d = []" "df_size d = N * PAGE_SIZE" "N < 2 ^ 32"
    and size: "4 \<le> unat n" "unat n < 2 ^ 31"
  shows "\<exists>b. buffer_pool_init fd wal n d True = Some b \<and> bp_st N {} [] (load_page d) b"
proof -
  let ?b = "the (buffer_pool_init fd wal n d True)"
  have b: "bp_frames ?b = replicate (unat n) empty_frame" "bp_pool_size ?b = n" "bp_clock_hand ?b = 0"
    "bp_disk_fd ?b = fd" "bp_file ?b = d"
    by (simp_all add: buffer_pool_init_def)
  have none: "find_frame ?b q = None" if "q \<noteq> INVALID_PAGE_ID" for q
    using that by (auto simp: find_frame_none b empty_frame_def)
  have pins: "bp_pins ?b q = 0" for q
    using find_frame_sound [of ?b q] by (auto simp: bp_pins_def b empty_frame_def split: option.split)
  have "on_file d q" if "unat q < N" for q
    using that assms by (simp add: on_file_def page_offset_def)
  moreover have "frame_ok N {} d empty_frame" by (simp add: frame_ok_def empty_frame_def)
  moreover have "pages_distinct ?b" by (simp add: pages_distinct_def b empty_frame_def)
  ultimately have "bp_ok N {} ?b" using assms by (simp add: bp_ok_def b)
  moreover have "bp_page ?b = load_page d" using none by (auto simp: bp_page_def b fun_eq_iff split: option.split)
  ultimately have "bp_st N {} [] (load_page d) ?b" using pins size by (simp add: bp_st_def b fun_eq_iff)
  then show ?thesis by (simp add: buffer_pool_init_def)
qed

text \<open>Setting the dirty bit early makes no difference when the page is released dirty.\<close>

lemma unpin_predirty:
  assumes "bp_ok N X b" "find_frame b pid = Some f"
  shows "buffer_pool_unpin_page (set_frame f ((bp_frames b ! f)\<lparr>fr_page_data := p, fr_is_dirty := True\<rparr>) b) pid True h =
    buffer_pool_unpin_page (set_frame_page f p b) pid True h"
proof -
  have f: "f < length (bp_frames b)" using find_frame_sound [OF assms(2)] bp_ok_length [OF assms(1)] by simp
  have ff: "find_frame (set_frame f g b) pid = Some f" if "fr_page_id g = fr_page_id (bp_frames b ! f)" for g
    using find_frame_set_other [OF assms(1) that] assms(2) by simp
  then show ?thesis
    using f by (simp add: buffer_pool_unpin_page_def set_frame_page_def Let_def set_frame_def)
qed

end
