(* ===== verification/TermMap.thy ===== *)
theory TermMap
  imports Prelude
begin

text \<open>
  What the inverted index relies on when it keeps its term directory in the B-tree: a
  finite map from keys to a page and a slot, stored in pages \<open>F\<close> of a page store with
  contents \<open>P\<close> and \<open>N\<close> allocated pages. Operations return \<open>None\<close> when they do not return
  at all; the laws say that they do. An operation changes no other allocated page.
\<close>

text \<open>Inserting several entries, stopping at the first that fails or does not return.\<close>

fun run_inserts :: "(u64 \<Rightarrow> u32 \<Rightarrow> u16 \<Rightarrow> 's \<Rightarrow> (bool \<times> 's) option) \<Rightarrow>
    (u64 \<times> u32 \<times> u16) list \<Rightarrow> 's \<Rightarrow> 's option" where
  "run_inserts ins [] s = Some s"
| "run_inserts ins ((k, p, t) # es) s =
     (case ins k p t s of Some (True, s') \<Rightarrow> run_inserts ins es s' | _ \<Rightarrow> None)"

locale term_map =
  fixes search :: "u64 \<Rightarrow> 's \<Rightarrow> ((u32 \<times> u16) option \<times> 's) option"
    and insert_new :: "u64 \<Rightarrow> u32 \<Rightarrow> u16 \<Rightarrow> 's \<Rightarrow> (bool \<times> 's) option"
    and set_old :: "u64 \<Rightarrow> u32 \<Rightarrow> u16 \<Rightarrow> 's \<Rightarrow> (bool \<times> 's) option"
    and inv :: "nat \<Rightarrow> (u32 \<Rightarrow> page) \<Rightarrow> (u64 \<rightharpoonup> u32 \<times> u16) \<Rightarrow> u32 set \<Rightarrow> 's \<Rightarrow> bool"
  assumes search_inv: "inv N P M F s \<Longrightarrow> \<exists>s'. search k s = Some (M k, s') \<and> inv N P M F s'"
    and insert_inv: "inv N P M F s \<Longrightarrow> M k = None \<Longrightarrow> N + 1 < 2 ^ 32 \<Longrightarrow>
      \<exists>s' N' P' F'. insert_new k p t s = Some (True, s') \<and> inv N' P' (M(k \<mapsto> (p, t))) F' s' \<and>
        N \<le> N' \<and> N' \<le> N + 1 \<and> F \<subseteq> F' \<and> (\<forall>q. unat q < N \<and> q \<notin> F \<longrightarrow> q \<notin> F' \<and> P' q = P q)"
    and update_inv: "inv N P M F s \<Longrightarrow>
      \<exists>s' P'. set_old k p t s = Some (M k \<noteq> None, s') \<and>
        inv N P' (if M k = None then M else M(k \<mapsto> (p, t))) F s' \<and> (\<forall>q. q \<notin> F \<longrightarrow> P' q = P q)"
begin

lemma search_after_insert:
  assumes "inv N P M F s" "M k = None" "N + 1 < 2 ^ 32"
  shows "\<exists>s1. insert_new k p t s = Some (True, s1) \<and>
    (\<exists>s2. search k s1 = Some (Some (p, t), s2)) \<and>
    (\<forall>k'. k' \<noteq> k \<longrightarrow> (\<exists>s2. search k' s1 = Some (M k', s2)))"
proof -
  obtain s1 N' P' F' where s1: "insert_new k p t s = Some (True, s1)" "inv N' P' (M(k \<mapsto> (p, t))) F' s1"
    using insert_inv [OF assms] by blast
  have "\<exists>s2. search k' s1 = Some ((M(k \<mapsto> (p, t))) k', s2)" for k'
    using search_inv [OF s1(2)] by blast
  then show ?thesis using s1(1) by (metis fun_upd_other fun_upd_same)
qed

lemma search_after_update:
  assumes "inv N P M F s" "M k \<noteq> None"
  shows "\<exists>s1. set_old k p t s = Some (True, s1) \<and>
    (\<exists>s2. search k s1 = Some (Some (p, t), s2)) \<and>
    (\<forall>k'. k' \<noteq> k \<longrightarrow> (\<exists>s2. search k' s1 = Some (M k', s2)))"
proof -
  obtain s1 P' where s1: "set_old k p t s = Some (M k \<noteq> None, s1)"
    "inv N P' (if M k = None then M else M(k \<mapsto> (p, t))) F s1"
    using update_inv [OF assms(1)] by blast
  then have "inv N P' (M(k \<mapsto> (p, t))) F s1" using assms(2) by simp
  then have "\<exists>s2. search k' s1 = Some ((M(k \<mapsto> (p, t))) k', s2)" for k'
    using search_inv by blast
  note found = this
  have "\<exists>s2. search k s1 = Some (Some (p, t), s2)" using found [of k] by simp
  moreover have "\<exists>s2. search k' s1 = Some (M k', s2)" if "k' \<noteq> k" for k' using found [of k'] that by simp
  ultimately show ?thesis using s1(1) assms(2) by auto
qed

lemma search_after_inserts:
  "inv N P M F s \<Longrightarrow> distinct (map fst es) \<Longrightarrow> \<forall>e \<in> set es. M (fst e) = None \<Longrightarrow> N + length es < 2 ^ 32 \<Longrightarrow>
    \<exists>s'. run_inserts insert_new es s = Some s' \<and> (\<forall>k. \<exists>s''. search k s' = Some ((M ++ map_of es) k, s''))"
proof (induction es arbitrary: N P M F s)
  case Nil
  then show ?case using search_inv by fastforce
next
  case (Cons e es)
  obtain k p t where e: "e = (k, p, t)" by (cases e)
  obtain s1 N1 P1 F1 where s1: "insert_new k p t s = Some (True, s1)" "inv N1 P1 (M(k \<mapsto> (p, t))) F1 s1" "N1 \<le> N + 1"
    using insert_inv [OF Cons.prems(1), of k p t] Cons.prems(3,4) by (auto simp: e)
  have "\<exists>s'. run_inserts insert_new es s1 = Some s' \<and>
      (\<forall>k'. \<exists>s''. search k' s' = Some ((M(k \<mapsto> (p, t)) ++ map_of es) k', s''))"
    using Cons.prems s1(3) by (intro Cons.IH [OF s1(2)]) (auto simp: e)
  moreover have "M(k \<mapsto> (p, t)) ++ map_of es = M ++ map_of (e # es)"
    using Cons.prems(2) by (auto simp: e fun_eq_iff map_add_def map_of_eq_None_iff image_iff split: option.splits
        dest!: map_of_SomeD)
  moreover have "run_inserts insert_new (e # es) s = run_inserts insert_new es s1" using s1(1) by (simp add: e)
  ultimately show ?case by (simp only:)
qed

text \<open>An update of an absent key fails and changes nothing the map can see.\<close>

lemma update_absent:
  assumes "inv N P M F s" "M k = None"
  shows "\<exists>s1 P'. set_old k p t s = Some (False, s1) \<and> inv N P' M F s1"
  using update_inv [OF assms(1), of k p t] assms(2) by auto

end

end
