(* ===== verification/BTree.thy ===== *)
theory BTree
  imports BufferPool TermMap "HOL-Library.AList"
begin

text \<open>
  \<open>btree.c\<close> and \<open>btree.h\<close>: a chain of sorted leaf pages that maps a 64-bit key to a page
  and a slot. The pages live in the buffer pool; the page counter the tree points to is
  owned by the shard, so both are passed together as \<open>PageStore\<close>. Internal nodes are
  searched but never built by this code: a leaf that is full is split and linked to its
  new right sibling. The chain loops may not end on a cyclic chain, hence
  \<open>partial_function (option)\<close>: \<open>None\<close> is the run that does not return.
\<close>

section \<open>Node layout\<close>

record PageStore =
  ps_bpm :: BufferPoolManager
  ps_next_page_id :: u32

abbreviation (input) BTREE_MAX_LEAF_ENTRIES :: nat where "BTREE_MAX_LEAF_ENTRIES \<equiv> 250"
abbreviation (input) sizeof_BTreeLeafEntry :: nat where "sizeof_BTreeLeafEntry \<equiv> 16"

abbreviation entry_off :: "nat \<Rightarrow> nat" where "entry_off i \<equiv> 28 + 16 * i"
abbreviation next_leaf_id :: "page \<Rightarrow> u32" where "next_leaf_id p \<equiv> get_u32 p 24"

type_synonym leaf_entry = "u64 \<times> u32 \<times> u16"

definition entry_at :: "page \<Rightarrow> nat \<Rightarrow> leaf_entry" where
  "entry_at p i = (get_u64 p (entry_off i), get_u32 p (entry_off i + 8), get_u16 p (entry_off i + 12))"

abbreviation entry_key :: "page \<Rightarrow> nat \<Rightarrow> u64" where "entry_key p i \<equiv> fst (entry_at p i)"

text \<open>Internal nodes: the first child and then key and child per entry.\<close>

abbreviation first_child_id :: "page \<Rightarrow> u32" where "first_child_id p \<equiv> get_u32 p 24"

definition node_key :: "page \<Rightarrow> nat \<Rightarrow> u64" where
  "node_key p i = get_u64 p (entry_off i)"

definition node_child :: "page \<Rightarrow> nat \<Rightarrow> u32" where
  "node_child p i = get_u32 p (entry_off i + 8)"

section \<open>Operations\<close>

definition btree_init :: "u32 \<Rightarrow> BufferPoolManager \<Rightarrow> BufferPoolManager" where
  "btree_init root_page_id b =
     (case buffer_pool_fetch_page b root_page_id of
        (None, b) \<Rightarrow> b
      | (Some f, b) \<Rightarrow>
          let p = frame_page b f;
              b = (if hdr_page_type p \<noteq> page_type_code PAGE_TYPE_BTREE_LEAF \<and>
                      hdr_page_type p \<noteq> page_type_code PAGE_TYPE_BTREE_INTERNAL
                   then let p = slotted_page_init p root_page_id PAGE_TYPE_BTREE_LEAF;
                            p = put_u32 p 24 INVALID_PAGE_ID;
                            p = slotted_page_compute_checksum p
                        in set_frame f ((bp_frames b ! f)\<lparr>fr_page_data := p, fr_is_dirty := True\<rparr>) b
                   else b)
          in buffer_pool_unpin_page b root_page_id (fr_is_dirty (bp_frames b ! f)) HINT_NORMAL)"

fun route_child :: "page \<Rightarrow> u64 \<Rightarrow> nat list \<Rightarrow> u32 \<Rightarrow> u32" where
  "route_child p key [] next = next"
| "route_child p key (i # is) next =
     (if node_key p i \<le> key then route_child p key is (node_child p i) else next)"

definition leaf_find :: "page \<Rightarrow> u64 \<Rightarrow> nat option" where
  "leaf_find p key = find (\<lambda>i. entry_key p i = key) [0..<unat (hdr_slot_count p)]"

partial_function (option) btree_search_loop ::
  "u64 \<Rightarrow> u32 \<Rightarrow> BufferPoolManager \<Rightarrow> ((u32 \<times> u16) option \<times> BufferPoolManager) option" where
  "btree_search_loop key cur b =
     (if cur = INVALID_PAGE_ID then Some (None, b)
      else case buffer_pool_fetch_page b cur of
          (None, b1) \<Rightarrow> Some (None, b1)
        | (Some f, b1) \<Rightarrow>
            if hdr_page_type (frame_page b1 f) = page_type_code PAGE_TYPE_BTREE_INTERNAL then
              btree_search_loop key
                (route_child (frame_page b1 f) key [0..<unat (hdr_slot_count (frame_page b1 f))]
                  (first_child_id (frame_page b1 f)))
                (buffer_pool_unpin_page b1 cur False HINT_NORMAL)
            else if hdr_page_type (frame_page b1 f) = page_type_code PAGE_TYPE_BTREE_LEAF then
              (case leaf_find (frame_page b1 f) key of
                 Some i \<Rightarrow> Some (Some (snd (entry_at (frame_page b1 f) i)),
                                 buffer_pool_unpin_page b1 cur False HINT_NORMAL)
               | None \<Rightarrow> btree_search_loop key (next_leaf_id (frame_page b1 f))
                           (buffer_pool_unpin_page b1 cur False HINT_NORMAL))
            else Some (None, buffer_pool_unpin_page b1 cur False HINT_NORMAL))"

definition btree_search ::
  "u32 \<Rightarrow> u64 \<Rightarrow> BufferPoolManager \<Rightarrow> ((u32 \<times> u16) option \<times> BufferPoolManager) option" where
  "btree_search root_page_id key b = btree_search_loop key root_page_id b"

text \<open>Moving the upper half of a full leaf to a new right sibling.\<close>

definition split_right :: "page \<Rightarrow> page \<Rightarrow> u32 \<Rightarrow> page" where
  "split_right old new_buf new_id =
     (let p = slotted_page_init new_buf new_id PAGE_TYPE_BTREE_LEAF;
          mid = unat (hdr_slot_count old) div 2;
          move_count = unat (hdr_slot_count old) - mid;
          p = blit p (entry_off 0) (bytes_at old (entry_off mid) (move_count * sizeof_BTreeLeafEntry));
          p = put_u16 p 22 (of_nat move_count)
      in put_u32 p 24 (next_leaf_id old))"

definition split_left :: "page \<Rightarrow> u32 \<Rightarrow> page" where
  "split_left old new_id =
     put_u32 (put_u16 old 22 (of_nat (unat (hdr_slot_count old) div 2))) 24 new_id"

definition u64_bytes :: "u64 \<Rightarrow> byte list" where
  "u64_bytes v = bytes_at (put_u64 (\<lambda>_. 0) 0 v) 0 8"

text \<open>Logging through the pool's WAL pointer; no log when it is null.\<close>

definition bp_log ::
  "BufferPoolManager \<Rightarrow> u32 \<Rightarrow> WALRecordType \<Rightarrow> u32 \<Rightarrow> u16 \<Rightarrow> byte list \<Rightarrow> u64 option \<times> BufferPoolManager" where
  "bp_log b txn ty pid slot payload =
     (case bp_wal b of
        None \<Rightarrow> (None, b)
      | Some w \<Rightarrow>
          let (lsn, w) = wal_append_record w txn ty pid slot (Some payload) (of_nat (length payload))
          in (Some lsn, b\<lparr>bp_wal := Some w\<rparr>))"

definition stamp :: "u64 option \<Rightarrow> page \<Rightarrow> page" where
  "stamp lsn p = slotted_page_compute_checksum (case lsn of None \<Rightarrow> p | Some l \<Rightarrow> put_u64 p 0 l)"

definition split_leaf_node :: "u32 \<Rightarrow> u32 \<Rightarrow> PageStore \<Rightarrow> PageStore" where
  "split_leaf_node leaf_id txn s =
     (case buffer_pool_fetch_page (ps_bpm s) leaf_id of
        (None, b) \<Rightarrow> s\<lparr>ps_bpm := b\<rparr>
      | (Some f_old, b) \<Rightarrow>
          let new_id = ps_next_page_id s;
              s = s\<lparr>ps_next_page_id := new_id + 1\<rparr>
          in (case buffer_pool_fetch_page (snd (bp_write_zero b new_id)) new_id of
                (None, b) \<Rightarrow> s\<lparr>ps_bpm := buffer_pool_unpin_page b leaf_id False HINT_NORMAL\<rparr>
              | (Some f_new, b) \<Rightarrow>
                  let old = frame_page b f_old;
                      right = split_right old (frame_page b f_new) new_id;
                      left = split_left old new_id;
                      (lsn, b) = bp_log b txn WAL_BTREE_SPLIT leaf_id 0
                                   (u64_bytes (ucast leaf_id) @ u64_bytes (ucast new_id));
                      b = set_frame_page f_old (stamp lsn left) b;
                      b = set_frame_page f_new (stamp lsn right) b;
                      b = buffer_pool_unpin_page b leaf_id True HINT_NORMAL;
                      b = buffer_pool_unpin_page b new_id True HINT_NORMAL
                  in s\<lparr>ps_bpm := b\<rparr>))"

definition update_entry :: "page \<Rightarrow> nat \<Rightarrow> u32 \<Rightarrow> u16 \<Rightarrow> page" where
  "update_entry p i pid slot = put_u16 (put_u32 p (entry_off i + 8) pid) (entry_off i + 12) slot"

partial_function (option) btree_update_loop ::
  "u64 \<Rightarrow> u32 \<Rightarrow> u16 \<Rightarrow> u32 \<Rightarrow> BufferPoolManager \<Rightarrow> (bool \<times> BufferPoolManager) option" where
  "btree_update_loop key page_id slot_id cur b =
     (if cur = INVALID_PAGE_ID then Some (False, b)
      else case buffer_pool_fetch_page b cur of
          (None, b1) \<Rightarrow> Some (False, b1)
        | (Some f, b1) \<Rightarrow>
            if hdr_page_type (frame_page b1 f) = page_type_code PAGE_TYPE_BTREE_LEAF then
              (case leaf_find (frame_page b1 f) key of
                 Some i \<Rightarrow> Some (True, buffer_pool_unpin_page
                   (set_frame_page f (slotted_page_compute_checksum
                      (update_entry (frame_page b1 f) i page_id slot_id)) b1) cur True HINT_NORMAL)
               | None \<Rightarrow> btree_update_loop key page_id slot_id (next_leaf_id (frame_page b1 f))
                           (buffer_pool_unpin_page b1 cur False HINT_NORMAL))
            else Some (False, buffer_pool_unpin_page b1 cur False HINT_NORMAL))"

definition btree_update ::
  "u32 \<Rightarrow> u64 \<Rightarrow> u32 \<Rightarrow> u16 \<Rightarrow> BufferPoolManager \<Rightarrow> (bool \<times> BufferPoolManager) option" where
  "btree_update root_page_id key page_id slot_id b = btree_update_loop key page_id slot_id root_page_id b"

text \<open>The walk to the leaf a key belongs to; the leaf at \<open>cur\<close> is pinned in frame \<open>f\<close>.\<close>

definition beyond_leaf :: "page \<Rightarrow> u64 \<Rightarrow> bool" where
  "beyond_leaf p key \<longleftrightarrow> next_leaf_id p \<noteq> INVALID_PAGE_ID \<and> 0 < hdr_slot_count p \<and>
     entry_key p (unat (hdr_slot_count p) - 1) < key"

partial_function (option) btree_walk ::
  "u64 \<Rightarrow> u32 \<Rightarrow> nat \<Rightarrow> BufferPoolManager \<Rightarrow> ((u32 \<times> nat) option \<times> BufferPoolManager) option" where
  "btree_walk key cur f b =
     (if beyond_leaf (frame_page b f) key then
        case buffer_pool_fetch_page (buffer_pool_unpin_page b cur False HINT_NORMAL)
               (next_leaf_id (frame_page b f)) of
          (None, b1) \<Rightarrow> Some (None, b1)
        | (Some f1, b1) \<Rightarrow> btree_walk key (next_leaf_id (frame_page b f)) f1 b1
      else Some (Some (cur, f), b))"

definition insert_index :: "page \<Rightarrow> u64 \<Rightarrow> nat" where
  "insert_index p key =
     (case find (\<lambda>i. key < entry_key p i) [0..<unat (hdr_slot_count p)] of
        Some i \<Rightarrow> i | None \<Rightarrow> unat (hdr_slot_count p))"

definition shift_entries :: "nat \<Rightarrow> nat \<Rightarrow> page \<Rightarrow> page" where
  "shift_entries idx cnt p =
     fold (\<lambda>i p. blit p (entry_off i) (bytes_at p (entry_off (i - 1)) sizeof_BTreeLeafEntry))
       (rev [Suc idx..<Suc cnt]) p"

definition leaf_insert :: "page \<Rightarrow> u64 \<Rightarrow> u32 \<Rightarrow> u16 \<Rightarrow> page" where
  "leaf_insert p key page_id slot_id =
     (let idx = insert_index p key;
          cnt = unat (hdr_slot_count p);
          p = shift_entries idx cnt p;
          p = put_u64 p (entry_off idx) key;
          p = put_u32 p (entry_off idx + 8) page_id;
          p = put_u16 p (entry_off idx + 12) slot_id
      in put_u16 p 22 (hdr_slot_count p + 1))"

text \<open>From the pinned target leaf on: write the entry, log it, release the page.\<close>

definition btree_insert_at ::
  "u64 \<Rightarrow> u32 \<Rightarrow> u16 \<Rightarrow> u32 \<Rightarrow> u32 \<Rightarrow> nat \<Rightarrow> BufferPoolManager \<Rightarrow> BufferPoolManager" where
  "btree_insert_at key page_id slot_id txn cur f b =
     (let p = frame_page b f;
          idx = insert_index p key;
          (lsn, b) = bp_log b txn WAL_REC_INSERT cur (of_nat idx) (u64_bytes key);
          b = set_frame_page f (stamp lsn (leaf_insert p key page_id slot_id)) b
      in buffer_pool_unpin_page b cur True HINT_NORMAL)"

definition btree_insert ::
  "u32 \<Rightarrow> u64 \<Rightarrow> u32 \<Rightarrow> u16 \<Rightarrow> u32 \<Rightarrow> PageStore \<Rightarrow> (bool \<times> PageStore) option" where
  "btree_insert root_page_id key page_id slot_id txn s =
     (case buffer_pool_fetch_page (ps_bpm s) root_page_id of
        (None, b) \<Rightarrow> Some (False, s\<lparr>ps_bpm := b\<rparr>)
      | (Some f, b) \<Rightarrow>
          if hdr_page_type (frame_page b f) \<noteq> page_type_code PAGE_TYPE_BTREE_LEAF then
            Some (False, s\<lparr>ps_bpm := buffer_pool_unpin_page b root_page_id False HINT_NORMAL\<rparr>)
          else
            case btree_walk key root_page_id f b of
              None \<Rightarrow> None
            | Some (None, b) \<Rightarrow> Some (False, s\<lparr>ps_bpm := b\<rparr>)
            | Some (Some (cur, f), b) \<Rightarrow>
                if unat (hdr_slot_count (frame_page b f)) < BTREE_MAX_LEAF_ENTRIES then
                  Some (True, s\<lparr>ps_bpm := btree_insert_at key page_id slot_id txn cur f b\<rparr>)
                else
                  let s = s\<lparr>ps_bpm := buffer_pool_unpin_page b cur False HINT_NORMAL\<rparr>;
                      s = split_leaf_node cur txn s
                  in (case buffer_pool_fetch_page (ps_bpm s) cur of
                        (None, b) \<Rightarrow> Some (False, s\<lparr>ps_bpm := b\<rparr>)
                      | (Some f, b) \<Rightarrow>
                          if beyond_leaf (frame_page b f) key then
                            let next_id = next_leaf_id (frame_page b f);
                                b = buffer_pool_unpin_page b cur False HINT_NORMAL
                            in (case buffer_pool_fetch_page b next_id of
                                  (None, b) \<Rightarrow> Some (False, s\<lparr>ps_bpm := b\<rparr>)
                                | (Some f, b) \<Rightarrow>
                                    Some (True, s\<lparr>ps_bpm := btree_insert_at key page_id slot_id txn next_id f b\<rparr>))
                          else Some (True, s\<lparr>ps_bpm := btree_insert_at key page_id slot_id txn cur f b\<rparr>)))"

section \<open>Leaves as lists of entries\<close>

definition entries :: "page \<Rightarrow> leaf_entry list" where
  "entries p = map (entry_at p) [0..<unat (hdr_slot_count p)]"

lemma length_entries [simp]: "length (entries p) = unat (hdr_slot_count p)"
  by (simp add: entries_def)

lemma nth_entries [simp]: "i < unat (hdr_slot_count p) \<Longrightarrow> entries p ! i = entry_at p i"
  by (simp add: entries_def)

lemma find_entries: "find (\<lambda>i. Q (entry_at p i)) [0..<unat (hdr_slot_count p)] =
  find (\<lambda>i. Q (entries p ! i)) [0..<length (entries p)]"
  by (rule find_cong) simp_all

lemma leaf_find_map_of: "map_option (\<lambda>i. snd (entry_at p i)) (leaf_find p key) = map_of (entries p) key"
  unfolding leaf_find_def find_index_map_of [symmetric]
  by (subst find_entries) (auto simp: find_Some_iff intro!: map_option_cong)

lemma insert_index_takeWhile: "insert_index p key = length (takeWhile (\<lambda>e. fst e \<le> key) (entries p))"
  unfolding insert_index_def find_entries [where Q = "\<lambda>e. key < fst e"]
  using find_index_takeWhile [where P = "\<lambda>e. key < fst e" and xs = "entries p"]
  by (simp only: length_entries not_less)

lemma entry_at_cong: "(\<And>a. entry_off i \<le> a \<Longrightarrow> a < entry_off i + 16 \<Longrightarrow> p a = q a) \<Longrightarrow> entry_at p i = entry_at q i"
  unfolding entry_at_def
  by (intro arg_cong2 [where f = Pair] get_cong(2) [where n = 2] get_cong(3) [where n = 4]
      get_cong(4) [where n = 8]) simp_all

lemma entry_at_header [simp]:
  "a + 2 \<le> 28 \<Longrightarrow> entry_at (put_u16 p a v16) i = entry_at p i"
  "a + 4 \<le> 28 \<Longrightarrow> entry_at (put_u32 p a v32) i = entry_at p i"
  "a + 8 \<le> 28 \<Longrightarrow> entry_at (put_u64 p a v64) i = entry_at p i"
  by (simp_all add: entry_at_def)

lemma blit_entry:
  "blit p (entry_off i) (bytes_at q (entry_off j) (n * 16)) = r \<Longrightarrow>
    entry_at r k = (if i \<le> k \<and> k < i + n then entry_at q (j + (k - i)) else entry_at p k)"
proof -
  assume r: "blit p (entry_off i) (bytes_at q (entry_off j) (n * 16)) = r"
  show ?thesis
  proof (cases "i \<le> k \<and> k < i + n")
    case True
    then have "entry_off k - entry_off i = 16 * (k - i)" "entry_off k + 16 \<le> entry_off i + n * 16" by auto
    then show ?thesis using True by (auto simp: r [symmetric] entry_at_def get_blit_copy algebra_simps)
  next
    case False
    have "entry_at r k = entry_at p k"
      by (rule entry_at_cong) (use False in \<open>auto simp: r [symmetric] blit_def\<close>)
    then show ?thesis unfolding if_not_P [OF False] .
  qed
qed

lemma shift_entries_Suc:
  "idx \<le> cnt \<Longrightarrow> shift_entries idx (Suc cnt) p =
    shift_entries idx cnt (blit p (entry_off (Suc cnt)) (bytes_at p (entry_off cnt) 16))"
  by (simp add: shift_entries_def)

lemma shift_entries_none: "cnt \<le> idx \<Longrightarrow> shift_entries idx cnt p = p"
  by (simp add: shift_entries_def)

lemma shift_entries_at:
  "idx \<le> cnt \<Longrightarrow> entry_at (shift_entries idx cnt p) k =
    (if idx < k \<and> k \<le> cnt then entry_at p (k - 1) else entry_at p k)"
proof (induction cnt arbitrary: p)
  case 0
  then show ?case by (simp add: shift_entries_none)
next
  case (Suc cnt)
  show ?case
  proof (cases "idx = Suc cnt")
    case True
    then show ?thesis by (auto simp: shift_entries_none)
  next
    case False
    then show ?thesis
      using Suc blit_entry [of p "Suc cnt" p cnt 1, OF refl]
      by (cases "k = Suc cnt") (auto simp: shift_entries_Suc le_Suc_eq)
  qed
qed

lemma shift_entries_low: "a < 28 \<Longrightarrow> shift_entries idx cnt p a = p a"
proof (induction cnt arbitrary: p)
  case 0
  then show ?case by (simp add: shift_entries_none)
next
  case (Suc cnt)
  then show ?case
    by (cases "idx \<le> cnt") (auto simp: shift_entries_Suc shift_entries_none blit_def)
qed

lemma shift_entries_wf: "page_wf p \<Longrightarrow> entry_off cnt + 16 \<le> PAGE_SIZE \<Longrightarrow> page_wf (shift_entries idx cnt p)"
proof (induction cnt arbitrary: p)
  case 0
  then show ?case by (simp add: shift_entries_none)
next
  case (Suc cnt)
  then show ?case
    by (cases "idx \<le> cnt") (auto simp: shift_entries_Suc shift_entries_none intro!: Suc.IH page_wf_blit)
qed

lemma shift_entries_fields [simp]:
  "hdr_slot_count (shift_entries idx cnt p) = hdr_slot_count p"
  "hdr_page_type (shift_entries idx cnt p) = hdr_page_type p"
  "next_leaf_id (shift_entries idx cnt p) = next_leaf_id p"
  by (rule get_cong(2) [where n = 2] get_cong(3) [where n = 4]; simp add: shift_entries_low)+

definition leaf_ok :: "page \<Rightarrow> bool" where
  "leaf_ok p \<longleftrightarrow> page_wf p \<and> hdr_page_type p = page_type_code PAGE_TYPE_BTREE_LEAF \<and>
     unat (hdr_slot_count p) \<le> BTREE_MAX_LEAF_ENTRIES"

definition insert_entry :: "leaf_entry \<Rightarrow> leaf_entry list \<Rightarrow> leaf_entry list" where
  "insert_entry e es = takeWhile (\<lambda>x. fst x \<le> fst e) es @ e # dropWhile (\<lambda>x. fst x \<le> fst e) es"

lemma entries_cong:
  "hdr_slot_count p = hdr_slot_count q \<Longrightarrow> (\<And>i. i < unat (hdr_slot_count q) \<Longrightarrow> entry_at p i = entry_at q i) \<Longrightarrow>
    entries p = entries q"
  by (simp add: entries_def)

text \<open>The checksum and the log sequence number are outside the node's content.\<close>

lemma checksum_fields [simp]:
  "hdr_slot_count (slotted_page_compute_checksum p) = hdr_slot_count p"
  "hdr_page_type (slotted_page_compute_checksum p) = hdr_page_type p"
  "next_leaf_id (slotted_page_compute_checksum p) = next_leaf_id p"
  "entry_at (slotted_page_compute_checksum p) i = entry_at p i"
  by (simp_all add: slotted_page_compute_checksum_def Let_def)

lemma checksum_wf [wf_intros]: "page_wf p \<Longrightarrow> page_wf (slotted_page_compute_checksum p)"
  by (simp add: slotted_page_compute_checksum_def Let_def page_wf_put)

lemma stamp_fields [simp]:
  "hdr_slot_count (stamp l p) = hdr_slot_count p"
  "hdr_page_type (stamp l p) = hdr_page_type p"
  "next_leaf_id (stamp l p) = next_leaf_id p"
  "entry_at (stamp l p) i = entry_at p i"
  by (simp_all add: stamp_def split: option.split)

lemma stamp_entries [simp]: "entries (stamp l p) = entries p"
  "entries (slotted_page_compute_checksum p) = entries p"
  by (rule entries_cong; simp)+

lemma stamp_wf [wf_intros]: "page_wf p \<Longrightarrow> page_wf (stamp l p)"
  by (simp add: stamp_def checksum_wf page_wf_put split: option.split)

lemma stamp_leaf [simp]: "page_wf p \<Longrightarrow> leaf_ok (stamp l p) = leaf_ok p"
  by (simp add: leaf_ok_def stamp_wf)

lemma insert_index_le: "insert_index p key \<le> unat (hdr_slot_count p)"
  using length_takeWhile_le [of _ "entries p"] by (simp add: insert_index_takeWhile)

lemma entry_at_put:
  "entry_at (put_u16 (put_u32 (put_u64 p (entry_off i) k) (36 + 16 * i) v) (40 + 16 * i) t) j =
    (if j = i then (k, v, t) else entry_at p j)"
proof (cases "j = i")
  case True
  then show ?thesis by (simp add: entry_at_def)
next
  case False
  then consider "j < i" | "i < j" by linarith
  then show ?thesis using False by cases (simp_all add: entry_at_def)
qed

lemma leaf_insert_count:
  "unat (hdr_slot_count p) < 254 \<Longrightarrow> unat (hdr_slot_count (leaf_insert p key pid slot)) = unat (hdr_slot_count p) + 1"
  using insert_index_le [of p key] by (simp add: leaf_insert_def Let_def unat_u16_add [where k = 1, simplified])

lemma leaf_insert_fields [simp]:
  "hdr_page_type (leaf_insert p key pid slot) = hdr_page_type p"
  "next_leaf_id (leaf_insert p key pid slot) = next_leaf_id p"
  by (simp_all add: leaf_insert_def Let_def)

lemma leaf_insert_at:
  "entry_at (leaf_insert p key pid slot) j =
    (let i = insert_index p key in
     if j = i then (key, pid, slot)
     else if i < j \<and> j \<le> unat (hdr_slot_count p) then entry_at p (j - 1) else entry_at p j)"
  by (simp add: leaf_insert_def Let_def entry_at_put shift_entries_at insert_index_le)

lemma entries_leaf_insert:
  assumes "unat (hdr_slot_count p) < 254"
  shows "entries (leaf_insert p key pid slot) = insert_entry (key, pid, slot) (entries p)"
proof -
  let ?i = "insert_index p key" and ?n = "unat (hdr_slot_count p)"
  have i: "?i \<le> ?n" by (rule insert_index_le)
  have "insert_entry (key, pid, slot) (entries p) = take ?i (entries p) @ (key, pid, slot) # drop ?i (entries p)"
    by (simp add: insert_entry_def insert_index_takeWhile takeWhile_eq_take [symmetric] dropWhile_eq_drop [symmetric])
  moreover have "entries (leaf_insert p key pid slot) = take ?i (entries p) @ (key, pid, slot) # drop ?i (entries p)"
  proof (rule nth_equalityI)
    show "length (entries (leaf_insert p key pid slot)) =
      length (take ?i (entries p) @ (key, pid, slot) # drop ?i (entries p))"
      using i assms by (simp add: leaf_insert_count)
    fix j assume "j < length (entries (leaf_insert p key pid slot))"
    then have j: "j \<le> ?n" using assms by (simp add: leaf_insert_count)
    have "entries (leaf_insert p key pid slot) ! j = entry_at (leaf_insert p key pid slot) j"
      using j assms by (simp add: leaf_insert_count)
    then show "entries (leaf_insert p key pid slot) ! j =
      (take ?i (entries p) @ (key, pid, slot) # drop ?i (entries p)) ! j"
    proof (cases "?i < j")
      case True
      then obtain k where "j = Suc (?i + k)" using less_iff_Suc_add by auto
      then show ?thesis using \<open>entries _ ! j = _\<close> i j by (simp add: leaf_insert_at nth_append Let_def)
    next
      case False
      then show ?thesis
        using \<open>entries _ ! j = _\<close> i j by (cases "j = ?i") (simp_all add: leaf_insert_at nth_append Let_def)
    qed
  qed
  ultimately show ?thesis by simp
qed

lemma leaf_insert_wf:
  "page_wf p \<Longrightarrow> unat (hdr_slot_count p) < 254 \<Longrightarrow> page_wf (leaf_insert p key pid slot)"
  using insert_index_le [of p key]
  by (auto simp: leaf_insert_def Let_def intro!: page_wf_put shift_entries_wf)

lemma u16_of_nat: "n < 65536 \<Longrightarrow> unat (of_nat n :: u16) = n"
  by (simp add: unat_of_nat)

lemma split_left_fields:
  assumes "unat (hdr_slot_count p) \<le> 254"
  shows "entries (split_left p pid) = take (length (entries p) div 2) (entries p)"
    and "next_leaf_id (split_left p pid) = pid" and "hdr_page_type (split_left p pid) = hdr_page_type p"
    and "unat (hdr_slot_count (split_left p pid)) = length (entries p) div 2"
    and "page_wf p \<Longrightarrow> page_wf (split_left p pid)"
proof -
  show c: "unat (hdr_slot_count (split_left p pid)) = length (entries p) div 2"
    using assms by (simp add: split_left_def u16_of_nat)
  show "entries (split_left p pid) = take (length (entries p) div 2) (entries p)"
    by (rule nth_equalityI) (simp_all add: c, simp add: split_left_def)
qed (simp_all add: split_left_def page_wf_put)

lemma split_right_fields:
  assumes "unat (hdr_slot_count p) \<le> 254" and q: "page_wf q"
  shows "entries (split_right p q pid) = drop (length (entries p) div 2) (entries p)"
    and "next_leaf_id (split_right p q pid) = next_leaf_id p"
    and "hdr_page_type (split_right p q pid) = page_type_code PAGE_TYPE_BTREE_LEAF"
    and "unat (hdr_slot_count (split_right p q pid)) = length (entries p) - length (entries p) div 2"
    and "page_wf (split_right p q pid)"
proof -
  let ?n = "unat (hdr_slot_count p)"
  let ?m = "?n - ?n div 2"
  let ?b = "blit (slotted_page_init q pid PAGE_TYPE_BTREE_LEAF) (entry_off 0)
    (bytes_at p (entry_off (?n div 2)) (?m * 16))"
  show c: "unat (hdr_slot_count (split_right p q pid)) = length (entries p) - length (entries p) div 2"
    using assms by (simp add: split_right_def Let_def u16_of_nat del: of_nat_diff)
  have at: "entry_at (split_right p q pid) k = entry_at ?b k" for k
    by (simp add: split_right_def Let_def)
  show "entries (split_right p q pid) = drop (length (entries p) div 2) (entries p)"
  proof (rule nth_equalityI)
    fix i assume "i < length (entries (split_right p q pid))"
    then have i: "i < ?m" by (simp add: c)
    then have "entry_at ?b i = entry_at p (?n div 2 + i)"
      using blit_entry [of _ 0 p "?n div 2" ?m ?b i] by simp
    then show "entries (split_right p q pid) ! i = drop (length (entries p) div 2) (entries p) ! i"
      using i by (simp add: c at)
  qed (simp add: c)
  show "page_wf (split_right p q pid)"
    using assms by (auto simp: split_right_def Let_def intro!: page_wf_put page_wf_blit init_page_wf)
qed (simp_all add: split_right_def Let_def)

lemma update_entry_fields [simp]:
  "hdr_slot_count (update_entry p i pid slot) = hdr_slot_count p"
  "hdr_page_type (update_entry p i pid slot) = hdr_page_type p"
  "next_leaf_id (update_entry p i pid slot) = next_leaf_id p"
  by (simp_all add: update_entry_def)

lemma entries_update_entry:
  "i < unat (hdr_slot_count p) \<Longrightarrow> entries (update_entry p i pid slot) = (entries p)[i := (entry_key p i, pid, slot)]"
proof (rule nth_equalityI)
  fix j assume i: "i < unat (hdr_slot_count p)" and "j < length (entries (update_entry p i pid slot))"
  then have j: "j < unat (hdr_slot_count p)" by simp
  consider "j = i" | "j < i" | "i < j" by linarith
  then have "entry_at (update_entry p i pid slot) j = (if j = i then (entry_key p i, pid, slot) else entry_at p j)"
    by cases (simp_all add: update_entry_def entry_at_def)
  then show "entries (update_entry p i pid slot) ! j = (entries p)[i := (entry_key p i, pid, slot)] ! j"
    using i j by (simp add: nth_list_update_at)
qed simp

lemma update_entry_wf: "page_wf p \<Longrightarrow> i < 254 \<Longrightarrow> page_wf (update_entry p i pid slot)"
  by (simp add: update_entry_def page_wf_put)

section \<open>The chain of leaves\<close>

text \<open>The leaves from page \<open>start\<close> on, each with its entries.\<close>

fun chain :: "(u32 \<Rightarrow> page) \<Rightarrow> u32 \<Rightarrow> (u32 \<times> leaf_entry list) list \<Rightarrow> bool" where
  "chain P start [] \<longleftrightarrow> start = INVALID_PAGE_ID"
| "chain P start ((q, es) # L) \<longleftrightarrow> start = q \<and> q \<noteq> INVALID_PAGE_ID \<and> leaf_ok (P q) \<and> entries (P q) = es \<and>
     chain P (next_leaf_id (P q)) L"

abbreviation chain_entries :: "(u32 \<times> leaf_entry list) list \<Rightarrow> leaf_entry list" where
  "chain_entries L \<equiv> concat (map snd L)"

abbreviation chain_pages :: "(u32 \<times> leaf_entry list) list \<Rightarrow> u32 set" where
  "chain_pages L \<equiv> fst ` set L"

lemma chain_cong: "(\<And>q. q \<in> chain_pages L \<Longrightarrow> P q = P' q) \<Longrightarrow> chain P start L = chain P' start L"
  by (induction P start L rule: chain.induct) auto

lemma chain_upd_other: "q \<notin> chain_pages L \<Longrightarrow> chain (P(q := p)) start L = chain P start L"
  by (rule chain_cong) auto

section \<open>Search and update along the chain\<close>

lemma leaf_types: "leaf_ok p \<Longrightarrow> hdr_page_type p = 4"
  by (simp add: leaf_ok_def)

lemma search_chain:
  "chain P start L \<Longrightarrow> bp_st N {} ps P b \<Longrightarrow> length ps < 4 \<Longrightarrow>
    \<exists>b'. btree_search_loop key start b = Some (map_of (chain_entries L) key, b') \<and> bp_st N {} ps P b'"
proof (induction L arbitrary: start b)
  case Nil
  then show ?case by (auto simp: btree_search_loop.simps)
next
  case (Cons qes L)
  obtain q es where qes: "qes = (q, es)" by (cases qes)
  then have q: "start = q" "q \<noteq> INVALID_PAGE_ID" "leaf_ok (P q)" "entries (P q) = es" "chain P (next_leaf_id (P q)) L"
    using Cons.prems(1) by auto
  obtain f b1 where f: "buffer_pool_fetch_page b q = (Some f, b1)" "frame_page b1 f = P q"
    "bp_st N {} ps P (buffer_pool_unpin_page b1 q False HINT_NORMAL)"
    using pool.read_page [OF Cons.prems(2,3) q(2)] by metis
  show ?case
  proof (cases "leaf_find (P q) key")
    case None
    then have "map_of es key = None" using leaf_find_map_of [of "P q" key] q by simp
    moreover obtain b' where "btree_search_loop key (next_leaf_id (P q)) (buffer_pool_unpin_page b1 q False HINT_NORMAL) =
        Some (map_of (chain_entries L) key, b')" "bp_st N {} ps P b'"
      using Cons.IH [OF q(5) f(3) Cons.prems(3)] by blast
    ultimately show ?thesis
      using f q None leaf_types [OF q(3)]
      by (simp add: btree_search_loop.simps [of key q b] qes map_add_def)
  next
    case (Some i)
    then have "map_of es key = Some (snd (entry_at (P q) i))" using leaf_find_map_of [of "P q" key] q by simp
    then show ?thesis
      using f q Some leaf_types [OF q(3)]
      by (simp add: btree_search_loop.simps [of key q b] qes map_add_def)
  qed
qed

text \<open>The update replaces the value of the first entry with the key.\<close>

fun chain_update :: "u64 \<Rightarrow> u32 \<times> u16 \<Rightarrow> (u32 \<times> leaf_entry list) list \<Rightarrow> (u32 \<times> leaf_entry list) list" where
  "chain_update key v [] = []"
| "chain_update key v ((q, es) # L) =
     (if map_of es key \<noteq> None then (q, AList.update key v es) # L else (q, es) # chain_update key v L)"

lemma chain_update_pages [simp]: "map fst (chain_update key v L) = map fst L"
  by (induction key v L rule: chain_update.induct) auto

lemma chain_update_keys: "map (map fst) (map snd (chain_update key v L)) = map (map fst) (map snd L)"
  by (induction key v L rule: chain_update.induct) (simp_all add: update_keys map_of_eq_None_iff)

lemma chain_update_filled: "\<forall>x \<in> set L. snd x \<noteq> [] \<Longrightarrow> \<forall>x \<in> set (chain_update key v L). snd x \<noteq> []"
  by (induction key v L rule: chain_update.induct) (auto simp: update_nonempty)

lemma chain_update_map_of:
  "map_of (chain_entries (chain_update key v L)) =
    (if map_of (chain_entries L) key = None then map_of (chain_entries L)
     else (map_of (chain_entries L))(key \<mapsto> v))"
proof (induction key v L rule: chain_update.induct)
  case (1 key v)
  then show ?case by simp
next
  case (2 key v q es L)
  then show ?case by (auto simp: fun_eq_iff map_add_def update_conv split: option.splits)
qed

lemma update_at_index:
  "find (\<lambda>i. fst (es ! i) = key) [0..<length es] = Some i \<Longrightarrow> es[i := (key, v)] = AList.update key v es"
proof (induction es arbitrary: i)
  case Nil
  then show ?case by simp
next
  case (Cons e es)
  show ?case
  proof (cases "fst e = key")
    case True
    then have "i = 0" using find_index_some [OF Cons.prems] by (metis neq0_conv nth_Cons_0)
    then show ?thesis using True by (cases e) simp
  next
    case False
    obtain j where j: "i = Suc j"
      using False find_index_some [OF Cons.prems] by (cases i) auto
    have "find (\<lambda>i. fst (es ! i) = key) [0..<length es] = Some j"
      using find_index_some [OF Cons.prems] unfolding j by (force simp: find_Some_iff)
    then show ?thesis using Cons.IH j False by (cases e) simp
  qed
qed

lemma update_chain:
  "chain P start L \<Longrightarrow> distinct (map fst L) \<Longrightarrow> (\<forall>q \<in> chain_pages L. unat q < N) \<Longrightarrow>
    bp_st N {} ps P b \<Longrightarrow> length ps < 4 \<Longrightarrow>
    \<exists>b' P'. btree_update_loop key pid slot start b = Some (map_of (chain_entries L) key \<noteq> None, b') \<and>
      bp_st N {} ps P' b' \<and> chain P' start (chain_update key (pid, slot) L) \<and>
      (\<forall>q. q \<notin> chain_pages L \<longrightarrow> P' q = P q)"
proof (induction L arbitrary: start b)
  case Nil
  then show ?case by (auto simp: btree_update_loop.simps)
next
  case (Cons qes L)
  obtain q es where qes: "qes = (q, es)" by (cases qes)
  then have q: "start = q" "q \<noteq> INVALID_PAGE_ID" "leaf_ok (P q)" "entries (P q) = es" "chain P (next_leaf_id (P q)) L"
    using Cons.prems(1) by auto
  have N: "unat q < N" and nin: "q \<notin> chain_pages L" using Cons.prems qes by auto
  show ?case
  proof (cases "leaf_find (P q) key")
    case None
    obtain f b1 where f: "buffer_pool_fetch_page b q = (Some f, b1)" "frame_page b1 f = P q"
      "bp_st N {} ps P (buffer_pool_unpin_page b1 q False HINT_NORMAL)"
      using pool.read_page [OF Cons.prems(4,5) q(2)] by metis
    have "map_of es key = None" using None leaf_find_map_of [of "P q" key] q by simp
    moreover obtain b' P' where
      "btree_update_loop key pid slot (next_leaf_id (P q)) (buffer_pool_unpin_page b1 q False HINT_NORMAL) =
        Some (map_of (chain_entries L) key \<noteq> None, b')" "bp_st N {} ps P' b'"
      "chain P' (next_leaf_id (P q)) (chain_update key (pid, slot) L)" "\<forall>q. q \<notin> chain_pages L \<longrightarrow> P' q = P q"
      using Cons.IH [OF q(5) _ _ f(3) Cons.prems(5)] Cons.prems qes by auto
    ultimately show ?thesis
      using f q None leaf_types [OF q(3)] nin
      by (auto simp: btree_update_loop.simps [of key pid slot q b] qes map_add_def)
  next
    case (Some i)
    obtain f b1 where f: "buffer_pool_fetch_page b q = (Some f, b1)" "frame_page b1 f = P q"
      "\<And>p. page_wf p \<Longrightarrow> bp_st N {} ps (P(q := p)) (buffer_pool_unpin_page (set_frame_page f p b1) q True HINT_NORMAL)"
      using pool.write_page [OF Cons.prems(4,5) q(2) N] by metis
    have i: "i < unat (hdr_slot_count (P q))" "entry_key (P q) i = key"
      using find_index_some [OF Some [unfolded leaf_find_def]] by auto
    have m: "map_of es key = Some (snd (entry_at (P q) i))" using Some leaf_find_map_of [of "P q" key] q by simp
    let ?p = "slotted_page_compute_checksum (update_entry (P q) i pid slot)"
    have wf: "page_wf ?p" using q i by (auto simp: leaf_ok_def intro!: checksum_wf update_entry_wf)
    have "find (\<lambda>i. fst (es ! i) = key) [0..<length es] = Some i"
      using Some unfolding leaf_find_def find_entries [where Q = "\<lambda>e. fst e = key"] q(4) .
    then have "entries ?p = AList.update key (pid, slot) es"
      using i q by (simp add: entries_update_entry update_at_index)
    moreover have "leaf_ok ?p" using q wf by (simp add: leaf_ok_def)
    moreover have "chain (P(q := ?p)) (next_leaf_id (P q)) L"
      using q(5) nin by (subst chain_cong [where P' = P]) auto
    ultimately have "chain (P(q := ?p)) start (chain_update key (pid, slot) (qes # L))"
      using q m by (simp add: qes)
    then show ?thesis
      using f q Some leaf_types [OF q(3)] m wf
      by (auto simp: btree_update_loop.simps [of key pid slot q b] qes map_add_def intro!: exI [of _ "P(q := ?p)"])
  qed
qed

section \<open>Insertion along the chain\<close>

definition beyond :: "leaf_entry list \<Rightarrow> u64 \<Rightarrow> bool" where
  "beyond es key \<longleftrightarrow> es \<noteq> [] \<and> fst (last es) < key"

lemma last_entry: "entries p \<noteq> [] \<Longrightarrow> last (entries p) = entry_at p (unat (hdr_slot_count p) - 1)"
  using length_greater_0_conv [of "entries p"] by (simp add: last_conv_nth)

lemma chain_next: "chain P (next_leaf_id (P q)) L \<Longrightarrow> next_leaf_id (P q) \<noteq> INVALID_PAGE_ID \<longleftrightarrow> L \<noteq> []"
  by (cases L) auto

lemma entries_nonempty: "entries p \<noteq> [] \<longleftrightarrow> 0 < hdr_slot_count p"
  by (simp add: entries_def word_gt_0 unat_eq_0)

lemma beyond_leaf_iff:
  "chain P (next_leaf_id (P q)) L \<Longrightarrow> beyond_leaf (P q) key \<longleftrightarrow> L \<noteq> [] \<and> beyond (entries (P q)) key"
  using chain_next [of P q L] entries_nonempty [of "P q"] last_entry [of "P q"]
  by (auto simp: beyond_leaf_def beyond_def)

text \<open>The list-level specification of \<open>btree_insert\<close>; \<open>new_id\<close> is the page a split allocates.\<close>

fun chain_insert :: "u32 \<Rightarrow> leaf_entry \<Rightarrow> (u32 \<times> leaf_entry list) list \<Rightarrow> (u32 \<times> leaf_entry list) list" where
  "chain_insert new_id e [] = []"
| "chain_insert new_id e ((q, es) # L) =
     (if L \<noteq> [] \<and> beyond es (fst e) then (q, es) # chain_insert new_id e L
      else if length es < BTREE_MAX_LEAF_ENTRIES then (q, insert_entry e es) # L
      else let mid = length es div 2; l = take mid es; r = drop mid es in
        if beyond l (fst e) then (q, l) # (new_id, insert_entry e r) # L
        else (q, insert_entry e l) # (new_id, r) # L)"

text \<open>Whether it splits a leaf.\<close>

fun chain_splits :: "u64 \<Rightarrow> (u32 \<times> leaf_entry list) list \<Rightarrow> bool" where
  "chain_splits key [] \<longleftrightarrow> False"
| "chain_splits key ((q, es) # L) \<longleftrightarrow>
     (if L \<noteq> [] \<and> beyond es key then chain_splits key L else BTREE_MAX_LEAF_ENTRIES \<le> length es)"

text \<open>The leaf the walk stops at.\<close>

fun chain_target :: "u64 \<Rightarrow> (u32 \<times> leaf_entry list) list \<Rightarrow> u32 \<times> leaf_entry list" where
  "chain_target key [] = (INVALID_PAGE_ID, [])"
| "chain_target key ((q, es) # L) = (if L \<noteq> [] \<and> beyond es key then chain_target key L else (q, es))"

lemma walk_chain:
  "chain P cur L \<Longrightarrow> L \<noteq> [] \<Longrightarrow> bp_st N {} (cur # ps) P b \<Longrightarrow> length ps < 3 \<Longrightarrow> find_frame b cur = Some f \<Longrightarrow>
    \<exists>f' b'. btree_walk key cur f b = Some (Some (fst (chain_target key L), f'), b') \<and>
      bp_st N {} (fst (chain_target key L) # ps) P b' \<and> find_frame b' (fst (chain_target key L)) = Some f'"
proof (induction L arbitrary: cur f b)
  case Nil
  then show ?case by simp
next
  case (Cons qes L)
  obtain q es where qes: "qes = (q, es)" by (cases qes)
  then have q: "cur = q" "leaf_ok (P q)" "entries (P q) = es" "chain P (next_leaf_id (P q)) L"
    using Cons.prems(1) by auto
  have fr: "frame_page b f = P q" using pool.frame_st [OF Cons.prems(3) _ Cons.prems(5)] q by simp
  note step = btree_walk.simps [of key q f b] beyond_leaf_iff [OF q(4)]
  show ?case
  proof (cases "L \<noteq> [] \<and> beyond es key")
    case False
    have "chain_target key (qes # L) = (q, es)" unfolding qes chain_target.simps if_not_P [OF False] ..
    moreover have "\<not> beyond_leaf (P q) key" using False q(3) step(2) by blast
    then have "btree_walk key q f b = Some (Some (q, f), b)" by (simp add: step(1) fr)
    ultimately show ?thesis using Cons.prems q by simp
  next
    case True
    let ?n = "next_leaf_id (P q)"
    have st: "bp_st N {} ps P (buffer_pool_unpin_page b q False HINT_NORMAL)"
      using pool.unpin_clean_st [OF Cons.prems(3), of q] q by simp
    have "?n \<noteq> INVALID_PAGE_ID" using True chain_next [OF q(4)] by simp
    then obtain f1 b1 where f1: "buffer_pool_fetch_page (buffer_pool_unpin_page b q False HINT_NORMAL) ?n = (Some f1, b1)"
      "bp_st N {} (?n # ps) P b1" "find_frame b1 ?n = Some f1"
      using pool.fetch_st [OF st, of ?n] Cons.prems(4) by auto
    have "btree_walk key q f b = btree_walk key ?n f1 b1"
      using step True q f1(1) fr by simp
    then show ?thesis
      using Cons.IH [OF q(4) _ f1(2) Cons.prems(4) f1(3)] True q by (simp add: qes)
  qed
qed

lemma bp_log_st:
  assumes "bp_st N X ps P b" "bp_log b txn ty pid slot payload = (lsn, b')"
  shows "bp_st N X ps P b'" "find_frame b' = find_frame b" "frame_page b' = frame_page b"
  using assms bp_st_wal [OF assms(1)]
  by (auto simp: bp_log_def fun_eq_iff frame_page_def split: option.splits prod.splits)

text \<open>Writing the entry into the pinned leaf and releasing it.\<close>

lemma insert_at_st:
  assumes st: "bp_st N {} (q # ps) P b" and f: "find_frame b q = Some f" and q: "unat q < N"
    and leaf: "leaf_ok (P q)" and room: "unat (hdr_slot_count (P q)) < BTREE_MAX_LEAF_ENTRIES"
  obtains p where "bp_st N {} ps (P(q := p)) (btree_insert_at key pid slot txn q f b)"
    "leaf_ok p" "entries p = insert_entry (key, pid, slot) (entries (P q))" "next_leaf_id p = next_leaf_id (P q)"
proof -
  let ?i = "insert_index (P q) key"
  have fr: "frame_page b f = P q" using pool.frame_st [OF st _ f] by simp
  obtain lsn b1 where log: "bp_log b txn WAL_REC_INSERT q (of_nat ?i) (u64_bytes key) = (lsn, b1)"
    by (cases "bp_log b txn WAL_REC_INSERT q (of_nat ?i) (u64_bytes key)")
  let ?p = "stamp lsn (leaf_insert (P q) key pid slot)"
  have p: "page_wf ?p" "leaf_ok ?p" "entries ?p = insert_entry (key, pid, slot) (entries (P q))"
    "next_leaf_id ?p = next_leaf_id (P q)"
    using leaf room by (auto simp: leaf_ok_def stamp_wf leaf_insert_wf entries_leaf_insert leaf_insert_count)
  note l = bp_log_st [OF st log]
  have "bp_st N {q} (q # ps) (P(q := ?p)) (set_frame_page f ?p b1)"
    using pool.update_st [OF l(1) _ _ p(1), of q f] f l by simp
  then have "bp_st N {} ps (P(q := ?p)) (buffer_pool_unpin_page (set_frame_page f ?p b1) q True HINT_NORMAL)"
    using pool.unpin_dirty_st [of N "{q}" "q # ps" "P(q := ?p)" "set_frame_page f ?p b1" q HINT_NORMAL] q by simp
  moreover have "btree_insert_at key pid slot txn q f b =
      buffer_pool_unpin_page (set_frame_page f ?p b1) q True HINT_NORMAL"
    by (simp add: btree_insert_at_def fr log Let_def)
  ultimately show ?thesis using that [of ?p] p by simp
qed

lemma split_st:
  assumes st: "bp_st N {} [] P (ps_bpm s)" and q: "unat q < N" "q \<noteq> INVALID_PAGE_ID"
    and leaf: "leaf_ok (P q)" "1 < unat (hdr_slot_count (P q))"
    and new: "unat (ps_next_page_id s) = N" "N + 1 < 2 ^ 32"
  obtains pl pr where
    "bp_st (N + 1) {} [] (P(q := pl, ps_next_page_id s := pr)) (ps_bpm (split_leaf_node q txn s))"
    "ps_next_page_id (split_leaf_node q txn s) = ps_next_page_id s + 1"
    "leaf_ok pl" "entries pl = take (length (entries (P q)) div 2) (entries (P q))" "next_leaf_id pl = ps_next_page_id s"
    "leaf_ok pr" "entries pr = drop (length (entries (P q)) div 2) (entries (P q))" "next_leaf_id pr = next_leaf_id (P q)"
proof -
  let ?n = "ps_next_page_id s"
  have ne: "?n \<noteq> q" using q new by auto
  obtain f b1 where f: "buffer_pool_fetch_page (ps_bpm s) q = (Some f, b1)" "bp_st N {} [q] P b1"
    "find_frame b1 q = Some f"
    using pool.fetch_st [OF st, of q] q by auto
  obtain g b2 p0 where g: "buffer_pool_fetch_page (snd (bp_write_zero b1 ?n)) ?n = (Some g, b2)" "page_wf p0"
    "bp_st (N + 1) {?n} [?n, q] (P(?n := p0)) b2" "find_frame b2 ?n = Some g" "find_frame b2 q = Some f"
    using pool.alloc_st [OF f(2) _ new(1) _ new(2)] ne f(3) by auto
  have fr: "frame_page b2 f = P q" "frame_page b2 g = p0"
    using pool.frame_st [OF g(3) _ g(5)] pool.frame_st [OF g(3) _ g(4)] ne by auto
  obtain lsn b3 where log: "bp_log b2 txn WAL_BTREE_SPLIT q 0 (u64_bytes (ucast q) @ u64_bytes (ucast ?n)) = (lsn, b3)"
    by fastforce
  define pl pr where "pl = stamp lsn (split_left (P q) ?n)" and "pr = stamp lsn (split_right (P q) p0 ?n)"
  have c: "unat (hdr_slot_count (P q)) \<le> 254" using leaf by (simp add: leaf_ok_def)
  note l = split_left_fields [OF c, of ?n] and r = split_right_fields [OF c g(2), of ?n]
  have wf: "page_wf pl" "page_wf pr" using leaf l r by (simp_all add: pl_def pr_def leaf_ok_def stamp_wf)
  note lg = bp_log_st [OF g(3) log]
  have u1: "bp_st (N + 1) {q, ?n} [?n, q] (P(?n := p0, q := pl)) (set_frame_page f pl b3)"
    "find_frame (set_frame_page f pl b3) = find_frame b2"
    using pool.update_st [OF lg(1) _ _ wf(1), of q f] g(5) lg by simp_all
  then have u2: "bp_st (N + 1) {q, ?n} [?n, q] (P(q := pl, ?n := pr)) (set_frame_page g pr (set_frame_page f pl b3))"
    using pool.update_st [OF u1(1) _ _ wf(2), of ?n g] g(4) ne by (simp add: fun_upd_twist insert_commute)
  have u3: "bp_st (N + 1) {?n} [?n] (P(q := pl, ?n := pr))
    (buffer_pool_unpin_page (set_frame_page g pr (set_frame_page f pl b3)) q True HINT_NORMAL)" (is "bp_st _ _ _ _ ?b")
    using pool.unpin_dirty_st [OF u2, of q HINT_NORMAL] q ne by (simp add: insert_Diff_if)
  have "bp_st (N + 1) {} [] (P(q := pl, ?n := pr)) (buffer_pool_unpin_page ?b ?n True HINT_NORMAL)"
    using pool.unpin_dirty_st [OF u3, of ?n HINT_NORMAL] new by simp
  moreover have "split_leaf_node q txn s =
      s\<lparr>ps_next_page_id := ?n + 1, ps_bpm := buffer_pool_unpin_page ?b ?n True HINT_NORMAL\<rparr>"
    using f(1) g(1) log fr by (simp add: split_leaf_node_def Let_def pl_def pr_def)
  ultimately show ?thesis
    using that [of pl pr] l r leaf wf by (auto simp: pl_def pr_def leaf_ok_def)
qed

lemma chain_target_props:
  "chain P start L \<Longrightarrow> L \<noteq> [] \<Longrightarrow> chain_target key L = (q, es) \<Longrightarrow>
    q \<in> chain_pages L \<and> q \<noteq> INVALID_PAGE_ID \<and> leaf_ok (P q) \<and> entries (P q) = es \<and>
    (\<exists>L'. chain P (next_leaf_id (P q)) L' \<and> \<not> (L' \<noteq> [] \<and> beyond es key))"
  by (induction P start L rule: chain.induct) (auto split: if_splits)

lemma chain_splits_target: "L \<noteq> [] \<Longrightarrow> chain_splits key L \<longleftrightarrow> BTREE_MAX_LEAF_ENTRIES \<le> length (snd (chain_target key L))"
  by (induction key L rule: chain_splits.induct) auto

lemma chain_insert_plain:
  "chain P start L \<Longrightarrow> distinct (map fst L) \<Longrightarrow> chain_target (fst e) L = (q, es) \<Longrightarrow> L \<noteq> [] \<Longrightarrow>
    length es < BTREE_MAX_LEAF_ENTRIES \<Longrightarrow>
    leaf_ok p \<Longrightarrow> entries p = insert_entry e es \<Longrightarrow> next_leaf_id p = next_leaf_id (P q) \<Longrightarrow>
    chain (P(q := p)) start (chain_insert new_id e L)"
proof (induction P start L rule: chain.induct)
  case (1 P start)
  then show ?case by simp
next
  case (2 P start r rs L)
  show ?case
  proof (cases "L \<noteq> [] \<and> beyond rs (fst e)")
    case True
    then have t: "chain_target (fst e) L = (q, es)" using 2 by simp
    have "q \<in> chain_pages L" using chain_target_props [OF _ _ t] 2 True by auto
    then have "q \<noteq> r" using 2 by auto
    then show ?thesis using 2 True t by simp
  next
    case False
    then have t: "(r, rs) = (q, es)" using 2(4) unfolding chain_target.simps if_not_P [OF False] by simp
    have "chain (P(q := p)) (next_leaf_id (P q)) L"
      using 2 t by (simp add: chain_upd_other del: fun_upd_apply)
    moreover have "chain_insert new_id e ((r, rs) # L) = (r, insert_entry e rs) # L"
      unfolding chain_insert.simps if_not_P [OF False] using 2 t by simp
    ultimately show ?thesis using 2 t by (simp del: fun_upd_apply add: fun_upd_same)
  qed
qed

lemma chain_insert_split:
  "chain P start L \<Longrightarrow> distinct (map fst L) \<Longrightarrow> chain_target (fst e) L = (q, es) \<Longrightarrow> L \<noteq> [] \<Longrightarrow>
    BTREE_MAX_LEAF_ENTRIES \<le> length es \<Longrightarrow> new_id \<notin> chain_pages L \<Longrightarrow> new_id \<noteq> INVALID_PAGE_ID \<Longrightarrow>
    leaf_ok pl \<Longrightarrow> leaf_ok pr \<Longrightarrow> next_leaf_id pl = new_id \<Longrightarrow> next_leaf_id pr = next_leaf_id (P q) \<Longrightarrow>
    l = take (length es div 2) es \<Longrightarrow> r = drop (length es div 2) es \<Longrightarrow>
    (entries pl, entries pr) = (if beyond l (fst e) then (l, insert_entry e r) else (insert_entry e l, r)) \<Longrightarrow>
    chain (P(q := pl, new_id := pr)) start (chain_insert new_id e L)"
proof (induction P start L rule: chain.induct)
  case (1 P start)
  then show ?case by simp
next
  case (2 P start c cs L)
  show ?case
  proof (cases "L \<noteq> [] \<and> beyond cs (fst e)")
    case True
    then have t: "chain_target (fst e) L = (q, es)" using 2 by simp
    have "q \<in> chain_pages L" using chain_target_props [OF _ _ t] 2 True by auto
    then have "q \<noteq> c" using 2 by auto
    moreover have "chain (P(q := pl, new_id := pr)) (next_leaf_id (P c)) (chain_insert new_id e L)"
      by (rule 2(1)) (use 2 True t in auto)
    ultimately show ?thesis using 2 True t by auto
  next
    case False
    then have t: "(c, cs) = (q, es)" using 2(4) unfolding chain_target.simps if_not_P [OF False] by simp
    have "chain (P(q := pl, new_id := pr)) (next_leaf_id (P q)) L"
      using 2 t by (simp add: chain_upd_other del: fun_upd_apply)
    moreover have "chain_insert new_id e ((c, cs) # L) =
        (if beyond l (fst e) then (c, l) # (new_id, insert_entry e r) # L
         else (c, insert_entry e l) # (new_id, r) # L)"
      unfolding chain_insert.simps if_not_P [OF False] using 2 t by (simp add: Let_def)
    moreover have "new_id \<noteq> q" using 2 t by auto
    ultimately show ?thesis
      using 2 t by (auto simp: fun_upd_same fun_upd_other simp del: fun_upd_apply split: if_splits)
  qed
qed

section \<open>The tree as a sorted map\<close>

definition btree_rep :: "nat \<Rightarrow> (u32 \<Rightarrow> page) \<Rightarrow> u32 \<Rightarrow> (u32 \<times> leaf_entry list) list \<Rightarrow> PageStore \<Rightarrow> bool" where
  "btree_rep N P root_page_id L s \<longleftrightarrow>
     bp_st N {} [] P (ps_bpm s) \<and> unat (ps_next_page_id s) = N \<and> chain P root_page_id L \<and> L \<noteq> [] \<and>
     distinct (map fst L) \<and> (\<forall>q \<in> chain_pages L. unat q < N)"

lemma chain_insert_pages:
  "\<not> chain_splits (fst e) L \<Longrightarrow> map fst (chain_insert new_id e L) = map fst L"
  "chain_splits (fst e) L \<Longrightarrow> chain_pages (chain_insert new_id e L) = insert new_id (chain_pages L)"
  "distinct (map fst L) \<Longrightarrow> new_id \<notin> chain_pages L \<Longrightarrow> distinct (map fst (chain_insert new_id e L))"
proof -
  show "\<not> chain_splits (fst e) L \<Longrightarrow> map fst (chain_insert new_id e L) = map fst L"
    by (induction new_id e L rule: chain_insert.induct) (auto split: if_splits)
  show pages: "chain_splits (fst e) L \<Longrightarrow> chain_pages (chain_insert new_id e L) = insert new_id (chain_pages L)"
    by (induction new_id e L rule: chain_insert.induct) (auto simp: Let_def split: if_splits)
  have sub: "chain_pages (chain_insert new_id e L) \<subseteq> insert new_id (chain_pages L)" for new_id e L
    by (induction new_id e L rule: chain_insert.induct) (auto simp: Let_def split: if_splits)
  show "distinct (map fst L) \<Longrightarrow> new_id \<notin> chain_pages L \<Longrightarrow> distinct (map fst (chain_insert new_id e L))"
  proof (induction new_id e L rule: chain_insert.induct)
    case (1 new_id e)
    then show ?case by simp
  next
    case (2 new_id e q es L)
    have "q \<notin> chain_pages (chain_insert new_id e L)"
      using 2(2,3) sub [of new_id e L] by auto
    then show ?case using 2 by (auto simp: Let_def)
  qed
qed

lemma chain_insert_nonempty: "L \<noteq> [] \<Longrightarrow> chain_insert new_id e L \<noteq> []"
  by (cases "(new_id, e, L)" rule: chain_insert.cases) (auto simp: Let_def)

lemma walk_to_target:
  assumes rep: "btree_rep N P root_page_id L s" and t: "chain_target key L = (q, es)"
  obtains f b1 g b2 where
    "buffer_pool_fetch_page (ps_bpm s) root_page_id = (Some f, b1)" "frame_page b1 f = P root_page_id"
    "leaf_ok (P root_page_id)" "root_page_id \<noteq> INVALID_PAGE_ID"
    "btree_walk key root_page_id f b1 = Some (Some (q, g), b2)" "bp_st N {} [q] P b2"
    "find_frame b2 q = Some g" "frame_page b2 g = P q"
    "q \<in> chain_pages L" "leaf_ok (P q)" "entries (P q) = es" "q \<noteq> INVALID_PAGE_ID" "unat q < N"
proof -
  have ch: "chain P root_page_id L" and ne: "L \<noteq> []" and st: "bp_st N {} [] P (ps_bpm s)"
    using rep by (simp_all add: btree_rep_def)
  have r: "root_page_id \<noteq> INVALID_PAGE_ID" "leaf_ok (P root_page_id)"
    using ch ne by (cases L; auto)+
  have qp: "q \<in> chain_pages L" "leaf_ok (P q)" "entries (P q) = es" "q \<noteq> INVALID_PAGE_ID"
    using chain_target_props [OF ch ne t] by auto
  then have q: "unat q < N" using rep by (auto simp: btree_rep_def)
  obtain f b1 where f: "buffer_pool_fetch_page (ps_bpm s) root_page_id = (Some f, b1)"
    "bp_st N {} [root_page_id] P b1" "find_frame b1 root_page_id = Some f"
    using pool.fetch_st [OF st, of root_page_id] r by auto
  have fr: "frame_page b1 f = P root_page_id" using pool.frame_st [OF f(2) _ f(3)] by simp
  obtain g b2 where w: "btree_walk key root_page_id f b1 = Some (Some (q, g), b2)" "bp_st N {} [q] P b2"
    "find_frame b2 q = Some g"
    using walk_chain [OF ch ne f(2) _ f(3), of key] t by auto
  have "frame_page b2 g = P q" using pool.frame_st [OF w(2) _ w(3)] by simp
  with that f fr r w qp q show thesis by blast
qed

text \<open>What a split leaves behind represents the chain with the new leaf, whichever half took the entry.\<close>

lemma split_rep:
  assumes rep: "btree_rep N P root_page_id L s" and full: "chain_splits (fst e) L" and N: "N + 1 < 2 ^ 32"
    and t: "chain_target (fst e) L = (q, es)" and new: "new_id = ps_next_page_id s"
    and st: "bp_st (N + 1) {} [] (P(q := pl, new_id := pr)) (ps_bpm s')" "ps_next_page_id s' = new_id + 1"
    and lf: "leaf_ok pl" "leaf_ok pr" "next_leaf_id pl = new_id" "next_leaf_id pr = next_leaf_id (P q)"
    and es: "(entries pl, entries pr) =
      (let l = take (length es div 2) es; r = drop (length es div 2) es
       in if beyond l (fst e) then (l, insert_entry e r) else (insert_entry e l, r))"
  shows "btree_rep (N + 1) (P(q := pl, new_id := pr)) root_page_id (chain_insert new_id e L) s'"
    and "\<forall>x. x \<notin> chain_pages L \<and> x \<noteq> new_id \<longrightarrow> (P(q := pl, new_id := pr)) x = P x"
proof -
  have ch: "chain P root_page_id L" and ne: "L \<noteq> []" and dist: "distinct (map fst L)"
    and uN: "unat new_id = N" using rep new by (simp_all add: btree_rep_def)
  have fresh: "new_id \<notin> chain_pages L" using rep uN by (auto simp: btree_rep_def)
  have inv: "new_id \<noteq> INVALID_PAGE_ID" using uN N by (auto simp: unsigned_minus_1_eq_mask mask_eq_exp_minus_1)
  have max: "BTREE_MAX_LEAF_ENTRIES \<le> length es" using full chain_splits_target [OF ne, of "fst e"] t by simp
  have c: "chain (P(q := pl, new_id := pr)) root_page_id (chain_insert new_id e L)"
    by (rule chain_insert_split [OF ch dist _ ne max fresh inv lf refl refl])
      (use t es in \<open>auto simp: Let_def\<close>)
  have "chain_pages (chain_insert new_id e L) = insert new_id (chain_pages L)"
    "distinct (map fst (chain_insert new_id e L))"
    using chain_insert_pages(2) [of e L] chain_insert_pages(3) [of L new_id e] full dist fresh by simp_all
  moreover have "unat (new_id + 1) = N + 1" using uN N by (simp add: unat_word_ariths)
  ultimately show "btree_rep (N + 1) (P(q := pl, new_id := pr)) root_page_id (chain_insert new_id e L) s'"
    using rep st c uN chain_insert_nonempty [OF ne] by (auto simp: btree_rep_def simp del: fun_upd_apply)
  have "q \<in> chain_pages L" using chain_target_props [OF ch ne t] by simp
  then show "\<forall>x. x \<notin> chain_pages L \<and> x \<noteq> new_id \<longrightarrow> (P(q := pl, new_id := pr)) x = P x"
    by (metis fun_upd_other)
qed

lemma insert_refines_plain:
  assumes rep: "btree_rep N P root_page_id L s" and room: "\<not> chain_splits key L"
  shows "\<exists>s' P'. btree_insert root_page_id key pid slot txn s = Some (True, s') \<and>
    btree_rep N P' root_page_id (chain_insert new_id (key, pid, slot) L) s' \<and>
    (\<forall>q. q \<notin> chain_pages L \<longrightarrow> P' q = P q)"
proof -
  have ch: "chain P root_page_id L" and ne: "L \<noteq> []" and st: "bp_st N {} [] P (ps_bpm s)"
    and dist: "distinct (map fst L)" using rep by (simp_all add: btree_rep_def)
  obtain q es where t: "chain_target key L = (q, es)" by fastforce
  obtain f b1 g b2 where w: "buffer_pool_fetch_page (ps_bpm s) root_page_id = (Some f, b1)"
    "frame_page b1 f = P root_page_id" "leaf_ok (P root_page_id)" "root_page_id \<noteq> INVALID_PAGE_ID"
    "btree_walk key root_page_id f b1 = Some (Some (q, g), b2)" "bp_st N {} [q] P b2"
    "find_frame b2 q = Some g" "frame_page b2 g = P q"
    and qp: "q \<in> chain_pages L" "leaf_ok (P q)" "entries (P q) = es" and q: "unat q < N"
    using walk_to_target [OF rep t] by metis
  have few: "length es < BTREE_MAX_LEAF_ENTRIES" using room chain_splits_target [OF ne, of key] t by simp
  have room': "unat (hdr_slot_count (P q)) < BTREE_MAX_LEAF_ENTRIES" using few qp(3) by auto
  obtain p where p: "bp_st N {} [] (P(q := p)) (btree_insert_at key pid slot txn q g b2)" "leaf_ok p"
    "entries p = insert_entry (key, pid, slot) es" "next_leaf_id p = next_leaf_id (P q)"
    by (rule insert_at_st [OF w(6,7) q qp(2) room', where key = key and pid = pid and slot = slot and txn = txn,
          unfolded qp(3)])
  have ins: "btree_insert root_page_id key pid slot txn s = Some (True, s\<lparr>ps_bpm := btree_insert_at key pid slot txn q g b2\<rparr>)"
    using w leaf_types [OF w(3)] few qp(3)
    by (simp add: btree_insert_def flip: length_entries)
  have "chain (P(q := p)) root_page_id (chain_insert new_id (key, pid, slot) L)"
    using chain_insert_plain [OF ch dist _ ne few p(2), of "(key, pid, slot)" q] t p by simp
  moreover have "map fst (chain_insert new_id (key, pid, slot) L) = map fst L"
    using chain_insert_pages(1) [of "(key, pid, slot)" L] room by simp
  moreover from this have "chain_pages (chain_insert new_id (key, pid, slot) L) = chain_pages L"
    by (metis list.set_map)
  ultimately have "btree_rep N (P(q := p)) root_page_id (chain_insert new_id (key, pid, slot) L)
      (s\<lparr>ps_bpm := btree_insert_at key pid slot txn q g b2\<rparr>)"
    using rep p(1) chain_insert_nonempty [OF ne] by (simp add: btree_rep_def del: fun_upd_apply)
  moreover have "\<forall>q'. q' \<notin> chain_pages L \<longrightarrow> (P(q := p)) q' = P q'"
    using qp(1) by (metis fun_upd_other)
  ultimately show ?thesis using ins by blast
qed

text \<open>Inserting into a full leaf splits it and goes on in the half that the key belongs to.\<close>

lemma insert_splits_target:
  assumes rep: "btree_rep N P root_page_id L s" and full: "chain_splits key L" and N: "N + 1 < 2 ^ 32"
    and t: "chain_target key L = (q, es)"
  defines "new \<equiv> ps_next_page_id s"
  obtains s2 g b pl pr where "unat q < N" "unat new = N" "new \<noteq> INVALID_PAGE_ID" "length es = BTREE_MAX_LEAF_ENTRIES"
    "leaf_ok pl" "entries pl = take (length es div 2) es" "next_leaf_id pl = new"
    "leaf_ok pr" "entries pr = drop (length es div 2) es" "next_leaf_id pr = next_leaf_id (P q)"
    "ps_next_page_id s2 = new + 1" "bp_st (N + 1) {} [q] (P(q := pl, new := pr)) b" "find_frame b q = Some g"
    "btree_insert root_page_id key pid slot txn s =
    (if beyond (take (length es div 2) es) key then
       let next_id = new; b = buffer_pool_unpin_page b q False HINT_NORMAL
       in (case buffer_pool_fetch_page b next_id of
             (None, b) \<Rightarrow> Some (False, s2\<lparr>ps_bpm := b\<rparr>)
           | (Some f, b) \<Rightarrow> Some (True, s2\<lparr>ps_bpm := btree_insert_at key pid slot txn next_id f b\<rparr>))
     else Some (True, s2\<lparr>ps_bpm := btree_insert_at key pid slot txn q g b\<rparr>))"
proof -
  let ?new = "ps_next_page_id s"
  have ch: "chain P root_page_id L" and ne: "L \<noteq> []" and new: "unat ?new = N" using rep by (simp_all add: btree_rep_def)
  have new_inv: "?new \<noteq> INVALID_PAGE_ID"
    using new N by (auto simp: unsigned_minus_1_eq_mask mask_eq_exp_minus_1)
  obtain f b1 g b2 where w: "buffer_pool_fetch_page (ps_bpm s) root_page_id = (Some f, b1)"
    "frame_page b1 f = P root_page_id" "leaf_ok (P root_page_id)" "root_page_id \<noteq> INVALID_PAGE_ID"
    "btree_walk key root_page_id f b1 = Some (Some (q, g), b2)" "bp_st N {} [q] P b2"
    "find_frame b2 q = Some g" "frame_page b2 g = P q"
    and qp: "q \<in> chain_pages L" "leaf_ok (P q)" "entries (P q) = es" "q \<noteq> INVALID_PAGE_ID" and q: "unat q < N"
    using walk_to_target [OF rep t] by metis
  have qn: "q \<noteq> ?new" using q new by auto
  have len: "length es = BTREE_MAX_LEAF_ENTRIES"
    using full chain_splits_target [OF ne, of key] t qp by (auto simp: leaf_ok_def)
  define s1 where "s1 = s\<lparr>ps_bpm := buffer_pool_unpin_page b2 q False HINT_NORMAL\<rparr>"
  have st1: "bp_st N {} [] P (ps_bpm s1)" using pool.unpin_clean_st [OF w(6), of q] by (simp add: s1_def)
  have nx: "ps_next_page_id s1 = ?new" by (simp add: s1_def)
  have c1: "1 < unat (hdr_slot_count (P q))" using len qp(3) by auto
  have c2: "unat (ps_next_page_id s1) = N" using nx new by simp
  obtain pl pr where sp:
    "bp_st (N + 1) {} [] (P(q := pl, ?new := pr)) (ps_bpm (split_leaf_node q txn s1))"
    "ps_next_page_id (split_leaf_node q txn s1) = ?new + 1"
    "leaf_ok pl" "entries pl = take (length es div 2) es" "next_leaf_id pl = ?new"
    "leaf_ok pr" "entries pr = drop (length es div 2) es" "next_leaf_id pr = next_leaf_id (P q)"
    by (rule split_st [OF st1 q qp(4,2) c1 c2 N, of txn, unfolded qp(3) nx])
  define s2 where "s2 = split_leaf_node q txn s1"
  define P2 where "P2 = P(q := pl, ?new := pr)"
  have P2: "P2 q = pl" "P2 ?new = pr" using qn by (simp_all add: P2_def)
  obtain g2 b3 where f2: "buffer_pool_fetch_page (ps_bpm s2) q = (Some g2, b3)" "bp_st (N + 1) {} [q] P2 b3"
    "find_frame b3 q = Some g2"
    using pool.fetch_st [OF sp(1), of q] qp(4) by (auto simp: s2_def P2_def)
  have fr3: "frame_page b3 g2 = pl" using pool.frame_st [OF f2(2) _ f2(3)] P2 by simp
  let ?l = "take (length es div 2) es"
  have "entries pl \<noteq> []" using sp(4) len by auto
  then have bey: "beyond_leaf pl key \<longleftrightarrow> beyond ?l key"
    using new_inv sp(4,5) last_entry [of pl] entries_nonempty [of pl] by (auto simp: beyond_leaf_def beyond_def)
  have run: "btree_insert root_page_id key pid slot txn s =
    (if beyond ?l key then
       let next_id = ?new; b = buffer_pool_unpin_page b3 q False HINT_NORMAL
       in (case buffer_pool_fetch_page b next_id of
             (None, b) \<Rightarrow> Some (False, s2\<lparr>ps_bpm := b\<rparr>)
           | (Some f, b) \<Rightarrow> Some (True, s2\<lparr>ps_bpm := btree_insert_at key pid slot txn next_id f b\<rparr>))
     else Some (True, s2\<lparr>ps_bpm := btree_insert_at key pid slot txn q g2 b3\<rparr>))"
    using w leaf_types [OF w(3)] len qp(3) f2(1) fr3 bey sp(5)
    by (simp add: btree_insert_def s1_def [symmetric] s2_def [symmetric] flip: length_entries)
  show ?thesis
    by (rule that [of pl pr s2 b3 g2, unfolded new_def, OF q new new_inv len sp(3-8) _ f2(2)[unfolded P2_def] f2(3) run])
      (simp add: sp(2) s2_def)
qed

lemma insert_refines_split:
  assumes rep: "btree_rep N P root_page_id L s" and full: "chain_splits key L" and N: "N + 1 < 2 ^ 32"
  shows "\<exists>s' P'. btree_insert root_page_id key pid slot txn s = Some (True, s') \<and>
    btree_rep (N + 1) P' root_page_id (chain_insert (ps_next_page_id s) (key, pid, slot) L) s' \<and>
    (\<forall>q. q \<notin> chain_pages L \<and> q \<noteq> ps_next_page_id s \<longrightarrow> P' q = P q)"
proof -
  let ?new = "ps_next_page_id s" and ?e = "(key, pid, slot)"
  obtain q es where t: "chain_target key L = (q, es)" by fastforce
  let ?l = "take (length es div 2) es" and ?r = "drop (length es div 2) es"
  obtain s2 g2 b3 pl pr where q: "unat q < N" "unat ?new = N" "?new \<noteq> INVALID_PAGE_ID" "length es = BTREE_MAX_LEAF_ENTRIES"
    and pl: "leaf_ok pl" "entries pl = ?l" "next_leaf_id pl = ?new"
    and pr: "leaf_ok pr" "entries pr = ?r" "next_leaf_id pr = next_leaf_id (P q)"
    and s2: "ps_next_page_id s2 = ?new + 1" "bp_st (N + 1) {} [q] (P(q := pl, ?new := pr)) b3" "find_frame b3 q = Some g2"
    and run: "btree_insert root_page_id key pid slot txn s =
    (if beyond ?l key then
       let next_id = ?new; b = buffer_pool_unpin_page b3 q False HINT_NORMAL
       in (case buffer_pool_fetch_page b next_id of
             (None, b) \<Rightarrow> Some (False, s2\<lparr>ps_bpm := b\<rparr>)
           | (Some f, b) \<Rightarrow> Some (True, s2\<lparr>ps_bpm := btree_insert_at key pid slot txn next_id f b\<rparr>))
     else Some (True, s2\<lparr>ps_bpm := btree_insert_at key pid slot txn q g2 b3\<rparr>))"
    by (rule insert_splits_target [OF assms t])
  have qn: "q \<noteq> ?new" using q by auto
  define P2 where "P2 = P(q := pl, ?new := pr)"
  have P2: "P2 q = pl" "P2 ?new = pr" using qn by (simp_all add: P2_def)
  note f2 = s2(2,3) [folded P2_def]
  have finish: ?thesis if "btree_insert root_page_id key pid slot txn s = Some (True, s')"
    "bp_st (N + 1) {} [] (P(q := pl', ?new := pr')) (ps_bpm s')" "ps_next_page_id s' = ?new + 1"
    "leaf_ok pl'" "leaf_ok pr'" "next_leaf_id pl' = ?new" "next_leaf_id pr' = next_leaf_id (P q)"
    "(entries pl', entries pr') = (if beyond ?l key then (?l, insert_entry ?e ?r) else (insert_entry ?e ?l, ?r))"
    for s' pl' pr'
    using split_rep [OF rep, of ?e, unfolded fst_conv, OF full N t refl that(2-7)] that(1,8)
    by (auto simp: Let_def)
  show ?thesis
  proof (cases "beyond ?l key")
    case False
    have q1: "unat q < N + 1" using q(1) by simp
    have rm: "leaf_ok (P2 q)" "unat (hdr_slot_count (P2 q)) < BTREE_MAX_LEAF_ENTRIES"
      using P2 pl q(4) by (auto simp flip: length_entries)
    obtain p where p: "bp_st (N + 1) {} [] (P2(q := p)) (btree_insert_at key pid slot txn q g2 b3)" "leaf_ok p"
      "entries p = insert_entry ?e (entries (P2 q))" "next_leaf_id p = next_leaf_id (P2 q)"
      by (rule insert_at_st [OF f2 q1 rm])
    have "P2(q := p) = P(q := p, ?new := pr)" using qn by (simp add: P2_def fun_upd_twist)
    then show ?thesis
      using False run p pl pr s2(1) P2
      by (intro finish [of "s2\<lparr>ps_bpm := btree_insert_at key pid slot txn q g2 b3\<rparr>" p pr]) auto
  next
    case True
    have st3: "bp_st (N + 1) {} [] P2 (buffer_pool_unpin_page b3 q False HINT_NORMAL)"
      using pool.unpin_clean_st [OF f2(1), of q] by simp
    obtain g3 b4 where f3: "buffer_pool_fetch_page (buffer_pool_unpin_page b3 q False HINT_NORMAL) ?new = (Some g3, b4)"
      "bp_st (N + 1) {} [?new] P2 b4" "find_frame b4 ?new = Some g3"
      using pool.fetch_st [OF st3, of ?new] q(3) by auto
    have n1: "unat ?new < N + 1" using q(2) by simp
    have rm: "leaf_ok (P2 ?new)" "unat (hdr_slot_count (P2 ?new)) < BTREE_MAX_LEAF_ENTRIES"
      using P2 pr q(4) by (auto simp flip: length_entries)
    obtain p where p: "bp_st (N + 1) {} [] (P2(?new := p)) (btree_insert_at key pid slot txn ?new g3 b4)" "leaf_ok p"
      "entries p = insert_entry ?e (entries (P2 ?new))" "next_leaf_id p = next_leaf_id (P2 ?new)"
      by (rule insert_at_st [OF f3(2,3) n1 rm])
    have "P2(?new := p) = P(q := pl, ?new := p)" by (simp add: P2_def)
    then show ?thesis
      using True run p pl pr s2(1) P2 f3(1)
      by (intro finish [of "s2\<lparr>ps_bpm := btree_insert_at key pid slot txn ?new g3 b4\<rparr>" pl p]) auto
  qed
qed

section \<open>Insertion keeps the entries sorted\<close>

text \<open>No leaf is empty unless it is the only one.\<close>

definition chain_sorted :: "(u32 \<times> leaf_entry list) list \<Rightarrow> bool" where
  "chain_sorted L \<longleftrightarrow> sorted (map fst (chain_entries L)) \<and> (length L \<le> 1 \<or> (\<forall>x \<in> set L. snd x \<noteq> []))"

lemma takeWhile_le: "x \<in> set (takeWhile (\<lambda>x. fst x \<le> (k :: u64)) es) \<Longrightarrow> fst x \<le> k"
  by (metis (mono_tags) set_takeWhileD)

lemma dropWhile_ge:
  "sorted (map fst es) \<Longrightarrow> x \<in> set (dropWhile (\<lambda>x. fst x \<le> k) es) \<Longrightarrow> (k :: u64) < fst x"
proof (induction es)
  case (Cons e es)
  then show ?case by (auto split: if_splits simp: not_le intro: less_le_trans)
qed simp

lemma sorted_le_last: "sorted (map fst es) \<Longrightarrow> x \<in> set es \<Longrightarrow> fst x \<le> fst (last es)"
  by (induction es) (auto simp: last_in_set split: if_splits)

text \<open>
  Where an entry lands when it is inserted in a leaf of a sorted chain: after every entry with a
  key up to its own and before every entry with a key from its own, split or not.
\<close>

definition splits_at :: "leaf_entry list \<Rightarrow> leaf_entry list \<Rightarrow> leaf_entry \<Rightarrow> bool" where
  "splits_at es es' e \<longleftrightarrow> (\<exists>xs ys. es = xs @ ys \<and> es' = xs @ e # ys \<and>
     (\<forall>x \<in> set xs. fst x \<le> fst e) \<and> (\<forall>y \<in> set ys. fst e \<le> fst y))"

lemma splits_at_insert: "sorted (map fst es) \<Longrightarrow> splits_at es (insert_entry e es) e"
  unfolding splits_at_def insert_entry_def
  by (intro exI [of _ "takeWhile (\<lambda>x. fst x \<le> fst e) es"] exI [of _ "dropWhile (\<lambda>x. fst x \<le> fst e) es"])
    (auto dest: takeWhile_le dropWhile_ge less_imp_le)

lemma splits_atI:
  "es = xs @ ys \<Longrightarrow> es' = xs @ e # ys \<Longrightarrow> \<forall>x \<in> set xs. fst x \<le> fst e \<Longrightarrow> \<forall>y \<in> set ys. fst e \<le> fst y \<Longrightarrow>
    splits_at es es' e"
  unfolding splits_at_def by blast

lemma splits_at_append:
  assumes "splits_at es es' e" "\<forall>y \<in> set cs. fst e \<le> fst y"
  shows "splits_at (es @ cs) (es' @ cs) e"
proof -
  obtain xs ys where "es = xs @ ys" "es' = xs @ e # ys" "\<forall>x \<in> set xs. fst x \<le> fst e" "\<forall>y \<in> set ys. fst e \<le> fst y"
    using assms(1) unfolding splits_at_def by blast
  then show ?thesis using assms(2) by (intro splits_atI [of _ xs "ys @ cs"]) auto
qed

lemma splits_at_prepend:
  assumes "splits_at es es' e" "\<forall>x \<in> set bs. fst x \<le> fst e"
  shows "splits_at (bs @ es) (bs @ es') e"
proof -
  obtain xs ys where "es = xs @ ys" "es' = xs @ e # ys" "\<forall>x \<in> set xs. fst x \<le> fst e" "\<forall>y \<in> set ys. fst e \<le> fst y"
    using assms(1) unfolding splits_at_def by blast
  then show ?thesis using assms(2) by (intro splits_atI [of _ "bs @ xs" ys]) auto
qed

lemma beyond_above: "beyond es k \<Longrightarrow> sorted (map fst es) \<Longrightarrow> \<forall>x \<in> set es. fst x \<le> k"
  by (auto simp: beyond_def dest: sorted_le_last)

lemma not_beyond_last: "\<not> beyond es k \<Longrightarrow> es \<noteq> [] \<Longrightarrow> \<exists>x \<in> set es. k \<le> fst x"
  by (auto simp: beyond_def intro!: bexI [of _ "last es"])

lemma chain_insert_splits_at:
  assumes "chain_sorted L" "L \<noteq> []"
  shows "splits_at (chain_entries L) (chain_entries (chain_insert new_id e L)) e"
  using assms
proof (induction new_id e L rule: chain_insert.induct)
  case (1 new_id e)
  then show ?case by simp
next
  case (2 new_id e q es L)
  let ?k = "fst e" and ?tl = "chain_entries L"
  have sorted: "sorted (map fst es)" "sorted (map fst ?tl)"
    and cross: "\<And>x y. x \<in> set es \<Longrightarrow> y \<in> set ?tl \<Longrightarrow> fst x \<le> fst y"
    using 2(2) by (auto simp: chain_sorted_def sorted_append)
  show ?case
  proof (cases "L \<noteq> [] \<and> beyond es ?k")
    case True
    have "chain_sorted L" using 2(2) sorted by (auto simp: chain_sorted_def)
    then have "splits_at ?tl (chain_entries (chain_insert new_id e L)) e" using 2(1) True by blast
    then show ?thesis using True beyond_above [OF _ sorted(1)] splits_at_prepend by simp
  next
    case False
    have above: "\<forall>y \<in> set ?tl. ?k \<le> fst y"
    proof
      fix y assume y: "y \<in> set ?tl"
      then have "L \<noteq> []" "es \<noteq> []" using 2(2) by (auto simp: chain_sorted_def)
      then show "?k \<le> fst y" using not_beyond_last [of es ?k] False cross y by (meson order_trans)
    qed
    define l r where "l = take (length es div 2) es" and "r = drop (length es div 2) es"
    have lr: "es = l @ r" by (simp add: l_def r_def)
    have slr: "sorted (map fst l)" "sorted (map fst r)" "\<And>x y. x \<in> set l \<Longrightarrow> y \<in> set r \<Longrightarrow> fst x \<le> fst y"
      using sorted(1) by (auto simp: lr sorted_append)
    have one: "chain_entries (chain_insert new_id e [(q, es)]) =
        (if length es < BTREE_MAX_LEAF_ENTRIES then insert_entry e es
         else if beyond l ?k then l @ insert_entry e r else insert_entry e l @ r)"
      by (simp add: Let_def l_def r_def)
    have leaf: "splits_at es (chain_entries (chain_insert new_id e [(q, es)])) e"
    proof (cases "length es < BTREE_MAX_LEAF_ENTRIES")
      case True
      then show ?thesis using splits_at_insert [OF sorted(1)] by simp
    next
      case full: False
      show ?thesis
      proof (cases "beyond l ?k")
        case True
        then have "splits_at (l @ r) (l @ insert_entry e r) e"
          by (intro splits_at_prepend splits_at_insert beyond_above slr)
        then show ?thesis unfolding one lr [symmetric] using full True by simp
      next
        case False
        have "l \<noteq> []" using full by (auto simp: l_def)
        then have "\<forall>y \<in> set r. ?k \<le> fst y" using not_beyond_last [OF False] slr(3) by (meson order_trans)
        then have "splits_at (l @ r) (insert_entry e l @ r) e"
          by (intro splits_at_append splits_at_insert slr)
        then show ?thesis unfolding one lr [symmetric] using full False by simp
      qed
    qed
    moreover have "chain_entries (chain_insert new_id e ((q, es) # L)) = chain_entries (chain_insert new_id e [(q, es)]) @ ?tl"
      using False by (auto simp: Let_def)
    ultimately show ?thesis using splits_at_append [OF leaf above] by simp
  qed
qed

lemma chain_insert_position:
  assumes "chain_sorted L" "L \<noteq> []"
  shows "\<exists>xs ys. chain_entries L = xs @ ys \<and> chain_entries (chain_insert new_id e L) = xs @ e # ys \<and>
    (\<forall>x \<in> set xs. fst x \<le> fst e) \<and> (\<forall>y \<in> set ys. fst e \<le> fst y)"
  using chain_insert_splits_at [OF assms] by (simp add: splits_at_def)

section \<open>The tree as a map\<close>

text \<open>\<open>F\<close> are the pages of the tree and \<open>M\<close> the map it represents. An operation on the
  tree changes no allocated page outside \<open>F\<close>.\<close>

definition btree_inv ::
  "nat \<Rightarrow> (u32 \<Rightarrow> page) \<Rightarrow> u32 \<Rightarrow> (u64 \<rightharpoonup> u32 \<times> u16) \<Rightarrow> u32 set \<Rightarrow> PageStore \<Rightarrow> bool" where
  "btree_inv N P root_page_id M F s \<longleftrightarrow>
     (\<exists>L. btree_rep N P root_page_id L s \<and> chain_sorted L \<and> M = map_of (chain_entries L) \<and> F = chain_pages L)"

lemma chain_insert_filled:
  "length L \<le> 1 \<or> (\<forall>x \<in> set L. snd x \<noteq> []) \<Longrightarrow> \<forall>x \<in> set (chain_insert new_id e L). snd x \<noteq> []"
proof (induction new_id e L rule: chain_insert.induct)
  case (1 new_id e)
  then show ?case by simp
next
  case (2 new_id e q es L)
  show ?case
  proof (cases "L \<noteq> [] \<and> beyond es (fst e)")
    case True
    then show ?thesis using 2 by auto
  next
    case False
    have rest: "\<forall>x \<in> set L. snd x \<noteq> []" using 2(2) by auto
    have half: "250 \<le> length es \<Longrightarrow> take (length es div 2) es \<noteq> [] \<and> drop (length es div 2) es \<noteq> []" by auto
    show ?thesis
      unfolding chain_insert.simps if_not_P [OF False] using rest half
      by (auto simp: Let_def insert_entry_def)
  qed
qed

lemma chain_insert_sorted:
  assumes "chain_sorted L" "L \<noteq> []"
  shows "chain_sorted (chain_insert new_id e L)"
proof -
  obtain xs ys where xy: "chain_entries L = xs @ ys" "chain_entries (chain_insert new_id e L) = xs @ e # ys"
    "\<forall>x \<in> set xs. fst x \<le> fst e" "\<forall>y \<in> set ys. fst e \<le> fst y"
    using chain_insert_position [OF assms] by blast
  then have "sorted (map fst (chain_entries (chain_insert new_id e L)))"
    using assms(1) by (auto simp: chain_sorted_def sorted_append)
  moreover have "\<forall>x \<in> set (chain_insert new_id e L). snd x \<noteq> []"
    using chain_insert_filled [of L new_id e] assms(1) unfolding chain_sorted_def by blast
  ultimately show ?thesis using assms(1) by (simp add: chain_sorted_def)
qed

lemma chain_insert_map_of:
  assumes "chain_sorted L" "L \<noteq> []" "map_of (chain_entries L) (fst e) = None"
  shows "map_of (chain_entries (chain_insert new_id e L)) = (map_of (chain_entries L))(fst e \<mapsto> snd e)"
proof -
  obtain xs ys where xy: "chain_entries L = xs @ ys" "chain_entries (chain_insert new_id e L) = xs @ e # ys"
    using chain_insert_position [OF assms(1,2)] by blast
  then show ?thesis using assms(3) by (cases e) (auto simp: fun_eq_iff map_add_def split: option.splits)
qed

lemma btree_init_inv:
  assumes st: "bp_st N {} [] P b" and r: "unat r < N" and N: "unat next = N"
    and fresh: "hdr_page_type (P r) \<noteq> 4" "hdr_page_type (P r) \<noteq> 5"
  obtains p where "btree_inv N (P(r := p)) r Map.empty {r} \<lparr>ps_bpm = btree_init r b, ps_next_page_id = next\<rparr>"
proof -
  have inv: "r \<noteq> INVALID_PAGE_ID" using not_allocated_invalid st r by (auto simp: bp_st_def)
  obtain f b1 where f: "buffer_pool_fetch_page b r = (Some f, b1)" "bp_st N {} [r] P b1" "find_frame b1 r = Some f"
    using pool.fetch_st [OF st, of r] inv by auto
  have fr: "frame_page b1 f = P r" using pool.frame_st [OF f(2) _ f(3)] by simp
  define p where "p = slotted_page_compute_checksum
    (put_u32 (slotted_page_init (P r) r PAGE_TYPE_BTREE_LEAF) 24 INVALID_PAGE_ID)"
  have wf: "page_wf p"
    unfolding p_def by (intro checksum_wf page_wf_put init_page_wf pool.page_st [OF st]) simp
  have ok: "bp_ok N {} b1" using f by (simp add: bp_st_def)
  have flen: "f < length (bp_frames b1)" using find_frame_sound [OF f(3)] bp_ok_length [OF ok] by simp
  have "btree_init r b = buffer_pool_unpin_page (set_frame_page f p b1) r True HINT_NORMAL"
    using f(1) fr fresh flen unpin_predirty [OF ok f(3), of p HINT_NORMAL]
    by (simp add: btree_init_def Let_def p_def)
  moreover have "bp_st N {r} [r] (P(r := p)) (set_frame_page f p b1)"
    using pool.update_st [OF f(2) _ f(3) wf] by simp
  ultimately have "bp_st N {} [] (P(r := p)) (btree_init r b)"
    using pool.unpin_dirty_st [of N "{r}" "[r]" "P(r := p)" "set_frame_page f p b1" r HINT_NORMAL] r by simp
  moreover have "leaf_ok p" "entries p = []" "next_leaf_id p = INVALID_PAGE_ID"
    using wf by (simp_all add: leaf_ok_def p_def entries_def)
  ultimately have "btree_rep N (P(r := p)) r [(r, [])] \<lparr>ps_bpm = btree_init r b, ps_next_page_id = next\<rparr>"
    using inv r N by (simp add: btree_rep_def)
  then show ?thesis
    using that by (force simp: btree_inv_def chain_sorted_def)
qed

lemma btree_search_map:
  assumes "btree_inv N P r M F s"
  shows "\<exists>b'. btree_search r key (ps_bpm s) = Some (M key, b') \<and> btree_inv N P r M F (s\<lparr>ps_bpm := b'\<rparr>)"
proof -
  obtain L where L: "btree_rep N P r L s" "chain_sorted L" "M = map_of (chain_entries L)" "F = chain_pages L"
    using assms by (auto simp: btree_inv_def)
  then obtain b' where "btree_search_loop key r (ps_bpm s) = Some (M key, b')" "bp_st N {} [] P b'"
    using search_chain [of P r L N "[]" "ps_bpm s" key] by (auto simp: btree_rep_def)
  then show ?thesis
    using L by (auto simp: btree_search_def btree_inv_def btree_rep_def)
qed

text \<open>Every page allocated by an operation belongs to the component that called it.\<close>

definition takes_new_pages :: "nat \<Rightarrow> u32 set \<Rightarrow> nat \<Rightarrow> u32 set \<Rightarrow> bool" where
  "takes_new_pages N F N' F' \<longleftrightarrow> (\<forall>q. unat q < N' \<and> q \<notin> F' \<longrightarrow> unat q < N \<and> q \<notin> F)"

lemma takes_new_pages_refl [simp]: "takes_new_pages N F N F"
  by (simp add: takes_new_pages_def)

lemma takes_new_pages_trans:
  "takes_new_pages N F N1 F1 \<Longrightarrow> takes_new_pages N1 F1 N2 F2 \<Longrightarrow> takes_new_pages N F N2 F2"
  by (auto simp: takes_new_pages_def)

lemma takes_next_page [simp]: "takes_new_pages (unat n) F (Suc (unat n)) (insert n F)"
  by (auto simp: takes_new_pages_def less_Suc_eq simp flip: word_unat_eq_iff)

lemma btree_insert_pages:
  assumes inv: "btree_inv N P r M F s" and new: "M key = None" and N: "N + 1 < 2 ^ 32"
  shows "\<exists>s' N' P' F'. btree_insert r key pid slot txn s = Some (True, s') \<and>
    btree_inv N' P' r (M(key \<mapsto> (pid, slot))) F' s' \<and> N \<le> N' \<and> N' \<le> N + 1 \<and> F \<subseteq> F' \<and>
    (\<forall>q. unat q < N \<and> q \<notin> F \<longrightarrow> q \<notin> F' \<and> P' q = P q) \<and> takes_new_pages N F N' F'"
proof -
  let ?new = "ps_next_page_id s"
  obtain L where L: "btree_rep N P r L s" "chain_sorted L" "M = map_of (chain_entries L)" "F = chain_pages L"
    using inv by (auto simp: btree_inv_def)
  have ne: "L \<noteq> []" and new_id: "unat ?new = N" using L(1) by (simp_all add: btree_rep_def)
  let ?L = "chain_insert ?new (key, pid, slot) L"
  have sorted: "chain_sorted ?L" by (rule chain_insert_sorted [OF L(2) ne])
  have map: "map_of (chain_entries ?L) = M(key \<mapsto> (pid, slot))"
    using chain_insert_map_of [OF L(2) ne, of "(key, pid, slot)"] new L(3) by simp
  show ?thesis
  proof (cases "chain_splits key L")
    case False
    then have pages: "chain_pages ?L = F"
      using chain_insert_pages(1) [of "(key, pid, slot)" L] L(4) by (metis fst_conv list.set_map)
    obtain s' P' where "btree_insert r key pid slot txn s = Some (True, s')" "btree_rep N P' r ?L s'"
      "\<forall>q. q \<notin> chain_pages L \<longrightarrow> P' q = P q"
      using insert_refines_plain [OF L(1) False] by blast
    then show ?thesis
      using sorted map pages L(4) by (metis btree_inv_def le_add1 order_refl takes_new_pages_refl)
  next
    case True
    then have pages: "chain_pages ?L = insert ?new F"
      using chain_insert_pages(2) [of "(key, pid, slot)" L] L(4) by simp
    obtain s' P' where "btree_insert r key pid slot txn s = Some (True, s')" "btree_rep (N + 1) P' r ?L s'"
      "\<forall>q. q \<notin> chain_pages L \<and> q \<noteq> ?new \<longrightarrow> P' q = P q"
      using insert_refines_split [OF L(1) True N] by blast
    moreover from this have "btree_inv (N + 1) P' r (M(key \<mapsto> (pid, slot))) (insert ?new F) s'"
      using sorted map pages unfolding btree_inv_def by metis
    ultimately show ?thesis
      using L(4) new_id by (intro exI [of _ s'] exI [of _ "N + 1"] exI [of _ P'] exI [of _ "insert ?new F"]) auto
  qed
qed

lemma btree_insert_map:
  assumes "btree_inv N P r M F s" "M key = None" "N + 1 < 2 ^ 32"
  shows "\<exists>s' N' P' F'. btree_insert r key pid slot txn s = Some (True, s') \<and>
    btree_inv N' P' r (M(key \<mapsto> (pid, slot))) F' s' \<and> N \<le> N' \<and> N' \<le> N + 1 \<and> F \<subseteq> F' \<and>
    (\<forall>q. unat q < N \<and> q \<notin> F \<longrightarrow> q \<notin> F' \<and> P' q = P q)"
  using btree_insert_pages [OF assms] by blast

lemma btree_update_map:
  assumes inv: "btree_inv N P r M F s"
  shows "\<exists>b' P'. btree_update r key pid slot (ps_bpm s) = Some (M key \<noteq> None, b') \<and>
    btree_inv N P' r (if M key = None then M else M(key \<mapsto> (pid, slot))) F (s\<lparr>ps_bpm := b'\<rparr>) \<and>
    (\<forall>q. q \<notin> F \<longrightarrow> P' q = P q)"
proof -
  obtain L where L: "btree_rep N P r L s" "chain_sorted L" "M = map_of (chain_entries L)" "F = chain_pages L"
    using inv by (auto simp: btree_inv_def)
  let ?L = "chain_update key (pid, slot) L"
  obtain b' P' where u: "btree_update_loop key pid slot r (ps_bpm s) = Some (M key \<noteq> None, b')"
    "bp_st N {} [] P' b'" "chain P' r ?L" "\<forall>q. q \<notin> chain_pages L \<longrightarrow> P' q = P q"
    using update_chain [of P r L N "[]" "ps_bpm s" key pid slot] L by (auto simp: btree_rep_def)
  have pages: "chain_pages ?L = chain_pages L" by (metis chain_update_pages list.set_map)
  have keys: "map fst (chain_entries ?L) = map fst (chain_entries L)"
    using chain_update_keys [of key "(pid, slot)" L] by (metis map_concat)
  have "\<forall>x \<in> set L. snd x \<noteq> [] \<Longrightarrow> \<forall>x \<in> set ?L. snd x \<noteq> []"
    by (rule chain_update_filled)
  moreover have "length ?L = length L" by (metis chain_update_pages length_map)
  ultimately have "chain_sorted ?L"
    using L(2) keys by (auto simp: chain_sorted_def)
  moreover have "map_of (chain_entries ?L) = (if M key = None then M else M(key \<mapsto> (pid, slot)))"
    using chain_update_map_of [of key "(pid, slot)" L] L(3) by simp
  moreover have "btree_rep N P' r ?L (s\<lparr>ps_bpm := b'\<rparr>)"
    using L(1) u pages by (auto simp: btree_rep_def)
  ultimately have "btree_inv N P' r (if M key = None then M else M(key \<mapsto> (pid, slot))) F (s\<lparr>ps_bpm := b'\<rparr>)"
    unfolding btree_inv_def using L(4) pages by metis
  then show ?thesis using u L(4) by (auto simp: btree_update_def)
qed

text \<open>The operations on the tree and its page counter as one state.\<close>

definition tree_search :: "u32 \<Rightarrow> u64 \<Rightarrow> PageStore \<Rightarrow> ((u32 \<times> u16) option \<times> PageStore) option" where
  "tree_search r key s = map_option (\<lambda>(v, b). (v, s\<lparr>ps_bpm := b\<rparr>)) (btree_search r key (ps_bpm s))"

definition tree_update :: "u32 \<Rightarrow> u64 \<Rightarrow> u32 \<Rightarrow> u16 \<Rightarrow> PageStore \<Rightarrow> (bool \<times> PageStore) option" where
  "tree_update r key pid slot s =
     map_option (\<lambda>(v, b). (v, s\<lparr>ps_bpm := b\<rparr>)) (btree_update r key pid slot (ps_bpm s))"

interpretation tree: term_map "tree_search r" "\<lambda>k p t s. btree_insert r k p t txn s" "tree_update r"
    "\<lambda>N P M F s. btree_inv N P r M F s" for r txn
proof unfold_locales
  fix N P M F s k p t
  assume inv: "btree_inv N P r M F s"
  show "\<exists>s'. tree_search r k s = Some (M k, s') \<and> btree_inv N P r M F s'"
    using btree_search_map [OF inv, of k] by (auto simp: tree_search_def)
  show "\<exists>s' P'. tree_update r k p t s = Some (M k \<noteq> None, s') \<and>
      btree_inv N P' r (if M k = None then M else M(k \<mapsto> (p, t))) F s' \<and> (\<forall>q. q \<notin> F \<longrightarrow> P' q = P q)"
    using btree_update_map [OF inv, of k p t] by (auto simp: tree_update_def)
qed (rule btree_insert_map)

text \<open>Changing other pages leaves the map alone.\<close>

lemma btree_inv_pages:
  assumes inv: "btree_inv N P r M F s" and st: "bp_st N' {} [] P' b'" and N: "N \<le> N'" "unat next' = N'"
    and same: "\<And>q. q \<in> F \<Longrightarrow> P' q = P q"
  shows "btree_inv N' P' r M F \<lparr>ps_bpm = b', ps_next_page_id = next'\<rparr>"
proof -
  obtain L where L: "btree_rep N P r L s" "chain_sorted L" "M = map_of (chain_entries L)" "F = chain_pages L"
    using inv by (auto simp: btree_inv_def)
  then have "chain P' r L" using chain_cong [of L P' P] same by (simp add: btree_rep_def)
  then have "btree_rep N' P' r L \<lparr>ps_bpm = b', ps_next_page_id = next'\<rparr>"
    using L(1) st N by (fastforce simp: btree_rep_def)
  then show ?thesis using L by (auto simp: btree_inv_def)
qed

lemma btree_inv_st: "btree_inv N P r M F s \<Longrightarrow> bp_st N {} [] P (ps_bpm s)"
  and btree_inv_next: "btree_inv N P r M F s \<Longrightarrow> unat (ps_next_page_id s) = N"
  and btree_inv_pages_less: "btree_inv N P r M F s \<Longrightarrow> q \<in> F \<Longrightarrow> unat q < N"
  by (auto simp: btree_inv_def btree_rep_def)

end
