(* ===== verification/CDouble.thy ===== *)
theory CDouble
  imports Prelude "HOL-Library.Log_Nat"
begin

text \<open>
  C's \<open>double\<close>: IEEE binary64 values with infinities and a NaN, round-to-nearest-even
  after every operation, and comparisons that are false on NaN. The two zeros are one
  value (the code never divides by a zero whose sign matters). The values of \<open>log\<close>,
  \<open>log2\<close> and \<open>sqrt\<close> are taken as correctly rounded.
\<close>

section \<open>Rounding\<close>

definition rhe :: "real \<Rightarrow> int" where
  "rhe x = (let n = \<lfloor>x\<rfloor>; d = x - of_int n in
     if d < 1/2 then n else if 1/2 < d then n + 1 else if even n then n else n + 1)"

definition binexp :: "real \<Rightarrow> int" where
  "binexp x = (let a = \<bar>x\<bar> in
     if 1 \<le> a then bitlen \<lfloor>a\<rfloor> - 1 else - bitlen (\<lceil>1 / a\<rceil> - 1))"

definition ulp_exp :: "real \<Rightarrow> int" where
  "ulp_exp x = max (binexp x) (- 1022) - 52"

definition round64 :: "real \<Rightarrow> real" where
  "round64 x = (if x = 0 then 0 else of_int (rhe (x / 2 powi ulp_exp x)) * 2 powi ulp_exp x)"

lemma rhe_bounds: "x - 1/2 \<le> of_int (rhe x)" "of_int (rhe x) \<le> x + 1/2"
proof -
  have "of_int \<lfloor>x\<rfloor> \<le> x" "x < of_int \<lfloor>x\<rfloor> + 1" by linarith+
  then show "x - 1/2 \<le> of_int (rhe x)" "of_int (rhe x) \<le> x + 1/2"
    unfolding rhe_def Let_def by (simp_all; linarith)+
qed

lemma rhe_of_int [simp]: "rhe (of_int n) = n"
  by (simp add: rhe_def)

lemma rhe_mono: "x \<le> y \<Longrightarrow> rhe x \<le> rhe y"
proof -
  assume xy: "x \<le> y"
  then have f: "\<lfloor>x\<rfloor> \<le> \<lfloor>y\<rfloor>" by (rule floor_mono)
  have r: "\<lfloor>z\<rfloor> \<le> rhe z \<and> rhe z \<le> \<lfloor>z\<rfloor> + 1" for z
    by (simp add: rhe_def Let_def)
  show ?thesis
  proof (cases "\<lfloor>x\<rfloor> = \<lfloor>y\<rfloor>")
    case True
    with xy show ?thesis by (auto simp: rhe_def Let_def)
  next
    case False
    with f have "\<lfloor>x\<rfloor> + 1 \<le> \<lfloor>y\<rfloor>" by simp
    with r [of x] r [of y] show ?thesis by linarith
  qed
qed

lemma rhe_minus: "rhe (- x) = - rhe x"
proof (cases "x = of_int \<lfloor>x\<rfloor>")
  case True
  then show ?thesis by (metis of_int_minus rhe_of_int)
next
  case False
  then have c: "\<lfloor>- x\<rfloor> = - \<lfloor>x\<rfloor> - 1"
    by linarith
  show ?thesis
    by (auto simp: rhe_def Let_def c)
qed

lemma powi_pos: "(0::real) < 2 powi n"
  by simp

lemma powi_mono: "m \<le> n \<Longrightarrow> (2::real) powi m \<le> 2 powi n"
  by (simp add: power_int_increasing)

lemma powi_diff_int: "0 \<le> k \<Longrightarrow> (2::real) powi (n + k) / 2 powi n = of_int (2 ^ nat k)"
  by (simp add: power_int_add power_int_nonneg_exp [symmetric])

lemma binexp_bounds:
  assumes "x \<noteq> 0"
  shows "2 powi binexp x \<le> \<bar>x\<bar>" "\<bar>x\<bar> < 2 powi (binexp x + 1)"
proof -
  let ?a = "\<bar>x\<bar>"
  have "2 powi binexp x \<le> ?a \<and> ?a < 2 powi (binexp x + 1)"
  proof (cases "1 \<le> ?a")
    case True
    let ?n = "\<lfloor>?a\<rfloor>"
    from True have n: "1 \<le> ?n" by linarith
    have b: "binexp x = bitlen ?n - 1" using True by (simp add: binexp_def Let_def)
    have p: "0 < bitlen ?n" using n bitlen_nonneg [of ?n] bitlen_eq_zero_iff [of ?n] by linarith
    have bb: "2 ^ nat (bitlen ?n - 1) \<le> ?n \<and> ?n < 2 ^ nat (bitlen ?n)"
      using n by (intro bitlen_bounds) simp
    have e: "(2::real) powi (bitlen ?n - 1) = of_int (2 ^ nat (bitlen ?n - 1))"
      "(2::real) powi (bitlen ?n) = of_int (2 ^ nat (bitlen ?n))"
      using p by (simp_all add: power_int_def)
    from bb have "of_int (2 ^ nat (bitlen ?n - 1)) \<le> (of_int ?n :: real)"
      by (simp only: of_int_le_iff)
    moreover from bb have "?n + 1 \<le> 2 ^ nat (bitlen ?n)" by simp
    then have "of_int (?n + 1) \<le> (of_int (2 ^ nat (bitlen ?n)) :: real)"
      by (simp only: of_int_le_iff)
    ultimately show ?thesis unfolding b using e
      by (simp only: diff_add_cancel) linarith
  next
    case False
    let ?n = "\<lceil>1 / ?a\<rceil> - 1"
    have a: "0 < ?a" "?a < 1" using assms False by auto
    then have "1 < 1 / ?a" by simp
    then have n: "1 \<le> ?n" by linarith
    have b: "binexp x = - bitlen ?n" using False by (simp add: binexp_def Let_def)
    have p: "0 < bitlen ?n" using n bitlen_nonneg [of ?n] bitlen_eq_zero_iff [of ?n] by linarith
    have bb: "2 ^ nat (bitlen ?n - 1) \<le> ?n \<and> ?n < 2 ^ nat (bitlen ?n)"
      using n by (intro bitlen_bounds) simp
    have e: "(2::real) powi (bitlen ?n - 1) = of_int (2 ^ nat (bitlen ?n - 1))"
      "(2::real) powi (bitlen ?n) = of_int (2 ^ nat (bitlen ?n))"
      using p by (simp_all add: power_int_def)
    from bb have "of_int (2 ^ nat (bitlen ?n - 1)) \<le> (of_int ?n :: real)"
      by (simp only: of_int_le_iff)
    then have lo: "2 powi (bitlen ?n - 1) < 1 / ?a" unfolding e by linarith
    from bb have "?n + 1 \<le> 2 ^ nat (bitlen ?n)" by simp
    then have "of_int (?n + 1) \<le> (of_int (2 ^ nat (bitlen ?n)) :: real)"
      by (simp only: of_int_le_iff)
    then have hi: "1 / ?a \<le> 2 powi (bitlen ?n)" unfolding e by linarith
    have "2 powi (- bitlen ?n) \<le> ?a"
      using hi a by (simp add: power_int_minus field_simps)
    moreover have "?a < 2 powi (- bitlen ?n + 1)"
    proof -
      have "- bitlen ?n + 1 = - (bitlen ?n - 1)" by simp
      then have "2 powi (- bitlen ?n + 1) = inverse ((2::real) powi (bitlen ?n - 1))"
        by (simp only: power_int_minus)
      moreover have "?a < inverse P" if "0 < P" "P < 1 / ?a" for P
        using that a by (simp add: field_simps)
      ultimately show ?thesis using lo powi_pos [of "bitlen ?n - 1"] by simp
    qed
    ultimately show ?thesis unfolding b by simp
  qed
  then show "2 powi binexp x \<le> \<bar>x\<bar>" "\<bar>x\<bar> < 2 powi (binexp x + 1)" by auto
qed


lemma powi_less_imp: "(2::real) powi m < 2 powi n \<Longrightarrow> m < n"
  by (metis powi_mono not_le)

lemma powi_le_less_imp: "(2::real) powi m \<le> x \<Longrightarrow> x < 2 powi n \<Longrightarrow> m < n"
  by (rule powi_less_imp) linarith

lemma binexp_mono: "0 < x \<Longrightarrow> x \<le> y \<Longrightarrow> binexp x \<le> binexp y"
  using powi_le_less_imp [of "binexp x" x "binexp y + 1"] binexp_bounds [of x] binexp_bounds [of y]
  by simp

lemma binexp_minus [simp]: "binexp (- x) = binexp x"
  by (simp add: binexp_def)

lemma ulp_exp_minus [simp]: "ulp_exp (- x) = ulp_exp x"
  by (simp add: ulp_exp_def)

lemma round64_0 [simp]: "round64 0 = 0"
  by (simp add: round64_def)

lemma round64_minus: "round64 (- x) = - round64 x"
  by (simp add: round64_def rhe_minus)

lemma round64_nonneg [simp]: "0 \<le> x \<Longrightarrow> 0 \<le> round64 x"
proof -
  assume "0 \<le> x"
  then have "rhe 0 \<le> rhe (x / 2 powi ulp_exp x)" by (intro rhe_mono) simp
  then have "0 \<le> rhe (x / 2 powi ulp_exp x)" using rhe_of_int [of 0] by simp
  then show ?thesis by (simp add: round64_def)
qed

lemma round64_upper:
  assumes "0 < x" "x \<le> 2 powi (ulp_exp x + k)" "0 \<le> k"
  shows "round64 x \<le> 2 powi (ulp_exp x + k)"
proof -
  let ?u = "(2::real) powi ulp_exp x"
  have "x / ?u \<le> 2 powi (ulp_exp x + k) / ?u"
    using assms by (intro divide_right_mono) simp_all
  also have "\<dots> = of_int (2 ^ nat k)" using assms by (intro powi_diff_int)
  finally have "rhe (x / ?u) \<le> 2 ^ nat k" using rhe_mono rhe_of_int by metis
  then have "of_int (rhe (x / ?u)) \<le> (of_int (2 ^ nat k) :: real)" by (simp only: of_int_le_iff)
  also have "\<dots> = 2 powi (ulp_exp x + k) / ?u" using assms by (intro powi_diff_int [symmetric])
  finally have "of_int (rhe (x / ?u)) * ?u \<le> 2 powi (ulp_exp x + k)"
    by (simp add: field_simps)
  then show ?thesis using assms by (simp add: round64_def)
qed

lemma round64_lower:
  assumes "0 < x" "2 powi (ulp_exp x + k) \<le> x" "0 \<le> k"
  shows "2 powi (ulp_exp x + k) \<le> round64 x"
proof -
  let ?u = "(2::real) powi ulp_exp x"
  have "of_int (2 ^ nat k) = 2 powi (ulp_exp x + k) / ?u"
    using assms by (intro powi_diff_int [symmetric])
  also have "\<dots> \<le> x / ?u" using assms by (intro divide_right_mono) simp_all
  finally have "2 ^ nat k \<le> rhe (x / ?u)" using rhe_mono rhe_of_int by metis
  then have "(of_int (2 ^ nat k) :: real) \<le> of_int (rhe (x / ?u))" by (simp only: of_int_le_iff)
  then have "2 powi (ulp_exp x + k) / ?u \<le> of_int (rhe (x / ?u))"
    using assms(3) by (simp only: powi_diff_int)
  then have "2 powi (ulp_exp x + k) \<le> of_int (rhe (x / ?u)) * ?u"
    by (simp add: field_simps)
  then show ?thesis using assms by (simp add: round64_def)
qed

lemma round64_mono_pos:
  assumes "0 < x" "x \<le> y"
  shows "round64 x \<le> round64 y"
proof (cases "ulp_exp x = ulp_exp y")
  case True
  have "x / 2 powi ulp_exp x \<le> y / 2 powi ulp_exp x"
    using assms by (intro divide_right_mono) simp_all
  then have "rhe (x / 2 powi ulp_exp x) \<le> rhe (y / 2 powi ulp_exp x)" by (rule rhe_mono)
  then show ?thesis using assms True by (simp add: round64_def)
next
  case False
  have m: "binexp x \<le> binexp y" using assms by (rule binexp_mono)
  with False have y: "ulp_exp y = binexp y - 52" "- 1022 < binexp y"
    and xy: "ulp_exp x + 53 \<le> binexp y"
    by (auto simp: ulp_exp_def max_def split: if_splits)
  have "x < 2 powi (binexp x + 1)" using binexp_bounds [of x] assms by simp
  also have "\<dots> \<le> 2 powi (ulp_exp x + 53)" by (rule powi_mono) (simp add: ulp_exp_def)
  finally have "round64 x \<le> 2 powi (ulp_exp x + 53)"
    using assms by (intro round64_upper) simp_all
  also have "\<dots> \<le> 2 powi binexp y" using xy by (rule powi_mono)
  also have "\<dots> = 2 powi (ulp_exp y + 52)" using y by simp
  also have "\<dots> \<le> round64 y"
    using binexp_bounds [of y] assms y by (intro round64_lower) simp_all
  finally show ?thesis .
qed

theorem round64_mono: "x \<le> y \<Longrightarrow> round64 x \<le> round64 y"
proof -
  assume xy: "x \<le> y"
  consider "0 < x" | "x \<le> 0" "0 \<le> y" | "y < 0" using xy by linarith
  then show ?thesis
  proof cases
    case 1
    then show ?thesis using xy by (rule round64_mono_pos)
  next
    case 2
    then have "0 \<le> round64 (- x)" "0 \<le> round64 y" by simp_all
    then show ?thesis by (simp add: round64_minus)
  next
    case 3
    then have "round64 (- y) \<le> round64 (- x)" using xy by (intro round64_mono_pos) simp_all
    then show ?thesis by (simp add: round64_minus)
  qed
qed

text \<open>Integers up to $2^{53}$ and, more generally, 53-bit multiples of the unit in the
  last place are represented exactly.\<close>

lemma round64_exact:
  assumes "x = of_int m * 2 powi ulp_exp x"
  shows "round64 x = x"
proof (cases "x = 0")
  case False
  have "x / 2 powi ulp_exp x = of_int m" using assms by (metis nonzero_mult_div_cancel_right powi_pos less_irrefl)
  then show ?thesis using False assms by (simp add: round64_def)
qed simp

lemma round64_of_int:
  assumes "\<bar>n\<bar> \<le> 2 ^ 53"
  shows "round64 (of_int n) = of_int n"
proof -
  have pos: "round64 (of_int k) = of_int k" if k: "0 < k" "k \<le> 2 ^ 53" for k :: int
  proof -
    let ?x = "of_int k :: real"
    show ?thesis
    proof (cases "k = 2 ^ 53")
      case True
      have "of_int k = (2::real) powi 53" using True by simp
      moreover have "bitlen (1 * 2 ^ 53) = bitlen 1 + int 53" by (rule bitlen_pow2) simp
      then have "bitlen k = 54" using True by (simp add: bitlen_alt_def)
      then have "binexp ?x = 53" using True by (simp add: binexp_def Let_def)
      then have "ulp_exp ?x = 1" by (simp add: ulp_exp_def)
      ultimately show ?thesis by (intro round64_exact [of _ "2 ^ 52"]) simp
    next
      case False
      with k have "?x < of_int (2 ^ 53)" by (simp only: of_int_less_iff)
      then have "?x < 2 powi 53" by simp
      with k have "binexp ?x < 53"
        using binexp_bounds [of ?x] powi_le_less_imp by simp
      then have "ulp_exp ?x \<le> 0" by (simp add: ulp_exp_def)
      then have "of_int (k * 2 ^ nat (- ulp_exp ?x)) * 2 powi ulp_exp ?x = ?x"
        by (simp add: power_int_def power_inverse flip: power_mult_distrib)
      then show ?thesis by (intro round64_exact [OF sym])
    qed
  qed
  consider "n = 0" | "0 < n" | "n < 0" by linarith
  then show ?thesis
  proof cases
    case 3
    then have "round64 (of_int (- n)) = of_int (- n)" using assms by (intro pos) simp_all
    then show ?thesis using round64_minus [of "of_int n"] by simp
  qed (use pos assms in auto)
qed


lemma round64_of_nat: "n \<le> 2 ^ 53 \<Longrightarrow> round64 (of_nat n) = of_nat n"
  using round64_of_int [of "int n"] by simp

section \<open>Values and operations\<close>

datatype double = Fin real | PInf | NInf | NaN

text \<open>The binary64 result of an operation whose exact value is \<open>x\<close>: overflow goes to
  an infinity.\<close>

definition dbl_limit :: real where
  "dbl_limit = 2 ^ 1024"

lemma dbl_limit_pos [simp]: "0 < dbl_limit"
  by (simp add: dbl_limit_def)

definition to_double :: "real \<Rightarrow> double" where
  "to_double x = (let r = round64 x in
     if dbl_limit \<le> r then PInf else if r \<le> - dbl_limit then NInf else Fin r)"

definition sinf :: "real \<Rightarrow> double" where
  "sinf s = (if 0 < s then PInf else if s < 0 then NInf else NaN)"

fun dadd :: "double \<Rightarrow> double \<Rightarrow> double" where
  "dadd (Fin a) (Fin b) = to_double (a + b)"
| "dadd NaN _ = NaN"
| "dadd _ NaN = NaN"
| "dadd PInf NInf = NaN"
| "dadd NInf PInf = NaN"
| "dadd PInf _ = PInf"
| "dadd _ PInf = PInf"
| "dadd NInf _ = NInf"
| "dadd _ NInf = NInf"

fun dneg :: "double \<Rightarrow> double" where
  "dneg (Fin a) = Fin (- a)"
| "dneg PInf = NInf"
| "dneg NInf = PInf"
| "dneg NaN = NaN"

definition dsub :: "double \<Rightarrow> double \<Rightarrow> double" where
  "dsub a b = dadd a (dneg b)"

fun dsgn :: "double \<Rightarrow> real" where
  "dsgn (Fin a) = sgn a"
| "dsgn PInf = 1"
| "dsgn NInf = - 1"
| "dsgn NaN = 0"

fun dmul :: "double \<Rightarrow> double \<Rightarrow> double" where
  "dmul (Fin a) (Fin b) = to_double (a * b)"
| "dmul NaN _ = NaN"
| "dmul _ NaN = NaN"
| "dmul x y = sinf (dsgn x * dsgn y)"

fun ddiv :: "double \<Rightarrow> double \<Rightarrow> double" where
  "ddiv (Fin a) (Fin b) = (if b = 0 then sinf a else to_double (a / b))"
| "ddiv NaN _ = NaN"
| "ddiv _ NaN = NaN"
| "ddiv (Fin _) _ = Fin 0"
| "ddiv x (Fin b) = (if b = 0 then x else sinf (dsgn x * sgn b))"
| "ddiv _ _ = NaN"

fun dlt :: "double \<Rightarrow> double \<Rightarrow> bool" where
  "dlt (Fin a) (Fin b) = (a < b)"
| "dlt (Fin _) PInf = True"
| "dlt NInf (Fin _) = True"
| "dlt NInf PInf = True"
| "dlt _ _ = False"

fun deq :: "double \<Rightarrow> double \<Rightarrow> bool" where
  "deq (Fin a) (Fin b) = (a = b)"
| "deq PInf PInf = True"
| "deq NInf NInf = True"
| "deq _ _ = False"

fun dsqrt :: "double \<Rightarrow> double" where
  "dsqrt (Fin a) = (if a < 0 then NaN else to_double (sqrt a))"
| "dsqrt PInf = PInf"
| "dsqrt _ = NaN"

fun dlog :: "double \<Rightarrow> double" where
  "dlog (Fin a) = (if a < 0 then NaN else if a = 0 then NInf else to_double (ln a))"
| "dlog PInf = PInf"
| "dlog _ = NaN"

fun dlog2 :: "double \<Rightarrow> double" where
  "dlog2 (Fin a) = (if a < 0 then NaN else if a = 0 then NInf else to_double (log 2 a))"
| "dlog2 PInf = PInf"
| "dlog2 _ = NaN"

text \<open>Conversion of an unsigned integer, and truncation back to one.\<close>

definition d_of_nat :: "nat \<Rightarrow> double" where
  "d_of_nat n = to_double (of_nat n)"

fun d_trunc :: "double \<Rightarrow> int" where
  "d_trunc (Fin a) = (if 0 \<le> a then \<lfloor>a\<rfloor> else \<lceil>a\<rceil>)"
| "d_trunc _ = 0"

section \<open>Order facts\<close>

lemma dlt_irrefl [simp]: "\<not> dlt a a"
  by (cases a) simp_all

lemma dlt_trans: "dlt a b \<Longrightarrow> dlt b c \<Longrightarrow> dlt a c"
  by (cases a; cases b; cases c) simp_all

lemma dlt_asym: "dlt a b \<Longrightarrow> \<not> dlt b a"
  by (cases a; cases b) simp_all

lemma dlt_NaN [simp]: "\<not> dlt NaN a" "\<not> dlt a NaN"
  by (cases a; simp)+

text \<open>On values other than NaN, \<open>\<not> a < b\<close> is a total preorder.\<close>

lemma not_dlt_trans: "b \<noteq> NaN \<Longrightarrow> \<not> dlt a b \<Longrightarrow> \<not> dlt b c \<Longrightarrow> \<not> dlt a c"
  by (cases a; cases b; cases c) simp_all

lemma not_dlt_antisym: "a \<noteq> NaN \<Longrightarrow> b \<noteq> NaN \<Longrightarrow> \<not> dlt a b \<Longrightarrow> \<not> dlt b a \<Longrightarrow> a = b"
  by (cases a; cases b) simp_all

lemma dlt_not_NaN: "dlt a b \<Longrightarrow> a \<noteq> NaN \<and> b \<noteq> NaN"
  by auto

section \<open>Sign facts\<close>

text \<open>Finite and not negative: the range of lengths, weights and scores.\<close>

definition dnn :: "double \<Rightarrow> bool" where
  "dnn d \<longleftrightarrow> (\<exists>r\<ge>0. d = Fin r)"

lemma to_double_bounded:
  assumes "\<bar>x\<bar> \<le> 2 ^ k" "k < 1024"
  shows "to_double x = Fin (round64 x)"
proof -
  have e: "round64 (2 ^ k) = 2 ^ k"
  proof -
    have "(2::real) ^ k = 2 powi int k" by simp
    moreover have "binexp (2 ^ k) \<le> int k"
      using powi_le_less_imp [of "binexp (2 ^ k)" "2 ^ k" "int k + 1"] binexp_bounds [of "2 ^ k"]
      by (simp add: power_int_add)
    then have u: "ulp_exp (2 ^ k) \<le> int k" by (simp add: ulp_exp_def)
    have "(2::real) ^ k = of_int (2 ^ nat (int k - ulp_exp (2 ^ k))) * 2 powi ulp_exp (2 ^ k)"
      using u powi_diff_int [of "int k - ulp_exp (2 ^ k)" "ulp_exp (2 ^ k)"]
      by (simp add: field_simps)
    then show ?thesis by (rule round64_exact)
  qed
  have "round64 x \<le> round64 (2 ^ k)" "round64 (- x) \<le> round64 (2 ^ k)"
    using assms by (intro round64_mono; simp)+
  then have "\<bar>round64 x\<bar> \<le> 2 ^ k" unfolding e round64_minus by simp
  moreover have "(2::real) ^ k < dbl_limit" unfolding dbl_limit_def
    using assms(2) by (intro power_strict_increasing) simp_all
  ultimately show ?thesis unfolding to_double_def Let_def by (auto simp: abs_le_iff)
qed

lemma to_double_0 [simp]: "to_double 0 = Fin 0"
  using to_double_bounded [of 0 0] by simp

lemma to_double_nonneg: "0 \<le> x \<Longrightarrow> to_double x = PInf \<or> dnn (to_double x)"
proof -
  assume "0 \<le> x"
  then have "- dbl_limit < round64 x" using round64_nonneg [of x] dbl_limit_pos by linarith
  then show ?thesis using round64_nonneg [OF \<open>0 \<le> x\<close>] by (simp add: to_double_def Let_def dnn_def)
qed

lemma d_of_nat_exact: "n \<le> 2 ^ 53 \<Longrightarrow> d_of_nat n = Fin (of_nat n)"
proof -
  assume n: "n \<le> 2 ^ 53"
  then have "of_nat n \<le> (of_nat (2 ^ 53) :: real)" by (simp only: of_nat_le_iff)
  moreover have "round64 (of_nat n) = of_nat n"
    using round64_of_int [of "int n"] n by simp
  ultimately show ?thesis
    using to_double_bounded [of "of_nat n" 53] by (simp add: d_of_nat_def)
qed

lemma d_of_u32: "d_of_nat (unat (n :: u32)) = Fin (of_nat (unat n))"
  using unat_u32_less [of n] by (intro d_of_nat_exact) simp

lemma to_double_mono_le: "x \<le> y \<Longrightarrow> \<not> dlt (to_double y) (to_double x)"
  using round64_mono [of x y] by (auto simp: to_double_def Let_def)

section \<open>Interchange formats\<close>

text \<open>The value of a stored binary32 pattern converted to \<open>double\<close> (exact), the value of a
  stored binary64 pattern, and the pattern of a value. A negative zero is stored as zero and
  every NaN as the default quiet one.\<close>

definition float_value :: "u32 \<Rightarrow> double" where
  "float_value w =
     (let s = unat (w div 2 ^ 31); e = unat (w div 2 ^ 23) mod 256; m = unat w mod 2 ^ 23;
          sg = (if s = 1 then - 1 else 1) :: real
      in if e = 255 then (if m \<noteq> 0 then NaN else if s = 1 then NInf else PInf)
         else if e = 0 then Fin (sg * of_nat m * 2 powi (- 149))
         else Fin (sg * of_nat (2 ^ 23 + m) * 2 powi (int e - 150)))"

definition dbl_of_bits :: "u64 \<Rightarrow> double" where
  "dbl_of_bits w =
     (let s = unat w div 2 ^ 63; e = unat w div 2 ^ 52 mod 2048; m = unat w mod 2 ^ 52;
          sg = (if s = 1 then - 1 else 1) :: real
      in if e = 2047 then (if m \<noteq> 0 then NaN else if s = 1 then NInf else PInf)
         else if e = 0 then Fin (sg * of_nat m * 2 powi (- 1074))
         else Fin (sg * of_nat (2 ^ 52 + m) * 2 powi (int e - 1075)))"

fun bits_of_dbl :: "double \<Rightarrow> u64" where
  "bits_of_dbl NaN = of_nat (2047 * 2 ^ 52 + 2 ^ 51)"
| "bits_of_dbl PInf = of_nat (2047 * 2 ^ 52)"
| "bits_of_dbl NInf = of_nat (2 ^ 63 + 2047 * 2 ^ 52)"
| "bits_of_dbl (Fin x) =
     (if x = 0 then 0
      else let u = ulp_exp x; m = nat \<lfloor>\<bar>x\<bar> / 2 powi u\<rfloor>; s = (if x < 0 then 2 ^ 63 else 0)
        in if m < 2 ^ 52 then of_nat (s + m)
           else of_nat (s + nat (u + 1075) * 2 ^ 52 + (m - 2 ^ 52)))"

end
