(* ===== verification/FtsIndexer.thy ===== *)
theory FtsIndexer
  imports SlottedPage CDouble
begin

unbundle bit_operations_syntax

text \<open>
  \<open>fts_indexer.c\<close> and \<open>fts_indexer.h\<close>: logarithmic quantisation of field lengths, the
  length-map page and the tombstone bitset page. The bitset is presented to the shard
  through the locale \<open>bitset_page\<close>.
\<close>

section \<open>Model\<close>

abbreviation (input) MAX_FTS_FIELDS :: nat where "MAX_FTS_FIELDS \<equiv> 4"
abbreviation (input) DOC_NORMS_PER_PAGE :: nat where "DOC_NORMS_PER_PAGE \<equiv> PAGE_SIZE div MAX_FTS_FIELDS"
abbreviation (input) TOMBSTONE_BITS_PER_PAGE :: nat where "TOMBSTONE_BITS_PER_PAGE \<equiv> PAGE_SIZE * 8"
abbreviation (input) sizeof_DocNormEntry :: nat where "sizeof_DocNormEntry \<equiv> MAX_FTS_FIELDS"

definition quantize_field_length :: "u32 \<Rightarrow> u8" where
  "quantize_field_length len =
     (if len = 0 then 0
      else
        let log_val = dmul (dlog2 (dadd (d_of_nat (unat len)) (Fin 1))) (Fin 16)
        in if dlt (Fin 255) log_val then 255 else of_int (d_trunc log_val))"

definition fts_length_map_init :: "page \<Rightarrow> u32 \<Rightarrow> page" where
  "fts_length_map_init p page_id = slotted_page_init p page_id PAGE_TYPE_LENGTH_MAP"

definition length_map_offset :: "u32 \<Rightarrow> u8 \<Rightarrow> nat" where
  "length_map_offset doc_id field_idx =
     (let idx = unat doc_id mod DOC_NORMS_PER_PAGE
      in sizeof_PageHeader + idx * sizeof_DocNormEntry + unat field_idx)"

definition fts_length_map_set :: "page \<Rightarrow> u32 \<Rightarrow> u8 \<Rightarrow> u8 \<Rightarrow> page" where
  "fts_length_map_set p doc_id field_idx quantized_len =
     (if MAX_FTS_FIELDS \<le> unat field_idx then p
      else let offset = length_map_offset doc_id field_idx
        in if offset < PAGE_SIZE then put_u8 p offset quantized_len else p)"

definition fts_length_map_get :: "page \<Rightarrow> u32 \<Rightarrow> u8 \<Rightarrow> u8" where
  "fts_length_map_get p doc_id field_idx =
     (if MAX_FTS_FIELDS \<le> unat field_idx then 0
      else let offset = length_map_offset doc_id field_idx
        in if offset < PAGE_SIZE then get_u8 p offset else 0)"

definition fts_tombstone_init :: "page \<Rightarrow> u32 \<Rightarrow> page" where
  "fts_tombstone_init p page_id = slotted_page_init p page_id PAGE_TYPE_TOMBSTONE_BITSET"

definition fts_tombstone_mark_deleted :: "page \<Rightarrow> u32 \<Rightarrow> page" where
  "fts_tombstone_mark_deleted p doc_id =
     (let bit_offset = unat doc_id mod TOMBSTONE_BITS_PER_PAGE;
          byte_idx = sizeof_PageHeader + bit_offset div 8;
          bit_idx = bit_offset mod 8
      in if byte_idx < PAGE_SIZE
         then put_u8 p byte_idx (get_u8 p byte_idx OR push_bit bit_idx 1) else p)"

definition fts_tombstone_is_deleted :: "page \<Rightarrow> u32 \<Rightarrow> bool" where
  "fts_tombstone_is_deleted p doc_id =
     (let bit_offset = unat doc_id mod TOMBSTONE_BITS_PER_PAGE;
          byte_idx = sizeof_PageHeader + bit_offset div 8;
          bit_idx = bit_offset mod 8
      in if byte_idx < PAGE_SIZE then get_u8 p byte_idx AND push_bit bit_idx 1 \<noteq> 0 else False)"

section \<open>Tombstones\<close>

text \<open>The page holds a bit for the documents whose residue is below 32576 only: 24 bytes
  of the 4096 are the header.\<close>

definition tombstone_slot :: "u32 \<Rightarrow> nat" where
  "tombstone_slot doc_id = unat doc_id mod TOMBSTONE_BITS_PER_PAGE"

definition tombstone_fits :: "u32 \<Rightarrow> bool" where
  "tombstone_fits doc_id \<longleftrightarrow> tombstone_slot doc_id < 32576"

lemma tombstone_byte_in_page: "24 + b div 8 < 4096 \<longleftrightarrow> b < (32576 :: nat)"
  by auto

lemma is_deleted_bit:
  "fts_tombstone_is_deleted p d \<longleftrightarrow>
     tombstone_fits d \<and> bit (p (24 + tombstone_slot d div 8)) (tombstone_slot d mod 8)"
  unfolding fts_tombstone_is_deleted_def tombstone_fits_def tombstone_slot_def Let_def
    get_u8_def tombstone_byte_in_page [symmetric]
  by (simp only: bit_iff_and_push_bit_not_eq_0) simp

lemma set_bit_in_bytes:
  "bit ((p(24 + s div 8 := p (24 + s div 8) OR push_bit (s mod 8) 1)) (24 + b div 8)) (b mod 8) \<longleftrightarrow>
     bit (p (24 + b div 8) :: byte) (b mod 8) \<or> b = (s :: nat)"
proof (cases "b div 8 = s div 8")
  case True
  then have "b = s \<longleftrightarrow> b mod 8 = s mod 8" by (metis div_mult_mod_eq)
  then show ?thesis using True by (auto simp: bit_or_iff bit_exp_iff)
qed auto

lemma mark_deleted_bit:
  "bit (fts_tombstone_mark_deleted p d (24 + b div 8)) (b mod 8) \<longleftrightarrow>
     bit (p (24 + b div 8)) (b mod 8) \<or> (tombstone_fits d \<and> b = tombstone_slot d)"
proof (cases "tombstone_fits d")
  case True
  then have "fts_tombstone_mark_deleted p d = p(24 + tombstone_slot d div 8 :=
      p (24 + tombstone_slot d div 8) OR push_bit (tombstone_slot d mod 8) 1)"
    unfolding fts_tombstone_mark_deleted_def tombstone_fits_def tombstone_slot_def Let_def
      get_u8_def put_u8_def tombstone_byte_in_page [symmetric] by simp
  then show ?thesis using True by (simp only: set_bit_in_bytes) simp
next
  case False
  then have "fts_tombstone_mark_deleted p d = p"
    unfolding fts_tombstone_mark_deleted_def tombstone_fits_def tombstone_slot_def Let_def
      tombstone_byte_in_page [symmetric] by simp
  then show ?thesis using False by simp
qed

lemma is_deleted_mark:
  "fts_tombstone_is_deleted (fts_tombstone_mark_deleted p d) e \<longleftrightarrow>
     fts_tombstone_is_deleted p e \<or> (tombstone_fits d \<and> tombstone_slot e = tombstone_slot d)"
  unfolding is_deleted_bit mark_deleted_bit by (auto simp: tombstone_fits_def)

lemma bit_zero_page: "24 \<le> a \<Longrightarrow> a < 4096 \<Longrightarrow> fts_tombstone_init p pid a = 0"
  by (simp add: fts_tombstone_init_def slotted_page_init_def put_defs poke_other fill_def)

lemma is_deleted_init: "\<not> fts_tombstone_is_deleted (fts_tombstone_init p pid) d"
proof (cases "tombstone_fits d")
  case True
  then have "fts_tombstone_init p pid (24 + tombstone_slot d div 8) = 0"
    by (intro bit_zero_page) (auto simp: tombstone_fits_def)
  then show ?thesis by (simp add: is_deleted_bit)
qed (simp add: is_deleted_bit)

lemma mark_deleted_wf [wf_intros]: "page_wf p \<Longrightarrow> page_wf (fts_tombstone_mark_deleted p d)"
  by (simp add: fts_tombstone_mark_deleted_def Let_def page_wf_put)

lemma mark_deleted_header [mem_simps]: "a < 24 \<Longrightarrow> fts_tombstone_mark_deleted p d a = p a"
  by (simp add: fts_tombstone_mark_deleted_def Let_def put_u8_def)

section \<open>The bitset interface\<close>

text \<open>A set of documents kept in a page, up to the resolution \<open>slot\<close> of the page: what a
  mark adds, and nothing else changes. Any order of marks gives the same set.\<close>

locale bitset_page =
  fixes mark :: "'p \<Rightarrow> 'd \<Rightarrow> 'p"
    and member :: "'p \<Rightarrow> 'd \<Rightarrow> bool"
    and slot :: "'d \<Rightarrow> nat"
    and fits :: "'d \<Rightarrow> bool"
  assumes member_mark: "member (mark p d) e \<longleftrightarrow> member p e \<or> (fits d \<and> slot e = slot d)"
begin

lemma member_marks: "member (foldl mark p ds) e \<longleftrightarrow> member p e \<or> (\<exists>d \<in> set ds. fits d \<and> slot e = slot d)"
  by (induction ds arbitrary: p) (auto simp: member_mark)

lemma marks_order_irrelevant:
  "set ds = set ds' \<Longrightarrow> member (foldl mark p ds) e = member (foldl mark p ds') e"
  by (simp add: member_marks)

lemma mark_keeps: "member p e \<Longrightarrow> member (foldl mark p ds) e"
  by (simp add: member_marks)

end

interpretation tombstones: bitset_page fts_tombstone_mark_deleted fts_tombstone_is_deleted
  tombstone_slot tombstone_fits
  by unfold_locales (rule is_deleted_mark)

section \<open>Length maps\<close>

lemma length_map_offset_in_page:
  "unat field < 4 \<Longrightarrow> length_map_offset d field < PAGE_SIZE \<longleftrightarrow> unat d mod 1024 < 1018"
  by (auto simp: length_map_offset_def Let_def)

lemma length_map_offset_eq:
  assumes "unat f < 4" "unat g < 4"
  shows "length_map_offset d f = length_map_offset e g \<longleftrightarrow>
    unat d mod 1024 = unat e mod 1024 \<and> f = g"
proof -
  have "a * 4 + m = b * 4 + n \<longleftrightarrow> a = b \<and> m = n" if "m < 4" "n < 4" for a b m n :: nat
    using that by presburger
  then show ?thesis using assms
    by (simp add: length_map_offset_def Let_def add.assoc word_unat_eq_iff)
qed

lemma length_map_get_set:
  assumes "unat f < 4" "unat g < 4"
  shows "fts_length_map_get (fts_length_map_set p d f q) e g =
    (if unat d mod 1024 < 1018 \<and> unat e mod 1024 = unat d mod 1024 \<and> f = g then q
     else fts_length_map_get p e g)"
proof (cases "length_map_offset d f = length_map_offset e g")
  case True
  then have "unat d mod 1024 = unat e mod 1024 \<and> f = g" using assms by (simp add: length_map_offset_eq)
  then show ?thesis using assms length_map_offset_in_page [of f d]
    unfolding fts_length_map_set_def fts_length_map_get_def Let_def True [symmetric] by auto
next
  case False
  then have k: "get_u8 (put_u8 p (length_map_offset d f) q) (length_map_offset e g) =
      get_u8 p (length_map_offset e g)" by (simp add: get_u8_def put_u8_def)
  have "unat d mod 1024 \<noteq> unat e mod 1024 \<or> f \<noteq> g"
    using False assms by (simp add: length_map_offset_eq)
  then show ?thesis using assms
    by (auto simp: fts_length_map_set_def fts_length_map_get_def Let_def k)
qed

lemma length_map_set_wf [wf_intros]: "page_wf p \<Longrightarrow> page_wf (fts_length_map_set p d f q)"
  by (simp add: fts_length_map_set_def Let_def page_wf_put)

section \<open>Quantisation\<close>

text \<open>The value before truncation.\<close>

definition quant_level :: "nat \<Rightarrow> real" where
  "quant_level n = round64 (round64 (log 2 (of_nat n + 1)) * 16)"

lemma log2_bound: "n < 2 ^ 32 \<Longrightarrow> log 2 (of_nat n + 1) \<le> 32"
proof -
  assume "n < 2 ^ 32"
  then have "of_nat (n + 1) \<le> (of_nat (2 ^ 32) :: real)" by (simp only: of_nat_le_iff)
  then show ?thesis by (simp add: log_le_iff)
qed

lemma dadd_one: "n < 2 ^ 32 \<Longrightarrow> dadd (d_of_nat n) (Fin 1) = Fin (of_nat n + 1)"
proof -
  assume n: "n < 2 ^ 32"
  then have "round64 (of_nat (Suc n)) = of_nat (Suc n)" by (intro round64_of_nat) simp
  moreover have "of_nat (Suc n) \<le> (of_nat (2 ^ 53) :: real)"
    using n by (simp only: of_nat_le_iff) simp
  ultimately show ?thesis
    using n to_double_bounded [of "of_nat n + 1" 53] by (simp add: d_of_nat_exact add.commute)
qed

lemma quantize_eq:
  assumes "len \<noteq> 0"
  shows "quantize_field_length len =
    (if 255 < quant_level (unat len) then 255 else of_int \<lfloor>quant_level (unat len)\<rfloor>)"
proof -
  define n where "n = unat len"
  let ?l = "log 2 (of_nat n + 1)"
  have n: "n < 2 ^ 32" using unat_u32_less [of len] by (simp add: n_def)
  have add: "dadd (d_of_nat n) (Fin 1) = Fin (of_nat n + 1)" using n by (rule dadd_one)
  have l: "0 \<le> ?l" "?l \<le> 32" using n log2_bound by simp_all
  have r: "0 \<le> round64 ?l" "round64 ?l \<le> 32"
    using l round64_mono [of ?l 32] round64_of_int [of 32] by simp_all
  have lg: "dlog2 (Fin (of_nat n + 1)) = Fin (round64 ?l)"
    using l to_double_bounded [of ?l 5] by simp
  have mul: "dmul (Fin (round64 ?l)) (Fin 16) = Fin (quant_level n)"
    using r to_double_bounded [of "round64 ?l * 16" 9] by (simp add: quant_level_def)
  have q: "0 \<le> quant_level n" using r by (simp add: quant_level_def)
  have "dmul (dlog2 (dadd (d_of_nat n) (Fin 1))) (Fin 16) = Fin (quant_level n)"
    by (simp only: add lg mul)
  then show ?thesis using assms q
    by (simp add: quantize_field_length_def n_def [symmetric] Let_def)
qed

lemma quant_level_mono: "m \<le> n \<Longrightarrow> quant_level m \<le> quant_level n"
  unfolding quant_level_def by (intro round64_mono mult_right_mono) simp_all

lemma quant_level_ge: "1 \<le> n \<Longrightarrow> 16 \<le> quant_level n"
proof -
  assume "1 \<le> n"
  then have "quant_level 1 \<le> quant_level n" by (rule quant_level_mono)
  moreover have "quant_level 1 = 16"
    using round64_of_int [of 1] round64_of_int [of 16] by (simp add: quant_level_def)
  ultimately show ?thesis by simp
qed

lemma unat_quantize:
  "unat (quantize_field_length len) =
    (if len = 0 then 0 else if 255 < quant_level (unat len) then 255
     else nat \<lfloor>quant_level (unat len)\<rfloor>)"
proof (cases "len = 0 \<or> 255 < quant_level (unat len)")
  case True
  then show ?thesis
    by (cases "len = 0") (simp_all add: quantize_eq, simp add: quantize_field_length_def)
next
  case False
  then have "0 < unat len" by (simp add: unat_gt_0)
  then have "16 \<le> quant_level (unat len)" by (intro quant_level_ge) simp
  then have "0 \<le> \<lfloor>quant_level (unat len)\<rfloor>" "\<lfloor>quant_level (unat len)\<rfloor> < 256"
    using False by linarith+
  then have "unat (of_int \<lfloor>quant_level (unat len)\<rfloor> :: u8) = nat \<lfloor>quant_level (unat len)\<rfloor>"
    by (simp add: unsigned_of_int take_bit_eq_mod)
  then show ?thesis using False by (simp add: quantize_eq)
qed

lemma quantize_monotone: "a \<le> b \<Longrightarrow> quantize_field_length a \<le> quantize_field_length b"
proof -
  assume "a \<le> b"
  then have ab: "unat a \<le> unat b" by (simp add: word_le_nat_alt)
  then have "quant_level (unat a) \<le> quant_level (unat b)" by (rule quant_level_mono)
  moreover from this have "\<lfloor>quant_level (unat a)\<rfloor> \<le> \<lfloor>quant_level (unat b)\<rfloor>" by (rule floor_mono)
  moreover have "b = 0 \<Longrightarrow> a = 0" using ab by (simp add: unat_eq_0)
  moreover have "\<not> 255 < quant_level n \<Longrightarrow> nat \<lfloor>quant_level n\<rfloor> \<le> 255" for n by linarith
  ultimately show ?thesis by (auto simp: word_le_nat_alt unat_quantize intro: nat_mono) 
qed

lemma quantize_zero_iff: "quantize_field_length len = 0 \<longleftrightarrow> len = 0"
proof -
  have "len \<noteq> 0 \<Longrightarrow> 16 \<le> quant_level (unat len)"
    by (rule quant_level_ge) (simp add: Suc_le_eq unat_gt_0)
  then have "len \<noteq> 0 \<Longrightarrow> 16 \<le> \<lfloor>quant_level (unat len)\<rfloor>" by (simp add: le_floor_iff)
  then show ?thesis using unat_quantize [of len]
    by (auto simp: unat_eq_0 [symmetric] split: if_splits)
qed

section \<open>Properties\<close>

text \<open>C36: After any sequence of fts_tombstone_mark_deleted calls on a fresh tombstone page,
  fts_tombstone_is_deleted answers true for exactly the documents whose bit (the id modulo
  32768) was set by a marked document with a residue below 32576; marks of larger residues
  are lost, and the order of the marks does not matter.\<close>

theorem tombstones_are_marked_documents:
  "fts_tombstone_is_deleted (foldl fts_tombstone_mark_deleted (fts_tombstone_init p pid) ds) d \<longleftrightarrow>
    (\<exists>e \<in> set ds. unat d mod 32768 = unat e mod 32768 \<and> unat e mod 32768 < 32576)"
  by (auto simp: tombstones.member_marks is_deleted_init tombstone_slot_def tombstone_fits_def)

text \<open>A length-map read returns the quantised length that was last set for the same field
  and the same document modulo 1024, if the document's residue is below 1018 (the entries of
  the others lie past the page's end and a set of them is dropped); sets of other entries do
  not disturb it, and every set keeps the page within its 4096 bytes.\<close>

theorem length_map_last_set:
  assumes "unat f < 4" "unat g < 4" "page_wf p"
  shows "fts_length_map_get (fts_length_map_set p d f q) e g =
      (if unat d mod 1024 < 1018 \<and> unat e mod 1024 = unat d mod 1024 \<and> f = g then q
       else fts_length_map_get p e g) \<and>
    page_wf (fts_length_map_set p d f q)"
  using assms by (simp add: length_map_get_set length_map_set_wf)

theorem length_map_last_set_witness:
  "fts_length_map_get (fts_length_map_set (\<lambda>_. 0) 1030 2 99) 6 2 = 99 \<and>
    fts_length_map_get (fts_length_map_set (\<lambda>_. 0) 1020 2 99) 1020 2 = 0"
  using length_map_last_set [of 2 2 "\<lambda>_. 0" 1030 99 6] length_map_last_set [of 2 2 "\<lambda>_. 0" 1020 99 1020]
  by (simp add: fts_length_map_get_def length_map_offset_def Let_def get_u8_def)

text \<open>quantize_field_length is monotone: a longer field never gets a smaller quantised
  length, through the rounding of log2, of the product by 16 and of the truncation to a byte;
  and only the empty field is quantised to 0.\<close>

lemma quantized_length_monotone:
  assumes "a \<le> b"
  shows "quantize_field_length a \<le> quantize_field_length b \<and> (quantize_field_length b = 0 \<longleftrightarrow> b = 0)"
  using assms by (simp add: quantize_monotone quantize_zero_iff)

lemma quantized_length_monotone_witness:
  "quantize_field_length 3 \<le> quantize_field_length 100 \<and> quantize_field_length 100 \<noteq> 0"
  using quantized_length_monotone [of 3 100] by simp

end
