(* ===== verification/Ranking.thy ===== *)
theory Ranking
  imports CDouble
begin

text \<open>
  The scoring functions of \<open>shard_worker.c\<close> and \<open>unified_shard.c\<close> and the result arrays the
  searches build: bounded collection of the best results, exchange sort, ranks, and
  reciprocal rank fusion. \<open>qsort\<close> orders elements that compare equal in a way the C
  standard leaves open, so the fusion takes it as an argument.
\<close>

section \<open>Scores\<close>

abbreviation (input) MAX_FTS_FIELDS' :: nat where "MAX_FTS_FIELDS' \<equiv> 4"
abbreviation (input) EMBEDDING_DIM :: nat where "EMBEDDING_DIM \<equiv> 384"
abbreviation (input) MAX_RESULTS_PER_SHARD :: nat where "MAX_RESULTS_PER_SHARD \<equiv> 64"
abbreviation (input) RRF_K :: nat where "RRF_K \<equiv> 60"

definition bm25f_field ::
  "u32 list \<Rightarrow> u32 list \<Rightarrow> double list \<Rightarrow> double list \<Rightarrow> double \<Rightarrow> nat \<Rightarrow> double \<Rightarrow> double" where
  "bm25f_field tf doc_len avgdl weights b i f =
     (if dlt (Fin 0) (weights ! i) \<and> dlt (Fin 0) (avgdl ! i) \<and> 0 < tf ! i then
        let len_norm = dadd (dsub (Fin 1) b)
                         (dmul b (ddiv (d_of_nat (unat (doc_len ! i))) (avgdl ! i)))
        in dadd f (dmul (weights ! i) (ddiv (d_of_nat (unat (tf ! i))) len_norm))
      else f)"

definition compute_bm25f_score ::
  "u32 list \<Rightarrow> u32 list \<Rightarrow> double list \<Rightarrow> double list \<Rightarrow> double \<Rightarrow> double \<Rightarrow> double \<Rightarrow> double" where
  "compute_bm25f_score tf doc_len avgdl weights idf k1 b =
     (let f = fold (bm25f_field tf doc_len avgdl weights b) [0..<MAX_FTS_FIELDS'] (Fin 0) in
      if deq f (Fin 0) then Fin 0
      else let numerator = dmul f (dadd k1 (Fin 1)); denominator = dadd f k1
        in dmul idf (ddiv numerator denominator))"

definition cosine_step :: "u32 list \<Rightarrow> u32 list \<Rightarrow> nat \<Rightarrow> double \<times> double \<times> double \<Rightarrow> double \<times> double \<times> double" where
  "cosine_step a b i = (\<lambda>(dot, norm_a, norm_b).
     (dadd dot (dmul (float_value (a ! i)) (float_value (b ! i))),
      dadd norm_a (dmul (float_value (a ! i)) (float_value (a ! i))),
      dadd norm_b (dmul (float_value (b ! i)) (float_value (b ! i)))))"

definition compute_cosine_similarity :: "u32 list \<Rightarrow> u32 list \<Rightarrow> nat \<Rightarrow> double" where
  "compute_cosine_similarity a b dims =
     (let (dot, norm_a, norm_b) = fold (cosine_step a b) [0..<dims] (Fin 0, Fin 0, Fin 0) in
      if deq norm_a (Fin 0) \<or> deq norm_b (Fin 0) then Fin 0
      else ddiv dot (dmul (dsqrt norm_a) (dsqrt norm_b)))"

section \<open>Results\<close>

record UnifiedSearchResult =
  sr_node_id :: "byte list"
  sr_bm25f_score :: double
  sr_cosine_score :: double
  sr_rrf_score :: double
  sr_bm25f_rank :: u32
  sr_cosine_rank :: u32

definition bm25f_result :: "byte list \<Rightarrow> double \<Rightarrow> UnifiedSearchResult" where
  "bm25f_result node score = \<lparr>sr_node_id = node, sr_bm25f_score = score, sr_cosine_score = Fin 0,
     sr_rrf_score = Fin 0, sr_bm25f_rank = 0, sr_cosine_rank = 0\<rparr>"

definition cosine_result :: "byte list \<Rightarrow> double \<Rightarrow> UnifiedSearchResult" where
  "cosine_result node score = \<lparr>sr_node_id = node, sr_bm25f_score = Fin 0, sr_cosine_score = score,
     sr_rrf_score = Fin 0, sr_bm25f_rank = 0, sr_cosine_rank = 0\<rparr>"

text \<open>The index of the first smallest score, and the bounded collection. The callers pass
  a positive bound.\<close>

fun min_index :: "('r \<Rightarrow> double) \<Rightarrow> 'r list \<Rightarrow> nat list \<Rightarrow> nat \<Rightarrow> nat" where
  "min_index key rs [] m = m"
| "min_index key rs (i # is) m = min_index key rs is (if dlt (key (rs ! i)) (key (rs ! m)) then i else m)"

definition collect_top :: "('r \<Rightarrow> double) \<Rightarrow> nat \<Rightarrow> 'r \<Rightarrow> 'r list \<Rightarrow> 'r list" where
  "collect_top key max_results r rs =
     (if length rs < max_results then rs @ [r]
      else let m = min_index key rs [1..<length rs] 0
        in if dlt (key (rs ! m)) (key r) then rs[m := r] else rs)"

text \<open>The exchange sort that every result array goes through; \<open>stamp i\<close> is what the loop does
  to element \<open>i\<close> when its position is final.\<close>

definition swap_at :: "nat \<Rightarrow> nat \<Rightarrow> 'r list \<Rightarrow> 'r list" where
  "swap_at i j xs = xs[i := xs ! j, j := xs ! i]"

definition exchange_pass :: "('r \<Rightarrow> double) \<Rightarrow> nat \<Rightarrow> 'r list \<Rightarrow> 'r list" where
  "exchange_pass key i xs =
     fold (\<lambda>j xs. if dlt (key (xs ! i)) (key (xs ! j)) then swap_at i j xs else xs)
       [Suc i..<length xs] xs"

definition exchange_sort :: "('r \<Rightarrow> double) \<Rightarrow> (nat \<Rightarrow> 'r \<Rightarrow> 'r) \<Rightarrow> 'r list \<Rightarrow> 'r list" where
  "exchange_sort key stamp xs =
     fold (\<lambda>i xs. let xs = exchange_pass key i xs in xs[i := stamp i (xs ! i)]) [0..<length xs] xs"

abbreviation no_stamp :: "nat \<Rightarrow> 'r \<Rightarrow> 'r" where "no_stamp \<equiv> \<lambda>_ r. r"

definition stamp_bm25f :: "nat \<Rightarrow> UnifiedSearchResult \<Rightarrow> UnifiedSearchResult" where
  "stamp_bm25f i r = r\<lparr>sr_bm25f_rank := of_nat (i + 1)\<rparr>"

definition stamp_cosine :: "nat \<Rightarrow> UnifiedSearchResult \<Rightarrow> UnifiedSearchResult" where
  "stamp_cosine i r = r\<lparr>sr_cosine_rank := of_nat (i + 1)\<rparr>"

section \<open>Reciprocal rank fusion\<close>

definition rrf_term :: "u32 \<Rightarrow> double" where
  "rrf_term rank = ddiv (Fin 1) (d_of_nat (unat (of_nat RRF_K + rank)))"

definition cmp_rrf :: "UnifiedSearchResult \<Rightarrow> UnifiedSearchResult \<Rightarrow> int" where
  "cmp_rrf ra rb =
     (if dlt (sr_rrf_score ra) (sr_rrf_score rb) then 1
      else if dlt (sr_rrf_score rb) (sr_rrf_score ra) then - 1 else 0)"

definition rrf_score_of :: "UnifiedSearchResult \<Rightarrow> double" where
  "rrf_score_of r =
     (let s = Fin 0;
          s = (if dlt (Fin 0) (sr_bm25f_score r) then dadd s (rrf_term (sr_bm25f_rank r)) else s)
      in if (dlt (Fin 0) (sr_cosine_score r) \<or> dlt (sr_cosine_score r) (Fin 0)) \<and> 0 < sr_cosine_rank r
         then dadd s (rrf_term (sr_cosine_rank r)) else s)"

type_synonym 'r qsort = "('r \<Rightarrow> 'r \<Rightarrow> int) \<Rightarrow> 'r list \<Rightarrow> 'r list"

definition compute_rrf_fusion ::
  "UnifiedSearchResult qsort \<Rightarrow> UnifiedSearchResult list \<Rightarrow> UnifiedSearchResult list" where
  "compute_rrf_fusion qsort results =
     qsort cmp_rrf (map (\<lambda>r. r\<lparr>sr_rrf_score := rrf_score_of r\<rparr>) results)"

text \<open>Adding the vector results to the merged array: a node that is already there gets the
  cosine fields, another one is appended.\<close>

fun merge_cosine :: "UnifiedSearchResult \<Rightarrow> UnifiedSearchResult list \<Rightarrow> UnifiedSearchResult list" where
  "merge_cosine v [] = [v]"
| "merge_cosine v (m # ms) =
     (if sr_node_id m = sr_node_id v
      then m\<lparr>sr_cosine_score := sr_cosine_score v, sr_cosine_rank := sr_cosine_rank v\<rparr> # ms
      else m # merge_cosine v ms)"

definition fuse_results ::
  "UnifiedSearchResult qsort \<Rightarrow> bool \<Rightarrow> bool \<Rightarrow> UnifiedSearchResult list \<Rightarrow> UnifiedSearchResult list
    \<Rightarrow> nat \<Rightarrow> UnifiedSearchResult list" where
  "fuse_results qsort use_text use_vector bm25f_all vector_all max_results =
     (let bm25f_all = (if use_text then exchange_sort sr_bm25f_score stamp_bm25f bm25f_all else bm25f_all);
          vector_all = (if use_vector then exchange_sort sr_cosine_score stamp_cosine vector_all else vector_all);
          merged = fold merge_cosine vector_all bm25f_all;
          merged = (if use_text \<and> use_vector then compute_rrf_fusion qsort merged
                    else exchange_sort (if use_text then sr_bm25f_score else sr_cosine_score) no_stamp merged)
      in take max_results merged)"

end
