(* ===== verification/ShardState.thy ===== *)
theory ShardState
  imports BTree FtsIndexer Ranking
begin

text \<open>
  The state of one shard and the parts of \<open>unified_shard.c\<close> that the inverted index also
  uses: the stored document record, the tombstone check, and the sequential searches. The
  shard's pool, its page counter and its log are the \<open>PageStore\<close> the B-tree works on; the
  pool's WAL pointer is the shard's log.
\<close>

section \<open>Document records\<close>

record UnifiedDocRecord =
  rc_node_id :: "byte list"
  rc_term_frequencies :: "u32 list"
  rc_document_lengths :: "u32 list"
  rc_embedding :: "u32 list"
  rc_doc_id :: u32

abbreviation (input) sizeof_UnifiedDocRecord :: nat where "sizeof_UnifiedDocRecord \<equiv> 1588"

definition u32s_at :: "mem \<Rightarrow> nat \<Rightarrow> nat \<Rightarrow> u32 list" where
  "u32s_at m a n = map (\<lambda>i. get_u32 m (a + 4 * i)) [0..<n]"

definition put_u32s :: "mem \<Rightarrow> nat \<Rightarrow> u32 list \<Rightarrow> mem" where
  "put_u32s m a ws = fold (\<lambda>i m. put_u32 m (a + 4 * i) (ws ! i)) [0..<length ws] m"

text \<open>The packed struct in memory and back. The caller's arrays have the declared lengths.\<close>

definition doc_record_bytes :: "UnifiedDocRecord \<Rightarrow> byte list" where
  "doc_record_bytes r =
     (let m = blit (\<lambda>_. 0) 0 (take 16 (rc_node_id r));
          m = put_u32s m 16 (take 4 (rc_term_frequencies r));
          m = put_u32s m 32 (take 4 (rc_document_lengths r));
          m = put_u32s m 48 (take EMBEDDING_DIM (rc_embedding r));
          m = put_u32 m 1584 (rc_doc_id r)
      in bytes_at m 0 sizeof_UnifiedDocRecord)"

definition doc_record_at :: "mem \<Rightarrow> nat \<Rightarrow> UnifiedDocRecord" where
  "doc_record_at p off =
     \<lparr>rc_node_id = bytes_at p off 16, rc_term_frequencies = u32s_at p (off + 16) 4,
      rc_document_lengths = u32s_at p (off + 32) 4, rc_embedding = u32s_at p (off + 48) EMBEDDING_DIM,
      rc_doc_id = get_u32 p (off + 1584)\<rparr>"

section \<open>The shard\<close>

text \<open>The open descriptors are the fields \<open>bp_file\<close> and \<open>bp_wal\<close> of the pool; \<open>us_directory\<close> is
  the base path their files were opened under.\<close>

record UnifiedShard =
  us_shard_id :: u32
  us_store :: PageStore
  us_btree_root :: u32
  us_total_docs :: u32
  us_avgdl :: "double list"
  us_sum_dl :: "double list"
  us_active_data_page_id :: u32
  us_next_doc_id :: u32
  us_tombstone_page_id :: u32
  us_is_initialized :: bool
  us_directory :: string

abbreviation us_bpm :: "UnifiedShard \<Rightarrow> BufferPoolManager" where
  "us_bpm sh \<equiv> ps_bpm (us_store sh)"

abbreviation us_next_page_id :: "UnifiedShard \<Rightarrow> u32" where
  "us_next_page_id sh \<equiv> ps_next_page_id (us_store sh)"

definition with_bpm :: "UnifiedShard \<Rightarrow> BufferPoolManager \<Rightarrow> UnifiedShard" where
  "with_bpm sh b = sh\<lparr>us_store := (us_store sh)\<lparr>ps_bpm := b\<rparr>\<rparr>"

definition with_next_page :: "UnifiedShard \<Rightarrow> u32 \<Rightarrow> UnifiedShard" where
  "with_next_page sh n = sh\<lparr>us_store := (us_store sh)\<lparr>ps_next_page_id := n\<rparr>\<rparr>"

section \<open>Tombstones\<close>

definition shard_delete_document :: "UnifiedShard \<Rightarrow> u32 \<Rightarrow> int \<times> UnifiedShard" where
  "shard_delete_document sh doc_id =
     (case buffer_pool_fetch_page (us_bpm sh) (us_tombstone_page_id sh) of
        (None, b) \<Rightarrow> (- 1, with_bpm sh b)
      | (Some f, b) \<Rightarrow>
          let b = set_frame_page f (fts_tombstone_mark_deleted (frame_page b f) doc_id) b;
              (_, b) = bp_log b 0 WAL_FTS_TOMBSTONE (us_tombstone_page_id sh) 0
                         (bytes_at (put_u32 (\<lambda>_. 0) 0 doc_id) 0 4)
          in (0, with_bpm sh (buffer_pool_unpin_page b (us_tombstone_page_id sh) True HINT_NORMAL)))"

definition shard_is_deleted :: "UnifiedShard \<Rightarrow> u32 \<Rightarrow> bool \<times> UnifiedShard" where
  "shard_is_deleted sh doc_id =
     (case buffer_pool_fetch_page (us_bpm sh) (us_tombstone_page_id sh) of
        (None, b) \<Rightarrow> (False, with_bpm sh b)
      | (Some f, b) \<Rightarrow>
          (fts_tombstone_is_deleted (frame_page b f) doc_id,
           with_bpm sh (buffer_pool_unpin_page b (us_tombstone_page_id sh) False HINT_NORMAL)))"

section \<open>Sequential searches\<close>

text \<open>What a search does with the record of a live document.\<close>

definition consider_bm25f ::
  "double \<Rightarrow> double list \<Rightarrow> double list \<Rightarrow> double \<Rightarrow> double \<Rightarrow> nat \<Rightarrow> UnifiedDocRecord
    \<Rightarrow> UnifiedSearchResult list \<Rightarrow> UnifiedSearchResult list" where
  "consider_bm25f idf avgdl weights k1 b max_results r results =
     (let score = compute_bm25f_score (rc_term_frequencies r) (rc_document_lengths r) avgdl weights idf k1 b
      in if dlt (Fin 0) score
         then collect_top sr_bm25f_score max_results (bm25f_result (rc_node_id r) score) results
         else results)"

definition consider_cosine ::
  "u32 list \<Rightarrow> nat \<Rightarrow> UnifiedDocRecord \<Rightarrow> UnifiedSearchResult list \<Rightarrow> UnifiedSearchResult list" where
  "consider_cosine query_vec max_results r results =
     (let score = compute_cosine_similarity query_vec (rc_embedding r) EMBEDDING_DIM
      in collect_top sr_cosine_score max_results (cosine_result (rc_node_id r) score) results)"

type_synonym visitor = "UnifiedDocRecord \<Rightarrow> UnifiedSearchResult list \<Rightarrow> UnifiedSearchResult list"

definition scan_slot ::
  "visitor \<Rightarrow> nat \<Rightarrow> nat \<Rightarrow> UnifiedSearchResult list \<times> UnifiedShard \<Rightarrow> UnifiedSearchResult list \<times> UnifiedShard" where
  "scan_slot visit f s = (\<lambda>(results, sh).
     case slotted_page_get_tuple (frame_page (us_bpm sh) f) (of_nat s) of
       None \<Rightarrow> (results, sh)
     | Some (off, len) \<Rightarrow>
         if unat len \<noteq> sizeof_UnifiedDocRecord then (results, sh)
         else let (deleted, sh) = shard_is_deleted sh (rc_doc_id (doc_record_at (frame_page (us_bpm sh) f) off))
           in if deleted then (results, sh)
              else (visit (doc_record_at (frame_page (us_bpm sh) f) off) results, sh))"

definition scan_page ::
  "visitor \<Rightarrow> nat \<Rightarrow> UnifiedSearchResult list \<times> UnifiedShard \<Rightarrow> UnifiedSearchResult list \<times> UnifiedShard" where
  "scan_page visit pid = (\<lambda>(results, sh).
     case buffer_pool_fetch_page (us_bpm sh) (of_nat pid) of
       (None, b) \<Rightarrow> (results, with_bpm sh b)
     | (Some f, b) \<Rightarrow>
         let sh = with_bpm sh b in
         if hdr_page_type (frame_page b f) \<noteq> page_type_code PAGE_TYPE_VECTOR_DATA then
           (results, with_bpm sh (buffer_pool_unpin_page b (of_nat pid) False HINT_NORMAL))
         else
           let (results, sh) = fold (scan_slot visit f) [0..<unat (hdr_slot_count (frame_page b f))] (results, sh)
           in (results, with_bpm sh (buffer_pool_unpin_page (us_bpm sh) (of_nat pid) False HINT_SEQUENTIAL_SCAN)))"

text \<open>The loop over the pages reads the counter in every test; nothing in the loop changes
  it. A counter of \<open>2 ^ 32 - 1\<close>, for which the C loop would not end, is not reached.\<close>

definition shard_scan ::
  "visitor \<Rightarrow> (UnifiedSearchResult \<Rightarrow> double) \<Rightarrow> UnifiedShard \<Rightarrow> UnifiedSearchResult list \<times> UnifiedShard" where
  "shard_scan visit key sh =
     (let (results, sh) = fold (scan_page visit) [2..<Suc (unat (us_next_page_id sh))] ([], sh)
      in (exchange_sort key no_stamp results, sh))"

definition shard_search_bm25f ::
  "UnifiedShard \<Rightarrow> u32 \<Rightarrow> double \<Rightarrow> double list \<Rightarrow> double list \<Rightarrow> double \<Rightarrow> double \<Rightarrow> nat
    \<Rightarrow> UnifiedSearchResult list \<times> UnifiedShard" where
  "shard_search_bm25f sh term_id idf avgdl weights k1 b max_results =
     shard_scan (consider_bm25f idf avgdl weights k1 b max_results) sr_bm25f_score sh"

definition shard_search_vector ::
  "UnifiedShard \<Rightarrow> u32 list \<Rightarrow> nat \<Rightarrow> UnifiedSearchResult list \<times> UnifiedShard" where
  "shard_search_vector sh query_vec max_results =
     shard_scan (consider_cosine query_vec max_results) sr_cosine_score sh"

end
