(* ===== verification/InvertedIndex.thy ===== *)
theory InvertedIndex
  imports ShardState
begin

text \<open>
  \<open>inverted_index.c\<close> and \<open>inverted_index.h\<close>: a chain of posting pages per term, newest page
  first, whose head the B-tree maps the term to; and the searches over it. An operation
  that goes through the B-tree's chain loops returns \<open>None\<close> when such a loop does not end.
\<close>

section \<open>Posting pages\<close>

abbreviation (input) MAX_POSTINGS_PER_PAGE :: nat where "MAX_POSTINGS_PER_PAGE \<equiv> 92"
abbreviation (input) MAX_POSITIONS_PER_POSTING :: nat where "MAX_POSITIONS_PER_POSTING \<equiv> 8"

record InvertedPosting =
  ip_doc_id :: u32
  ip_data_page_id :: u32
  ip_data_slot_id :: u16
  ip_pos_count :: u16
  ip_positions :: "u32 list"

abbreviation ix_term_id :: "page \<Rightarrow> u32" where "ix_term_id p \<equiv> get_u32 p 0"
abbreviation ix_posting_count :: "page \<Rightarrow> u32" where "ix_posting_count p \<equiv> get_u32 p 4"
abbreviation ix_next_posting_page :: "page \<Rightarrow> u32" where "ix_next_posting_page p \<equiv> get_u32 p 8"

abbreviation posting_off :: "nat \<Rightarrow> nat" where "posting_off i \<equiv> 12 + 44 * i"

definition posting_at :: "page \<Rightarrow> nat \<Rightarrow> InvertedPosting" where
  "posting_at p i =
     \<lparr>ip_doc_id = get_u32 p (posting_off i), ip_data_page_id = get_u32 p (posting_off i + 4),
      ip_data_slot_id = get_u16 p (posting_off i + 8), ip_pos_count = get_u16 p (posting_off i + 10),
      ip_positions = u32s_at p (posting_off i + 12) MAX_POSITIONS_PER_POSTING\<rparr>"

text \<open>Writing a new posting sets five fields; the other positions keep their old bytes.\<close>

definition put_posting :: "page \<Rightarrow> nat \<Rightarrow> u32 \<Rightarrow> u32 \<Rightarrow> u16 \<Rightarrow> u32 \<Rightarrow> page" where
  "put_posting p i doc_id data_page_id data_slot_id term_position =
     (let p = put_u32 p (posting_off i) doc_id;
          p = put_u32 p (posting_off i + 4) data_page_id;
          p = put_u16 p (posting_off i + 8) data_slot_id;
          p = put_u16 p (posting_off i + 10) 1
      in put_u32 p (posting_off i + 12) term_position)"

definition new_posting_page :: "page \<Rightarrow> u32 \<Rightarrow> u32 \<Rightarrow> u32 \<Rightarrow> u32 \<Rightarrow> u16 \<Rightarrow> u32 \<Rightarrow> page" where
  "new_posting_page p term_id next_page doc_id data_page_id data_slot_id term_position =
     (let p = put_u32 p 0 term_id; p = put_u32 p 4 1; p = put_u32 p 8 next_page
      in put_posting p 0 doc_id data_page_id data_slot_id term_position)"

text \<open>The two in-place cases of \<open>inverted_index_add_posting\<close>.\<close>

definition last_is_doc :: "page \<Rightarrow> u32 \<Rightarrow> bool" where
  "last_is_doc p doc_id \<longleftrightarrow> 0 < ix_posting_count p \<and>
     ip_doc_id (posting_at p (unat (ix_posting_count p - 1))) = doc_id"

definition append_position :: "page \<Rightarrow> u32 \<Rightarrow> page" where
  "append_position p term_position =
     (let i = unat (ix_posting_count p - 1); c = ip_pos_count (posting_at p i)
      in if unat c < MAX_POSITIONS_PER_POSTING
         then put_u16 (put_u32 p (posting_off i + 12 + 4 * unat c) term_position) (posting_off i + 10) (c + 1)
         else p)"

definition append_posting :: "page \<Rightarrow> u32 \<Rightarrow> u32 \<Rightarrow> u16 \<Rightarrow> u32 \<Rightarrow> page" where
  "append_posting p doc_id data_page_id data_slot_id term_position =
     put_u32 (put_posting p (unat (ix_posting_count p)) doc_id data_page_id data_slot_id term_position)
       4 (ix_posting_count p + 1)"

section \<open>Adding a posting\<close>

text \<open>A page for the postings of a term, linked to \<open>next_page\<close> and filled with its first
  posting. \<open>None\<close>: the write of the zeroed page failed or no frame was free; the boolean
  tells the caller's pin on \<open>pinned\<close>, if any, has to be released.\<close>

definition alloc_posting_page ::
  "u32 \<Rightarrow> u32 \<Rightarrow> u32 \<Rightarrow> u32 \<Rightarrow> u16 \<Rightarrow> u32 \<Rightarrow> UnifiedShard \<Rightarrow> u32 option \<times> UnifiedShard" where
  "alloc_posting_page term_id next_page doc_id data_page_id data_slot_id term_position sh =
     (let new_page_id = us_next_page_id sh;
          sh = with_next_page sh (new_page_id + 1);
          (res, b) = bp_write_zero (us_bpm sh) new_page_id
      in if res < 0 then (None, with_bpm sh b)
         else case buffer_pool_fetch_page b new_page_id of
             (None, b) \<Rightarrow> (None, with_bpm sh b)
           | (Some f, b) \<Rightarrow>
               (Some new_page_id,
                with_bpm sh (set_frame_page f (new_posting_page (frame_page b f) term_id next_page
                   doc_id data_page_id data_slot_id term_position) b)))"

definition inverted_index_add_posting ::
  "UnifiedShard \<Rightarrow> u32 \<Rightarrow> u32 \<Rightarrow> u32 \<Rightarrow> u16 \<Rightarrow> u32 \<Rightarrow> (int \<times> UnifiedShard) option" where
  "inverted_index_add_posting sh term_id doc_id data_page_id data_slot_id term_position =
     (case btree_search (us_btree_root sh) (ucast term_id) (us_bpm sh) of
        None \<Rightarrow> None
      | Some (Some (posting_page_id, _), b) \<Rightarrow>
          (case buffer_pool_fetch_page b posting_page_id of
             (None, b) \<Rightarrow> Some (- 1, with_bpm sh b)
           | (Some f, b) \<Rightarrow>
               let p = frame_page b f; sh = with_bpm sh b in
               if last_is_doc p doc_id then
                 Some (0, with_bpm sh (buffer_pool_unpin_page
                   (set_frame_page f (append_position p term_position) b) posting_page_id True HINT_NORMAL))
               else if unat (ix_posting_count p) < MAX_POSTINGS_PER_PAGE then
                 Some (0, with_bpm sh (buffer_pool_unpin_page
                   (set_frame_page f (append_posting p doc_id data_page_id data_slot_id term_position) b)
                   posting_page_id True HINT_NORMAL))
               else
                 (case alloc_posting_page term_id posting_page_id doc_id data_page_id data_slot_id term_position sh of
                    (None, sh) \<Rightarrow>
                      Some (- 1, with_bpm sh (buffer_pool_unpin_page (us_bpm sh) posting_page_id False HINT_NORMAL))
                  | (Some new_page_id, sh) \<Rightarrow>
                      let b = buffer_pool_unpin_page (us_bpm sh) posting_page_id False HINT_NORMAL;
                          b = buffer_pool_unpin_page b new_page_id True HINT_NORMAL
                      in (case btree_update (us_btree_root sh) (ucast term_id) new_page_id 0 b of
                            None \<Rightarrow> None
                          | Some (_, b) \<Rightarrow> Some (0, with_bpm sh b))))
      | Some (None, b) \<Rightarrow>
          (case alloc_posting_page term_id INVALID_PAGE_ID doc_id data_page_id data_slot_id term_position
                  (with_bpm sh b) of
             (None, sh) \<Rightarrow> Some (- 1, sh)
           | (Some new_page_id, sh) \<Rightarrow>
               let sh = with_bpm sh (buffer_pool_unpin_page (us_bpm sh) new_page_id True HINT_NORMAL)
               in (case btree_insert (us_btree_root sh) (ucast term_id) new_page_id 0 0 (us_store sh) of
                     None \<Rightarrow> None
                   | Some (_, s) \<Rightarrow> Some (0, sh\<lparr>us_store := s\<rparr>))))"

section \<open>Reading the postings\<close>

text \<open>The loop copies at least one posting per page, so it ends on any chain, also a cyclic one.\<close>

function collect_postings ::
  "u32 \<Rightarrow> nat \<Rightarrow> InvertedPosting list \<Rightarrow> u32 \<Rightarrow> BufferPoolManager \<Rightarrow> InvertedPosting list \<times> BufferPoolManager" where
  "collect_postings next_page_id max_postings out cur b =
     (if cur \<noteq> INVALID_PAGE_ID \<and> 3 \<le> cur \<and> cur < next_page_id \<and> length out < max_postings then
        case buffer_pool_fetch_page b cur of
          (None, b) \<Rightarrow> (out, b)
        | (Some f, b) \<Rightarrow>
            let p = frame_page b f; b = buffer_pool_unpin_page b cur False HINT_NORMAL in
            if ix_posting_count p = 0 \<or> MAX_POSTINGS_PER_PAGE < unat (ix_posting_count p) then (out, b)
            else
              let n = min (unat (ix_posting_count p)) (max_postings - length out);
                  out = out @ map (posting_at p) [0..<n];
                  next_page = ix_next_posting_page p
              in if next_page = cur then (out, b)
                 else collect_postings next_page_id max_postings out next_page b
      else (out, b))"
  by pat_completeness auto
termination
  by (relation "measure (\<lambda>(next_page_id, max_postings, out, cur, b). max_postings - length out)")
    (auto simp: min_def Let_def unat_eq_0 [symmetric] simp del: unat_eq_0)

declare collect_postings.simps [simp del]

definition inverted_index_get_postings ::
  "UnifiedShard \<Rightarrow> u32 \<Rightarrow> nat \<Rightarrow> (InvertedPosting list \<times> UnifiedShard) option" where
  "inverted_index_get_postings sh term_id max_postings =
     (case btree_search (us_btree_root sh) (ucast term_id) (us_bpm sh) of
        None \<Rightarrow> None
      | Some (None, b) \<Rightarrow> Some ([], with_bpm sh b)
      | Some (Some (posting_page_id, _), b) \<Rightarrow>
          let (out, b) = collect_postings (us_next_page_id sh) max_postings [] posting_page_id b
          in Some (out, with_bpm sh b))"

section \<open>Indexed search\<close>

abbreviation (input) max_possible_postings :: nat where "max_possible_postings \<equiv> 1000000"

text \<open>The record a posting points to, when it is a live document.\<close>

definition visit_posting ::
  "visitor \<Rightarrow> InvertedPosting \<Rightarrow> UnifiedSearchResult list \<times> UnifiedShard \<Rightarrow> UnifiedSearchResult list \<times> UnifiedShard" where
  "visit_posting visit post = (\<lambda>(results, sh).
     case buffer_pool_fetch_page (us_bpm sh) (ip_data_page_id post) of
       (None, b) \<Rightarrow> (results, with_bpm sh b)
     | (Some f, b) \<Rightarrow>
         let (results, sh) =
           (case slotted_page_get_tuple (frame_page b f) (ip_data_slot_id post) of
              None \<Rightarrow> (results, with_bpm sh b)
            | Some (off, len) \<Rightarrow>
                if unat len \<noteq> sizeof_UnifiedDocRecord then (results, with_bpm sh b)
                else
                  let (deleted, sh) = shard_is_deleted (with_bpm sh b) (rc_doc_id (doc_record_at (frame_page b f) off))
                  in if deleted then (results, sh)
                     else (visit (doc_record_at (frame_page (us_bpm sh) f) off) results, sh))
         in (results, with_bpm sh (buffer_pool_unpin_page (us_bpm sh) (ip_data_page_id post) False HINT_NORMAL)))"

definition shard_search_bm25f_indexed ::
  "bool \<Rightarrow> UnifiedShard \<Rightarrow> u32 \<Rightarrow> double \<Rightarrow> double list \<Rightarrow> double list \<Rightarrow> double \<Rightarrow> double \<Rightarrow> nat
    \<Rightarrow> (UnifiedSearchResult list \<times> UnifiedShard) option" where
  "shard_search_bm25f_indexed malloc_ok sh term_id idf avgdl weights k1 b max_results =
     (if \<not> malloc_ok then Some ([], sh)
      else case inverted_index_get_postings sh term_id max_possible_postings of
          None \<Rightarrow> None
        | Some (postings, sh) \<Rightarrow>
            let (results, sh) =
              fold (visit_posting (consider_bm25f idf avgdl weights k1 b max_results)) postings ([], sh)
            in Some (exchange_sort sr_bm25f_score no_stamp results, sh))"

section \<open>Phrase search\<close>

text \<open>The cursor of a term moves past the smaller document ids.\<close>

function advance_cursor :: "InvertedPosting list \<Rightarrow> u32 \<Rightarrow> nat \<Rightarrow> nat" where
  "advance_cursor ps target c =
     (if c < length ps \<and> ip_doc_id (ps ! c) < target then advance_cursor ps target (Suc c) else c)"
  by pat_completeness auto
termination by (relation "measure (\<lambda>(ps, target, c). length ps - c)") auto

declare advance_cursor.simps [simp del]

text \<open>The other terms' cursors, advanced in order until one has no posting for the document.\<close>

fun match_doc :: "u32 \<Rightarrow> (InvertedPosting list \<times> nat) list \<Rightarrow> bool \<times> (InvertedPosting list \<times> nat) list" where
  "match_doc target [] = (True, [])"
| "match_doc target ((ps, c) # rest) =
     (let c = advance_cursor ps target c in
      if c = length ps \<or> ip_doc_id (ps ! c) \<noteq> target then (False, (ps, c) # rest)
      else let (ok, rest) = match_doc target rest in (ok, (ps, c) # rest))"

definition has_position :: "InvertedPosting \<Rightarrow> u32 \<Rightarrow> bool" where
  "has_position post pos \<longleftrightarrow> (\<exists>i < unat (ip_pos_count post). ip_positions post ! i = pos)"

definition phrase_at :: "u32 \<Rightarrow> (InvertedPosting list \<times> nat) list \<Rightarrow> bool" where
  "phrase_at start others \<longleftrightarrow>
     (\<forall>i < length others. has_position (fst (others ! i) ! snd (others ! i)) (start + of_nat (Suc i)))"

definition position_match :: "InvertedPosting \<Rightarrow> (InvertedPosting list \<times> nat) list \<Rightarrow> bool" where
  "position_match post0 others \<longleftrightarrow>
     (\<exists>i < unat (ip_pos_count post0). phrase_at (ip_positions post0 ! i) others)"

fun phrase_loop ::
  "visitor \<Rightarrow> InvertedPosting list \<Rightarrow> (InvertedPosting list \<times> nat) list
    \<Rightarrow> UnifiedSearchResult list \<times> UnifiedShard \<Rightarrow> UnifiedSearchResult list \<times> UnifiedShard" where
  "phrase_loop visit [] others st = st"
| "phrase_loop visit (post0 # posts) others st =
     (let (doc_match, others) = match_doc (ip_doc_id post0) others;
          st = (if doc_match \<and> position_match post0 others then visit_posting visit post0 st else st)
      in phrase_loop visit posts others st)"

text \<open>The posting lists of all terms; an empty one ends the search.\<close>

fun get_all_postings :: "u32 list \<Rightarrow> UnifiedShard \<Rightarrow> (InvertedPosting list list option \<times> UnifiedShard) option" where
  "get_all_postings [] sh = Some (Some [], sh)"
| "get_all_postings (t # ts) sh =
     (case inverted_index_get_postings sh t max_possible_postings of
        None \<Rightarrow> None
      | Some ([], sh) \<Rightarrow> Some (None, sh)
      | Some (ps, sh) \<Rightarrow> map_option (\<lambda>(r, sh). (map_option ((#) ps) r, sh)) (get_all_postings ts sh))"

definition shard_search_phrase_indexed ::
  "bool \<Rightarrow> UnifiedShard \<Rightarrow> u32 list \<Rightarrow> double \<Rightarrow> double list \<Rightarrow> double list \<Rightarrow> double \<Rightarrow> double \<Rightarrow> nat
    \<Rightarrow> (UnifiedSearchResult list \<times> UnifiedShard) option" where
  "shard_search_phrase_indexed malloc_ok sh term_ids idf avgdl weights k1 b max_results =
     (case term_ids of
        [] \<Rightarrow> Some ([], sh)
      | [t] \<Rightarrow> shard_search_bm25f_indexed malloc_ok sh t idf avgdl weights k1 b max_results
      | _ \<Rightarrow>
          if \<not> malloc_ok then Some ([], sh)
          else case get_all_postings term_ids sh of
              None \<Rightarrow> None
            | Some (None, sh) \<Rightarrow> Some ([], sh)
            | Some (Some postings, sh) \<Rightarrow>
                let (results, sh) =
                  phrase_loop (consider_bm25f idf avgdl weights k1 b max_results)
                    (hd postings) (map (\<lambda>ps. (ps, 0)) (tl postings)) ([], sh)
                in Some (exchange_sort sr_bm25f_score no_stamp results, sh))"

end
