(* ===== verification/ShardMeta.thy ===== *)
theory ShardMeta
  imports ShardState
begin

text \<open>
  \<open>shard_meta.c\<close> and \<open>shard_meta.h\<close>: the statistics of a shard written to a companion file
  at shutdown and restored from it.
\<close>

abbreviation (input) SHARD_META_MAGIC :: u32 where "SHARD_META_MAGIC \<equiv> 0x46545321"
abbreviation (input) SHARD_META_VERSION :: u32 where "SHARD_META_VERSION \<equiv> 1"
abbreviation (input) sizeof_ShardMetadata :: nat where "sizeof_ShardMetadata \<equiv> 152"

record ShardMetadata =
  sm_magic :: u32
  sm_version :: u32
  sm_shard_id :: u32
  sm_total_docs :: u32
  sm_next_doc_id :: u32
  sm_next_page_id :: u32
  sm_avgdl :: "double list"
  sm_sum_dl :: "double list"

definition put_doubles :: "mem \<Rightarrow> nat \<Rightarrow> double list \<Rightarrow> mem" where
  "put_doubles m a ds = fold (\<lambda>i m. put_u64 m (a + 8 * i) (bits_of_dbl (ds ! i))) [0..<length ds] m"

definition doubles_at :: "mem \<Rightarrow> nat \<Rightarrow> nat \<Rightarrow> double list" where
  "doubles_at m a n = map (\<lambda>i. dbl_of_bits (get_u64 m (a + 8 * i))) [0..<n]"

definition metadata_bytes :: "ShardMetadata \<Rightarrow> byte list" where
  "metadata_bytes meta =
     (let m = put_u32 (\<lambda>_. 0) 0 (sm_magic meta);
          m = put_u32 m 4 (sm_version meta);
          m = put_u32 m 8 (sm_shard_id meta);
          m = put_u32 m 12 (sm_total_docs meta);
          m = put_u32 m 16 (sm_next_doc_id meta);
          m = put_u32 m 20 (sm_next_page_id meta);
          m = put_doubles m 24 (take 4 (sm_avgdl meta));
          m = put_doubles m 56 (take 4 (sm_sum_dl meta))
      in bytes_at m 0 sizeof_ShardMetadata)"

definition metadata_of :: "byte list \<Rightarrow> ShardMetadata" where
  "metadata_of bs =
     (let m = blit (\<lambda>_. 0) 0 bs in
      \<lparr>sm_magic = get_u32 m 0, sm_version = get_u32 m 4, sm_shard_id = get_u32 m 8,
       sm_total_docs = get_u32 m 12, sm_next_doc_id = get_u32 m 16, sm_next_page_id = get_u32 m 20,
       sm_avgdl = doubles_at m 24 4, sm_sum_dl = doubles_at m 56 4\<rparr>)"

text \<open>Saving: \<open>opened\<close> is the descriptor or a negative number, \<open>plan\<close> the outcomes of the
  write and of the sync. The result is the return value and the new content of the file.\<close>

definition shard_meta_save ::
  "UnifiedShard \<Rightarrow> int \<Rightarrow> io_outcome list \<Rightarrow> byte list option \<Rightarrow> int \<times> byte list option" where
  "shard_meta_save sh opened plan old =
     (let meta = \<lparr>sm_magic = SHARD_META_MAGIC, sm_version = SHARD_META_VERSION,
                  sm_shard_id = us_shard_id sh, sm_total_docs = us_total_docs sh,
                  sm_next_doc_id = us_next_doc_id sh, sm_next_page_id = us_next_page_id sh,
                  sm_avgdl = us_avgdl sh, sm_sum_dl = us_sum_dl sh\<rparr>
      in if opened < 0 then (- 1, old)
         else let bs = metadata_bytes meta;
                  written = transferred (next_outcome plan) (length bs);
                  content = Some (take (nat written) bs)
           in if written \<noteq> int sizeof_ShardMetadata then (- 1, content)
              else if next_outcome (tl plan) \<noteq> IO_full then (- 1, content)
              else (0, content))"

definition shard_meta_load :: "UnifiedShard \<Rightarrow> byte list option \<Rightarrow> int \<times> UnifiedShard" where
  "shard_meta_load sh content =
     (case content of
        None \<Rightarrow> (- 1, sh)
      | Some bs \<Rightarrow>
          if length bs < sizeof_ShardMetadata then (- 1, sh)
          else let meta = metadata_of (take sizeof_ShardMetadata bs) in
            if sm_magic meta \<noteq> SHARD_META_MAGIC then (- 1, sh)
            else (0, (with_next_page sh (sm_next_page_id meta))
                       \<lparr>us_total_docs := sm_total_docs meta, us_next_doc_id := sm_next_doc_id meta,
                        us_avgdl := sm_avgdl meta, us_sum_dl := sm_sum_dl meta\<rparr>))"

end
