(* ===== verification/UnifiedShard.thy ===== *)
theory UnifiedShard
  imports InvertedIndex ShardMeta
begin

text \<open>
  The rest of \<open>unified_shard.c\<close> and \<open>unified_shard.h\<close>: opening and closing a shard, inserting
  a document, and the engine that distributes documents over its shards by a hash of the
  node id and merges the shards' results.
\<close>

section \<open>Files\<close>

text \<open>What the shard's three files hold and what opening them returns; \<open>dk_calloc\<close> tells
  whether the frame array can be allocated.\<close>

record Disk =
  dk_data :: "string \<Rightarrow> datafile"
  dk_data_fd :: "string \<Rightarrow> int"
  dk_wal :: "string \<Rightarrow> byte list"
  dk_wal_fd :: "string \<Rightarrow> int"
  dk_wal_plan :: "string \<Rightarrow> io_outcome list"
  dk_meta :: "string \<Rightarrow> byte list option"
  dk_meta_fd :: "string \<Rightarrow> int"
  dk_meta_plan :: "string \<Rightarrow> io_outcome list"
  dk_calloc :: bool

fun decimal_digits :: "nat \<Rightarrow> nat \<Rightarrow> string" where
  "decimal_digits 0 n = []"
| "decimal_digits (Suc k) n =
     (if n < 10 then [char_of (48 + n)] else decimal_digits k (n div 10) @ [char_of (48 + n mod 10)])"

text \<open>\<open>snprintf\<close> into a 512-byte buffer; a 32-bit number has at most ten digits.\<close>

definition shard_path :: "string \<Rightarrow> u32 \<Rightarrow> string \<Rightarrow> string" where
  "shard_path base_path shard_id ext =
     take 511 (base_path @ ''/shard_'' @ decimal_digits 10 (unat shard_id) @ ext)"

section \<open>Opening a shard\<close>

text \<open>The three zeroed pages of a new shard; the first failing write ends the sequence.\<close>

fun write_zero_pages :: "u32 list \<Rightarrow> BufferPoolManager \<Rightarrow> bool \<times> BufferPoolManager" where
  "write_zero_pages [] b = (True, b)"
| "write_zero_pages (pid # pids) b =
     (let (res, b) = bp_write_zero b pid in if res < 0 then (False, b) else write_zero_pages pids b)"

definition init_page_as :: "u32 \<Rightarrow> (page \<Rightarrow> page) \<Rightarrow> BufferPoolManager \<Rightarrow> BufferPoolManager" where
  "init_page_as pid f b =
     (case buffer_pool_fetch_page b pid of
        (None, b) \<Rightarrow> b
      | (Some i, b) \<Rightarrow> buffer_pool_unpin_page (set_frame_page i (f (frame_page b i)) b) pid True HINT_NORMAL)"

text \<open>The search for the last data page, from the highest page down to page 2.\<close>

fun find_active_page :: "nat \<Rightarrow> nat \<Rightarrow> UnifiedShard \<Rightarrow> UnifiedShard" where
  "find_active_page 0 pid sh = sh"
| "find_active_page (Suc k) pid sh =
     (if pid < 2 then sh
      else case buffer_pool_fetch_page (us_bpm sh) (of_nat pid) of
          (None, b) \<Rightarrow> find_active_page k (pid - 1) (with_bpm sh b)
        | (Some f, b) \<Rightarrow>
            let sh' = with_bpm sh (buffer_pool_unpin_page b (of_nat pid) False HINT_NORMAL) in
            if hdr_page_type (frame_page b f) = page_type_code PAGE_TYPE_VECTOR_DATA
            then sh'\<lparr>us_active_data_page_id := of_nat pid\<rparr>
            else find_active_page k (pid - 1) sh')"

text \<open>The outcome of opening: the process exits, the open fails, or the shard is ready. A
  restored page counter of 0 wraps to the last page id in the loop's start; it is not
  reached from a shard that was saved by this code.\<close>

datatype shard_open = Exit | Failed | Opened UnifiedShard

definition shard_init :: "u32 \<Rightarrow> string \<Rightarrow> u32 \<Rightarrow> Disk \<Rightarrow> shard_open" where
  "shard_init shard_id base_path pool_size disk =
     (let data_path = shard_path base_path shard_id ''.dat'';
          wal_path = shard_path base_path shard_id ''.wal'';
          data_fd = dk_data_fd disk data_path;
          (wal_res, wal) = wal_init wal_path (dk_wal disk wal_path) (dk_wal_fd disk wal_path)
                             (dk_wal_plan disk wal_path)
      in if data_fd < 0 then Failed
         else if wal_res \<noteq> 0 then Failed
         else case buffer_pool_init data_fd (Some wal) pool_size (dk_data disk data_path) (dk_calloc disk) of
             None \<Rightarrow> Exit
           | Some b \<Rightarrow>
               let st_size = df_size (bp_file b);
                   (ok, b, next_page) =
                     (if st_size = 0 then
                        let (ok, b) = write_zero_pages [0, 1, 2] b in
                        if \<not> ok then (False, b, 3)
                        else (True, init_page_as 2 (\<lambda>p. slotted_page_init p 2 PAGE_TYPE_VECTOR_DATA)
                                      (init_page_as 1 (\<lambda>p. fts_tombstone_init p 1) b), 3)
                      else (True, b, max 3 (of_nat (st_size div 4096))))
               in if \<not> ok then Failed
                  else
                    let b = btree_init 0 b;
                        sh = \<lparr>us_shard_id = shard_id,
                              us_store = \<lparr>ps_bpm = b, ps_next_page_id = next_page\<rparr>,
                              us_btree_root = 0, us_total_docs = 0,
                              us_avgdl = replicate 4 (Fin 10), us_sum_dl = replicate 4 (Fin 0),
                              us_active_data_page_id = 2, us_next_doc_id = 0,
                              us_tombstone_page_id = 1, us_is_initialized = False,
                              us_directory = base_path\<rparr>;
                        (_, sh) = shard_meta_load sh (dk_meta disk (shard_path base_path shard_id ''.meta''));
                        last = unat (us_next_page_id sh - 1);
                        sh = (if 0 < st_size then find_active_page last last sh else sh)
                    in Opened (sh\<lparr>us_is_initialized := True\<rparr>))"

text \<open>Closing a descriptor leaves in the file what was written through it; a request that is
  still to fail fails for the descriptor, not for the file.\<close>

definition release_files :: "UnifiedShard \<Rightarrow> BufferPoolManager \<Rightarrow> Disk \<Rightarrow> Disk" where
  "release_files sh b disk =
     (let path = shard_path (us_directory sh) (us_shard_id sh);
          disk = disk\<lparr>dk_data := (dk_data disk)(path ''.dat'' := (bp_file b)\<lparr>df_plan := []\<rparr>)\<rparr>
      in case bp_wal b of
          None \<Rightarrow> disk
        | Some w \<Rightarrow> disk\<lparr>dk_wal := (dk_wal disk)(path ''.wal'' := wal_file w)\<rparr>)"

definition shard_close_with_path :: "string option \<Rightarrow> UnifiedShard \<Rightarrow> Disk \<Rightarrow> UnifiedShard \<times> Disk" where
  "shard_close_with_path base_path sh disk =
     (if \<not> us_is_initialized sh then (sh, disk)
      else
        let disk =
              (case base_path of
                 None \<Rightarrow> disk
               | Some base \<Rightarrow>
                   let path = shard_path base (us_shard_id sh) ''.meta'' in
                   disk\<lparr>dk_meta := (dk_meta disk)(path :=
                     snd (shard_meta_save sh (dk_meta_fd disk path) (dk_meta_plan disk path) (dk_meta disk path)))\<rparr>);
            b = buffer_pool_flush_all (us_bpm sh);
            disk = release_files sh b disk;
            b = buffer_pool_destroy b;
            b = b\<lparr>bp_wal := map_option wal_close (bp_wal b)\<rparr>
        in ((with_bpm sh b)\<lparr>us_is_initialized := False\<rparr>, disk))"

definition shard_close :: "UnifiedShard \<Rightarrow> Disk \<Rightarrow> UnifiedShard \<times> Disk" where
  "shard_close sh disk = shard_close_with_path None sh disk"

section \<open>Inserting a document\<close>

text \<open>The record goes into the active data page, or into a new one when it does not fit.
  \<open>Some page\<close> is the page that is left pinned with the record in it.\<close>

definition store_record :: "UnifiedDocRecord \<Rightarrow> UnifiedShard \<Rightarrow> nat option \<times> UnifiedShard" where
  "store_record rec sh =
     (case buffer_pool_fetch_page (us_bpm sh) (us_active_data_page_id sh) of
        (None, b) \<Rightarrow> (None, with_bpm sh b)
      | (Some f, b) \<Rightarrow>
          let (fits, p) = slotted_page_insert_tuple (frame_page b f) (doc_record_bytes rec)
                            (of_nat sizeof_UnifiedDocRecord) in
          if fits then (Some f, with_bpm sh (set_frame_page f p b))
          else
            let b = buffer_pool_unpin_page (set_frame_page f p b) (us_active_data_page_id sh) False HINT_NORMAL;
                new_page_id = us_next_page_id sh;
                sh = (with_next_page (with_bpm sh b) (new_page_id + 1))\<lparr>us_active_data_page_id := new_page_id\<rparr>;
                (res, b) = bp_write_zero b new_page_id
            in if res < 0 then (None, with_bpm sh b)
               else case buffer_pool_fetch_page b new_page_id of
                   (None, b) \<Rightarrow> (None, with_bpm sh b)
                 | (Some f, b) \<Rightarrow>
                     let p = slotted_page_init (frame_page b f) new_page_id PAGE_TYPE_VECTOR_DATA;
                         p = snd (slotted_page_insert_tuple p (doc_record_bytes rec) (of_nat sizeof_UnifiedDocRecord))
                     in (Some f, with_bpm sh (set_frame_page f p b)))"

fun add_postings ::
  "u32 list \<Rightarrow> u32 \<Rightarrow> u32 \<Rightarrow> u32 \<Rightarrow> u16 \<Rightarrow> UnifiedShard \<Rightarrow> UnifiedShard option" where
  "add_postings [] i doc_id page_id slot_id sh = Some sh"
| "add_postings (t # ts) i doc_id page_id slot_id sh =
     (case inverted_index_add_posting sh t doc_id page_id slot_id i of
        None \<Rightarrow> None
      | Some (_, sh) \<Rightarrow> add_postings ts (i + 1) doc_id page_id slot_id sh)"

definition count_document :: "u32 list \<Rightarrow> UnifiedShard \<Rightarrow> UnifiedShard" where
  "count_document dl sh =
     (let total = us_total_docs sh + 1;
          sdl = map (\<lambda>i. dadd (us_sum_dl sh ! i) (d_of_nat (unat (dl ! i)))) [0..<4]
      in sh\<lparr>us_total_docs := total, us_sum_dl := sdl,
            us_avgdl := map (\<lambda>s. ddiv s (d_of_nat (unat total))) sdl\<rparr>)"

definition shard_insert_document ::
  "UnifiedShard \<Rightarrow> byte list \<Rightarrow> u32 list \<Rightarrow> u32 list \<Rightarrow> u32 list \<Rightarrow> u32 list \<Rightarrow> (int \<times> UnifiedShard) option" where
  "shard_insert_document sh node_id tf dl embedding term_ids =
     (let rec = \<lparr>rc_node_id = node_id, rc_term_frequencies = tf, rc_document_lengths = dl,
                 rc_embedding = embedding, rc_doc_id = us_next_doc_id sh\<rparr>;
          sh = sh\<lparr>us_next_doc_id := us_next_doc_id sh + 1\<rparr>;
          (_, b) = bp_log (us_bpm sh) 0 WAL_REC_INSERT (us_active_data_page_id sh) 0 (doc_record_bytes rec)
      in case store_record rec (with_bpm sh b) of
          (None, sh) \<Rightarrow> Some (- 1, sh)
        | (Some f, sh) \<Rightarrow>
            let slot = hdr_slot_count (frame_page (us_bpm sh) f) - 1;
                page = us_active_data_page_id sh;
                sh = with_bpm sh (buffer_pool_unpin_page (us_bpm sh) page True HINT_NORMAL);
                sh = count_document dl sh
            in (case add_postings term_ids 0 (rc_doc_id rec) page slot sh of
                  None \<Rightarrow> None
                | Some sh \<Rightarrow>
                    map_option (\<lambda>(_, sh). (0, sh))
                      (inverted_index_add_posting sh 0 (rc_doc_id rec) page slot 0)))"

section \<open>The engine\<close>

abbreviation (input) MAX_SHARDS :: nat where "MAX_SHARDS \<equiv> 16"

record UnifiedEngine =
  en_shards :: "UnifiedShard list"
  en_base_path :: string
  en_global_total_docs :: u64
  en_global_avgdl :: "double list"
  en_field_weights :: "double list"
  en_k1 :: double
  en_b :: double

record UnifiedQuery =
  q_search_term :: string
  q_term_ids :: "u32 list"
  q_is_phrase :: bool
  q_query_embedding :: "u32 list"
  q_use_text :: bool
  q_use_vector :: bool
  q_top_k :: u32

definition engine_recompute_global_stats :: "UnifiedEngine \<Rightarrow> UnifiedEngine" where
  "engine_recompute_global_stats en =
     (let total = fold (\<lambda>sh t. t + ucast (us_total_docs sh)) (en_shards en) (0 :: u64);
          sum_dl = map (\<lambda>i. fold (\<lambda>sh s. dadd s (us_sum_dl sh ! i)) (en_shards en) (Fin 0)) [0..<4]
      in en\<lparr>en_global_total_docs := total,
            en_global_avgdl := map (\<lambda>s. if 0 < total then ddiv s (d_of_nat (unat total)) else Fin 10) sum_dl\<rparr>)"

text \<open>The size of a frame on the 64-bit targets: 4120 bytes.\<close>

definition frames_per_shard :: "u32 \<Rightarrow> u32 \<Rightarrow> u32" where
  "frames_per_shard max_ram_mb num_shards =
     (let total_frames = ucast ((ucast max_ram_mb :: u64) * 1024 * 1024 div 4120) :: u32;
          n = total_frames div num_shards
      in if n < 1024 then 1024 else n)"

text \<open>A shard of the zeroed engine structure that was not opened: its pool has no frame.\<close>

definition zero_shard :: "UnifiedShard" where
  "zero_shard = \<lparr>us_shard_id = 0,
     us_store = \<lparr>ps_bpm = \<lparr>bp_frames = [], bp_pool_size = 0, bp_clock_hand = 0, bp_disk_fd = 0,
        bp_wal = None, bp_vfs_ctx = \<lparr>vc_batch = [], vc_initialized = False\<rparr>,
        bp_file = \<lparr>df_bytes = (\<lambda>_. 0), df_size = 0, df_plan = []\<rparr>\<rparr>, ps_next_page_id = 0\<rparr>,
     us_btree_root = 0, us_total_docs = 0, us_avgdl = replicate 4 (Fin 0), us_sum_dl = replicate 4 (Fin 0),
     us_active_data_page_id = 0, us_next_doc_id = 0, us_tombstone_page_id = 0, us_is_initialized = False,
     us_directory = []\<rparr>"

text \<open>The shards opened in order; the first failure leaves the remaining ones zeroed. \<open>None\<close>:
  the process exits.\<close>

fun open_shards :: "nat \<Rightarrow> u32 \<Rightarrow> string \<Rightarrow> u32 \<Rightarrow> Disk \<Rightarrow> (bool \<times> UnifiedShard list) option" where
  "open_shards 0 i base_path frames disk = Some (True, [])"
| "open_shards (Suc k) i base_path frames disk =
     (case shard_init i base_path frames disk of
        Exit \<Rightarrow> None
      | Failed \<Rightarrow> Some (False, zero_shard\<lparr>us_shard_id := i\<rparr> # replicate k zero_shard)
      | Opened sh \<Rightarrow>
          map_option (\<lambda>(ok, shs). (ok, sh # shs)) (open_shards k (i + 1) base_path frames disk))"

text \<open>With no shards the division by their number traps: the process ends.\<close>

definition engine_init :: "string \<Rightarrow> u32 \<Rightarrow> u32 \<Rightarrow> Disk \<Rightarrow> (int \<times> UnifiedEngine) option" where
  "engine_init base_path num_shards max_ram_mb disk =
     (if num_shards = 0 then None
      else case open_shards (unat num_shards) 0 base_path (frames_per_shard max_ram_mb num_shards) disk of
        None \<Rightarrow> None
      | Some (ok, shards) \<Rightarrow>
          let en = \<lparr>en_shards = shards, en_base_path = take 255 base_path, en_global_total_docs = 0,
                    en_global_avgdl = replicate 4 (Fin 0), en_field_weights = replicate 4 (Fin 0),
                    en_k1 = Fin 0, en_b = Fin 0\<rparr>
          in if \<not> ok then Some (- 1, en)
             else Some (0, engine_recompute_global_stats
               (en\<lparr>en_k1 := to_double (12 / 10), en_b := Fin (3 / 4),
                   en_field_weights := [Fin 10, Fin 5, Fin 2, Fin 1]\<rparr>)))"

definition engine_close :: "UnifiedEngine \<Rightarrow> Disk \<Rightarrow> UnifiedEngine \<times> Disk" where
  "engine_close en disk =
     (let (shs, disk) =
        fold (\<lambda>sh (shs, disk). let (sh, disk) = shard_close_with_path (Some (en_base_path en)) sh disk
                               in (shs @ [sh], disk))
          (en_shards en) ([], disk)
      in (en\<lparr>en_shards := shs\<rparr>, disk))"

definition node_hash :: "byte list \<Rightarrow> u32" where
  "node_hash node_id = fold (\<lambda>i hash. hash * 31 + ucast (node_id ! i)) [0..<16] 0"

definition shard_of_node :: "nat \<Rightarrow> byte list \<Rightarrow> nat" where
  "shard_of_node num_shards node_id = unat (node_hash node_id) mod num_shards"

definition engine_insert_document ::
  "UnifiedEngine \<Rightarrow> byte list \<Rightarrow> u32 list \<Rightarrow> u32 list \<Rightarrow> u32 list \<Rightarrow> u32 list \<Rightarrow> (int \<times> UnifiedEngine) option" where
  "engine_insert_document en node_id tf dl embedding term_ids =
     (let i = shard_of_node (length (en_shards en)) node_id in
      map_option (\<lambda>(res, sh). (res, en\<lparr>en_shards := (en_shards en)[i := sh]\<rparr>))
        (shard_insert_document (en_shards en ! i) node_id tf dl embedding term_ids))"

text \<open>One shard's part of the synchronous search.\<close>

definition search_shard ::
  "UnifiedEngine \<Rightarrow> UnifiedQuery \<Rightarrow> nat \<Rightarrow> UnifiedShard list \<times> UnifiedSearchResult list \<times> UnifiedSearchResult list
    \<Rightarrow> UnifiedShard list \<times> UnifiedSearchResult list \<times> UnifiedSearchResult list" where
  "search_shard en query s = (\<lambda>(shards, bm25f_all, vector_all).
     let (bm, sh) =
           (if q_use_text query
            then shard_search_bm25f (shards ! s) 0 (Fin 1) (en_global_avgdl en) (en_field_weights en)
                   (en_k1 en) (en_b en) MAX_RESULTS_PER_SHARD
            else ([], shards ! s));
         (vec, sh) =
           (if q_use_vector query
            then shard_search_vector sh (q_query_embedding query) MAX_RESULTS_PER_SHARD
            else ([], sh))
     in (shards[s := sh], bm25f_all @ bm, vector_all @ vec))"

definition engine_search ::
  "UnifiedSearchResult qsort \<Rightarrow> UnifiedEngine \<Rightarrow> UnifiedQuery \<Rightarrow> nat \<Rightarrow> UnifiedSearchResult list \<times> UnifiedEngine" where
  "engine_search qsort en query max_results =
     (let (shards, bm25f_all, vector_all) =
        fold (search_shard en query) [0..<length (en_shards en)] (en_shards en, [], [])
      in (fuse_results qsort (q_use_text query) (q_use_vector query) bm25f_all vector_all max_results,
          en\<lparr>en_shards := shards\<rparr>))"

end
