(* ===== verification/AsyncSearch.thy ===== *)
theory AsyncSearch
  imports UnifiedShard
begin

text \<open>
  \<open>async_search.c\<close> and \<open>async_search.h\<close>: one work item per shard on the thread pool of
  libuv, and the merge of their results when all have finished. libuv is not part of the
  repository; what the code relies on is that \<open>uv_run\<close> returns after every queued item has
  run once. The order in which the items run is open: \<open>engine_search_async\<close> takes it as an
  argument.
\<close>

section \<open>Fusing one shard's results\<close>

definition rrf_at :: "nat \<Rightarrow> double" where
  "rrf_at i = ddiv (Fin 1) (d_of_nat (unat (of_nat RRF_K + of_nat i + 1 :: u32)))"

fun merge_rrf_one :: "nat \<Rightarrow> UnifiedSearchResult \<Rightarrow> UnifiedSearchResult list \<Rightarrow> UnifiedSearchResult list" where
  "merge_rrf_one i v [] = [v\<lparr>sr_cosine_rank := of_nat (i + 1), sr_rrf_score := rrf_at i\<rparr>]"
| "merge_rrf_one i v (m # ms) =
     (if sr_node_id m = sr_node_id v
      then m\<lparr>sr_cosine_score := sr_cosine_score v, sr_cosine_rank := of_nat (i + 1),
             sr_rrf_score := dadd (sr_rrf_score m) (rrf_at i)\<rparr> # ms
      else m # merge_rrf_one i v ms)"

definition merge_rrf ::
  "UnifiedSearchResult list \<Rightarrow> UnifiedSearchResult list \<Rightarrow> nat \<Rightarrow> UnifiedSearchResult list" where
  "merge_rrf bm25 vec max_out =
     (let merged = map (\<lambda>i. (bm25 ! i)\<lparr>sr_bm25f_rank := of_nat (i + 1), sr_rrf_score := rrf_at i\<rparr>)
                     [0..<length bm25];
          merged = fold (\<lambda>i ms. merge_rrf_one i (vec ! i) ms) [0..<length vec] merged
      in take max_out (exchange_sort sr_rrf_score no_stamp merged))"

section \<open>The work item\<close>

text \<open>Adding the results of one term to those of the terms before it.\<close>

fun add_term_result :: "UnifiedSearchResult list \<Rightarrow> UnifiedSearchResult \<Rightarrow> nat \<Rightarrow> UnifiedSearchResult list" where
  "add_term_result [] r room = (if 0 < room then [r] else [])"
| "add_term_result (m # ms) r room =
     (if sr_node_id m = sr_node_id r
      then m\<lparr>sr_bm25f_score := dadd (sr_bm25f_score m) (sr_bm25f_score r)\<rparr> # ms
      else m # add_term_result ms r (room - 1))"

fun search_terms ::
  "bool \<Rightarrow> u32 list \<Rightarrow> double list \<Rightarrow> double list \<Rightarrow> double \<Rightarrow> double
    \<Rightarrow> UnifiedSearchResult list \<times> UnifiedShard \<Rightarrow> (UnifiedSearchResult list \<times> UnifiedShard) option" where
  "search_terms malloc_ok [] avgdl weights k1 b (acc, sh) = Some (acc, sh)"
| "search_terms malloc_ok (t # ts) avgdl weights k1 b (acc, sh) =
     (case shard_search_bm25f_indexed malloc_ok sh t (Fin 1) avgdl weights k1 b MAX_RESULTS_PER_SHARD of
        None \<Rightarrow> None
      | Some (rs, sh) \<Rightarrow>
          search_terms malloc_ok ts avgdl weights k1 b
            (fold (\<lambda>r acc. add_term_result acc r MAX_RESULTS_PER_SHARD) rs acc, sh))"

definition shard_search_work_cb ::
  "bool \<Rightarrow> UnifiedQuery \<Rightarrow> double list \<Rightarrow> double list \<Rightarrow> double \<Rightarrow> double \<Rightarrow> UnifiedShard
    \<Rightarrow> (UnifiedSearchResult list \<times> UnifiedShard) option" where
  "shard_search_work_cb malloc_ok query avgdl weights k1 b sh =
     (case (if q_use_text query then
              if q_is_phrase query \<and> q_term_ids query \<noteq> [] then
                shard_search_phrase_indexed malloc_ok sh (q_term_ids query) (Fin 1) avgdl weights k1 b
                  MAX_RESULTS_PER_SHARD
              else if q_term_ids query \<noteq> [] then
                search_terms malloc_ok (q_term_ids query) avgdl weights k1 b ([], sh)
              else
                shard_search_bm25f_indexed malloc_ok sh 0 (Fin 1) avgdl weights k1 b MAX_RESULTS_PER_SHARD
            else Some ([], sh)) of
        None \<Rightarrow> None
      | Some (bm25, sh) \<Rightarrow>
          let (vec, sh) =
                (if q_use_vector query
                 then shard_search_vector sh (q_query_embedding query) MAX_RESULTS_PER_SHARD
                 else ([], sh))
          in Some
               (if q_use_text query \<and> q_use_vector query then merge_rrf bm25 vec MAX_RESULTS_PER_SHARD
                else if q_use_text query then map (\<lambda>r. r\<lparr>sr_rrf_score := sr_bm25f_score r\<rparr>) bm25
                else map (\<lambda>r. r\<lparr>sr_rrf_score := sr_cosine_score r\<rparr>) vec, sh))"

section \<open>The search context\<close>

text \<open>The engine's shards, the results of the work items and the counter of finished ones.\<close>

record Pool =
  pl_shards :: "UnifiedShard list"
  pl_results :: "nat \<Rightarrow> UnifiedSearchResult list"
  pl_completed :: nat

type_synonym work = "UnifiedShard \<Rightarrow> (UnifiedSearchResult list \<times> UnifiedShard) option"

definition pool_start :: "UnifiedShard list \<Rightarrow> Pool" where
  "pool_start shards = \<lparr>pl_shards = shards, pl_results = (\<lambda>_. []), pl_completed = 0\<rparr>"

text \<open>The completion callback has a pointer to its work item only. It takes the shard's id for the
  item's index and steps back to the start of the context. If the id is another number, the
  increment hits memory outside the counter: undefined behaviour, \<open>None\<close>.\<close>

definition shard_search_done_cb :: "nat \<Rightarrow> Pool \<Rightarrow> Pool option" where
  "shard_search_done_cb i pl =
     (if unat (us_shard_id (pl_shards pl ! i)) = i then Some (pl\<lparr>pl_completed := pl_completed pl + 1\<rparr>)
      else None)"

text \<open>Work item \<open>i\<close>: the work callback on the pool, then the completion callback on the loop.\<close>

definition run_item :: "work \<Rightarrow> nat \<Rightarrow> Pool \<Rightarrow> Pool option" where
  "run_item work i pl =
     (case work (pl_shards pl ! i) of
        None \<Rightarrow> None
      | Some (rs, sh) \<Rightarrow>
          shard_search_done_cb i
            (pl\<lparr>pl_shards := (pl_shards pl)[i := sh], pl_results := (pl_results pl)(i := rs)\<rparr>))"

text \<open>All items, in the order in which the pool happens to run them.\<close>

fun run_items :: "work \<Rightarrow> nat list \<Rightarrow> Pool \<Rightarrow> Pool option" where
  "run_items work [] pl = Some pl"
| "run_items work (i # is) pl = Option.bind (run_item work i pl) (run_items work is)"

section \<open>The search\<close>

text \<open>\<open>loop_ok\<close>: the libuv loop exists or can be created.\<close>

definition async_search_init :: "bool \<Rightarrow> bool \<Rightarrow> int \<times> bool" where
  "async_search_init loop_ok has_loop =
     (if \<not> has_loop then if loop_ok then (0, True) else (- 1, False) else (0, True))"

definition async_search_shutdown :: "bool \<Rightarrow> bool" where
  "async_search_shutdown has_loop = False"

definition gather_results ::
  "UnifiedQuery \<Rightarrow> UnifiedSearchResult list \<Rightarrow> UnifiedSearchResult list \<times> UnifiedSearchResult list" where
  "gather_results query rs =
     (filter (\<lambda>r. q_use_text query \<and> dlt (Fin 0) (sr_bm25f_score r)) rs,
      filter (\<lambda>r. \<not> (q_use_text query \<and> dlt (Fin 0) (sr_bm25f_score r)) \<and>
                q_use_vector query \<and> (\<not> deq (sr_cosine_score r) (Fin 0) \<or> \<not> q_use_text query)) rs)"

definition engine_search_async ::
  "UnifiedSearchResult qsort \<Rightarrow> nat list \<Rightarrow> bool \<Rightarrow> bool \<Rightarrow> bool \<Rightarrow> UnifiedEngine \<Rightarrow> UnifiedQuery \<Rightarrow> nat
    \<Rightarrow> (UnifiedSearchResult list \<times> UnifiedEngine \<times> bool) option" where
  "engine_search_async qsort order malloc_ok loop_ok has_loop en query max_results =
     (let (rc, has_loop) = (if has_loop then (0, True) else async_search_init loop_ok False) in
      if rc \<noteq> 0 then Some ([], en, has_loop)
      else case run_items (shard_search_work_cb malloc_ok query (en_global_avgdl en) (en_field_weights en)
                             (en_k1 en) (en_b en)) order (pool_start (en_shards en)) of
          None \<Rightarrow> None
        | Some pl \<Rightarrow>
            let all = concat (map (pl_results pl) [0..<length (en_shards en)]);
                (bm25f_all, vector_all) = gather_results query all
            in Some (fuse_results qsort (q_use_text query) (q_use_vector query) bm25f_all vector_all max_results,
                     en\<lparr>en_shards := pl_shards pl\<rparr>, has_loop))"

end
