(* ===== verification/Lexicon.thy ===== *)
theory Lexicon
  imports CDouble "HOL-Library.Char_ord"
begin

unbundle bit_operations_syntax

text \<open>
  \<open>lexicon_map.c\<close>, \<open>lexicon.c\<close> and \<open>lexicon.h\<close>: the term dictionary, a hash table of
  chained entries under the FNV-1a hash, the tokenizer, and the inverse document frequency.
  A C string is its list of characters before the terminator. Whether \<open>malloc\<close> succeeds is
  an argument.
\<close>

section \<open>State and hash\<close>

abbreviation (input) LEXICON_BUCKET_COUNT :: nat where "LEXICON_BUCKET_COUNT \<equiv> 65536"
abbreviation (input) LEXICON_MAX_TERM_LEN :: nat where "LEXICON_MAX_TERM_LEN \<equiv> 255"

record LexiconEntry =
  le_term :: string
  le_term_id :: u32
  le_document_frequency :: u64

record Lexicon =
  lx_buckets :: "nat \<Rightarrow> LexiconEntry list"
  lx_next_term_id :: u32
  lx_total_terms :: u32

definition lexicon_term_hash32 :: "string \<Rightarrow> u32" where
  "lexicon_term_hash32 term =
     (let hash = fold (\<lambda>c hash. (hash XOR of_char c) * 16777619) term 2166136261
      in if hash = 0 then 1 else hash)"

definition lexicon_hash :: "string \<Rightarrow> u32" where
  "lexicon_hash term = lexicon_term_hash32 term mod of_nat LEXICON_BUCKET_COUNT"

section \<open>Operations\<close>

definition lexicon_init :: "Lexicon" where
  "lexicon_init = \<lparr>lx_buckets = (\<lambda>_. []), lx_next_term_id = 1, lx_total_terms = 0\<rparr>"

definition lexicon_destroy :: "Lexicon \<Rightarrow> Lexicon" where
  "lexicon_destroy dict = dict\<lparr>lx_buckets := (\<lambda>_. []), lx_next_term_id := 1, lx_total_terms := 0\<rparr>"

text \<open>The walk down a bucket: the entry found gets its frequency incremented.\<close>

fun bump_entry :: "string \<Rightarrow> LexiconEntry list \<Rightarrow> (u32 \<times> LexiconEntry list) option" where
  "bump_entry term [] = None"
| "bump_entry term (e # es) =
     (if le_term e = term
      then Some (le_term_id e, e\<lparr>le_document_frequency := le_document_frequency e + 1\<rparr> # es)
      else map_option (\<lambda>(i, es). (i, e # es)) (bump_entry term es))"

definition lexicon_insert :: "bool \<Rightarrow> Lexicon \<Rightarrow> string \<Rightarrow> u32 \<times> Lexicon" where
  "lexicon_insert malloc_ok dict term =
     (let bucket = unat (lexicon_hash term) in
      case bump_entry term (lx_buckets dict bucket) of
        Some (term_id, es) \<Rightarrow> (term_id, dict\<lparr>lx_buckets := (lx_buckets dict)(bucket := es)\<rparr>)
      | None \<Rightarrow>
          if \<not> malloc_ok then (0, dict)
          else let e = \<lparr>le_term = take LEXICON_MAX_TERM_LEN term,
                        le_term_id = lexicon_term_hash32 term, le_document_frequency = 1\<rparr>
            in (le_term_id e,
                dict\<lparr>lx_buckets := (lx_buckets dict)(bucket := e # lx_buckets dict bucket),
                    lx_total_terms := lx_total_terms dict + 1\<rparr>))"

definition lexicon_lookup :: "Lexicon \<Rightarrow> string \<Rightarrow> (u32 \<times> u64) option" where
  "lexicon_lookup dict term =
     map_option (\<lambda>e. (le_term_id e, le_document_frequency e))
       (find (\<lambda>e. le_term e = term) (lx_buckets dict (unat (lexicon_hash term))))"

definition lexicon_get_doc_freq :: "Lexicon \<Rightarrow> u32 \<Rightarrow> u64" where
  "lexicon_get_doc_freq dict term_id =
     (if term_id = 0 then 0
      else case find (\<lambda>e. le_term_id e = term_id)
                  (concat (map (lx_buckets dict) [0..<LEXICON_BUCKET_COUNT])) of
          None \<Rightarrow> 0 | Some e \<Rightarrow> le_document_frequency e)"

section \<open>Tokenizer\<close>

text \<open>The classification functions of the C locale.\<close>

definition c_isalnum :: "char \<Rightarrow> bool" where
  "c_isalnum c = (let n = of_char c :: nat in
     48 \<le> n \<and> n \<le> 57 \<or> 65 \<le> n \<and> n \<le> 90 \<or> 97 \<le> n \<and> n \<le> 122)"

definition c_tolower :: "char \<Rightarrow> char" where
  "c_tolower c = (let n = of_char c :: nat in if 65 \<le> n \<and> n \<le> 90 then char_of (n + 32) else c)"

abbreviation (input) NUL :: char where "NUL \<equiv> CHR 0x00"

definition normalize_char :: "char \<Rightarrow> char" where
  "normalize_char c = (if c_isalnum c then c_tolower c else NUL)"

text \<open>The scan of \<open>out_buf\<close> from position \<open>i\<close>: the offsets stored in \<open>out_tokens\<close>.\<close>

fun token_scan :: "string \<Rightarrow> nat \<Rightarrow> bool \<Rightarrow> nat \<Rightarrow> nat \<Rightarrow> nat list" where
  "token_scan [] i in_token cnt max_tokens = []"
| "token_scan (c # cs) i in_token cnt max_tokens =
     (if c \<noteq> NUL then
        if \<not> in_token then
          if max_tokens \<le> cnt then []
          else i # token_scan cs (Suc i) True (Suc cnt) max_tokens
        else token_scan cs (Suc i) True cnt max_tokens
      else token_scan cs (Suc i) False cnt max_tokens)"

text \<open>The buffer with its terminator and the token offsets. An argument \<open>max_tokens\<close> that is
  not positive is rejected, as is an empty buffer.\<close>

definition lexicon_tokenize :: "string \<Rightarrow> nat \<Rightarrow> int \<Rightarrow> (string \<times> nat list) option" where
  "lexicon_tokenize text buf_size max_tokens =
     (if buf_size = 0 \<or> max_tokens \<le> 0 then None
      else let in_len = length text;
               copy_len = (if in_len < buf_size - 1 then in_len else buf_size - 1);
               out_buf = map normalize_char (take copy_len text) @ [NUL]
        in Some (out_buf, token_scan out_buf 0 False 0 (nat max_tokens)))"

text \<open>The C string at an offset of the buffer.\<close>

definition token_at :: "string \<Rightarrow> nat \<Rightarrow> string" where
  "token_at buf off = takeWhile (\<lambda>c. c \<noteq> NUL) (drop off buf)"

section \<open>Inverse document frequency\<close>

definition compute_idf :: "u64 \<Rightarrow> u64 \<Rightarrow> double" where
  "compute_idf total_corpus_docs term_doc_freq =
     (if term_doc_freq = 0 \<or> total_corpus_docs = 0 then Fin 0
      else let n = d_of_nat (unat term_doc_freq);
               N = d_of_nat (unat total_corpus_docs);
               idf = dlog (dadd (ddiv (dadd (dsub N n) (Fin (1/2))) (dadd n (Fin (1/2)))) (Fin 1))
        in if dlt idf (Fin 0) then Fin 0 else idf)"

end
