(* ===== verification/VtabBridge.thy ===== *)
theory VtabBridge
  imports AsyncSearch Lexicon
begin

text \<open>
  \<open>vtab_bridge.c\<close>: the SQLite virtual table over the engine. SQLite is vendored code; what
  its functions return is an argument. Engines live on the heap under a handle; the globals
  of the file are one record. A table with its cursor runs \<open>ftsFilter\<close> and then steps
  through the results.
\<close>

section \<open>Globals\<close>

abbreviation (input) MAX_ACTIVE_ENGINES :: nat where "MAX_ACTIVE_ENGINES \<equiv> 64"
abbreviation (input) SQLITE_OK :: int where "SQLITE_OK \<equiv> 0"
abbreviation (input) SQLITE_NOMEM :: int where "SQLITE_NOMEM \<equiv> 7"
abbreviation (input) SQLITE_CONSTRAINT :: int where "SQLITE_CONSTRAINT \<equiv> 19"
abbreviation (input) SQLITE_INDEX_CONSTRAINT_EQ :: nat where "SQLITE_INDEX_CONSTRAINT_EQ \<equiv> 2"
abbreviation (input) SQLITE_INDEX_CONSTRAINT_MATCH :: nat where "SQLITE_INDEX_CONSTRAINT_MATCH \<equiv> 64"

type_synonym handle = nat

record Globals =
  gl_lexicon :: Lexicon
  gl_lexicon_initialized :: bool
  gl_engine :: "handle option"
  gl_active :: "(handle \<times> int) option list"   \<comment> \<open>\<open>g_active_engines\<close>: engine and reference count\<close>
  gl_heap :: "handle \<rightharpoonup> UnifiedEngine"
  gl_has_loop :: bool
  gl_disk :: Disk

text \<open>What the environment does in one call: whether allocations succeed, the handle a fresh
  allocation gets, and the return code of \<open>sqlite3_declare_vtab\<close>.\<close>

record Env =
  ev_declare :: int
  ev_malloc_vtab :: bool
  ev_malloc_engine :: "handle option"
  ev_loop_ok :: bool

definition globals_init :: "Disk \<Rightarrow> Globals" where
  "globals_init disk = \<lparr>gl_lexicon = lexicon_init, gl_lexicon_initialized = False, gl_engine = None,
     gl_active = replicate MAX_ACTIVE_ENGINES None, gl_heap = Map.empty, gl_has_loop = False, gl_disk = disk\<rparr>"

section \<open>Connecting\<close>

definition strip_quotes :: "string \<Rightarrow> string" where
  "strip_quotes path =
     (if path \<noteq> [] \<and> (hd path = CHR 0x27 \<or> hd path = CHR 0x22) \<and> 2 \<le> length path
      then take (length path - 2) (tl path) else path)"

fun leading_digits :: "string \<Rightarrow> nat \<Rightarrow> nat" where
  "leading_digits [] acc = acc"
| "leading_digits (c # cs) acc =
     (let n = of_char c :: nat in
      if 48 \<le> n \<and> n \<le> 57 then leading_digits cs (10 * acc + (n - 48)) else acc)"

definition c_isspace :: "char \<Rightarrow> bool" where
  "c_isspace c = (let n = of_char c :: nat in n = 32 \<or> 9 \<le> n \<and> n \<le> 13)"

text \<open>\<open>atoi\<close>, for values that fit an \<open>int\<close>.\<close>

definition c_atoi :: "string \<Rightarrow> int" where
  "c_atoi s =
     (let s = dropWhile c_isspace s in
      case s of
        [] \<Rightarrow> 0
      | c # cs \<Rightarrow> if c = CHR 0x2D then - int (leading_digits cs 0)
                  else if c = CHR 0x2B then int (leading_digits cs 0)
                  else int (leading_digits s 0))"

definition table_path :: "string list \<Rightarrow> string" where
  "table_path argv = (if 3 < length argv then strip_quotes (take 511 (argv ! 3)) else ''./fts_uring_data'')"

definition table_ram_mb :: "string list \<Rightarrow> u32" where
  "table_ram_mb argv =
     (if 4 < length argv then let m = of_int (c_atoi (argv ! 4)) :: u32 in if m < 64 then 64 else m
      else 1024)"

text \<open>The slot of the active engine with this path.\<close>

definition find_engine :: "Globals \<Rightarrow> string \<Rightarrow> nat option" where
  "find_engine g path =
     find (\<lambda>i. case gl_active g ! i of None \<Rightarrow> False
            | Some (h, _) \<Rightarrow> map_option en_base_path (gl_heap g h) = Some path)
       [0..<MAX_ACTIVE_ENGINES]"

definition free_slot :: "Globals \<Rightarrow> nat option" where
  "free_slot g = find (\<lambda>i. gl_active g ! i = None) [0..<MAX_ACTIVE_ENGINES]"

definition finish_connect :: "Env \<Rightarrow> Globals \<Rightarrow> Globals" where
  "finish_connect ev g =
     (let g = (if \<not> gl_lexicon_initialized g
               then g\<lparr>gl_lexicon := lexicon_init, gl_lexicon_initialized := True\<rparr> else g)
      in g\<lparr>gl_has_loop := snd (async_search_init (ev_loop_ok ev) (gl_has_loop g))\<rparr>)"

text \<open>The result code, the engine of the new table, and the globals; \<open>None\<close> when the process
  exits. The return value of \<open>engine_init\<close> is ignored, as in the code.\<close>

definition ftsConnect :: "Env \<Rightarrow> string list \<Rightarrow> Globals \<Rightarrow> (int \<times> handle option \<times> Globals) option" where
  "ftsConnect ev argv g =
     (if ev_declare ev \<noteq> SQLITE_OK then Some (ev_declare ev, None, g)
      else if \<not> ev_malloc_vtab ev then Some (SQLITE_NOMEM, None, g)
      else
        let path = table_path argv in
        case find_engine g path of
          Some i \<Rightarrow>
            (case gl_active g ! i of
               None \<Rightarrow> None
             | Some (h, n) \<Rightarrow>
                 Some (SQLITE_OK, Some h,
                   finish_connect ev (g\<lparr>gl_active := (gl_active g)[i := Some (h, n + 1)], gl_engine := Some h\<rparr>)))
        | None \<Rightarrow>
            (case ev_malloc_engine ev of
               None \<Rightarrow> Some (SQLITE_NOMEM, None, g)
             | Some h \<Rightarrow>
                 (case engine_init path 4 (table_ram_mb argv) (gl_disk g) of
                    None \<Rightarrow> None
                  | Some (_, en) \<Rightarrow>
                      let g = g\<lparr>gl_heap := (gl_heap g)(h \<mapsto> en), gl_engine := Some h\<rparr>;
                          g = (case free_slot g of None \<Rightarrow> g
                               | Some i \<Rightarrow> g\<lparr>gl_active := (gl_active g)[i := Some (h, 1)]\<rparr>)
                      in Some (SQLITE_OK, Some h, finish_connect ev g))))"

section \<open>Disconnecting\<close>

definition close_engine :: "handle \<Rightarrow> Globals \<Rightarrow> Globals" where
  "close_engine h g =
     (case gl_heap g h of
        None \<Rightarrow> g
      | Some en \<Rightarrow>
          let (_, disk) = engine_close en (gl_disk g)
          in g\<lparr>gl_heap := (gl_heap g)(h := None), gl_disk := disk\<rparr>)"

definition slot_of :: "Globals \<Rightarrow> handle \<Rightarrow> nat option" where
  "slot_of g h = find (\<lambda>i. map_option fst (gl_active g ! i) = Some h) [0..<MAX_ACTIVE_ENGINES]"

definition any_active :: "Globals \<Rightarrow> handle option" where
  "any_active g =
     (case find (\<lambda>i. gl_active g ! i \<noteq> None) [0..<MAX_ACTIVE_ENGINES] of
        None \<Rightarrow> None | Some i \<Rightarrow> map_option fst (gl_active g ! i))"

definition ftsDisconnect :: "handle option \<Rightarrow> Globals \<Rightarrow> Globals" where
  "ftsDisconnect engine g =
     (let g =
        (case engine of
           None \<Rightarrow> g
         | Some h \<Rightarrow>
             (case slot_of g h of
                Some i \<Rightarrow>
                  let n = snd (the (gl_active g ! i)) - 1 in
                  if 0 < n then g\<lparr>gl_active := (gl_active g)[i := Some (h, n)]\<rparr>
                  else
                    let g = close_engine h g;
                        g = g\<lparr>gl_active := (gl_active g)[i := None]\<rparr>
                    in if gl_engine g = Some h then g\<lparr>gl_engine := any_active g\<rparr> else g
              | None \<Rightarrow>
                  let g = close_engine h g
                  in if gl_engine g = Some h then g\<lparr>gl_engine := None\<rparr> else g))
      in if any_active g = None then g\<lparr>gl_has_loop := async_search_shutdown (gl_has_loop g)\<rparr> else g)"

section \<open>Planning\<close>

text \<open>The first constraint the table can use; the outputs are its index and the cost.\<close>

definition usable_constraint :: "int \<times> nat \<Rightarrow> bool" where
  "usable_constraint c \<longleftrightarrow> fst c = 4 \<and>
     (snd c = SQLITE_INDEX_CONSTRAINT_EQ \<or> snd c = SQLITE_INDEX_CONSTRAINT_MATCH)"

definition ftsBestIndex :: "(int \<times> nat) list \<Rightarrow> int \<times> nat option \<times> double option" where
  "ftsBestIndex constraints =
     (case find (\<lambda>i. usable_constraint (constraints ! i)) [0..<length constraints] of
        Some i \<Rightarrow> (SQLITE_OK, Some i, Some (Fin 10))
      | None \<Rightarrow> (SQLITE_CONSTRAINT, None, None))"

section \<open>Cursors\<close>

record Cursor =
  cu_results :: "UnifiedSearchResult list"
  cu_current_row :: int

definition ftsOpen :: "bool \<Rightarrow> int \<times> Cursor option" where
  "ftsOpen malloc_ok =
     (if \<not> malloc_ok then (SQLITE_NOMEM, None) else (SQLITE_OK, Some \<lparr>cu_results = [], cu_current_row = 0\<rparr>))"

definition is_phrase_query :: "string \<Rightarrow> bool" where
  "is_phrase_query s \<longleftrightarrow> s \<noteq> [] \<and> hd s = CHR 0x22 \<and> 1 < length s \<and> last s = CHR 0x22"

text \<open>Looking up the tokens with \<open>lexicon_insert\<close>, which also counts them.\<close>

fun insert_tokens :: "bool \<Rightarrow> string list \<Rightarrow> Lexicon \<Rightarrow> u32 list \<times> Lexicon" where
  "insert_tokens malloc_ok [] dict = ([], dict)"
| "insert_tokens malloc_ok (t # ts) dict =
     (let (i, dict) = lexicon_insert malloc_ok dict t; (is, dict) = insert_tokens malloc_ok ts dict
      in (i # is, dict))"

definition tokens_of :: "string \<Rightarrow> nat \<Rightarrow> int \<Rightarrow> string list" where
  "tokens_of text buf_size max_tokens =
     (case lexicon_tokenize text buf_size max_tokens of
        None \<Rightarrow> [] | Some (buf, offs) \<Rightarrow> map (token_at buf) offs)"

definition text_query :: "string \<Rightarrow> u32 list \<Rightarrow> UnifiedQuery" where
  "text_query search_term term_ids =
     \<lparr>q_search_term = search_term, q_term_ids = term_ids, q_is_phrase = is_phrase_query search_term,
      q_query_embedding = replicate EMBEDDING_DIM 0, q_use_text = True, q_use_vector = False, q_top_k = 64\<rparr>"

text \<open>\<open>search_term\<close> is \<open>None\<close> when SQLite passes no argument; a text argument is passed as \<open>Some\<close>.
  The null pointer of \<open>MATCH NULL\<close> is the empty text: the tokenizer returns no token for either,
  no phrase is recognised, and no search reads the query's \<open>search_term\<close>. The order of the work
  items and the allocations of the search are arguments; \<open>None\<close> when the search does not return.\<close>

definition ftsFilter ::
  "UnifiedSearchResult qsort \<Rightarrow> nat list \<Rightarrow> bool \<Rightarrow> bool \<Rightarrow> handle \<Rightarrow> string option \<Rightarrow> Cursor \<Rightarrow> Globals
    \<Rightarrow> (Cursor \<times> Globals) option" where
  "ftsFilter qsort order malloc_ok loop_ok h search_term cur g =
     (case search_term of
        None \<Rightarrow> Some (cur\<lparr>cu_results := [], cu_current_row := 0\<rparr>, g)
      | Some s \<Rightarrow>
          let (term_ids, dict) = insert_tokens malloc_ok (tokens_of s 4096 64) (gl_lexicon g);
              g = g\<lparr>gl_lexicon := dict\<rparr>
          in (case gl_heap g h of
                None \<Rightarrow> None
              | Some en \<Rightarrow>
                  map_option (\<lambda>(rs, en, has_loop).
                      (cur\<lparr>cu_results := rs, cu_current_row := 0\<rparr>,
                       g\<lparr>gl_heap := (gl_heap g)(h \<mapsto> en), gl_has_loop := has_loop\<rparr>))
                    (engine_search_async qsort order malloc_ok loop_ok (gl_has_loop g) en (text_query s term_ids)
                       (MAX_RESULTS_PER_SHARD * MAX_SHARDS))))"

definition ftsNext :: "Cursor \<Rightarrow> Cursor" where
  "ftsNext cur = cur\<lparr>cu_current_row := cu_current_row cur + 1\<rparr>"

definition ftsEof :: "Cursor \<Rightarrow> bool" where
  "ftsEof cur \<longleftrightarrow> int (length (cu_results cur)) \<le> cu_current_row cur"

datatype column_value = ColText string | ColReal double | ColNone

definition hex_digit :: "nat \<Rightarrow> char" where
  "hex_digit n = char_of (if n < 10 then 48 + n else 87 + n)"

definition node_id_hex :: "byte list \<Rightarrow> string" where
  "node_id_hex node_id =
     concat (map (\<lambda>j. [hex_digit (unat (node_id ! j) div 16), hex_digit (unat (node_id ! j) mod 16)]) [0..<16])"

definition ftsColumn :: "Cursor \<Rightarrow> int \<Rightarrow> column_value" where
  "ftsColumn cur i =
     (if int (length (cu_results cur)) \<le> cu_current_row cur then ColNone
      else let r = cu_results cur ! nat (cu_current_row cur) in
        if i = 0 then ColText (node_id_hex (sr_node_id r))
        else if i = 1 then ColReal (sr_bm25f_score r)
        else if i = 2 then ColReal (sr_cosine_score r)
        else if i = 3 then ColReal (sr_rrf_score r)
        else ColNone)"

definition ftsRowid :: "Cursor \<Rightarrow> int" where
  "ftsRowid cur = cu_current_row cur"

section \<open>The insertion entry point of the bindings\<close>

definition python_insert_document ::
  "bool \<Rightarrow> byte list \<Rightarrow> u32 list \<Rightarrow> u32 list \<Rightarrow> u32 list \<Rightarrow> string option \<Rightarrow> Globals \<Rightarrow> (int \<times> Globals) option" where
  "python_insert_document malloc_ok node_id tf dl embedding text g =
     (case Option.bind (gl_engine g) (\<lambda>h. map_option (Pair h) (gl_heap g h)) of
        None \<Rightarrow> Some (- 1, g)
      | Some (h, en) \<Rightarrow>
          let (term_ids, dict) =
                (case text of None \<Rightarrow> ([], gl_lexicon g)
                 | Some t \<Rightarrow> insert_tokens malloc_ok (tokens_of t 4096 1024) (gl_lexicon g));
              g = g\<lparr>gl_lexicon := dict\<rparr>
          in map_option (\<lambda>(rc, en). (rc, g\<lparr>gl_heap := (gl_heap g)(h \<mapsto> en)\<rparr>))
               (engine_insert_document en node_id tf dl embedding term_ids))"

section \<open>Registration\<close>

text \<open>The callbacks by the slot of the module structure; \<open>create_rc\<close> is what
  \<open>sqlite3_create_module\<close> returns.\<close>

definition fts_uring_module :: "(string \<times> string) list" where
  "fts_uring_module =
     [(''xCreate'', ''ftsConnect''), (''xConnect'', ''ftsConnect''), (''xBestIndex'', ''ftsBestIndex''),
      (''xDisconnect'', ''ftsDisconnect''), (''xDestroy'', ''ftsDisconnect''), (''xOpen'', ''ftsOpen''),
      (''xClose'', ''ftsClose''), (''xFilter'', ''ftsFilter''), (''xNext'', ''ftsNext''), (''xEof'', ''ftsEof''),
      (''xColumn'', ''ftsColumn''), (''xRowid'', ''ftsRowid'')]"

definition sqlite3_ftsuring_init ::
  "(string \<Rightarrow> (string \<times> string) list \<Rightarrow> int) \<Rightarrow> int" where
  "sqlite3_ftsuring_init create_module = create_module ''fts_uring'' fts_uring_module"

end
