(* ===== verification/VtabSkeleton.thy ===== *)
theory VtabSkeleton
  imports VtabBridge
begin

text \<open>
  \<open>vtab_bridge_skeleton.c\<close>: the earlier form of the virtual table, which answers every query
  with four identical mock rows.
\<close>

record SkelCursor =
  sk_current_row :: int
  sk_total_results :: int

definition skel_ftsConnect :: "int \<Rightarrow> int" where
  "skel_ftsConnect declare_rc = declare_rc"

definition skel_ftsOpen :: "SkelCursor" where
  "skel_ftsOpen = \<lparr>sk_current_row = 0, sk_total_results = 0\<rparr>"

definition skel_ftsBestIndex :: "(int \<times> nat) list \<Rightarrow> int \<times> nat option \<times> double option" where
  "skel_ftsBestIndex constraints =
     (case find (\<lambda>i. fst (constraints ! i) = 2 \<and> snd (constraints ! i) = SQLITE_INDEX_CONSTRAINT_EQ)
            [0..<length constraints] of
        Some i \<Rightarrow> (SQLITE_OK, Some i, Some (Fin 10))
      | None \<Rightarrow> (SQLITE_CONSTRAINT, None, None))"

definition skel_ftsFilter :: "SkelCursor \<Rightarrow> SkelCursor" where
  "skel_ftsFilter cur = cur\<lparr>sk_current_row := 0, sk_total_results := 4\<rparr>"

definition skel_ftsNext :: "SkelCursor \<Rightarrow> SkelCursor" where
  "skel_ftsNext cur = cur\<lparr>sk_current_row := sk_current_row cur + 1\<rparr>"

definition skel_ftsEof :: "SkelCursor \<Rightarrow> bool" where
  "skel_ftsEof cur \<longleftrightarrow> sk_total_results cur \<le> sk_current_row cur"

definition skel_ftsColumn :: "int \<Rightarrow> column_value" where
  "skel_ftsColumn i =
     (if i = 0 then ColText ''01010000-0000-0000-0000-000000000000''
      else if i = 1 then ColReal (to_double (80106 / 10000)) else ColNone)"

definition skel_ftsRowid :: "SkelCursor \<Rightarrow> int" where
  "skel_ftsRowid cur = sk_current_row cur"

text \<open>Stepping a cursor to its end.\<close>

function skel_rows :: "SkelCursor \<Rightarrow> int list" where
  "skel_rows cur = (if skel_ftsEof cur then [] else skel_ftsRowid cur # skel_rows (skel_ftsNext cur))"
  by pat_completeness auto
termination
  by (relation "measure (\<lambda>cur. nat (sk_total_results cur - sk_current_row cur))")
    (auto simp: skel_ftsEof_def skel_ftsNext_def)

end
