(* ===== verification/VtabProperties.thy ===== *)
theory VtabProperties
  imports VtabSkeleton
begin

text \<open>
  The virtual table: a step relation of the calls SQLite and the bindings make, with the
  invariant that the reference counts are the numbers of open tables, so that no table and no
  insertion uses an engine that was freed; and the interface of a row cursor, which both forms
  of the table provide.
\<close>

section \<open>Slots of the engine table\<close>

lemma find_slot_Some:
  "find Q [0..<n] = Some i \<longleftrightarrow> i < n \<and> Q i \<and> (\<forall>j < i. \<not> Q j)"
  by (auto simp: find_Some_iff)

lemma find_slot_None: "find Q [0..<n] = None \<longleftrightarrow> (\<forall>i < n. \<not> Q i)"
  by (auto simp: find_None_iff)

abbreviation tracked :: "Globals \<Rightarrow> handle \<Rightarrow> bool" where
  "tracked g h \<equiv> \<exists>i < MAX_ACTIVE_ENGINES. \<exists>n. gl_active g ! i = Some (h, n)"

lemma slot_of_None: "slot_of g h = None \<longleftrightarrow> \<not> tracked g h"
  by (auto simp: slot_of_def find_slot_None)

lemma slot_of_Some:
  assumes "slot_of g h = Some i"
  shows "i < MAX_ACTIVE_ENGINES \<and> (\<exists>n. gl_active g ! i = Some (h, n))"
  using assms by (auto simp: slot_of_def find_slot_Some)

lemma any_active_Some: "any_active g = Some h \<Longrightarrow> tracked g h"
  by (auto simp: any_active_def find_slot_Some split: option.splits)

section \<open>The calls\<close>

text \<open>The state: the globals and the engines of the open tables. A fresh allocation does not
  return an engine that is still on the heap.\<close>

type_synonym vtab_state = "Globals \<times> handle list"

inductive vtab_step :: "vtab_state \<Rightarrow> vtab_state \<Rightarrow> bool" where
  connect: "ftsConnect ev argv g = Some (rc, engine, g') \<Longrightarrow>
    (\<forall>h. ev_malloc_engine ev = Some h \<longrightarrow> gl_heap g h = None) \<Longrightarrow>
    vtab_step (g, ts) (g', case engine of None \<Rightarrow> ts | Some h \<Rightarrow> h # ts)"
| disconnect: "h \<in> set ts \<Longrightarrow> vtab_step (g, ts) (ftsDisconnect (Some h) g, remove1 h ts)"
| search: "h \<in> set ts \<Longrightarrow> ftsFilter qsort order malloc_ok loop_ok h search_term cur g = Some (cur', g') \<Longrightarrow>
    vtab_step (g, ts) (g', ts)"
| insert: "python_insert_document malloc_ok node_id tf dl embedding body g = Some (rc, g') \<Longrightarrow>
    vtab_step (g, ts) (g', ts)"

inductive vtab_reachable :: "Disk \<Rightarrow> vtab_state \<Rightarrow> bool" for disk where
  start: "vtab_reachable disk (globals_init disk, [])"
| step: "vtab_reachable disk s \<Longrightarrow> vtab_step s s' \<Longrightarrow> vtab_reachable disk s'"

inductive_cases vtab_stepE: "vtab_step s s'"

section \<open>The invariant\<close>

definition slots_ok :: "(handle \<times> int) option list \<Rightarrow> handle list \<Rightarrow> bool" where
  "slots_ok active ts \<longleftrightarrow>
     (\<forall>i < length active. \<forall>h n. active ! i = Some (h, n) \<longrightarrow> h \<in> set ts \<and> n = int (count_list ts h)) \<and>
     (\<forall>i < length active. \<forall>j < length active. \<forall>h n n'.
        active ! i = Some (h, n) \<longrightarrow> active ! j = Some (h, n') \<longrightarrow> i = j) \<and>
     (\<forall>h \<in> set ts. h \<in> fst ` \<Union> (set_option ` set active) \<or> count_list ts h = 1)"

definition vtab_inv :: "vtab_state \<Rightarrow> bool" where
  "vtab_inv s \<longleftrightarrow> length (gl_active (fst s)) = MAX_ACTIVE_ENGINES \<and> slots_ok (gl_active (fst s)) (snd s) \<and> dom (gl_heap (fst s)) = set (snd s) \<and>
     (\<forall>h. gl_engine (fst s) = Some h \<longrightarrow> h \<in> set (snd s))"

text \<open>The slots as a set of pairs, for the last clause.\<close>

abbreviation owners :: "(handle \<times> int) option list \<Rightarrow> handle set" where
  "owners active \<equiv> fst ` \<Union> (set_option ` set active)"

lemma ownersI: "i < length active \<Longrightarrow> active ! i = Some (h, n) \<Longrightarrow> h \<in> owners active"
  by (force simp: in_set_conv_nth)

lemma ownersE:
  assumes "h \<in> owners active"
  obtains i n where "i < length active" "active ! i = Some (h, n)"
  using assms by (auto simp: in_set_conv_nth)

lemma slots_ok_init: "slots_ok (replicate m None) []"
  by (simp add: slots_ok_def)

lemma slots_ok_put:
  assumes ok: "slots_ok active ts" and i: "i < length active"
    and other: "\<And>j n'. j < length active \<Longrightarrow> active ! j = Some (h, n') \<Longrightarrow> j = i"
    and old: "\<And>h' n'. active ! i = Some (h', n') \<Longrightarrow> h' = h"
    and ts': "set ts' \<subseteq> insert h (set ts)" "h \<in> set ts'" "\<And>h'. h' \<noteq> h \<Longrightarrow> count_list ts' h' = count_list ts h'"
  shows "slots_ok (active[i := Some (h, int (count_list ts' h))]) ts'"
proof -
  have mem: "h' \<in> set ts' \<longleftrightarrow> h' \<in> set ts" if "h' \<noteq> h" for h'
    using ts'(3) [OF that] count_list_0_iff by metis
  have "h' \<in> owners (active[i := Some (h, int (count_list ts' h))]) \<or> count_list ts' h' = 1" if h': "h' \<in> set ts'" for h'
  proof (cases "h' = h")
    case True
    then show ?thesis using i by (auto intro!: disjI1 ownersI [of i])
  next
    case False
    then have "h' \<in> owners active \<or> count_list ts h' = 1" using ok h' mem by (auto simp: slots_ok_def)
    then show ?thesis
    proof
      assume "h' \<in> owners active"
      then obtain j n where "j < length active" "active ! j = Some (h', n)" by (rule ownersE)
      moreover from this False old have "j \<noteq> i" by auto
      ultimately show ?thesis by (intro disjI1 ownersI [of j]) auto
    qed (simp add: ts'(3) False)
  qed
  moreover have "h' \<in> set ts' \<and> n = int (count_list ts' h')"
    if "j < length active" "active[i := Some (h, int (count_list ts' h))] ! j = Some (h', n)" for j h' n
  proof (cases "j = i")
    case True
    then show ?thesis using that i ts'(2) by auto
  next
    case False
    then have "active ! j = Some (h', n)" using that by simp
    then have "h' \<noteq> h" "h' \<in> set ts" "n = int (count_list ts h')"
      using other [of j] False that(1) ok by (auto simp: slots_ok_def)
    then show ?thesis using mem ts'(3) by simp
  qed
  moreover have "j = k"
    if "j < length active" "k < length active" "active[i := Some (h, int (count_list ts' h))] ! j = Some (h', n)"
      "active[i := Some (h, int (count_list ts' h))] ! k = Some (h', n')" for j k h' n n'
  proof (cases "h' = h")
    case True
    have "l = i" if "l < length active" "active[i := Some (h, int (count_list ts' h))] ! l = Some (h, m')" for l m'
      by (rule ccontr) (use that other in \<open>simp\<close>)
    then have "j = i" "k = i" using that True by blast+
    then show ?thesis by simp
  next
    case False
    then have "active ! j = Some (h', n)" "active ! k = Some (h', n')"
      using that i by (auto simp: nth_list_update split: if_splits)
    then show ?thesis using ok that by (auto simp: slots_ok_def)
  qed
  ultimately show ?thesis unfolding slots_ok_def length_list_update by blast
qed

text \<open>Tables of an engine that has no slot come and go without touching the slots.\<close>

lemma slots_ok_other:
  assumes ok: "slots_ok active ts" and h: "h \<notin> owners active"
    and ts': "\<And>h'. h' \<noteq> h \<Longrightarrow> count_list ts' h' = count_list ts h'" "h \<in> set ts' \<Longrightarrow> count_list ts' h = 1"
  shows "slots_ok active ts'"
proof -
  have mem: "h' \<in> set ts' \<longleftrightarrow> h' \<in> set ts" if "h' \<noteq> h" for h'
    using ts'(1) [OF that] count_list_0_iff by metis
  have "h' \<noteq> h" if "j < length active" "active ! j = Some (h', m)" for j h' m
    using that ownersI h by blast
  then have "\<forall>i < length active. \<forall>h' n. active ! i = Some (h', n) \<longrightarrow> h' \<in> set ts' \<and> n = int (count_list ts' h')"
    using ok mem ts'(1) unfolding slots_ok_def by metis
  moreover have "\<forall>h' \<in> set ts'. h' \<in> owners active \<or> count_list ts' h' = 1"
    using ok mem ts' unfolding slots_ok_def by metis
  ultimately show ?thesis using ok unfolding slots_ok_def by blast
qed

lemma slots_ok_clear:
  assumes ok: "slots_ok active ts" and i: "i < length active" "active ! i = Some (h, n)"
    and ts': "h \<notin> set ts'" "\<And>h'. h' \<noteq> h \<Longrightarrow> count_list ts' h' = count_list ts h'"
  shows "slots_ok (active[i := None]) ts'"
proof -
  have mem: "h' \<in> set ts' \<longleftrightarrow> h' \<in> set ts" if "h' \<noteq> h" for h'
    using ts'(2) [OF that] count_list_0_iff by metis
  have "h' \<in> owners (active[i := None]) \<or> count_list ts' h' = 1" if h': "h' \<in> set ts'" for h'
  proof -
    have "h' \<noteq> h" using h' ts'(1) by auto
    then have "h' \<in> owners active \<or> count_list ts h' = 1" using ok h' mem by (auto simp: slots_ok_def)
    then show ?thesis
    proof
      assume "h' \<in> owners active"
      then obtain j m where "j < length active" "active ! j = Some (h', m)" by (rule ownersE)
      moreover from this \<open>h' \<noteq> h\<close> i have "j \<noteq> i" by auto
      ultimately show ?thesis by (intro disjI1 ownersI [of j]) auto
    qed (simp add: ts'(2) \<open>h' \<noteq> h\<close>)
  qed
  moreover have "h' \<in> set ts' \<and> m = int (count_list ts' h')"
    if "j < length active" "active[i := None] ! j = Some (h', m)" for j h' m
  proof -
    have j: "active ! j = Some (h', m)" "j \<noteq> i" using that i by (auto simp: nth_list_update split: if_splits)
    then have "h' \<noteq> h" using ok i that(1) unfolding slots_ok_def by blast
    then show ?thesis using ok that(1) j mem ts'(2) by (auto simp: slots_ok_def)
  qed
  moreover have "j = k"
    if "j < length active" "k < length active" "active[i := None] ! j = Some (h', n)" "active[i := None] ! k = Some (h', n')"
    for j k h' n n'
    using that ok i unfolding slots_ok_def by (auto simp: nth_list_update split: if_splits)
  ultimately show ?thesis unfolding slots_ok_def length_list_update by blast
qed

section \<open>The calls keep the invariant\<close>

lemma tracked_owners:
  "length (gl_active g) = MAX_ACTIVE_ENGINES \<Longrightarrow> tracked g h \<longleftrightarrow> h \<in> owners (gl_active g)"
  by (metis ownersE ownersI)

lemma finish_connect_fields [simp]:
  "gl_active (finish_connect ev g) = gl_active g" "gl_heap (finish_connect ev g) = gl_heap g"
  "gl_engine (finish_connect ev g) = gl_engine g"
  by (simp_all add: finish_connect_def Let_def)

lemma close_engine_fields [simp]:
  "gl_active (close_engine h g) = gl_active g" "gl_engine (close_engine h g) = gl_engine g"
  "gl_heap (close_engine h g) = (gl_heap g)(h := None)"
  by (auto simp: close_engine_def fun_upd_idem split: option.split prod.split)

lemma ftsConnect_cases:
  assumes "ftsConnect ev argv g = Some (rc, engine, g')"
  obtains (failed) "engine = None" "g' = g"
    | (shared) i h n where "find_engine g (table_path argv) = Some i" "gl_active g ! i = Some (h, n)" "engine = Some h"
      "g' = finish_connect ev (g\<lparr>gl_active := (gl_active g)[i := Some (h, n + 1)], gl_engine := Some h\<rparr>)"
    | (opened) h en where "ev_malloc_engine ev = Some h" "engine = Some h"
      "g' = finish_connect ev (case free_slot (g\<lparr>gl_heap := (gl_heap g)(h \<mapsto> en), gl_engine := Some h\<rparr>) of
          None \<Rightarrow> g\<lparr>gl_heap := (gl_heap g)(h \<mapsto> en), gl_engine := Some h\<rparr>
        | Some i \<Rightarrow> g\<lparr>gl_heap := (gl_heap g)(h \<mapsto> en), gl_engine := Some h, gl_active := (gl_active g)[i := Some (h, 1)]\<rparr>)"
proof (cases "ev_declare ev = SQLITE_OK \<and> ev_malloc_vtab ev")
  case False
  then show ?thesis using assms failed by (auto simp: ftsConnect_def split: if_splits)
next
  case True
  show ?thesis
  proof (cases "find_engine g (table_path argv)")
    case (Some i)
    with True assms obtain h n where "gl_active g ! i = Some (h, n)" "engine = Some h"
      "g' = finish_connect ev (g\<lparr>gl_active := (gl_active g)[i := Some (h, n + 1)], gl_engine := Some h\<rparr>)"
      by (cases "gl_active g ! i") (auto simp: ftsConnect_def Let_def)
    then show ?thesis by (rule shared [OF Some])
  next
    case None
    show ?thesis
    proof (cases "ev_malloc_engine ev")
      case None
      then show ?thesis using True \<open>find_engine g _ = None\<close> assms failed by (simp add: ftsConnect_def Let_def)
    next
      case (Some h)
      then obtain rc' en where "engine_init (table_path argv) 4 (table_ram_mb argv) (gl_disk g) = Some (rc', en)"
        using True \<open>find_engine g _ = None\<close> assms by (auto simp: ftsConnect_def Let_def split: option.splits)
      then have "engine = Some h \<and> g' = finish_connect ev (case free_slot (g\<lparr>gl_heap := (gl_heap g)(h \<mapsto> en), gl_engine := Some h\<rparr>) of
          None \<Rightarrow> g\<lparr>gl_heap := (gl_heap g)(h \<mapsto> en), gl_engine := Some h\<rparr>
        | Some i \<Rightarrow> g\<lparr>gl_heap := (gl_heap g)(h \<mapsto> en), gl_engine := Some h, gl_active := (gl_active g)[i := Some (h, 1)]\<rparr>)"
        using True \<open>find_engine g _ = None\<close> assms Some
        by (clarsimp simp: ftsConnect_def Let_def split: option.splits)
      then show ?thesis using opened [OF Some] by blast
    qed
  qed
qed

lemma vtab_inv_connect:
  assumes inv: "vtab_inv (g, ts)" and run: "ftsConnect ev argv g = Some (rc, engine, g')"
    and fresh: "\<forall>h. ev_malloc_engine ev = Some h \<longrightarrow> gl_heap g h = None"
  shows "vtab_inv (g', case engine of None \<Rightarrow> ts | Some h \<Rightarrow> h # ts)"
proof -
  have len: "length (gl_active g) = MAX_ACTIVE_ENGINES" and ok: "slots_ok (gl_active g) ts"
    and dom: "dom (gl_heap g) = set ts" and eng: "\<And>h. gl_engine g = Some h \<Longrightarrow> h \<in> set ts"
    using inv by (simp_all add: vtab_inv_def)
  consider "engine = None" "g' = g"
    | i h n where "find_engine g (table_path argv) = Some i" "gl_active g ! i = Some (h, n)" "engine = Some h"
      "g' = finish_connect ev (g\<lparr>gl_active := (gl_active g)[i := Some (h, n + 1)], gl_engine := Some h\<rparr>)"
    | h en where "ev_malloc_engine ev = Some h" "engine = Some h"
      "g' = finish_connect ev (case free_slot (g\<lparr>gl_heap := (gl_heap g)(h \<mapsto> en), gl_engine := Some h\<rparr>) of
          None \<Rightarrow> g\<lparr>gl_heap := (gl_heap g)(h \<mapsto> en), gl_engine := Some h\<rparr>
        | Some i \<Rightarrow> g\<lparr>gl_heap := (gl_heap g)(h \<mapsto> en), gl_engine := Some h, gl_active := (gl_active g)[i := Some (h, 1)]\<rparr>)"
    using run by (rule ftsConnect_cases)
  then show ?thesis
  proof cases
    case 1
    then show ?thesis using inv by simp
  next
    case (2 i h n)
    have i: "i < length (gl_active g)"
      using 2(1) len by (simp add: find_engine_def find_slot_Some)
    have h: "h \<in> set ts" "n = int (count_list ts h)" using ok i 2(2) by (auto simp: slots_ok_def)
    have "slots_ok ((gl_active g)[i := Some (h, int (count_list (h # ts) h))]) (h # ts)"
      using ok i 2(2) by (intro slots_ok_put) (auto simp: slots_ok_def)
    then show ?thesis using 2(3, 4) h len dom by (auto simp: vtab_inv_def add.commute)
  next
    case (3 h en)
    have h: "h \<notin> set ts" using fresh 3(1) dom by auto
    have free: "h \<notin> owners (gl_active g)"
    proof
      assume "h \<in> owners (gl_active g)"
      then obtain i n where "i < length (gl_active g)" "gl_active g ! i = Some (h, n)" by (rule ownersE)
      then show False using ok h unfolding slots_ok_def by blast
    qed
    show ?thesis
    proof (cases "free_slot (g\<lparr>gl_heap := (gl_heap g)(h \<mapsto> en), gl_engine := Some h\<rparr>)")
      case None
      have "slots_ok (gl_active g) (h # ts)"
        by (rule slots_ok_other [OF ok free]) (simp_all add: count_notin [OF h])
      then show ?thesis using 3(2, 3) None len dom by (simp add: vtab_inv_def)
    next
      case (Some i)
      then have i: "i < length (gl_active g)" "gl_active g ! i = None"
        using len by (simp_all add: free_slot_def find_slot_Some)
      have "slots_ok ((gl_active g)[i := Some (h, int (count_list (h # ts) h))]) (h # ts)"
        using ok i free by (intro slots_ok_put) (auto dest: ownersI)
      then show ?thesis using 3(2, 3) Some len dom count_notin [OF h] by (simp add: vtab_inv_def)
    qed
  qed
qed

lemma count_remove1: "count_list (remove1 x xs) y = (if x = y then count_list xs y - 1 else count_list xs y)"
  by (induction xs) auto

lemma set_remove1_gone: "x \<notin> set (remove1 x xs) \<Longrightarrow> x \<in> set xs \<Longrightarrow> set (remove1 x xs) = set xs - {x}"
  using set_remove1_subset [of x xs] by (auto intro: in_set_remove1 [THEN iffD2])

lemma ftsDisconnect_fields:
  assumes "length (gl_active g) = MAX_ACTIVE_ENGINES"
  shows "case slot_of g h of
      None \<Rightarrow> gl_active (ftsDisconnect (Some h) g) = gl_active g \<and>
        gl_heap (ftsDisconnect (Some h) g) = (gl_heap g)(h := None) \<and>
        (gl_engine (ftsDisconnect (Some h) g) = None \<or>
         gl_engine (ftsDisconnect (Some h) g) = gl_engine g \<and> gl_engine g \<noteq> Some h)
    | Some i \<Rightarrow> let n = snd (the (gl_active g ! i)) - 1 in
        if 0 < n then gl_active (ftsDisconnect (Some h) g) = (gl_active g)[i := Some (h, n)] \<and>
          gl_heap (ftsDisconnect (Some h) g) = gl_heap g \<and> gl_engine (ftsDisconnect (Some h) g) = gl_engine g
        else gl_active (ftsDisconnect (Some h) g) = (gl_active g)[i := None] \<and>
          gl_heap (ftsDisconnect (Some h) g) = (gl_heap g)(h := None) \<and>
          (case gl_engine (ftsDisconnect (Some h) g) of None \<Rightarrow> True
           | Some h' \<Rightarrow> h' \<in> owners ((gl_active g)[i := None]) \<or> gl_engine g = Some h' \<and> h' \<noteq> h)"
proof (cases "slot_of g h")
  case None
  then show ?thesis by (simp add: ftsDisconnect_def Let_def)
next
  case (Some i)
  define g1 where "g1 = (close_engine h g)\<lparr>gl_active := (gl_active g)[i := None]\<rparr>"
  have g1: "length (gl_active g1) = MAX_ACTIVE_ENGINES" "gl_active g1 = (gl_active g)[i := None]"
    "gl_heap g1 = (gl_heap g)(h := None)" "gl_engine g1 = gl_engine g"
    using assms by (simp_all add: g1_def)
  have "any_active g1 = Some h' \<Longrightarrow> h' \<in> owners ((gl_active g)[i := None])" for h'
    using any_active_Some [of g1 h'] tracked_owners [OF g1(1)] g1(2) by simp
  then show ?thesis using Some g1
    by (simp add: ftsDisconnect_def Let_def g1_def [symmetric] split: option.split)
qed

lemma vtab_inv_disconnect:
  assumes inv: "vtab_inv (g, ts)" and h: "h \<in> set ts"
  shows "vtab_inv (ftsDisconnect (Some h) g, remove1 h ts)"
proof -
  have len: "length (gl_active g) = MAX_ACTIVE_ENGINES" and ok: "slots_ok (gl_active g) ts"
    and dom: "dom (gl_heap g) = set ts" and eng: "\<And>h. gl_engine g = Some h \<Longrightarrow> h \<in> set ts"
    using inv by (simp_all add: vtab_inv_def)
  note fields = ftsDisconnect_fields [OF len, of h]
  have other: "h' \<in> set (remove1 h ts) \<longleftrightarrow> h' \<in> set ts" if "h' \<noteq> h" for h'
    using that by simp
  show ?thesis
  proof (cases "slot_of g h")
    case None
    then have free: "h \<notin> owners (gl_active g)" using slot_of_None tracked_owners len by simp
    then have "count_list ts h = 1" using ok h unfolding slots_ok_def by blast
    then have gone: "h \<notin> set (remove1 h ts)" using count_remove1 [of h ts h] by (simp flip: count_list_0_iff)
    then have "slots_ok (gl_active g) (remove1 h ts)"
      by (intro slots_ok_other [OF ok free]) (simp_all add: count_remove1)
    moreover have "dom ((gl_heap g)(h := None)) = set (remove1 h ts)"
      using dom set_remove1_gone [OF gone h] by simp
    ultimately show ?thesis using fields None len eng other by (auto simp: vtab_inv_def)
  next
    case (Some i)
    then obtain n where i: "i < length (gl_active g)" "gl_active g ! i = Some (h, n)"
      using slot_of_Some len by metis
    then have n: "n = int (count_list ts h)" using ok by (auto simp: slots_ok_def)
    show ?thesis
    proof (cases "0 < n - 1")
      case True
      then have still: "h \<in> set (remove1 h ts)" using n count_remove1 [of h ts h] count_list_0_iff [of "remove1 h ts" h] by simp
      have "slots_ok ((gl_active g)[i := Some (h, int (count_list (remove1 h ts) h))]) (remove1 h ts)"
        using ok i still by (intro slots_ok_put) (auto simp: slots_ok_def count_remove1 dest: notin_set_remove1)
      moreover have "int (count_list (remove1 h ts) h) = n - 1" using n True by (simp add: count_remove1)
      moreover have "set (remove1 h ts) = set ts" using still other h by (metis subsetI subset_antisym)
      ultimately show ?thesis using fields Some True i len dom eng by (simp add: vtab_inv_def Let_def)
    next
      case False
      then have "count_list ts h = 1" using n h count_list_0_iff [of ts h] by (cases "count_list ts h") auto
      then have gone: "h \<notin> set (remove1 h ts)" using count_remove1 [of h ts h] by (simp flip: count_list_0_iff)
      have ok': "slots_ok ((gl_active g)[i := None]) (remove1 h ts)"
        using ok i gone by (intro slots_ok_clear) (auto simp: count_remove1)
      moreover have "dom ((gl_heap g)(h := None)) = set (remove1 h ts)"
        using dom set_remove1_gone [OF gone h] by simp
      moreover have "h' \<in> set (remove1 h ts)" if "gl_engine (ftsDisconnect (Some h) g) = Some h'" for h'
      proof -
        have "h' \<in> owners ((gl_active g)[i := None]) \<or> gl_engine g = Some h' \<and> h' \<noteq> h"
          using fields Some False i that by simp
        then show ?thesis using ok' eng other by (elim disjE ownersE) (auto simp: slots_ok_def)
      qed
      ultimately show ?thesis using fields Some False i len
        by (simp add: vtab_inv_def Let_def)
    qed
  qed
qed

lemma ftsFilter_fields:
  assumes "ftsFilter qsort order malloc_ok loop_ok h search_term cur g = Some (cur', g')"
  shows "gl_active g' = gl_active g" "gl_engine g' = gl_engine g" "dom (gl_heap g') = dom (gl_heap g)"
  using assms by (auto simp: ftsFilter_def Let_def split: option.splits prod.splits if_splits)

lemma python_insert_fields:
  assumes "python_insert_document malloc_ok node_id tf dl embedding body g = Some (rc, g')"
  shows "gl_active g' = gl_active g" "gl_engine g' = gl_engine g" "dom (gl_heap g') = dom (gl_heap g)"
  using assms by (auto simp: python_insert_document_def Let_def bind_eq_Some_conv split: option.splits prod.splits if_splits)

lemma vtab_inv_step:
  assumes "vtab_step s s'" "vtab_inv s"
  shows "vtab_inv s'"
  using assms(1)
proof (cases rule: vtab_step.cases)
  case (connect ev argv g rc engine g' ts)
  then show ?thesis using assms(2) vtab_inv_connect by simp
next
  case (disconnect h ts g)
  then show ?thesis using assms(2) vtab_inv_disconnect by simp
next
  case (search h ts qsort order malloc_ok loop_ok search_term cur g cur' g')
  then show ?thesis using assms(2) ftsFilter_fields [OF search(4)] by (simp add: vtab_inv_def)
next
  case (insert malloc_ok node_id tf dl embedding body g rc g' ts)
  then show ?thesis using assms(2) python_insert_fields [OF insert(3)] by (simp add: vtab_inv_def)
qed

lemma vtab_inv_reachable: "vtab_reachable disk s \<Longrightarrow> vtab_inv s"
proof (induction rule: vtab_reachable.induct)
  case start
  show ?case using slots_ok_init [of MAX_ACTIVE_ENGINES]
    by (simp add: vtab_inv_def globals_init_def)
qed (rule vtab_inv_step)

section \<open>Properties of the engine table\<close>

text \<open>The witnesses' runs: on a disk whose data files cannot be opened, two tables are connected
  to one path; the failing \<open>engine_init\<close> is ignored.\<close>

definition bad_disk :: Disk where
  "bad_disk = \<lparr>dk_data = (\<lambda>_. \<lparr>df_bytes = (\<lambda>_. 0), df_size = 0, df_plan = []\<rparr>), dk_data_fd = (\<lambda>_. - 1),
     dk_wal = (\<lambda>_. []), dk_wal_fd = (\<lambda>_. 4), dk_wal_plan = (\<lambda>_. []), dk_meta = (\<lambda>_. None),
     dk_meta_fd = (\<lambda>_. - 1), dk_meta_plan = (\<lambda>_. []), dk_calloc = True\<rparr>"

definition sample_env :: Env where
  "sample_env = \<lparr>ev_declare = 0, ev_malloc_vtab = True, ev_malloc_engine = Some 7, ev_loop_ok = True\<rparr>"

definition sample_env2 :: Env where
  "sample_env2 = sample_env\<lparr>ev_malloc_engine := None\<rparr>"

abbreviation sample_argv :: "string list" where
  "sample_argv \<equiv> [''fts'', ''main'', ''docs'', ''db'']"

lemma sample_path: "table_path sample_argv = ''db''"
  by (simp add: table_path_def strip_quotes_def numeral_eq_Suc)

lemma zero_shard_update: "zero_shard\<lparr>us_shard_id := 0\<rparr> = zero_shard"
  by (simp add: zero_shard_def)

lemma engine_init_bad_disk:
  "\<exists>en. engine_init path 4 m bad_disk = Some (- 1, en) \<and> en_base_path en = take 255 path"
proof -
  have "shard_init 0 path n bad_disk = Failed" for n
    by (simp add: shard_init_def bad_disk_def wal_init_def Let_def)
  then have "open_shards (Suc 3) 0 path n bad_disk = Some (False, zero_shard # replicate 3 zero_shard)" for n
    by (simp only: open_shards.simps) (simp add: zero_shard_update)
  moreover have "unat (4 :: u32) = Suc 3" by simp
  ultimately show ?thesis by (simp only: engine_init_def) simp
qed

text \<open>C18: Over every sequence of connects, disconnects, searches and insertions, no table is left
  with a freed engine and none is leaked: the engines on the heap are exactly those of the open
  tables, a slot's reference count is the number of open tables of its engine, an engine without
  a slot (more than 64 are open) has one table, and the engine the bindings insert into is
  absent or open. This holds although ftsConnect ignores the result of engine_init.\<close>

theorem open_tables_keep_engines_alive:
  assumes "vtab_reachable disk (g, ts)"
  shows "dom (gl_heap g) = set ts \<and> (\<forall>h. gl_engine g = Some h \<longrightarrow> gl_heap g h \<noteq> None) \<and>
    (\<forall>i < MAX_ACTIVE_ENGINES. \<forall>h n. gl_active g ! i = Some (h, n) \<longrightarrow> n = int (count_list ts h) \<and> 0 < n) \<and>
    (\<forall>h \<in> set ts. tracked g h \<or> count_list ts h = 1)"
proof -
  have inv: "length (gl_active g) = MAX_ACTIVE_ENGINES" "slots_ok (gl_active g) ts" "dom (gl_heap g) = set ts"
    "\<forall>h. gl_engine g = Some h \<longrightarrow> h \<in> set ts"
    using vtab_inv_reachable [OF assms] by (simp_all add: vtab_inv_def)
  have "n = int (count_list ts h) \<and> 0 < n" if "i < MAX_ACTIVE_ENGINES" "gl_active g ! i = Some (h, n)" for i h n
  proof -
    have "h \<in> set ts" "n = int (count_list ts h)" using inv(1, 2) that by (auto simp: slots_ok_def)
    then show ?thesis using count_list_0_iff [of ts h] by simp
  qed
  moreover have "\<forall>h \<in> set ts. tracked g h \<or> count_list ts h = 1"
    unfolding tracked_owners [OF inv(1)] using inv(2) by (simp add: slots_ok_def)
  ultimately show ?thesis using inv(3, 4) by blast
qed

text \<open>Two tables on one path, of which one is closed again.\<close>

lemma open_tables_keep_engines_alive_witness:
  "\<exists>g. vtab_reachable bad_disk (g, [7]) \<and> gl_active g ! 0 = Some (7, 1) \<and> gl_heap g 7 \<noteq> None"
proof -
  obtain en where en: "engine_init ''db'' 4 1024 bad_disk = Some (- 1, en)" "en_base_path en = ''db''"
    using engine_init_bad_disk [of "''db''" 1024] by auto
  let ?g0 = "globals_init bad_disk"
  have ram: "table_ram_mb sample_argv = 1024" by (simp add: table_ram_mb_def)
  have "find_engine ?g0 ''db'' = None" "free_slot (?g0\<lparr>gl_heap := [7 \<mapsto> en], gl_engine := Some 7\<rparr>) = Some 0"
    by (auto simp: find_engine_def free_slot_def find_slot_None find_slot_Some globals_init_def)
  then obtain g1 where g1: "ftsConnect sample_env sample_argv ?g0 = Some (0, Some 7, g1)"
    and f1: "gl_active g1 = (replicate 64 None)[0 := Some (7, 1)]" "gl_heap g1 = [7 \<mapsto> en]"
    using en(1) sample_path ram by (simp add: ftsConnect_def sample_env_def globals_init_def Let_def)
  have "find_engine g1 ''db'' = Some 0"
    using f1 en(2) by (simp add: find_engine_def find_slot_Some)
  then obtain g2 where g2: "ftsConnect sample_env2 sample_argv g1 = Some (0, Some 7, g2)"
    and f2: "gl_active g2 = (replicate 64 None)[0 := Some (7, 2)]" "gl_heap g2 = [7 \<mapsto> en]"
    using f1 sample_path by (simp add: ftsConnect_def sample_env_def sample_env2_def Let_def)
  define g3 where "g3 = ftsDisconnect (Some 7) g2"
  have "slot_of g2 7 = Some 0" using f2(1) by (simp add: slot_of_def find_slot_Some)
  then have f3: "gl_active g3 ! 0 = Some (7, 1)"
    using ftsDisconnect_fields [of g2 7] f2(1) by (simp add: g3_def)
  have r1: "vtab_reachable bad_disk (g1, [7])"
    using vtab_reachable.step [OF vtab_reachable.start vtab_step.connect [OF g1, of "[]"]]
    by (simp add: globals_init_def sample_env_def)
  have r2: "vtab_reachable bad_disk (g2, [7, 7])"
    using vtab_reachable.step [OF r1 vtab_step.connect [OF g2]] by (simp add: sample_env2_def)
  have r3: "vtab_reachable bad_disk (g3, [7])"
    using vtab_reachable.step [OF r2 vtab_step.disconnect [of 7]] by (simp add: g3_def)
  have "gl_heap g3 7 \<noteq> None" using open_tables_keep_engines_alive [OF r3] by auto
  then show ?thesis using r3 f3 by blast
qed

section \<open>Cursors\<close>

text \<open>What SQLite does with a cursor of either form: step until the end.\<close>

locale row_cursor =
  fixes next_row :: "'c \<Rightarrow> 'c" and at_end :: "'c \<Rightarrow> bool" and rowid :: "'c \<Rightarrow> int" and rows :: "'c \<Rightarrow> int"
  assumes at_end_iff: "at_end c \<longleftrightarrow> rows c \<le> rowid c"
    and rowid_next: "rowid (next_row c) = rowid c + 1"
    and rows_next: "rows (next_row c) = rows c"
begin

lemma rowid_steps: "rowid ((next_row ^^ k) c) = rowid c + int k"
  by (induction k) (simp_all add: rowid_next)

lemma rows_steps: "rows ((next_row ^^ k) c) = rows c"
  by (induction k) (simp_all add: rows_next)

lemma scan: "rowid c = 0 \<Longrightarrow> at_end ((next_row ^^ k) c) \<longleftrightarrow> rows c \<le> int k"
  by (simp add: at_end_iff rowid_steps rows_steps)

end

interpretation fts_cursor: row_cursor ftsNext ftsEof ftsRowid "\<lambda>c. int (length (cu_results c))"
  by unfold_locales (simp_all add: ftsNext_def ftsEof_def ftsRowid_def)

interpretation skel_cursor: row_cursor skel_ftsNext skel_ftsEof skel_ftsRowid sk_total_results
  by unfold_locales (auto simp: skel_ftsNext_def skel_ftsEof_def skel_ftsRowid_def)

text \<open>A search through ftsFilter leaves the cursor on its first row; stepping with ftsNext then
  visits every result once and in order, ftsEof is false on exactly those steps, ftsColumn shows the
  node id and the three scores of the row's result, and there are never more results than the
  1024 entries of the cursor's array.\<close>

theorem filtered_cursor_yields_results:
  assumes "ftsFilter qsort order malloc_ok loop_ok h search_term cur g = Some (c, g')"
  shows "length (cu_results c) \<le> 1024 \<and>
    (\<forall>k. ftsEof ((ftsNext ^^ k) c) \<longleftrightarrow> length (cu_results c) \<le> k) \<and>
    (\<forall>k < length (cu_results c). ftsRowid ((ftsNext ^^ k) c) = int k \<and>
       map (ftsColumn ((ftsNext ^^ k) c)) [0, 1, 2, 3] =
         [ColText (node_id_hex (sr_node_id (cu_results c ! k))), ColReal (sr_bm25f_score (cu_results c ! k)),
          ColReal (sr_cosine_score (cu_results c ! k)), ColReal (sr_rrf_score (cu_results c ! k))])"
proof -
  have row: "ftsRowid c = 0" and few: "length (cu_results c) \<le> 1024"
    using assms by (auto simp: ftsFilter_def ftsRowid_def engine_search_async_def fuse_results_def Let_def
        split: option.splits prod.splits if_splits)
  have results: "cu_results ((ftsNext ^^ k) c) = cu_results c" for k
    by (induction k) (simp_all add: ftsNext_def)
  have "ftsRowid ((ftsNext ^^ k) c) = int k" for k
    using fts_cursor.rowid_steps [of k c] row by simp
  then have "cu_current_row ((ftsNext ^^ k) c) = int k" for k by (simp add: ftsRowid_def)
  then show ?thesis using few row fts_cursor.scan [of c] fts_cursor.rowid_steps [of _ c]
    by (simp add: results ftsColumn_def)
qed

lemma filtered_cursor_yields_results_witness:
  "let en = \<lparr>en_shards = [], en_base_path = ''db'', en_global_total_docs = 0, en_global_avgdl = [],
              en_field_weights = [], en_k1 = Fin 0, en_b = Fin 0\<rparr>;
       g = (globals_init bad_disk)\<lparr>gl_heap := [7 \<mapsto> en]\<rparr>
   in \<exists>c g'. ftsFilter (\<lambda>_ xs. xs) [] True True 7 (Some ''graph'') \<lparr>cu_results = [], cu_current_row = 3\<rparr> g = Some (c, g') \<and>
     ftsEof ((ftsNext ^^ 0) c)"
proof -
  let ?en = "\<lparr>en_shards = [], en_base_path = ''db'', en_global_total_docs = 0, en_global_avgdl = [],
              en_field_weights = [], en_k1 = Fin 0, en_b = Fin 0\<rparr>"
  let ?g = "(globals_init bad_disk)\<lparr>gl_heap := [7 \<mapsto> ?en]\<rparr>"
  obtain term_ids dict where "insert_tokens True (tokens_of ''graph'' 4096 64) lexicon_init = (term_ids, dict)"
    by fastforce
  then obtain c g' where run: "ftsFilter (\<lambda>_ xs. xs) [] True True 7 (Some ''graph'') \<lparr>cu_results = [], cu_current_row = 3\<rparr> ?g
      = Some (c, g')" and c: "cu_results c = []"
    by (auto simp: ftsFilter_def engine_search_async_def async_search_init_def pool_start_def fuse_results_def
        gather_results_def text_query_def exchange_sort_def globals_init_def Let_def split: prod.split)
  have "ftsEof ((ftsNext ^^ 0) c)"
    using filtered_cursor_yields_results [OF run] c by (metis le0 list.size(3))
  then show ?thesis unfolding Let_def using run by blast
qed

end
