(* ===== verification/ResultOrder.thy ===== *)
theory ResultOrder
  imports Ranking
begin

text \<open>
  The result arrays of \<open>Ranking\<close>: the exchange sort orders any array without NaN scores and
  loses nothing, the bounded collection keeps the best results of a stream, and the merge of
  vector results keeps one entry per node. The sorts differ in their key and in the rank they
  write; the locale \<open>stamped_sort\<close> states what they share.
\<close>

section \<open>The exchange sort\<close>

definition descending :: "('r \<Rightarrow> double) \<Rightarrow> 'r list \<Rightarrow> bool" where
  "descending key xs \<longleftrightarrow> (\<forall>i j. i < j \<and> j < length xs \<longrightarrow> \<not> dlt (key (xs ! i)) (key (xs ! j)))"

definition comparable :: "('r \<Rightarrow> double) \<Rightarrow> 'r list \<Rightarrow> bool" where
  "comparable key xs \<longleftrightarrow> (\<forall>x \<in> set xs. key x \<noteq> NaN)"

lemma swap_at_props:
  assumes "i < j" "j < length xs"
  shows "length (swap_at i j xs) = length xs" "mset (swap_at i j xs) = mset xs"
    "swap_at i j xs ! i = xs ! j" "k \<noteq> i \<Longrightarrow> k \<noteq> j \<Longrightarrow> swap_at i j xs ! k = xs ! k" "swap_at i j xs ! j = xs ! i"
  using assms mset_swap [of j xs i] by (simp_all add: swap_at_def)

lemma exchange_pass_law:
  assumes i: "i < length xs" and cmp: "comparable key xs"
  defines "ys \<equiv> exchange_pass key i xs"
  shows "length ys = length xs \<and> mset ys = mset xs \<and> (\<forall>k < i. ys ! k = xs ! k) \<and>
    (\<forall>k. i < k \<and> k < length xs \<longrightarrow> \<not> dlt (key (ys ! i)) (key (ys ! k)))"
proof -
  define step where "step = (\<lambda>j xs. if dlt (key (xs ! i)) (key (xs ! j)) then swap_at i j xs else xs)"
  have "length (fold step [Suc i..<m] xs) = length xs \<and> mset (fold step [Suc i..<m] xs) = mset xs \<and>
      (\<forall>k < i. fold step [Suc i..<m] xs ! k = xs ! k) \<and>
      (\<forall>k. i < k \<and> k < m \<longrightarrow> \<not> dlt (key (fold step [Suc i..<m] xs ! i)) (key (fold step [Suc i..<m] xs ! k)))"
    if "m \<le> length xs" for m
    using that
  proof (induction m)
    case 0
    then show ?case by simp
  next
    case (Suc m)
    let ?zs = "fold step [Suc i..<m] xs"
    show ?case
    proof (cases "i < m")
      case False
      then have "[Suc i..<Suc m] = []" by simp
      then show ?thesis using False by (auto simp del: upt_Suc)
    next
      case True
      have IH: "length ?zs = length xs" "mset ?zs = mset xs" "\<forall>k < i. ?zs ! k = xs ! k"
        "\<forall>k. i < k \<and> k < m \<longrightarrow> \<not> dlt (key (?zs ! i)) (key (?zs ! k))" using Suc by simp_all
      have f: "fold step [Suc i..<Suc m] xs = step m ?zs" using True by simp
      note sw = swap_at_props [OF True, of ?zs]
      show ?thesis
      proof (cases "dlt (key (?zs ! i)) (key (?zs ! m))")
        case less: True
        have "\<not> dlt (key (?zs ! m)) (key (?zs ! k))" if "i < k" "k < m" for k
          using IH(4) that less by (meson dlt_trans)
        then show ?thesis
          unfolding f using less IH sw Suc.prems True
          by (auto simp: step_def less_Suc_eq dest: dlt_asym)
      next
        case False
        then show ?thesis unfolding f using IH by (auto simp: step_def less_Suc_eq)
      qed
    qed
  qed
  from this [of "length xs"] show ?thesis
    unfolding ys_def exchange_pass_def step_def by simp
qed

lemma pass_tail:
  assumes "mset ys = mset xs" "\<forall>k < i. ys ! k = xs ! k" "length ys = length xs" "i \<le> b" "b < length xs"
  obtains c where "i \<le> c" "c < length xs" "ys ! b = xs ! c"
proof -
  have "take i ys = take i xs" using assms(2-5) by (intro nth_equalityI) simp_all
  then have "mset (drop i ys) = mset (drop i xs)"
    using assms(1) by (metis add_left_cancel append_take_drop_id mset_append)
  then have "set (drop i ys) = set (drop i xs)" by (rule mset_eq_setD)
  moreover have "ys ! b = drop i ys ! (b - i)" "b - i < length (drop i ys)" using assms by auto
  ultimately have "ys ! b \<in> set (drop i xs)" by (metis nth_mem)
  then obtain d where "d < length (drop i xs)" "drop i xs ! d = ys ! b" by (auto simp: in_set_conv_nth)
  then show thesis using that [of "i + d"] by auto
qed

text \<open>After \<open>m\<close> passes the first \<open>m\<close> positions are final and carry their rank.\<close>

definition front_sorted :: "('r \<Rightarrow> double) \<Rightarrow> (nat \<Rightarrow> 'r \<Rightarrow> 'r) \<Rightarrow> nat \<Rightarrow> 'r list \<Rightarrow> bool" where
  "front_sorted key stamp m xs \<longleftrightarrow>
     (\<forall>a b. a < m \<and> a < b \<and> b < length xs \<longrightarrow> \<not> dlt (key (xs ! a)) (key (xs ! b))) \<and>
     (\<forall>a < m. \<exists>r. xs ! a = stamp a r)"

text \<open>A sort key, the mark the loop leaves on an element, and the part of an element that the
  mark does not touch.\<close>

locale stamped_sort =
  fixes key :: "'r \<Rightarrow> double" and stamp :: "nat \<Rightarrow> 'r \<Rightarrow> 'r" and body :: "'r \<Rightarrow> 'q"
  assumes key_stamp: "key (stamp i r) = key r"
    and body_stamp: "body (stamp i r) = body r"
begin

lemma pass_extends_front:
  assumes m: "m < length ys" and cmp: "comparable key ys" and front: "front_sorted key stamp m ys"
  defines "zs \<equiv> exchange_pass key m ys"
  defines "us \<equiv> zs[m := stamp m (zs ! m)]"
  shows "length us = length ys" "mset (map body us) = mset (map body ys)" "comparable key us"
    "front_sorted key stamp (Suc m) us"
proof -
  let ?n = "length ys"
  have z: "length zs = ?n" "mset zs = mset ys" "\<forall>k < m. zs ! k = ys ! k"
    "\<And>k. m < k \<Longrightarrow> k < ?n \<Longrightarrow> \<not> dlt (key (zs ! m)) (key (zs ! k))"
    using exchange_pass_law [OF m cmp] by (auto simp: zs_def)
  have key: "key (us ! a) = key (zs ! a)" and bdy: "body (us ! a) = body (zs ! a)" if "a < ?n" for a
    using that z(1) by (cases "a = m"; simp add: us_def key_stamp body_stamp)+
  show len: "length us = ?n" by (simp add: us_def z(1))
  have "map body us = map body zs" using z(1) len bdy by (intro nth_equalityI) simp_all
  then show "mset (map body us) = mset (map body ys)" using z(2) by (metis mset_map)
  have "set zs = set ys" using z(2) by (rule mset_eq_setD)
  then have "comparable key zs" using cmp by (simp add: comparable_def)
  then have "key (us ! a) \<noteq> NaN" if "a < ?n" for a
    using that key [OF that] z(1) by (simp add: comparable_def)
  then show "comparable key us" using len by (auto simp: comparable_def in_set_conv_nth)
  have "\<not> dlt (key (us ! a)) (key (us ! b))" if ab: "a < Suc m" "a < b" "b < ?n" for a b
  proof (cases "a = m")
    case True
    then show ?thesis using ab z(4) key by simp
  next
    case False
    then have a: "a < m" using ab by simp
    have "\<exists>c. a < c \<and> c < ?n \<and> zs ! b = ys ! c"
    proof (cases "b < m")
      case False
      obtain c where "m \<le> c" "c < ?n" "zs ! b = ys ! c"
        using pass_tail [OF z(2,3), of b] False ab z(1) by auto
      then show ?thesis using a by (intro exI [of _ c]) auto
    qed (use z(3) ab in auto)
    then show ?thesis using key ab a z(3) front by (auto simp: front_sorted_def)
  qed
  moreover have "\<exists>r. us ! a = stamp a r" if "a < Suc m" for a
    using that front m z(1,3) by (cases "a = m") (auto simp: us_def front_sorted_def)
  ultimately show "front_sorted key stamp (Suc m) us" by (simp add: front_sorted_def len)
qed

lemma sort_law:
  assumes cmp: "comparable key xs"
  shows "mset (map body (exchange_sort key stamp xs)) = mset (map body xs) \<and>
    descending key (exchange_sort key stamp xs) \<and> length (exchange_sort key stamp xs) = length xs \<and>
    (\<forall>i < length xs. \<exists>r. exchange_sort key stamp xs ! i = stamp i r)"
proof -
  define step where "step = (\<lambda>i xs. let xs = exchange_pass key i xs in xs[i := stamp i (xs ! i)])"
  have "length (fold step [0..<m] xs) = length xs \<and> mset (map body (fold step [0..<m] xs)) = mset (map body xs) \<and>
      comparable key (fold step [0..<m] xs) \<and> front_sorted key stamp m (fold step [0..<m] xs)" if "m \<le> length xs" for m
    using that
  proof (induction m)
    case 0
    then show ?case using cmp by (simp add: front_sorted_def)
  next
    case (Suc m)
    then show ?case using pass_extends_front [of m "fold step [0..<m] xs"] by (simp add: step_def Let_def)
  qed
  from this [OF order_refl] have "length (fold step [0..<length xs] xs) = length xs \<and>
      mset (map body (fold step [0..<length xs] xs)) = mset (map body xs) \<and>
      front_sorted key stamp (length xs) (fold step [0..<length xs] xs)" by blast
  moreover have "exchange_sort key stamp xs = fold step [0..<length xs] xs" by (simp only: exchange_sort_def step_def)
  ultimately show ?thesis by (simp add: descending_def front_sorted_def)
qed

end

interpretation by_bm25f: stamped_sort sr_bm25f_score stamp_bm25f "\<lambda>r. r\<lparr>sr_bm25f_rank := 0\<rparr>"
  by unfold_locales (simp_all add: stamp_bm25f_def)

interpretation by_cosine: stamped_sort sr_cosine_score stamp_cosine "\<lambda>r. r\<lparr>sr_cosine_rank := 0\<rparr>"
  by unfold_locales (simp_all add: stamp_cosine_def)

interpretation unstamped: stamped_sort key no_stamp "\<lambda>r. r" for key
  by unfold_locales simp_all

section \<open>Keeping the best results\<close>

lemma min_index_law:
  "\<forall>i \<in> insert m (set is). key (rs ! i) \<noteq> NaN \<Longrightarrow>
    min_index key rs is m \<in> insert m (set is) \<and>
    (\<forall>i \<in> insert m (set is). \<not> dlt (key (rs ! i)) (key (rs ! min_index key rs is m)))"
proof (induction key rs "is" m rule: min_index.induct)
  case (1 key rs m)
  then show ?case by simp
next
  case (2 key rs i "is" m)
  let ?m = "if dlt (key (rs ! i)) (key (rs ! m)) then i else m"
  have IH: "min_index key rs is ?m \<in> insert ?m (set is)"
    "\<forall>j \<in> insert ?m (set is). \<not> dlt (key (rs ! j)) (key (rs ! min_index key rs is ?m))"
    using 2 by auto
  have "\<not> dlt (key (rs ! i)) (key (rs ! min_index key rs is ?m)) \<and> \<not> dlt (key (rs ! m)) (key (rs ! min_index key rs is ?m))"
  proof (cases "dlt (key (rs ! i)) (key (rs ! m))")
    case True
    then show ?thesis using IH(2) dlt_trans [of "key (rs ! m)" "key (rs ! min_index key rs is i)" "key (rs ! i)"]
      by (auto dest: dlt_asym) (meson dlt_asym dlt_trans)
  next
    case False
    then show ?thesis using IH(2) 2(2) not_dlt_trans [of "key (rs ! m)" "key (rs ! i)" "key (rs ! min_index key rs is m)"]
      by auto
  qed
  then show ?case using IH by auto
qed

text \<open>\<open>kept\<close> holds as many of the results \<open>all\<close> as fit, and none left out is better than one kept.\<close>

definition best_of :: "('r \<Rightarrow> double) \<Rightarrow> nat \<Rightarrow> 'r list \<Rightarrow> 'r list \<Rightarrow> bool" where
  "best_of key bound all kept \<longleftrightarrow> length kept = min bound (length all) \<and>
     (\<exists>left. mset all = mset kept + mset left \<and> (\<forall>x \<in> set left. \<forall>y \<in> set kept. \<not> dlt (key y) (key x)))"

lemma min_index_smallest:
  assumes "kept \<noteq> []" "\<forall>x \<in> set kept. key x \<noteq> NaN"
  defines "m \<equiv> min_index key kept [1..<length kept] 0"
  shows "m < length kept" and "y \<in> set kept \<Longrightarrow> \<not> dlt (key y) (key (kept ! m))"
proof -
  have ins: "insert 0 (set [1..<length kept]) = {..<length kept}" using assms(1) by auto
  have "\<forall>i \<in> insert 0 (set [1..<length kept]). key (kept ! i) \<noteq> NaN" unfolding ins using assms(2) by simp
  then have "m \<in> insert 0 (set [1..<length kept]) \<and>
      (\<forall>i \<in> insert 0 (set [1..<length kept]). \<not> dlt (key (kept ! i)) (key (kept ! m)))"
    unfolding m_def by (rule min_index_law)
  then show "m < length kept" "y \<in> set kept \<Longrightarrow> \<not> dlt (key y) (key (kept ! m))"
    unfolding ins by (auto simp: in_set_conv_nth)
qed

text \<open>A better result takes the place of the smallest one that was kept.\<close>

lemma replace_smallest:
  assumes l: "length kept = min bound (length all)" "mset all = mset kept + mset left"
      "\<forall>x \<in> set left. \<forall>y \<in> set kept. \<not> dlt (key y) (key x)"
    and nn: "\<forall>x \<in> set left. key x \<noteq> NaN"
    and full: "length kept = bound" "bound \<le> length all"
    and m: "m < length kept" "\<And>y. y \<in> set kept \<Longrightarrow> \<not> dlt (key y) (key (kept ! m))"
    and less: "dlt (key (kept ! m)) (key r)"
  shows "best_of key bound (all @ [r]) (kept[m := r])"
proof -
  have "mset (kept[m := r]) = add_mset r (mset kept - {#kept ! m#})" using m(1) by (rule mset_update)
  then have ms: "mset (all @ [r]) = mset (kept[m := r]) + mset (kept ! m # left)"
    using l(2) m(1) by (simp add: nth_mem_mset)
  have "\<not> dlt (key r) (key x)" if "x \<in> set (kept ! m # left)" for x
    using that less l(3) m(1) nn by (auto dest: dlt_asym) (meson dlt_trans nth_mem)
  moreover have "\<not> dlt (key y) (key x)" if "x \<in> set (kept ! m # left)" "y \<in> set kept" for x y
    using that l(3) m(2) by auto
  moreover have "y = r \<or> y \<in> set kept" if "y \<in> set (kept[m := r])" for y
    using that by (meson set_update_subset_insert insertE subsetD)
  ultimately have "\<forall>x \<in> set (kept ! m # left). \<forall>y \<in> set (kept[m := r]). \<not> dlt (key y) (key x)" by blast
  then show ?thesis unfolding best_of_def using ms full by (intro conjI exI [of _ "kept ! m # left"]) auto
qed

lemma collect_top_law:
  assumes best: "best_of key bound all kept" and cmp: "comparable key (r # all)" and bound: "0 < bound"
  shows "best_of key bound (all @ [r]) (collect_top key bound r kept)"
proof -
  obtain left where l: "length kept = min bound (length all)" "mset all = mset kept + mset left"
    "\<forall>x \<in> set left. \<forall>y \<in> set kept. \<not> dlt (key y) (key x)"
    using best by (auto simp: best_of_def)
  have "set all = set kept \<union> set left" using l(2) by (metis set_mset_mset set_mset_union)
  then have nn: "\<forall>x \<in> set kept. key x \<noteq> NaN" "\<forall>x \<in> set left. key x \<noteq> NaN" "key r \<noteq> NaN"
    using cmp by (auto simp: comparable_def)
  show ?thesis
  proof (cases "length kept < bound")
    case True
    then have "length kept = length all" using l(1) by auto
    then have "left = []" using arg_cong [OF l(2), of size] by simp
    then show ?thesis using True l by (auto simp: best_of_def collect_top_def)
  next
    case False
    then have len: "length kept = bound" "bound \<le> length all" using l(1) by auto
    define m where "m = min_index key kept [1..<length kept] 0"
    have "kept \<noteq> []" using len bound by auto
    note m = min_index_smallest [OF this nn(1), folded m_def]
    show ?thesis
    proof (cases "dlt (key (kept ! m)) (key r)")
      case False
      have "\<not> dlt (key y) (key r)" if y: "y \<in> set kept" for y
        using not_dlt_trans [of "key (kept ! m)" "key y" "key r"] m(1) m(2) [OF y] y nn(1) False by auto
      moreover have "collect_top key bound r kept = kept"
        using False len unfolding m_def by (simp add: collect_top_def Let_def)
      ultimately show ?thesis unfolding best_of_def using l len
        by (intro conjI exI [of _ "r # left"]) auto
    next
      case True
      have "collect_top key bound r kept = kept[m := r]"
        using True len unfolding m_def by (simp add: collect_top_def Let_def)
      then show ?thesis using replace_smallest [OF l nn(2) len m True] by simp
    qed
  qed
qed

lemma collect_tops_law:
  "best_of key bound all kept \<Longrightarrow> comparable key (all @ rs) \<Longrightarrow> 0 < bound \<Longrightarrow>
    best_of key bound (all @ rs) (fold (collect_top key bound) rs kept)"
proof (induction rs arbitrary: all kept)
  case Nil
  then show ?case by simp
next
  case (Cons r rs)
  have "best_of key bound (all @ [r]) (collect_top key bound r kept)"
    using Cons.prems by (intro collect_top_law) (auto simp: comparable_def)
  then show ?case using Cons.IH [of "all @ [r]"] Cons.prems by simp
qed

section \<open>Merging by node\<close>

lemma merge_cosine_nodes:
  "map sr_node_id (merge_cosine v ms) =
    (if sr_node_id v \<in> set (map sr_node_id ms) then map sr_node_id ms else map sr_node_id ms @ [sr_node_id v])"
  by (induction v ms rule: merge_cosine.induct) auto

lemma merge_cosines_nodes:
  "distinct (map sr_node_id ms) \<Longrightarrow>
    distinct (map sr_node_id (fold merge_cosine vs ms)) \<and>
    sr_node_id ` set (fold merge_cosine vs ms) = sr_node_id ` set ms \<union> sr_node_id ` set vs"
proof (induction vs arbitrary: ms)
  case Nil
  then show ?case by simp
next
  case (Cons v vs)
  have d: "distinct (map sr_node_id (merge_cosine v ms))" using Cons.prems by (simp add: merge_cosine_nodes)
  have "sr_node_id ` set (merge_cosine v ms) = set (map sr_node_id (merge_cosine v ms))" by simp
  also have "\<dots> = insert (sr_node_id v) (sr_node_id ` set ms)" unfolding merge_cosine_nodes by auto
  finally show ?case using Cons.IH [OF d] by auto
qed

section \<open>Properties\<close>

text \<open>Two results for the concrete instances.\<close>

definition sample_results :: "UnifiedSearchResult list" where
  "sample_results = [bm25f_result [1] (Fin 2), bm25f_result [2] (Fin 5)]"

text \<open>The exchange sort of the text results orders any array whose scores are not NaN by
  falling BM25F score, loses and duplicates no result, changes nothing in a result but its rank,
  and gives the result at index i the rank i + 1.\<close>

lemma bm25f_results_sorted_and_ranked:
  assumes "\<forall>r \<in> set rs. sr_bm25f_score r \<noteq> NaN"
  defines "out \<equiv> exchange_sort sr_bm25f_score stamp_bm25f rs"
  shows "mset (map (\<lambda>r. r\<lparr>sr_bm25f_rank := 0\<rparr>) out) = mset (map (\<lambda>r. r\<lparr>sr_bm25f_rank := 0\<rparr>) rs) \<and>
    (\<forall>i j. i < j \<and> j < length out \<longrightarrow> \<not> dlt (sr_bm25f_score (out ! i)) (sr_bm25f_score (out ! j))) \<and>
    (\<forall>i < length out. sr_bm25f_rank (out ! i) = of_nat (i + 1))"
  using by_bm25f.sort_law [of rs] assms
  by (auto simp: comparable_def descending_def out_def stamp_bm25f_def)

lemma bm25f_results_sorted_and_ranked_witness:
  "\<not> dlt (sr_bm25f_score (exchange_sort sr_bm25f_score stamp_bm25f sample_results ! 0))
      (sr_bm25f_score (exchange_sort sr_bm25f_score stamp_bm25f sample_results ! 1)) \<and>
    sr_bm25f_rank (exchange_sort sr_bm25f_score stamp_bm25f sample_results ! 1) = 2"
proof -
  let ?out = "exchange_sort sr_bm25f_score stamp_bm25f sample_results"
  have nn: "\<forall>r \<in> set sample_results. sr_bm25f_score r \<noteq> NaN" by (simp add: sample_results_def bm25f_result_def)
  note out = bm25f_results_sorted_and_ranked [OF nn]
  have "length ?out = 2"
    using arg_cong [OF conjunct1 [OF out], of size] by (simp add: sample_results_def)
  then show ?thesis using out by auto
qed

text \<open>C29: A shard's bounded result array (results appended while there is room, then the first
  smallest entry replaced by a strictly better newcomer) holds, after any stream of results
  without NaN scores, min(bound, number of results) of them, and no result left out scores
  better than one that was kept.\<close>

theorem collected_results_are_the_best:
  assumes "\<forall>r \<in> set rs. key r \<noteq> NaN" "0 < bound"
  shows "\<exists>left. mset rs = mset (fold (collect_top key bound) rs []) + mset left \<and>
    length (fold (collect_top key bound) rs []) = min bound (length rs) \<and>
    (\<forall>x \<in> set left. \<forall>y \<in> set (fold (collect_top key bound) rs []). \<not> dlt (key y) (key x))"
proof -
  have "best_of key bound ([] @ rs) (fold (collect_top key bound) rs [])"
    using assms by (intro collect_tops_law) (auto simp: best_of_def comparable_def)
  then show ?thesis by (auto simp: best_of_def)
qed

theorem collected_results_are_the_best_witness:
  "\<exists>x. fold (collect_top sr_bm25f_score 1) sample_results [] = [x] \<and>
    (\<forall>r \<in> set sample_results. \<not> dlt (sr_bm25f_score x) (sr_bm25f_score r))"
proof -
  obtain left where l: "mset sample_results = mset (fold (collect_top sr_bm25f_score 1) sample_results []) + mset left"
    "length (fold (collect_top sr_bm25f_score 1) sample_results []) = 1"
    "\<forall>x \<in> set left. \<forall>y \<in> set (fold (collect_top sr_bm25f_score 1) sample_results []). \<not> dlt (sr_bm25f_score y) (sr_bm25f_score x)"
    using collected_results_are_the_best [of sample_results sr_bm25f_score 1]
    by (auto simp: sample_results_def bm25f_result_def)
  obtain x where x: "fold (collect_top sr_bm25f_score 1) sample_results [] = [x]"
    using l(2) by (auto simp: length_Suc_conv)
  have "set sample_results = insert x (set left)"
    using arg_cong [OF l(1), of set_mset] x by simp
  then show ?thesis using x l(3) by auto
qed

text \<open>C28: The hybrid fusion of engine_search keeps one entry per node: if the text results have
  distinct node ids, so has the fused array, every node of it comes from one of the two inputs,
  and when max_results is large enough every node of either input is in it; this holds for any
  qsort that permutes its input.\<close>

theorem fused_results_have_distinct_nodes:
  assumes "\<And>cmp xs. mset (qsort cmp xs) = mset xs" "distinct (map sr_node_id bm)"
    and "\<forall>r \<in> set bm. sr_bm25f_score r \<noteq> NaN" "\<forall>r \<in> set vec. sr_cosine_score r \<noteq> NaN"
  shows "distinct (map sr_node_id (fuse_results qsort True True bm vec max_results)) \<and>
    sr_node_id ` set (fuse_results qsort True True bm vec max_results) \<subseteq> sr_node_id ` set bm \<union> sr_node_id ` set vec \<and>
    (length bm + length vec \<le> max_results \<longrightarrow>
      sr_node_id ` set (fuse_results qsort True True bm vec max_results) = sr_node_id ` set bm \<union> sr_node_id ` set vec)"
proof -
  let ?b = "exchange_sort sr_bm25f_score stamp_bm25f bm" and ?v = "exchange_sort sr_cosine_score stamp_cosine vec"
  have perm: "mset (map sr_node_id out) = mset (map sr_node_id xs)"
    if "mset (map f out) = mset (map f xs)" "\<And>r. sr_node_id (f r) = sr_node_id r" for out xs and f :: "UnifiedSearchResult \<Rightarrow> UnifiedSearchResult"
    using arg_cong [OF that(1), of "image_mset sr_node_id"] that(2) by (simp add: image_mset.compositionality comp_def)
  have b: "mset (map sr_node_id ?b) = mset (map sr_node_id bm)"
    by (rule perm [where f = "\<lambda>r. r\<lparr>sr_bm25f_rank := 0\<rparr>"]) (use by_bm25f.sort_law [of bm] assms(3) in \<open>simp_all add: comparable_def\<close>)
  have v: "mset (map sr_node_id ?v) = mset (map sr_node_id vec)"
    by (rule perm [where f = "\<lambda>r. r\<lparr>sr_cosine_rank := 0\<rparr>"]) (use by_cosine.sort_law [of vec] assms(4) in \<open>simp_all add: comparable_def\<close>)
  have "distinct (map sr_node_id ?b)" using assms(2) b mset_eq_imp_distinct_iff by blast
  note m = merge_cosines_nodes [OF this, of ?v]
  let ?m = "fold merge_cosine ?v ?b"
  have sets: "sr_node_id ` set ?b = sr_node_id ` set bm" "sr_node_id ` set ?v = sr_node_id ` set vec"
    using mset_eq_setD [OF b] mset_eq_setD [OF v] by simp_all
  have f: "mset (map sr_node_id (compute_rrf_fusion qsort ?m)) = mset (map sr_node_id ?m)"
    using arg_cong [OF assms(1), of "image_mset sr_node_id" cmp_rrf "map (\<lambda>r. r\<lparr>sr_rrf_score := rrf_score_of r\<rparr>) ?m"]
    by (simp add: compute_rrf_fusion_def image_mset.compositionality comp_def)
  let ?all = "compute_rrf_fusion qsort ?m"
  have d: "distinct (map sr_node_id ?all)" using m f mset_eq_imp_distinct_iff by blast
  have s: "sr_node_id ` set ?all = sr_node_id ` set bm \<union> sr_node_id ` set vec"
    using mset_eq_setD [OF f] m sets by simp
  have "length ?all = card (sr_node_id ` set bm \<union> sr_node_id ` set vec)"
    using distinct_card [OF d] s by simp
  also have "\<dots> \<le> length bm + length vec"
    by (meson add_mono card_Un_le card_image_le card_length finite_set order_trans)
  finally have len: "length ?all \<le> length bm + length vec" .
  have fuse: "fuse_results qsort True True bm vec max_results = take max_results ?all"
    by (simp add: fuse_results_def)
  have "sr_node_id ` set (take max_results ?all) \<subseteq> sr_node_id ` set ?all"
    by (intro image_mono set_take_subset)
  moreover have "distinct (map sr_node_id (take max_results ?all))"
    using d by (simp add: take_map [symmetric])
  moreover have "take max_results ?all = ?all" if "length bm + length vec \<le> max_results" using that len by simp
  ultimately show ?thesis unfolding fuse s [symmetric] by (intro conjI impI) simp_all
qed

theorem fused_results_have_distinct_nodes_witness:
  "sr_node_id ` set (fuse_results (\<lambda>cmp xs. xs) True True sample_results [cosine_result [2] (Fin 1)] 64) = {[1], [2]}"
  using fused_results_have_distinct_nodes [of "\<lambda>cmp xs. xs" sample_results "[cosine_result [2] (Fin 1)]" 64]
  by (auto simp: sample_results_def bm25f_result_def cosine_result_def)

end
