(* ===== verification/ShardSearch.thy ===== *)
theory ShardSearch
  imports ShardState ResultOrder
begin

text \<open>
  The shard over the page-cache contract: deleting a document sets its tombstone and nothing
  else, and the sequential searches score exactly the live records of the data pages, in page
  and slot order. The pages are the logical pages of the buffer pool, so the results hold for
  every pattern of hits, misses and evictions.
\<close>

section \<open>Arrays of 32-bit words\<close>

lemma u32s_at_cong: "(\<And>i. a \<le> i \<Longrightarrow> i < a + 4 * n \<Longrightarrow> m i = m' i) \<Longrightarrow> u32s_at m a n = u32s_at m' a n"
  unfolding u32s_at_def by (rule map_cong [OF refl], rule get_cong(3) [of _ 4]) auto

lemma length_u32s_at [simp]: "length (u32s_at m a n) = n"
  by (simp add: u32s_at_def)

section \<open>The shard's logical pages\<close>

text \<open>\<open>N\<close> pages are allocated, \<open>P\<close> gives their contents, and \<open>ps\<close> are pinned now.\<close>

definition shard_st :: "nat \<Rightarrow> u32 list \<Rightarrow> (u32 \<Rightarrow> page) \<Rightarrow> UnifiedShard \<Rightarrow> bool" where
  "shard_st N ps P sh \<longleftrightarrow>
     bp_st N {} ps P (us_bpm sh) \<and> unat (us_next_page_id sh) = N \<and> unat (us_tombstone_page_id sh) < N"

abbreviation tombstones_of :: "(u32 \<Rightarrow> page) \<Rightarrow> UnifiedShard \<Rightarrow> page" where
  "tombstones_of P sh \<equiv> P (us_tombstone_page_id sh)"

lemma with_bpm_simps [simp]:
  "us_bpm (with_bpm sh b) = b" "us_next_page_id (with_bpm sh b) = us_next_page_id sh"
  "us_tombstone_page_id (with_bpm sh b) = us_tombstone_page_id sh"
  "us_btree_root (with_bpm sh b) = us_btree_root sh"
  "us_active_data_page_id (with_bpm sh b) = us_active_data_page_id sh"
  "us_next_doc_id (with_bpm sh b) = us_next_doc_id sh"
  "with_bpm (with_bpm sh b) b' = with_bpm sh b'"
  by (simp_all add: with_bpm_def)

lemma with_bpm_same [simp]: "with_bpm sh (us_bpm sh) = sh"
  by (simp add: with_bpm_def)

lemma shard_st_bpm: "shard_st N ps P sh \<Longrightarrow> bp_st N {} ps P (us_bpm sh)"
  by (simp add: shard_st_def)

lemma shard_st_with_bpm:
  "shard_st N ps P sh \<Longrightarrow> bp_st N {} ps' P' b \<Longrightarrow> shard_st N ps' P' (with_bpm sh b)"
  by (simp add: shard_st_def)

lemma allocated_not_invalid: "bp_st N X ps P b \<Longrightarrow> unat q < N \<Longrightarrow> q \<noteq> INVALID_PAGE_ID"
  using not_allocated_invalid by (auto simp: bp_st_def)

section \<open>Tombstones\<close>

text \<open>Asking for a tombstone moves pages through the pool and changes nothing else; the
  frames of the pinned pages stay.\<close>

lemma is_deleted_st:
  assumes st: "shard_st N ps P sh" and len: "length ps < 4"
  obtains b where "shard_is_deleted sh d = (fts_tombstone_is_deleted (tombstones_of P sh) d, with_bpm sh b)"
    "shard_st N ps P (with_bpm sh b)" "\<forall>q \<in> set ps. find_frame b q = find_frame (us_bpm sh) q"
proof -
  let ?t = "us_tombstone_page_id sh"
  have bp: "bp_st N {} ps P (us_bpm sh)" and t: "unat ?t < N" using st by (simp_all add: shard_st_def)
  obtain f b1 where f: "buffer_pool_fetch_page (us_bpm sh) ?t = (Some f, b1)" "bp_st N {} (?t # ps) P b1"
    "find_frame b1 ?t = Some f" "\<forall>q \<in> set ps. find_frame b1 q = find_frame (us_bpm sh) q"
    using pool.fetch_st [OF bp len allocated_not_invalid [OF bp t]] by blast
  let ?b = "buffer_pool_unpin_page b1 ?t False HINT_NORMAL"
  have "bp_st N {} ps P ?b" "find_frame ?b = find_frame b1"
    using pool.unpin_clean_st [OF f(2), of ?t HINT_NORMAL] by simp_all
  moreover have "frame_page b1 f = tombstones_of P sh" using pool.frame_st [OF f(2) _ f(3)] by simp
  ultimately show ?thesis
    using that [of ?b] f(1,4) shard_st_with_bpm [OF st] by (simp add: shard_is_deleted_def)
qed

lemma delete_st:
  assumes st: "shard_st N [] P sh"
  obtains b where "shard_delete_document sh d = (0, with_bpm sh b)"
    "shard_st N [] (P(us_tombstone_page_id sh := fts_tombstone_mark_deleted (tombstones_of P sh) d)) (with_bpm sh b)"
proof -
  let ?t = "us_tombstone_page_id sh"
  have bp: "bp_st N {} [] P (us_bpm sh)" and t: "unat ?t < N" using st by (simp_all add: shard_st_def)
  obtain f b1 where f: "buffer_pool_fetch_page (us_bpm sh) ?t = (Some f, b1)" "bp_st N {} [?t] P b1"
    "find_frame b1 ?t = Some f"
    using pool.fetch_st [OF bp _ allocated_not_invalid [OF bp t]] by auto
  let ?p = "fts_tombstone_mark_deleted (tombstones_of P sh) d"
  have fr: "frame_page b1 f = tombstones_of P sh" using pool.frame_st [OF f(2) _ f(3)] by simp
  have "page_wf ?p" by (intro mark_deleted_wf pool.page_st [OF bp])
  then have up: "bp_st N {?t} [?t] (P(?t := ?p)) (set_frame_page f ?p b1)"
    using pool.update_st [OF f(2) _ f(3)] by simp
  obtain lsn b2 where log: "bp_log (set_frame_page f ?p b1) 0 WAL_FTS_TOMBSTONE ?t 0
      (bytes_at (put_u32 (\<lambda>_. 0) 0 d) 0 4) = (lsn, b2)"
    by (cases "bp_log (set_frame_page f ?p b1) 0 WAL_FTS_TOMBSTONE ?t 0 (bytes_at (put_u32 (\<lambda>_. 0) 0 d) 0 4)")
  have "bp_st N {} [] (P(?t := ?p)) (buffer_pool_unpin_page b2 ?t True HINT_NORMAL)"
    using pool.unpin_dirty_st [OF bp_log_st(1) [OF up log], of ?t HINT_NORMAL] t by simp
  then show ?thesis
    using that [of "buffer_pool_unpin_page b2 ?t True HINT_NORMAL"] f(1) fr log shard_st_with_bpm [OF st]
    by (simp add: shard_delete_document_def)
qed

section \<open>Sequential search\<close>

text \<open>The records of a page: the tuples of the record's size. The live records are those of
  the data pages, in page and slot order, whose document has no tombstone.\<close>

definition slot_record :: "page \<Rightarrow> nat \<Rightarrow> UnifiedDocRecord option" where
  "slot_record p s =
     (if unat (slot_length p s) = sizeof_UnifiedDocRecord
      then Some (doc_record_at p (unat (slot_offset p s))) else None)"

definition page_records :: "page \<Rightarrow> UnifiedDocRecord list" where
  "page_records p =
     (if hdr_page_type p = page_type_code PAGE_TYPE_VECTOR_DATA
      then List.map_filter (slot_record p) [0..<unat (hdr_slot_count p)] else [])"

definition live_records :: "nat \<Rightarrow> (u32 \<Rightarrow> page) \<Rightarrow> page \<Rightarrow> UnifiedDocRecord list" where
  "live_records N P tombstones =
     filter (\<lambda>r. \<not> fts_tombstone_is_deleted tombstones (rc_doc_id r))
       (concat (map (\<lambda>pid. page_records (P (of_nat pid))) [2..<N]))"

abbreviation alive :: "page \<Rightarrow> UnifiedDocRecord list \<Rightarrow> UnifiedDocRecord list" where
  "alive tombstones \<equiv> filter (\<lambda>r. \<not> fts_tombstone_is_deleted tombstones (rc_doc_id r))"

lemma scan_slot_st:
  assumes st: "shard_st N [q] P sh" and f: "find_frame (us_bpm sh) q = Some f"
    and s: "s < unat (hdr_slot_count (P q))"
  obtains b where "scan_slot visit f s (results, sh) =
      (fold visit (alive (tombstones_of P sh) (List.map_filter (slot_record (P q)) [s])) results, with_bpm sh b)"
    "shard_st N [q] P (with_bpm sh b)" "find_frame b q = Some f"
proof -
  have fr: "frame_page b f = P q" if "bp_st N {} [q] P b" "find_frame b q = Some f" for b
    using pool.frame_st [OF that(1) _ that(2)] by simp
  have get: "slotted_page_get_tuple (P q) (of_nat s) = Some (unat (slot_offset (P q) s), slot_length (P q) s)"
  proof -
    have "unat (of_nat s :: u16) = s"
      using s unat_u16_less [of "hdr_slot_count (P q)"] by (simp add: unat_of_nat)
    then show ?thesis using s by (simp add: slotted_page_get_tuple_def word_le_nat_alt)
  qed
  let ?r = "doc_record_at (P q) (unat (slot_offset (P q) s))"
  obtain b where b: "shard_is_deleted sh (rc_doc_id ?r) =
      (fts_tombstone_is_deleted (tombstones_of P sh) (rc_doc_id ?r), with_bpm sh b)"
    "shard_st N [q] P (with_bpm sh b)" "find_frame b q = find_frame (us_bpm sh) q"
    using is_deleted_st [OF st, of "rc_doc_id ?r"] by auto
  show ?thesis
  proof (cases "unat (slot_length (P q) s) = sizeof_UnifiedDocRecord")
    case True
    then show ?thesis
      using that [of b] b f fr [OF shard_st_bpm [OF st] f] fr [OF shard_st_bpm [OF b(2), simplified]]
      by (simp add: scan_slot_def get slot_record_def List.map_filter_def)
  next
    case False
    then show ?thesis
      using that [of "us_bpm sh"] st f fr [OF shard_st_bpm [OF st] f]
      by (simp add: scan_slot_def get slot_record_def List.map_filter_def)
  qed
qed

lemma map_filter_append: "List.map_filter g (xs @ ys) = List.map_filter g xs @ List.map_filter g ys"
  by (simp add: List.map_filter_def)

lemma scan_slots_st:
  assumes st: "shard_st N [q] P sh" and f: "find_frame (us_bpm sh) q = Some f"
    and k: "k \<le> unat (hdr_slot_count (P q))"
  shows "\<exists>b. fold (scan_slot visit f) [0..<k] (results, sh) =
      (fold visit (alive (tombstones_of P sh) (List.map_filter (slot_record (P q)) [0..<k])) results, with_bpm sh b) \<and>
    shard_st N [q] P (with_bpm sh b) \<and> find_frame b q = Some f"
  using k
proof (induction k)
  case 0
  then show ?case using st f by (intro exI [of _ "us_bpm sh"]) (simp add: List.map_filter_def)
next
  case (Suc k)
  let ?t = "tombstones_of P sh"
  let ?rs = "\<lambda>ss. alive ?t (List.map_filter (slot_record (P q)) ss)"
  obtain b where b: "fold (scan_slot visit f) [0..<k] (results, sh) = (fold visit (?rs [0..<k]) results, with_bpm sh b)"
    "shard_st N [q] P (with_bpm sh b)" "find_frame b q = Some f"
    using Suc by auto
  obtain b' where "scan_slot visit f k (fold visit (?rs [0..<k]) results, with_bpm sh b) =
      (fold visit (?rs [k]) (fold visit (?rs [0..<k]) results), with_bpm sh b')"
    "shard_st N [q] P (with_bpm sh b')" "find_frame b' q = Some f"
    using scan_slot_st [OF b(2), of f k visit "fold visit (?rs [0..<k]) results"] b(3) Suc.prems by auto
  then show ?case using b by (intro exI [of _ b']) (simp add: map_filter_append)
qed

text \<open>A page that is not allocated reads as a fresh row page, which holds no record.\<close>

lemma unallocated_page:
  assumes "bp_st N {} ps P b" "N \<le> unat q" "q \<noteq> INVALID_PAGE_ID"
  shows "P q = row_page q"
proof -
  have ok: "bp_ok N {} b" and P: "P q = bp_page b q" using assms(1) by (auto simp: bp_st_def)
  show ?thesis
  proof (cases "find_frame b q")
    case None
    have "\<not> on_file (bp_file b) q"
      using ok assms(2) by (auto simp: bp_ok_def on_file_def page_offset_def)
    then show ?thesis using None assms(3) by (simp add: P bp_page_def load_page_def)
  next
    case (Some i)
    have "frame_ok N {} (bp_file b) (bp_frames b ! i)" "fr_page_id (bp_frames b ! i) = q"
      using find_frame_sound [OF Some] bp_ok_frame [OF ok] by auto
    then show ?thesis using Some assms(2,3) by (simp add: P bp_page_def frame_page_def frame_ok_def)
  qed
qed

lemma row_page_records [simp]: "page_records (row_page q) = []"
  by (simp add: page_records_def row_page_def)

lemma scan_page_st:
  assumes st: "shard_st N [] P sh" and q: "(of_nat pid :: u32) \<noteq> INVALID_PAGE_ID"
  obtains b where "scan_page visit pid (results, sh) =
      (fold visit (alive (tombstones_of P sh) (page_records (P (of_nat pid)))) results, with_bpm sh b)"
    "shard_st N [] P (with_bpm sh b)"
proof -
  let ?q = "of_nat pid :: u32"
  obtain f b1 where f: "buffer_pool_fetch_page (us_bpm sh) ?q = (Some f, b1)" "bp_st N {} [?q] P b1"
    "find_frame b1 ?q = Some f"
    using pool.fetch_st [OF shard_st_bpm [OF st] _ q] by auto
  have fr: "frame_page b1 f = P ?q" using pool.frame_st [OF f(2) _ f(3)] by simp
  have st1: "shard_st N [?q] P (with_bpm sh b1)" using shard_st_with_bpm [OF st f(2)] .
  show ?thesis
  proof (cases "hdr_page_type (P ?q) = page_type_code PAGE_TYPE_VECTOR_DATA")
    case False
    have "bp_st N {} [] P (buffer_pool_unpin_page b1 ?q False HINT_NORMAL)"
      using pool.unpin_clean_st [OF f(2), of ?q HINT_NORMAL] by simp
    then show ?thesis
      using that [of "buffer_pool_unpin_page b1 ?q False HINT_NORMAL"] False f(1) fr shard_st_with_bpm [OF st]
      by (simp add: scan_page_def page_records_def)
  next
    case True
    let ?n = "unat (hdr_slot_count (P ?q))"
    obtain b2 where b2: "fold (scan_slot visit f) [0..<?n] (results, with_bpm sh b1) =
        (fold visit (alive (tombstones_of P sh) (List.map_filter (slot_record (P ?q)) [0..<?n])) results, with_bpm sh b2)"
      "shard_st N [?q] P (with_bpm sh b2)"
      using scan_slots_st [OF st1, of f ?n visit results] f(3) by auto
    let ?b = "buffer_pool_unpin_page b2 ?q False HINT_SEQUENTIAL_SCAN"
    have "bp_st N {} [] P ?b"
      using pool.unpin_clean_st [OF shard_st_bpm [OF b2(2), simplified], of ?q HINT_SEQUENTIAL_SCAN] by simp
    then show ?thesis
      using that [of ?b] True f(1) fr b2(1) shard_st_with_bpm [OF st]
      by (simp add: scan_page_def page_records_def)
  qed
qed

lemma scan_pages_st:
  assumes "shard_st N [] P sh" "\<forall>pid \<in> set pids. (of_nat pid :: u32) \<noteq> INVALID_PAGE_ID"
  shows "\<exists>b. fold (scan_page visit) pids (results, sh) =
      (fold visit (alive (tombstones_of P sh) (concat (map (\<lambda>pid. page_records (P (of_nat pid))) pids))) results, with_bpm sh b) \<and>
    shard_st N [] P (with_bpm sh b)"
  using assms
proof (induction pids arbitrary: results sh)
  case Nil
  then show ?case by (intro exI [of _ "us_bpm sh"]) simp
next
  case (Cons pid pids)
  obtain b where b: "scan_page visit pid (results, sh) =
      (fold visit (alive (tombstones_of P sh) (page_records (P (of_nat pid)))) results, with_bpm sh b)"
    "shard_st N [] P (with_bpm sh b)"
    using scan_page_st [OF Cons.prems(1), of pid visit results] Cons.prems(2) by auto
  show ?case
    using Cons.IH [OF b(2), of "fold visit (alive (tombstones_of P sh) (page_records (P (of_nat pid)))) results"]
      Cons.prems(2) b(1) by auto
qed

text \<open>The scan visits the live records, each once; the page past the last one adds nothing.\<close>

lemma shard_scan_st:
  assumes st: "shard_st N [] P sh" and N: "2 \<le> N" "N + 1 < 2 ^ 32"
  obtains b where "shard_scan visit key sh =
      (exchange_sort key no_stamp (fold visit (live_records N P (tombstones_of P sh)) []), with_bpm sh b)"
    "shard_st N [] P (with_bpm sh b)"
proof -
  have valid: "(of_nat pid :: u32) \<noteq> INVALID_PAGE_ID" if "pid \<le> N" for pid
  proof -
    have "unat (of_nat pid :: u32) = pid" using that N(2) by (simp add: unat_of_nat)
    moreover have "unat (- 1 :: u32) = 2 ^ 32 - 1" by (simp add: unsigned_minus_1_eq_mask mask_eq_exp_minus_1)
    ultimately have "unat (of_nat pid :: u32) \<noteq> unat (- 1 :: u32)" using that N(2) by linarith
    then show ?thesis by metis
  qed
  have "P (of_nat N) = row_page (of_nat N)"
    using unallocated_page [OF shard_st_bpm [OF st], of "of_nat N"] valid [of N] N(2) by (simp add: unat_of_nat)
  then have "alive t (concat (map (\<lambda>pid. page_records (P (of_nat pid))) [2..<Suc N])) = live_records N P t" for t
    using N(1) by (simp add: live_records_def)
  moreover obtain b where "fold (scan_page visit) [2..<Suc N] ([], sh) =
      (fold visit (alive (tombstones_of P sh) (concat (map (\<lambda>pid. page_records (P (of_nat pid))) [2..<Suc N]))) [], with_bpm sh b)"
    "shard_st N [] P (with_bpm sh b)"
    using scan_pages_st [OF st, of "[2..<Suc N]" visit "[]"] valid by (auto simp del: upt_Suc)
  ultimately show ?thesis
    using that [of b] st by (simp add: shard_scan_def shard_st_def del: upt_Suc)
qed

end
