(* ===== verification/PostingLists.thy ===== *)
theory PostingLists
  imports InvertedIndex ShardSearch
begin

text \<open>
  The inverted index as a map from terms to blocks of postings, newest block first: the page
  formats, the chains of posting pages the B-tree leads to, and the refinement of
  \<open>inverted_index_add_posting\<close> and \<open>inverted_index_get_postings\<close> to operations on blocks.
\<close>

section \<open>Blocks of postings\<close>

text \<open>A posting with the positions that are in use; the page keeps old bytes in the others.\<close>

definition used_positions :: "InvertedPosting \<Rightarrow> InvertedPosting" where
  "used_positions p = p\<lparr>ip_positions := take (unat (ip_pos_count p)) (ip_positions p)\<rparr>"

definition posting_wf :: "InvertedPosting \<Rightarrow> bool" where
  "posting_wf p \<longleftrightarrow> length (ip_positions p) = unat (ip_pos_count p) \<and>
     unat (ip_pos_count p) \<le> MAX_POSITIONS_PER_POSTING"

definition first_posting :: "u32 \<Rightarrow> u32 \<Rightarrow> u16 \<Rightarrow> u32 \<Rightarrow> InvertedPosting" where
  "first_posting doc_id data_page_id data_slot_id term_position =
     \<lparr>ip_doc_id = doc_id, ip_data_page_id = data_page_id, ip_data_slot_id = data_slot_id,
      ip_pos_count = 1, ip_positions = [term_position]\<rparr>"

text \<open>A posting holds at most eight positions; later ones are dropped.\<close>

definition add_position :: "u32 \<Rightarrow> InvertedPosting \<Rightarrow> InvertedPosting" where
  "add_position term_position p =
     (if length (ip_positions p) < MAX_POSITIONS_PER_POSTING
      then p\<lparr>ip_pos_count := ip_pos_count p + 1, ip_positions := ip_positions p @ [term_position]\<rparr> else p)"

text \<open>Adding an occurrence: to the document's posting when that is the newest one, else as a
  new posting, in a new block when the newest block is full.\<close>

fun add_to_blocks :: "u32 \<Rightarrow> u32 \<Rightarrow> u16 \<Rightarrow> u32 \<Rightarrow> InvertedPosting list list \<Rightarrow> InvertedPosting list list" where
  "add_to_blocks doc_id page slot pos [] = [[first_posting doc_id page slot pos]]"
| "add_to_blocks doc_id page slot pos (ps # blocks) =
     (if ip_doc_id (last ps) = doc_id then (butlast ps @ [add_position pos (last ps)]) # blocks
      else if length ps < MAX_POSTINGS_PER_PAGE then (ps @ [first_posting doc_id page slot pos]) # blocks
      else [first_posting doc_id page slot pos] # ps # blocks)"

section \<open>Posting pages\<close>

definition page_postings :: "page \<Rightarrow> InvertedPosting list" where
  "page_postings p = map (\<lambda>i. used_positions (posting_at p i)) [0..<unat (ix_posting_count p)]"

definition posting_page :: "page \<Rightarrow> u32 \<Rightarrow> InvertedPosting list \<Rightarrow> bool" where
  "posting_page p next_page ps \<longleftrightarrow> unat (ix_posting_count p) \<le> MAX_POSTINGS_PER_PAGE \<and>
     page_postings p = ps \<and> ps \<noteq> [] \<and> (\<forall>x \<in> set ps. posting_wf x) \<and> ix_next_posting_page p = next_page"

lemma length_page_postings [simp]: "length (page_postings p) = unat (ix_posting_count p)"
  by (simp add: page_postings_def)

lemma posting_page_count:
  assumes "posting_page p nx ps"
  shows "0 < unat (ix_posting_count p)" "unat (ix_posting_count p) \<le> 92" "length ps = unat (ix_posting_count p)"
proof -
  have "length ps = unat (ix_posting_count p)" "ps \<noteq> []" using assms by (auto simp: posting_page_def)
  then show "0 < unat (ix_posting_count p)" "length ps = unat (ix_posting_count p)" by (metis length_greater_0_conv)+
  show "unat (ix_posting_count p) \<le> 92" using assms by (simp add: posting_page_def)
qed

lemma posting_at_cong:
  assumes "\<And>a. posting_off i \<le> a \<Longrightarrow> a < posting_off i + 44 \<Longrightarrow> p a = p' a"
  shows "posting_at p i = posting_at p' i"
proof -
  have "u32s_at p (posting_off i + 12) 8 = u32s_at p' (posting_off i + 12) 8"
    by (rule u32s_at_cong, rule assms) auto
  moreover have "get_u32 p (posting_off i) = get_u32 p' (posting_off i)"
    "get_u32 p (posting_off i + 4) = get_u32 p' (posting_off i + 4)"
    by (rule get_cong(3) [of _ 4], rule assms; simp)+
  moreover have "get_u16 p (posting_off i + 8) = get_u16 p' (posting_off i + 8)"
    "get_u16 p (posting_off i + 10) = get_u16 p' (posting_off i + 10)"
    by (rule get_cong(2) [of _ 2], rule assms; simp)+
  ultimately show ?thesis by (simp add: posting_at_def)
qed

lemma put_outside:
  "i < a \<or> a + 4 \<le> i \<Longrightarrow> put_u32 m a v i = m i" "i < a \<or> a + 2 \<le> i \<Longrightarrow> put_u16 m a w i = m i"
  by (simp_all add: put_defs poke_other)

lemma put_posting_other:
  "a < posting_off i \<or> posting_off i + 16 \<le> a \<Longrightarrow> put_posting p i d dp ds pos a = p a"
  by (auto simp: put_posting_def Let_def put_outside)

lemma put_posting_same: "used_positions (posting_at (put_posting p i d dp ds pos) i) = first_posting d dp ds pos"
proof -
  have "u32s_at m a 8 = get_u32 m a # u32s_at m (a + 4) 7" for m a
    by (simp add: u32s_at_def upt_conv_Cons map_Suc_upt [symmetric] add_ac o_def del: upt_Suc)
  then show ?thesis
    by (simp add: used_positions_def posting_at_def put_posting_def Let_def first_posting_def)
qed

lemma put_posting_wf: "page_wf p \<Longrightarrow> i < MAX_POSTINGS_PER_PAGE \<Longrightarrow> page_wf (put_posting p i d dp ds pos)"
  unfolding put_posting_def Let_def by (intro page_wf_put) simp_all

lemma put_posting_header:
  "get_u32 (put_posting p i d dp ds pos) 4 = get_u32 p 4" "get_u32 (put_posting p i d dp ds pos) 8 = get_u32 p 8"
  by (rule get_cong(3) [of _ 4]; simp add: put_posting_other)+

text \<open>The three ways a posting page is written.\<close>

lemma count_below: "unat (ix_posting_count p) \<le> MAX_POSTINGS_PER_PAGE \<Longrightarrow> i < unat (ix_posting_count p) \<Longrightarrow> i < MAX_POSTINGS_PER_PAGE"
  by simp

lemma new_page_postings:
  assumes "page_wf p"
  shows "posting_page (new_posting_page p t nx d dp ds pos) nx [first_posting d dp ds pos]"
    "page_wf (new_posting_page p t nx d dp ds pos)"
proof -
  let ?p = "put_u32 (put_u32 (put_u32 p 0 t) 4 1) 8 nx"
  have eq: "new_posting_page p t nx d dp ds pos = put_posting ?p 0 d dp ds pos"
    by (simp add: new_posting_page_def Let_def)
  have wf: "page_wf ?p" by (intro page_wf_put assms) simp_all
  then show "page_wf (new_posting_page p t nx d dp ds pos)"
    unfolding eq by (rule put_posting_wf) simp
  show "posting_page (new_posting_page p t nx d dp ds pos) nx [first_posting d dp ds pos]"
    using put_posting_same [of ?p 0 d dp ds pos]
    by (simp add: eq posting_page_def page_postings_def put_posting_header posting_wf_def first_posting_def)
qed

lemma append_posting_page:
  assumes pg: "posting_page p nx ps" and room: "unat (ix_posting_count p) < MAX_POSTINGS_PER_PAGE" and wf: "page_wf p"
  shows "posting_page (append_posting p d dp ds pos) nx (ps @ [first_posting d dp ds pos])"
    "page_wf (append_posting p d dp ds pos)"
proof -
  let ?n = "unat (ix_posting_count p)" let ?q = "append_posting p d dp ds pos"
  have count: "unat (ix_posting_count ?q) = Suc ?n"
    using room by (simp add: append_posting_def unat_word_ariths)
  have "ix_next_posting_page ?q = nx"
    using pg by (simp add: append_posting_def put_posting_header posting_page_def)
  moreover have "posting_at ?q i = posting_at p i" if "i < ?n" for i
    using that by (intro posting_at_cong) (simp add: append_posting_def put_outside put_posting_other)
  moreover have "posting_at ?q ?n = posting_at (put_posting p ?n d dp ds pos) ?n"
    by (intro posting_at_cong) (simp add: append_posting_def put_outside)
  ultimately show "posting_page ?q nx (ps @ [first_posting d dp ds pos])"
    using pg room put_posting_same [of p ?n d dp ds pos]
    by (auto simp: posting_page_def page_postings_def count posting_wf_def first_posting_def)
  show "page_wf ?q" unfolding append_posting_def
    by (intro page_wf_put put_posting_wf wf room) simp
qed

lemma u32s_at_put:
  "k < n \<Longrightarrow> u32s_at (put_u32 m (a + 4 * k) v) a n = (u32s_at m a n)[k := v]"
proof (rule nth_equalityI)
  fix i assume "k < n" "i < length (u32s_at (put_u32 m (a + 4 * k) v) a n)"
  moreover have "i < k \<or> i = k \<or> k < i" by arith
  ultimately show "u32s_at (put_u32 m (a + 4 * k) v) a n ! i = (u32s_at m a n)[k := v] ! i"
    by (auto simp: u32s_at_def)
qed (simp add: u32s_at_def)

lemma append_position_posting:
  assumes "posting_wf (used_positions (posting_at p i))" "i = unat (ix_posting_count p - 1)"
  shows "used_positions (posting_at (append_position p pos) i) = add_position pos (used_positions (posting_at p i))"
    "posting_wf (used_positions (posting_at (append_position p pos) i))"
proof -
  let ?c = "ip_pos_count (posting_at p i)"
  have c: "unat ?c \<le> 8" using assms(1) by (simp add: posting_wf_def used_positions_def)
  have c1: "unat (?c + 1) = Suc (unat ?c)" using c by (simp add: unat_word_ariths)
  show eq: "used_positions (posting_at (append_position p pos) i) = add_position pos (used_positions (posting_at p i))"
  proof (cases "unat ?c < 8")
    case True
    define q where "q = put_u16 (put_u32 p (posting_off i + 12 + 4 * unat ?c) pos) (posting_off i + 10) (?c + 1)"
    have q: "append_position p pos = q" using True by (simp add: append_position_def assms(2) Let_def q_def)
    have "u32s_at q (posting_off i + 12) 8 = u32s_at (put_u32 p (posting_off i + 12 + 4 * unat ?c) pos) (posting_off i + 12) 8"
      by (rule u32s_at_cong) (simp add: put_outside q_def)
    also have "\<dots> = (u32s_at p (posting_off i + 12) 8)[unat ?c := pos]" by (rule u32s_at_put) (rule True)
    finally have ps: "ip_positions (posting_at q i) = (ip_positions (posting_at p i))[unat ?c := pos]"
      by (simp add: posting_at_def)
    have len: "length (ip_positions (posting_at p i)) = 8" by (simp add: posting_at_def)
    have rest: "ip_doc_id (posting_at q i) = ip_doc_id (posting_at p i)"
      "ip_data_page_id (posting_at q i) = ip_data_page_id (posting_at p i)"
      "ip_data_slot_id (posting_at q i) = ip_data_slot_id (posting_at p i)"
      "ip_pos_count (posting_at q i) = ?c + 1"
      by (simp_all add: posting_at_def q_def)
    have "take (Suc (unat ?c)) ((ip_positions (posting_at p i))[unat ?c := pos]) =
      take (unat ?c) (ip_positions (posting_at p i)) @ [pos]"
      using True len by (simp add: take_Suc_conv_app_nth)
    then show ?thesis unfolding q
      by (intro InvertedPosting.equality)
        (use True len c1 in \<open>simp_all add: used_positions_def add_position_def ps rest\<close>)
  next
    case False
    then show ?thesis
      using c assms(2) by (simp add: append_position_def Let_def add_position_def used_positions_def posting_at_def)
  qed
  show "posting_wf (used_positions (posting_at (append_position p pos) i))"
    unfolding eq using assms(1) c by (simp add: posting_wf_def add_position_def used_positions_def c1 unat_word_ariths)
qed

lemma append_position_outside:
  assumes "i = unat (ix_posting_count p - 1)" "unat (ip_pos_count (posting_at p i)) \<le> 8"
    "a < posting_off i + 10 \<or> posting_off i + 44 \<le> a"
  shows "append_position p pos a = p a"
  using assms by (auto simp: append_position_def Let_def put_outside)

lemma append_position_page:
  assumes pg: "posting_page p nx ps" and wf: "page_wf p"
  shows "posting_page (append_position p pos) nx (butlast ps @ [add_position pos (last ps)])"
    "page_wf (append_position p pos)"
proof -
  define n where "n = unat (ix_posting_count p)"
  define i where "i = unat (ix_posting_count p - 1)"
  let ?q = "append_position p pos"
  have n: "0 < n" "n \<le> 92" "ps = page_postings p" "\<forall>x \<in> set ps. posting_wf x" "ix_next_posting_page p = nx"
    using pg by (auto simp: posting_page_def n_def page_postings_def)
  then have i: "i = n - 1" unfolding i_def n_def
    by (metis One_nat_def unat_1 unat_gt_0 unat_sub word_less_nat_alt word_le_nat_alt Suc_leI)
  have wf_i: "posting_wf (used_positions (posting_at p i))"
    using n i by (simp add: page_postings_def n_def [symmetric])
  then have c: "unat (ip_pos_count (posting_at p i)) \<le> 8" by (simp add: posting_wf_def used_positions_def)
  note out = append_position_outside [OF i_def c]
  have head: "get_u32 ?q 4 = get_u32 p 4" "get_u32 ?q 8 = get_u32 p 8"
    by (rule get_cong(3) [of _ 4]; simp add: out)+
  have other: "posting_at ?q j = posting_at p j" if "j < i" for j
    using that by (intro posting_at_cong out) simp
  note last = append_position_posting [OF wf_i i_def]
  have upt: "[0..<n] = [0..<i] @ [i]" using n(1) i by (metis Suc_diff_1 upt_Suc_append zero_le)
  have "page_postings ?q = butlast ps @ [add_position pos (last ps)]"
    by (simp add: n(3) page_postings_def head n_def [symmetric] upt last other cong: map_cong)
  moreover have "\<forall>x \<in> set (butlast ps @ [add_position pos (last ps)]). posting_wf x"
    using n(4) last by (auto simp: n(3) page_postings_def n_def [symmetric] upt dest: in_set_butlastD)
  ultimately show "posting_page ?q nx (butlast ps @ [add_position pos (last ps)])"
    using n by (simp add: posting_page_def head n_def)
  show "page_wf ?q"
    using wf c n i by (auto simp: append_position_def Let_def i_def [symmetric] intro!: page_wf_put)
qed

lemma last_is_doc_iff: "posting_page p nx ps \<Longrightarrow> last_is_doc p d \<longleftrightarrow> ip_doc_id (last ps) = d"
proof -
  assume pg: "posting_page p nx ps"
  define n where "n = unat (ix_posting_count p)"
  have n: "0 < n" "ps = page_postings p" "0 < ix_posting_count p"
    using pg by (auto simp: posting_page_def n_def page_postings_def word_gt_0)
  then have i: "unat (ix_posting_count p - 1) = n - 1" unfolding n_def
    by (metis One_nat_def unat_1 unat_sub word_le_nat_alt Suc_leI)
  have upt: "[0..<n] = [0..<n - 1] @ [n - 1]" using n(1) by (metis Suc_diff_1 upt_Suc_append zero_le)
  have "last ps = used_positions (posting_at p (n - 1))"
    unfolding n(2) page_postings_def n_def [symmetric] upt by simp
  then show ?thesis
    using n(3) i by (simp add: last_is_doc_def used_positions_def)
qed

section \<open>Chains of posting pages\<close>

fun posting_chain :: "(u32 \<Rightarrow> page) \<Rightarrow> u32 \<Rightarrow> (u32 \<times> InvertedPosting list) list \<Rightarrow> bool" where
  "posting_chain P cur [] \<longleftrightarrow> cur = INVALID_PAGE_ID"
| "posting_chain P cur ((q, ps) # L) \<longleftrightarrow> cur = q \<and> (\<exists>nx. posting_page (P q) nx ps \<and> posting_chain P nx L)"

lemma posting_chain_cong: "(\<And>q. q \<in> fst ` set L \<Longrightarrow> P' q = P q) \<Longrightarrow> posting_chain P' cur L = posting_chain P cur L"
  by (induction P cur L rule: posting_chain.induct) auto

lemma posting_chain_upd: "q \<notin> fst ` set L \<Longrightarrow> posting_chain (P(q := p)) cur L = posting_chain P cur L"
  by (rule posting_chain_cong) auto

text \<open>Reading a chain of allocated pages collects the blocks' postings, up to the limit.\<close>

lemma collect_chain:
  assumes "bp_st N {} [] P b" "unat next_page = N" "posting_chain P cur L" "distinct (map fst L)"
    "\<forall>q \<in> fst ` set L. 3 \<le> unat q \<and> unat q < N" "length out \<le> max_postings"
  shows "\<exists>out' b'. collect_postings next_page max_postings out cur b = (out @ out', b') \<and>
    map used_positions out' = take (max_postings - length out) (concat (map snd L)) \<and> bp_st N {} [] P b'"
  using assms
proof (induction L arbitrary: out cur b)
  case Nil
  then show ?case by (subst collect_postings.simps) simp
next
  case (Cons e L)
  obtain q ps where e: "e = (q, ps)" by (cases e)
  obtain nx where nx: "cur = q" "posting_page (P q) nx ps" "posting_chain P nx L" using Cons.prems(3) e by auto
  have q: "3 \<le> unat q" "unat q < N" using Cons.prems(5) e by auto
  show ?case
  proof (cases "length out < max_postings")
    case False
    then show ?thesis using Cons.prems(1) by (subst collect_postings.simps) simp
  next
    case True
    obtain f b1 where f: "buffer_pool_fetch_page b q = (Some f, b1)" "frame_page b1 f = P q"
      "\<And>h. bp_st N {} [] P (buffer_pool_unpin_page b1 q False h)"
      using pool.read_page [OF Cons.prems(1), of q] allocated_not_invalid [OF Cons.prems(1) q(2)] by auto
    let ?b = "buffer_pool_unpin_page b1 q False HINT_NORMAL"
    let ?c = "unat (ix_posting_count (P q))"
    let ?n = "min ?c (max_postings - length out)"
    let ?raw = "map (posting_at (P q)) [0..<?n]"
    have c: "?c \<le> 92" "0 < ?c" "length ps = ?c"
      using posting_page_count [OF nx(2)] by auto
    have nz: "ix_posting_count (P q) \<noteq> 0" using c(2) by (metis unat_0 less_irrefl)
    have raw: "map used_positions ?raw = take (max_postings - length out) ps"
      using nx(2) by (auto simp: posting_page_def page_postings_def take_map min_def)
    have "nx \<noteq> q" using Cons.prems(4) e nx(3) allocated_not_invalid [OF Cons.prems(1) q(2)]
      by (cases L) (auto simp: image_iff)
    moreover have "ix_next_posting_page (P q) = nx" using nx(2) by (simp add: posting_page_def)
    ultimately have step: "collect_postings next_page max_postings out cur b =
        collect_postings next_page max_postings (out @ ?raw) nx ?b"
      using True f c nz q nx(1) Cons.prems(2) allocated_not_invalid [OF Cons.prems(1) q(2)]
      by (subst collect_postings.simps) (simp add: Let_def word_le_nat_alt word_less_nat_alt)
    have len: "length (out @ ?raw) \<le> max_postings" using True by simp
    have rest_pages: "distinct (map fst L)" "\<forall>q \<in> fst ` set L. 3 \<le> unat q \<and> unat q < N"
      using Cons.prems(4,5) by simp_all
    obtain out' b' where rest: "collect_postings next_page max_postings (out @ ?raw) nx ?b = ((out @ ?raw) @ out', b')"
      "map used_positions out' = take (max_postings - length (out @ ?raw)) (concat (map snd L))" "bp_st N {} [] P b'"
      using Cons.IH [OF f(3) [of HINT_NORMAL] Cons.prems(2) nx(3) rest_pages len] by blast
    have "max_postings - length (out @ ?raw) = max_postings - length out - length ps"
      using c(3) by (simp add: min_def)
    then have "map used_positions (?raw @ out') = take (max_postings - length out) (concat (map snd (e # L)))"
      using raw rest(2) e by simp
    then show ?thesis using step rest(1,3) by (intro exI [of _ "?raw @ out'"] exI [of _ b']) simp
  qed
qed

section \<open>The index\<close>

text \<open>\<open>I t\<close> is the chain of the pages of term \<open>t\<close>: the B-tree \<open>M\<close> with pages \<open>F\<close> maps the term
  to its head, chains share no page with each other or with the tree, and no page is below 3.\<close>

definition index_rep ::
  "nat \<Rightarrow> (u32 \<Rightarrow> page) \<Rightarrow> (u64 \<rightharpoonup> u32 \<times> u16) \<Rightarrow> u32 set \<Rightarrow> (u32 \<Rightarrow> (u32 \<times> InvertedPosting list) list)
    \<Rightarrow> UnifiedShard \<Rightarrow> bool" where
  "index_rep N P M F I sh \<longleftrightarrow>
     btree_inv N P (us_btree_root sh) M F (us_store sh) \<and> 3 \<le> N \<and>
     (\<forall>t. case M (ucast t) of None \<Rightarrow> I t = [] | Some (q, _) \<Rightarrow> I t \<noteq> [] \<and> posting_chain P q (I t)) \<and>
     (\<forall>t. distinct (map fst (I t)) \<and> (\<forall>q \<in> fst ` set (I t). 3 \<le> unat q \<and> unat q < N \<and> q \<notin> F)) \<and>
     (\<forall>t t'. t \<noteq> t' \<longrightarrow> fst ` set (I t) \<inter> fst ` set (I t') = {})"

definition index_pages :: "u32 set \<Rightarrow> (u32 \<Rightarrow> (u32 \<times> InvertedPosting list) list) \<Rightarrow> u32 set" where
  "index_pages F I = F \<union> (\<Union>t. fst ` set (I t))"

definition index_inv ::
  "nat \<Rightarrow> (u32 \<Rightarrow> page) \<Rightarrow> (u32 \<Rightarrow> InvertedPosting list list) \<Rightarrow> u32 set \<Rightarrow> UnifiedShard \<Rightarrow> bool" where
  "index_inv N P B G sh \<longleftrightarrow>
     (\<exists>M F I. index_rep N P M F I sh \<and> B = (\<lambda>t. map snd (I t)) \<and> G = index_pages F I)"

lemma store_with [simp]:
  "us_store (with_bpm sh b) = (us_store sh)\<lparr>ps_bpm := b\<rparr>"
  "us_store (with_next_page sh n) = (us_store sh)\<lparr>ps_next_page_id := n\<rparr>"
  "us_btree_root (with_next_page sh n) = us_btree_root sh"
  "us_bpm (with_next_page sh n) = us_bpm sh"
  by (simp_all add: with_bpm_def with_next_page_def)

lemma index_rep_st: "index_rep N P M F I sh \<Longrightarrow> bp_st N {} [] P (us_bpm sh)"
  and index_rep_next: "index_rep N P M F I sh \<Longrightarrow> unat (us_next_page_id sh) = N"
  by (auto simp: index_rep_def btree_inv_st btree_inv_next)

lemma index_rep_term:
  assumes "index_rep N P M F I sh"
  shows "M (ucast t) = None \<Longrightarrow> I t = []" "M (ucast t) = Some (q, s) \<Longrightarrow> I t \<noteq> [] \<and> posting_chain P q (I t)"
    "distinct (map fst (I t))" "q \<in> fst ` set (I t) \<Longrightarrow> 3 \<le> unat q \<and> unat q < N \<and> q \<notin> F"
    "t \<noteq> t' \<Longrightarrow> fst ` set (I t) \<inter> fst ` set (I t') = {}"
proof -
  have "case M (ucast t) of None \<Rightarrow> I t = [] | Some (q, _) \<Rightarrow> I t \<noteq> [] \<and> posting_chain P q (I t)"
    using assms unfolding index_rep_def by blast
  then show "M (ucast t) = None \<Longrightarrow> I t = []" "M (ucast t) = Some (q, s) \<Longrightarrow> I t \<noteq> [] \<and> posting_chain P q (I t)"
    by simp_all
  show "distinct (map fst (I t))" "q \<in> fst ` set (I t) \<Longrightarrow> 3 \<le> unat q \<and> unat q < N \<and> q \<notin> F"
    "t \<noteq> t' \<Longrightarrow> fst ` set (I t) \<inter> fst ` set (I t') = {}"
    using assms unfolding index_rep_def by blast+
qed

text \<open>Replacing pages outside the tree keeps the tree, at its old or a larger size.\<close>

lemma tree_frame:
  assumes "btree_inv N P r M F s" "bp_st N' {} [] P' b" "N \<le> N'" "unat n = N'" "\<And>q. q \<in> F \<Longrightarrow> P' q = P q"
  shows "btree_inv N' P' r M F (s\<lparr>ps_next_page_id := n, ps_bpm := b\<rparr>)"
  using btree_inv_pages [OF assms] by (cases s) simp

lemma tree_frame_same:
  assumes "btree_inv N P r M F s" "bp_st N {} [] P' b" "\<And>q. q \<in> F \<Longrightarrow> P' q = P q"
  shows "btree_inv N P' r M F (s\<lparr>ps_bpm := b\<rparr>)"
  using btree_inv_pages [OF assms(1,2) _ btree_inv_next [OF assms(1)]] assms(3) by (cases s) simp

lemma index_rep_bpm: "index_rep N P M F I sh \<Longrightarrow> bp_st N {} [] P b \<Longrightarrow> index_rep N P M F I (with_bpm sh b)"
  by (auto simp: index_rep_def intro: tree_frame_same)

lemma get_postings_rep:
  assumes rep: "index_rep N P M F I sh"
  shows "\<exists>out b. inverted_index_get_postings sh t max_postings = Some (out, with_bpm sh b) \<and>
    map used_positions out = take max_postings (concat (map snd (I t))) \<and> bp_st N {} [] P b"
proof -
  obtain b1 where b1: "btree_search (us_btree_root sh) (ucast t) (us_bpm sh) = Some (M (ucast t), b1)"
    "btree_inv N P (us_btree_root sh) M F ((us_store sh)\<lparr>ps_bpm := b1\<rparr>)"
    using rep btree_search_map [of N P "us_btree_root sh" M F "us_store sh" "ucast t"] by (auto simp: index_rep_def)
  have st: "bp_st N {} [] P b1" using btree_inv_st [OF b1(2)] by simp
  show ?thesis
  proof (cases "M (ucast t)")
    case None
    then have "I t = []" using index_rep_term(1) [OF rep] by simp
    then show ?thesis using b1(1) st None by (auto simp: inverted_index_get_postings_def)
  next
    case (Some v)
    then obtain q s where v: "M (ucast t) = Some (q, s)" by (cases v) auto
    then have ch: "posting_chain P q (I t)" "distinct (map fst (I t))" "\<forall>q \<in> fst ` set (I t). 3 \<le> unat q \<and> unat q < N"
      using index_rep_term(2) [OF rep v] index_rep_term(3) [OF rep, of t] index_rep_term(4) [OF rep, of _ t] by blast+
    obtain out b' where "collect_postings (us_next_page_id sh) max_postings [] q b1 = ([] @ out, b')"
      "map used_positions out = take (max_postings - 0) (concat (map snd (I t)))" "bp_st N {} [] P b'"
      using collect_chain [OF st index_rep_next [OF rep] ch, of "[]" max_postings] by auto
    then show ?thesis using b1(1) v by (auto simp: inverted_index_get_postings_def)
  qed
qed

lemma alloc_posting_page_st:
  assumes st: "bp_st N {} ps P (us_bpm sh)" and len: "length ps < 4" and N: "unat (us_next_page_id sh) = N"
    "us_next_page_id sh \<notin> set ps" "N + 1 < 2 ^ 32"
  obtains p b where "alloc_posting_page t nx d dp ds pos sh =
      (Some (us_next_page_id sh), with_bpm (with_next_page sh (us_next_page_id sh + 1)) b)"
    "posting_page p nx [first_posting d dp ds pos]" "page_wf p"
    "bp_st (N + 1) {us_next_page_id sh} (us_next_page_id sh # ps) (P(us_next_page_id sh := p)) b"
proof -
  let ?n = "us_next_page_id sh"
  obtain f c p0 where f: "buffer_pool_fetch_page (snd (bp_write_zero (us_bpm sh) ?n)) ?n = (Some f, c)" "page_wf p0"
    "bp_st (N + 1) {?n} (?n # ps) (P(?n := p0)) c" "find_frame c ?n = Some f"
    using pool.alloc_st [OF st len N] by auto
  have fr: "frame_page c f = p0" using pool.frame_st [OF f(3) _ f(4)] by simp
  let ?p = "new_posting_page p0 t nx d dp ds pos"
  note pg = new_page_postings [OF f(2), of t nx d dp ds pos]
  have "bp_st (N + 1) {?n} (?n # ps) (P(?n := ?p)) (set_frame_page f ?p c)"
    using pool.update_st [OF f(3) _ f(4) pg(2)] by simp
  moreover obtain b0 where "bp_write_zero (us_bpm sh) ?n = (int PAGE_SIZE, b0)"
    using bp_write_zero_eq [where b = "us_bpm sh" and N = N and X = "{}"] st by (simp add: bp_st_def)
  ultimately show ?thesis
    using that [of "set_frame_page f ?p c" ?p] pg f(1) fr
    by (simp add: alloc_posting_page_def Let_def)
qed

section \<open>Adding a posting\<close>

text \<open>Rewriting the head page of a term's chain in place.\<close>

lemma index_rep_head:
  assumes rep: "index_rep N P M F I sh" and t: "I t = (q, ps) # L" and nx: "posting_page (P q) nx ps"
    and p: "posting_page p nx ps'" and st: "bp_st N {} [] (P(q := p)) b"
  shows "index_rep N (P(q := p)) M F (I(t := (q, ps') # L)) (with_bpm sh b)"
proof -
  have qF: "q \<notin> F" using index_rep_term(4) [OF rep, of q t] t by simp
  have "btree_inv N (P(q := p)) (us_btree_root sh) M F ((us_store sh)\<lparr>ps_bpm := b\<rparr>)"
    using rep st qF by (intro tree_frame_same [of N P]) (auto simp: index_rep_def)
  moreover have "case M (ucast t') of None \<Rightarrow> (I(t := (q, ps') # L)) t' = []
      | Some (h, _) \<Rightarrow> (I(t := (q, ps') # L)) t' \<noteq> [] \<and> posting_chain (P(q := p)) h ((I(t := (q, ps') # L)) t')" for t'
  proof (cases "M (ucast t')")
    case None
    then show ?thesis using index_rep_term(1) [OF rep None] t by auto
  next
    case (Some v)
    obtain h s where v: "v = (h, s)" by (cases v)
    note ch = index_rep_term(2) [OF rep Some [unfolded v]]
    show ?thesis
    proof (cases "t' = t")
      case True
      have "q \<notin> fst ` set L" using index_rep_term(3) [OF rep, of t] t by simp
      then show ?thesis using ch Some v True t p nx by (auto simp: posting_chain_upd posting_page_def)
    next
      case False
      then have "q \<notin> fst ` set (I t')" using index_rep_term(5) [OF rep, of t t'] t by auto
      then show ?thesis using ch Some v False by (simp add: posting_chain_upd)
    qed
  qed
  moreover have "fst ` set ((I(t := (q, ps') # L)) t') = fst ` set (I t')"
    "map fst ((I(t := (q, ps') # L)) t') = map fst (I t')" for t'
    using t by auto
  ultimately show ?thesis
    using rep by (simp add: index_rep_def)
qed

text \<open>A new head page in front of a term's chain, which may be empty.\<close>

lemma ucast_u64_inj: "(ucast (t :: u32) :: u64) = ucast t' \<longleftrightarrow> t = t'"
proof
  have "unat (ucast x :: u64) = unat x" for x :: u32
    using unat_u32_less [of x] by (simp add: unsigned_ucast_eq take_bit_nat_eq_self)
  moreover assume "(ucast t :: u64) = ucast t'"
  ultimately show "t = t'" by (metis word_unat_eq_iff)
qed simp

lemma index_rep_cons:
  assumes rep: "index_rep N P M F I sh" and root: "us_btree_root sh' = us_btree_root sh"
    and bt: "btree_inv N' P' (us_btree_root sh) (M(ucast t \<mapsto> (n, s))) F' (us_store sh')"
    and n: "unat n = N" "N < N'" "n \<notin> F'" and pg: "posting_page (P' n) nx ps" and nx: "posting_chain P nx (I t)"
    and same: "\<And>q. unat q < N \<Longrightarrow> q \<notin> F \<Longrightarrow> q \<notin> F' \<and> P' q = P q"
  shows "index_rep N' P' (M(ucast t \<mapsto> (n, s))) F' (I(t := (n, ps) # I t)) sh'"
proof -
  let ?I = "I(t := (n, ps) # I t)"
  note old = index_rep_term(4) [OF rep]
  have keep: "posting_chain P' h (I t') = posting_chain P h (I t')" for h t'
    by (rule posting_chain_cong) (use old same in blast)
  have ch: "case (M(ucast t \<mapsto> (n, s))) (ucast t') of None \<Rightarrow> ?I t' = []
      | Some (h, _) \<Rightarrow> ?I t' \<noteq> [] \<and> posting_chain P' h (?I t')" for t'
  proof (cases "t' = t")
    case True
    then show ?thesis using pg nx by (auto simp: keep)
  next
    case False
    then show ?thesis
      using index_rep_term(1,2) [OF rep, of t'] by (auto simp: keep ucast_u64_inj split: option.split)
  qed
  have fresh: "n \<notin> fst ` set (I t')" for t' using old [of n t'] n(1) by auto
  have "distinct (map fst (?I t')) \<and> (\<forall>q \<in> fst ` set (?I t'). 3 \<le> unat q \<and> unat q < N' \<and> q \<notin> F')" for t'
  proof -
    have "3 \<le> N" using rep by (simp add: index_rep_def)
    moreover have "\<forall>q \<in> fst ` set (I t'). 3 \<le> unat q \<and> unat q < N' \<and> q \<notin> F'" for t'
      using old [of _ t'] same n(2) by fastforce
    ultimately show ?thesis
      using index_rep_term(3) [OF rep] fresh n by (auto simp: image_iff)
  qed
  moreover have "fst ` set (?I t1) \<inter> fst ` set (?I t2) = {}" if "t1 \<noteq> t2" for t1 t2
    using index_rep_term(5) [OF rep that] fresh that by auto
  moreover have "3 \<le> N'" using rep n(2) by (simp add: index_rep_def)
  ultimately show ?thesis
    unfolding index_rep_def root using bt ch by blast
qed

text \<open>What one call of \<open>inverted_index_add_posting\<close> establishes.\<close>

definition posting_added ::
  "nat \<Rightarrow> (u32 \<Rightarrow> page) \<Rightarrow> u32 set \<Rightarrow> (u32 \<Rightarrow> (u32 \<times> InvertedPosting list) list) \<Rightarrow> UnifiedShard
    \<Rightarrow> u32 \<Rightarrow> InvertedPosting list list \<Rightarrow> UnifiedShard \<Rightarrow> bool" where
  "posting_added N P F I sh t blocks sh' \<longleftrightarrow>
     (\<exists>N' P' M' F' I'. index_rep N' P' M' F' I' sh' \<and> map snd (I' t) = blocks \<and> (\<forall>t'. t' \<noteq> t \<longrightarrow> I' t' = I t') \<and>
        N \<le> N' \<and> N' \<le> N + 2 \<and> sh' = sh\<lparr>us_store := us_store sh'\<rparr> \<and>
        (\<forall>q. unat q < N \<and> q \<notin> index_pages F I \<longrightarrow> q \<notin> index_pages F' I' \<and> P' q = P q) \<and>
        takes_new_pages N (index_pages F I) N' (index_pages F' I'))"

lemma posting_addedI:
  assumes "index_rep N' P' M' F' I' sh'" "map snd (I' t) = blocks" "\<And>t'. t' \<noteq> t \<Longrightarrow> I' t' = I t'"
    "N \<le> N'" "N' \<le> N + 2" "sh' = sh\<lparr>us_store := us_store sh'\<rparr>"
    "\<And>q. unat q < N \<Longrightarrow> q \<notin> index_pages F I \<Longrightarrow> q \<notin> index_pages F' I' \<and> P' q = P q"
    "takes_new_pages N (index_pages F I) N' (index_pages F' I')"
  shows "posting_added N P F I sh t blocks sh'"
  unfolding posting_added_def using assms by blast

lemma store_only [simp]:
  "(with_bpm sh b)\<lparr>us_store := s\<rparr> = sh\<lparr>us_store := s\<rparr>" "(with_next_page sh n)\<lparr>us_store := s\<rparr> = sh\<lparr>us_store := s\<rparr>"
  "us_btree_root (sh\<lparr>us_store := s\<rparr>) = us_btree_root sh"
  by (simp_all add: with_bpm_def with_next_page_def)

lemma with_next_bpm: "with_next_page (with_bpm sh b) n = with_bpm (with_next_page sh n) b"
  by (simp add: with_bpm_def with_next_page_def)

lemma with_bpm_store: "with_bpm sh b = sh\<lparr>us_store := us_store (with_bpm sh b)\<rparr>"
  "with_next_page sh n = sh\<lparr>us_store := us_store (with_next_page sh n)\<rparr>"
  by (simp_all add: with_bpm_def with_next_page_def)

lemma index_pages_head:
  assumes "I t = (q, ps) # L"
  shows "index_pages F (I(t := (q, ps') # L)) = index_pages F I"
proof -
  have "fst ` set ((I(t := (q, ps') # L)) t') = fst ` set (I t')" for t'
    using assms by (cases "t' = t") simp_all
  then show ?thesis by (simp only: index_pages_def)
qed

lemma index_pages_cons: "index_pages F (I(t := (n, ps) # I t)) = insert n (index_pages F I)"
proof -
  have "fst ` set ((I(t := (n, ps) # I t)) t') = (if t' = t then {n} else {}) \<union> fst ` set (I t')" for t'
    by (cases "t' = t") simp_all
  then have "(\<Union>t'. fst ` set ((I(t := (n, ps) # I t)) t')) = insert n (\<Union>t'. fst ` set (I t'))"
    by (simp only: SUP_union [symmetric] UN_Un_distrib) (auto split: if_splits)
  then show ?thesis by (simp only: index_pages_def Un_insert_right)
qed

lemma in_index_pages: "q \<in> index_pages F I \<longleftrightarrow> q \<in> F \<or> (\<exists>t. q \<in> fst ` set (I t))"
  by (simp only: index_pages_def Un_iff UN_iff bex_UNIV)

lemma added_in_place:
  assumes rep: "index_rep N P M F I sh" and t: "I t = (q, ps) # L" and nx: "posting_page (P q) nx ps"
    and p: "posting_page p nx ps'" "page_wf p" and b: "bp_st N {} [q] P b" "find_frame b q = Some f"
  shows "posting_added N P F I sh t (ps' # map snd L)
    (with_bpm sh (buffer_pool_unpin_page (set_frame_page f p b) q True h))"
proof -
  let ?b = "buffer_pool_unpin_page (set_frame_page f p b) q True h"
  have "q \<in> fst ` set (I t)" using t by simp
  then have q: "unat q < N" "q \<in> index_pages F I"
    using index_rep_term(4) [OF rep, of q t] in_index_pages [of q F I] by blast+
  have "bp_st N {} [] (P(q := p)) ?b"
    using pool.unpin_dirty_st [of N "{q}" "[q]" "P(q := p)" "set_frame_page f p b" q h]
      pool.update_st [OF b(1) _ b(2) p(2)] q(1) by simp
  note new = index_rep_head [OF rep t nx p(1) this]
  show ?thesis
    by (rule posting_addedI [OF new])
      (use q t in \<open>auto simp: index_pages_head [of I t q ps L, OF t] with_bpm_def\<close>)
qed

text \<open>A new posting page: allocating it, and the term tree beside it.\<close>

lemma alloc_with_pool:
  assumes st: "bp_st N {} ps P b" and len: "length ps < 4" and n: "unat (us_next_page_id sh) = N"
    and new: "us_next_page_id sh \<notin> set ps" and N: "N + 1 < 2 ^ 32"
  defines "n \<equiv> us_next_page_id sh"
  obtains p b1 where "alloc_posting_page t nx d dp ds pos (with_bpm sh b) = (Some n, with_bpm (with_next_page sh (n + 1)) b1)"
    "posting_page p nx [first_posting d dp ds pos]" "bp_st (N + 1) {n} (n # ps) (P(n := p)) b1"
proof -
  have sh: "us_bpm (with_bpm sh b) = b" "us_next_page_id (with_bpm sh b) = n" by (simp_all add: n_def)
  show ?thesis
    by (rule alloc_posting_page_st [of N ps P "with_bpm sh b" t nx d dp ds pos, unfolded sh, OF st len n [folded n_def] new [folded n_def] N])
      (rule that, simp_all add: with_next_bpm)
qed

lemma tree_beside_new_page:
  assumes rep: "index_rep N P M F I sh" and N: "N + 1 < 2 ^ 32"
    and st: "bp_st (N + 1) {} [] (P(us_next_page_id sh := p)) b"
  defines "n \<equiv> us_next_page_id sh"
  shows "btree_inv (N + 1) (P(n := p)) (us_btree_root sh) M F ((us_store sh)\<lparr>ps_next_page_id := n + 1, ps_bpm := b\<rparr>)"
    and "n \<notin> F"
proof -
  have n: "unat n = N" using index_rep_next [OF rep] by (simp add: n_def)
  have n1: "unat (n + 1) = N + 1" using n N by (simp add: unat_word_ariths)
  have bt: "btree_inv N P (us_btree_root sh) M F (us_store sh)" using rep by (simp add: index_rep_def)
  have F: "q \<in> F \<Longrightarrow> unat q < N" for q using btree_inv_pages_less [OF bt] .
  then show "n \<notin> F" using n by blast
  show "btree_inv (N + 1) (P(n := p)) (us_btree_root sh) M F ((us_store sh)\<lparr>ps_next_page_id := n + 1, ps_bpm := b\<rparr>)"
    by (rule tree_frame [OF bt st [folded n_def] _ n1]) (use n F in auto)
qed

lemma added_new_block:
  assumes rep: "index_rep N P M F I sh" and t: "I t = (q, ps) # L" and N: "N + 2 < 2 ^ 32"
    and b: "bp_st N {} [q] P b" and ch: "posting_chain P q (I t)" and M: "M (ucast t) \<noteq> None"
  shows "\<exists>n b1 b2 r. alloc_posting_page t q d dp ds pos (with_bpm sh b) = (Some n, with_bpm (with_next_page sh (n + 1)) b1) \<and>
    btree_update (us_btree_root sh) (ucast t) n 0
      (buffer_pool_unpin_page (buffer_pool_unpin_page b1 q False HINT_NORMAL) n True HINT_NORMAL) = Some (r, b2) \<and>
    posting_added N P F I sh t ([first_posting d dp ds pos] # map snd (I t)) (with_bpm (with_next_page sh (n + 1)) b2)"
proof -
  let ?n = "us_next_page_id sh" and ?r = "us_btree_root sh"
  have n: "unat ?n = N" by (rule index_rep_next [OF rep])
  have q: "unat q < N" "q \<notin> F" using index_rep_term(4) [OF rep, of q t] t by auto
  then have qn: "q \<noteq> ?n" using n by auto
  have N1: "N + 1 < 2 ^ 32" using N by simp
  obtain p b1 where a: "alloc_posting_page t q d dp ds pos (with_bpm sh b) = (Some ?n, with_bpm (with_next_page sh (?n + 1)) b1)"
    "posting_page p q [first_posting d dp ds pos]" "bp_st (N + 1) {?n} [?n, q] (P(?n := p)) b1"
    by (rule alloc_with_pool [OF b _ n _ N1, of t q d dp ds pos]) (use qn in simp_all)
  let ?b = "buffer_pool_unpin_page (buffer_pool_unpin_page b1 q False HINT_NORMAL) ?n True HINT_NORMAL"
  have "bp_st (N + 1) {?n} [?n] (P(?n := p)) (buffer_pool_unpin_page b1 q False HINT_NORMAL)"
    using pool.unpin_clean_st [OF a(3), of q HINT_NORMAL] qn by simp
  then have b': "bp_st (N + 1) {} [] (P(?n := p)) ?b"
    using pool.unpin_dirty_st [of "N + 1" "{?n}" "[?n]" "P(?n := p)" _ ?n HINT_NORMAL] n by simp
  note bt = tree_beside_new_page [OF rep N1 b'] and nF = tree_beside_new_page(2) [OF rep N1 b']
  from btree_update_map [OF bt(1), of "ucast t" ?n 0] M obtain b2 P' where u:
    "btree_update ?r (ucast t) ?n 0 ?b = Some (True, b2)"
    "btree_inv (N + 1) P' ?r (M(ucast t \<mapsto> (?n, 0))) F ((us_store sh)\<lparr>ps_next_page_id := ?n + 1, ps_bpm := b2\<rparr>)"
    "\<And>q. q \<notin> F \<Longrightarrow> P' q = (P(?n := p)) q"
    by auto
  let ?sh = "with_bpm (with_next_page sh (?n + 1)) b2"
  have "index_rep (N + 1) P' (M(ucast t \<mapsto> (?n, 0))) F (I(t := (?n, [first_posting d dp ds pos]) # I t)) ?sh"
  proof (rule index_rep_cons [OF rep _ _ n _ nF])
    show "btree_inv (N + 1) P' ?r (M(ucast t \<mapsto> (?n, 0))) F (us_store ?sh)" using u(2) by (simp add: with_bpm_def with_next_page_def)
    show "posting_page (P' ?n) q [first_posting d dp ds pos]" using u(3) [OF nF] a(2) by simp
    show "q' \<notin> F \<and> P' q' = P q'" if "unat q' < N" "q' \<notin> F" for q' using that u(3) [of q'] n by auto
  qed (simp_all add: ch with_bpm_def with_next_page_def)
  then have "posting_added N P F I sh t ([first_posting d dp ds pos] # map snd (I t)) ?sh"
  proof (rule posting_addedI)
    fix q' :: u32
    assume q': "unat q' < N" "q' \<notin> index_pages F I"
    then have "q' \<noteq> ?n" "q' \<notin> F" using n by (auto simp: index_pages_def)
    then show "q' \<notin> index_pages F (I(t := (?n, [first_posting d dp ds pos]) # I t)) \<and> P' q' = P q'"
      using q' u(3) by (simp add: index_pages_cons)
  next
    show "takes_new_pages N (index_pages F I) (N + 1) (index_pages F (I(t := (?n, [first_posting d dp ds pos]) # I t)))"
      by (simp add: index_pages_cons flip: n)
  qed (simp_all add: with_bpm_def with_next_page_def)
  then show ?thesis using a(1) u(1) by blast
qed

lemma added_first_block:
  assumes rep: "index_rep N P M F I sh" and b: "btree_inv N P (us_btree_root sh) M F ((us_store sh)\<lparr>ps_bpm := b\<rparr>)"
    and M: "M (ucast t) = None" and N: "N + 2 < 2 ^ 32"
  shows "\<exists>n b1 s. alloc_posting_page t INVALID_PAGE_ID d dp ds pos (with_bpm sh b) =
      (Some n, with_bpm (with_next_page sh (n + 1)) b1) \<and>
    btree_insert (us_btree_root sh) (ucast t) n 0 0
      (us_store (with_bpm (with_next_page sh (n + 1)) (buffer_pool_unpin_page b1 n True HINT_NORMAL))) = Some (True, s) \<and>
    posting_added N P F I sh t [[first_posting d dp ds pos]] (sh\<lparr>us_store := s\<rparr>)"
proof -
  let ?n = "us_next_page_id sh" and ?r = "us_btree_root sh"
  have n: "unat ?n = N" by (rule index_rep_next [OF rep])
  have N1: "N + 1 < 2 ^ 32" using N by simp
  have st: "bp_st N {} [] P b" using btree_inv_st [OF b] by simp
  obtain p b1 where a: "alloc_posting_page t INVALID_PAGE_ID d dp ds pos (with_bpm sh b) =
      (Some ?n, with_bpm (with_next_page sh (?n + 1)) b1)"
    "posting_page p INVALID_PAGE_ID [first_posting d dp ds pos]" "bp_st (N + 1) {?n} [?n] (P(?n := p)) b1"
    by (rule alloc_with_pool [OF st _ n _ N1, of t INVALID_PAGE_ID d dp ds pos]) simp_all
  let ?b = "buffer_pool_unpin_page b1 ?n True HINT_NORMAL"
  let ?s = "us_store (with_bpm (with_next_page sh (?n + 1)) ?b)"
  have b': "bp_st (N + 1) {} [] (P(?n := p)) ?b"
    using pool.unpin_dirty_st [OF a(3), of ?n HINT_NORMAL] n by simp
  note bt = tree_beside_new_page [OF rep N1 b'] and nF = tree_beside_new_page(2) [OF rep N1 b']
  have "btree_inv (N + 1) (P(?n := p)) ?r M F ?s" using bt(1) by simp
  from btree_insert_pages [OF this M, of ?n 0 0] N obtain s' N' P' F' where u:
    "btree_insert ?r (ucast t) ?n 0 0 ?s = Some (True, s')" "btree_inv N' P' ?r (M(ucast t \<mapsto> (?n, 0))) F' s'"
    "N + 1 \<le> N'" "N' \<le> N + 2" "F \<subseteq> F'"
    "\<And>q. unat q < N + 1 \<Longrightarrow> q \<notin> F \<Longrightarrow> q \<notin> F' \<and> P' q = (P(?n := p)) q"
    and grow: "takes_new_pages (N + 1) F N' F'"
    by auto
  let ?sh = "sh\<lparr>us_store := s'\<rparr>"
  have new: "?n \<notin> F'" "P' ?n = p" using u(6) [of ?n] nF n by simp_all
  have I: "I t = []" using index_rep_term(1) [OF rep M] .
  have "index_rep N' P' (M(ucast t \<mapsto> (?n, 0))) F' (I(t := (?n, [first_posting d dp ds pos]) # I t)) ?sh"
  proof (rule index_rep_cons [OF rep _ _ n _ new(1)])
    show "btree_inv N' P' ?r (M(ucast t \<mapsto> (?n, 0))) F' (us_store ?sh)" using u(2) by simp
    show "posting_page (P' ?n) INVALID_PAGE_ID [first_posting d dp ds pos]" using new(2) a(2) by simp
    show "q' \<notin> F' \<and> P' q' = P q'" if "unat q' < N" "q' \<notin> F" for q' using that u(6) [of q'] n by auto
  qed (use u(3) I in simp_all)
  then have "posting_added N P F I sh t ([first_posting d dp ds pos] # map snd (I t)) ?sh"
  proof (rule posting_addedI)
    fix q' :: u32
    assume q': "unat q' < N" "q' \<notin> index_pages F I"
    then have "q' \<noteq> ?n" "q' \<notin> F" using n by (auto simp: index_pages_def)
    then show "q' \<notin> index_pages F' (I(t := (?n, [first_posting d dp ds pos]) # I t)) \<and> P' q' = P q'"
      using q' u(6) [of q'] by (auto simp: index_pages_cons in_index_pages)
  next
    show "takes_new_pages N (index_pages F I) N' (index_pages F' (I(t := (?n, [first_posting d dp ds pos]) # I t)))"
      using grow by (auto simp: takes_new_pages_def index_pages_cons in_index_pages less_Suc_eq word_unat_eq_iff n)
  qed (use u(3,4) in simp_all)
  then show ?thesis using a(1) u(1) I by (metis list.map(1))
qed

lemma add_posting_rep:
  assumes rep: "index_rep N P M F I sh" and N: "N + 2 < 2 ^ 32"
  shows "\<exists>sh'. inverted_index_add_posting sh t d dp ds pos = Some (0, sh') \<and>
    posting_added N P F I sh t (add_to_blocks d dp ds pos (map snd (I t))) sh'"
proof -
  let ?r = "us_btree_root sh"
  obtain b1 where b1: "btree_search ?r (ucast t) (us_bpm sh) = Some (M (ucast t), b1)"
    "btree_inv N P ?r M F ((us_store sh)\<lparr>ps_bpm := b1\<rparr>)"
    using rep btree_search_map [of N P ?r M F "us_store sh" "ucast t"] by (auto simp: index_rep_def)
  show ?thesis
  proof (cases "M (ucast t)")
    case None
    obtain n b s where "alloc_posting_page t INVALID_PAGE_ID d dp ds pos (with_bpm sh b1) =
        (Some n, with_bpm (with_next_page sh (n + 1)) b)"
      "btree_insert ?r (ucast t) n 0 0
        (us_store (with_bpm (with_next_page sh (n + 1)) (buffer_pool_unpin_page b n True HINT_NORMAL))) = Some (True, s)"
      "posting_added N P F I sh t [[first_posting d dp ds pos]] (sh\<lparr>us_store := s\<rparr>)"
      using added_first_block [OF rep b1(2) None N] by blast
    then show ?thesis
      using b1(1) None index_rep_term(1) [OF rep None]
      by (simp add: inverted_index_add_posting_def Let_def del: store_with(1,2))
  next
    case (Some v)
    then obtain q s where v: "M (ucast t) = Some (q, s)" by (cases v) auto
    obtain q' ps L where t': "I t = (q', ps) # L" "posting_chain P q (I t)"
      using index_rep_term(2) [OF rep v] by (cases "I t") auto
    then have t: "I t = (q, ps) # L" by simp
    obtain nx where nx: "posting_page (P q) nx ps" using t' by auto
    have q: "unat q < N" using index_rep_term(4) [OF rep, of q t] t by simp
    have st: "bp_st N {} [] P b1" using btree_inv_st [OF b1(2)] by simp
    obtain f b where f: "buffer_pool_fetch_page b1 q = (Some f, b)" "bp_st N {} [q] P b" "find_frame b q = Some f"
      using pool.fetch_st [OF st _ allocated_not_invalid [OF st q]] by auto
    have fr: "frame_page b f = P q" using pool.frame_st [OF f(2) _ f(3)] by simp
    have wf: "page_wf (P q)" by (rule pool.page_st [OF st])
    note in_place = added_in_place [OF rep t nx _ _ f(2,3)]
    consider (pos) "ip_doc_id (last ps) = d" | (room) "ip_doc_id (last ps) \<noteq> d" "length ps < 92"
      | (full) "ip_doc_id (last ps) \<noteq> d" "\<not> length ps < 92" by blast
    then show ?thesis
    proof cases
      case pos
      then show ?thesis
        using in_place [OF append_position_page [OF nx wf]] b1(1) v f(1) fr t last_is_doc_iff [OF nx]
        by (simp add: inverted_index_add_posting_def Let_def)
    next
      case room
      then show ?thesis
        using in_place [OF append_posting_page [OF nx _ wf]] b1(1) v f(1) fr t last_is_doc_iff [OF nx] posting_page_count(3) [OF nx]
        by (simp add: inverted_index_add_posting_def Let_def)
    next
      case full
      obtain n c1 c2 r where "alloc_posting_page t q d dp ds pos (with_bpm sh b) = (Some n, with_bpm (with_next_page sh (n + 1)) c1)"
        "btree_update ?r (ucast t) n 0
          (buffer_pool_unpin_page (buffer_pool_unpin_page c1 q False HINT_NORMAL) n True HINT_NORMAL) = Some (r, c2)"
        "posting_added N P F I sh t ([first_posting d dp ds pos] # map snd (I t)) (with_bpm (with_next_page sh (n + 1)) c2)"
        using added_new_block [OF rep t N f(2) t'(2)] v by blast
      then show ?thesis
        using full b1(1) v f(1) fr t last_is_doc_iff [OF nx] posting_page_count(3) [OF nx]
        by (simp add: inverted_index_add_posting_def Let_def)
    qed
  qed
qed

section \<open>The index as a component\<close>

text \<open>What a client of the index relies on: \<open>inv N P B G s\<close> says that the index holds the blocks
  \<open>B t\<close> for term \<open>t\<close> in the pages \<open>G\<close>; adding changes the term's blocks only, allocates at most
  two pages and leaves the pages outside \<open>G\<close> alone, and reading returns the blocks' postings.\<close>

fun run_adds :: "(u32 \<Rightarrow> u32 \<Rightarrow> 's \<Rightarrow> (int \<times> 's) option) \<Rightarrow> u32 list \<Rightarrow> u32 \<Rightarrow> 's \<Rightarrow> 's option" where
  "run_adds add [] i s = Some s"
| "run_adds add (t # ts) i s = (case add t i s of None \<Rightarrow> None | Some (_, s) \<Rightarrow> run_adds add ts (i + 1) s)"

fun add_terms :: "(u32 \<Rightarrow> 'b \<Rightarrow> 'b) \<Rightarrow> u32 list \<Rightarrow> u32 \<Rightarrow> (u32 \<Rightarrow> 'b) \<Rightarrow> (u32 \<Rightarrow> 'b)" where
  "add_terms put [] i B = B"
| "add_terms put (t # ts) i B = add_terms put ts (i + 1) (B(t := put i (B t)))"

locale posting_index =
  fixes add :: "u32 \<Rightarrow> u32 \<Rightarrow> u16 \<Rightarrow> u32 \<Rightarrow> u32 \<Rightarrow> 's \<Rightarrow> (int \<times> 's) option"
    and get :: "u32 \<Rightarrow> nat \<Rightarrow> 's \<Rightarrow> (InvertedPosting list \<times> 's) option"
    and inv :: "nat \<Rightarrow> (u32 \<Rightarrow> page) \<Rightarrow> (u32 \<Rightarrow> InvertedPosting list list) \<Rightarrow> u32 set \<Rightarrow> 's \<Rightarrow> bool"
  assumes add_inv: "inv N P B G s \<Longrightarrow> N + 2 < 2 ^ 32 \<Longrightarrow>
      \<exists>s' N' P' G'. add d page slot t i s = Some (0, s') \<and>
        inv N' P' (B(t := add_to_blocks d page slot i (B t))) G' s' \<and> N \<le> N' \<and> N' \<le> N + 2 \<and>
        (\<forall>q. unat q < N \<and> q \<notin> G \<longrightarrow> q \<notin> G' \<and> P' q = P q) \<and> takes_new_pages N G N' G'"
    and get_inv: "inv N P B G s \<Longrightarrow>
      \<exists>out s'. get t m s = Some (out, s') \<and> map used_positions out = take m (concat (B t)) \<and> inv N P B G s'"
    and blocks_filled: "inv N P B G s \<Longrightarrow> ps \<in> set (B t) \<Longrightarrow> ps \<noteq> []"
begin

text \<open>Adding the terms of a document, with consecutive positions.\<close>

lemma run_adds_inv:
  assumes "inv N P B G s" "N + 2 * length ts < 2 ^ 32"
  shows "\<exists>s' N' P' G'. run_adds (add d page slot) ts i s = Some s' \<and>
    inv N' P' (add_terms (add_to_blocks d page slot) ts i B) G' s' \<and> N \<le> N' \<and> N' \<le> N + 2 * length ts \<and>
    (\<forall>q. unat q < N \<and> q \<notin> G \<longrightarrow> q \<notin> G' \<and> P' q = P q) \<and> takes_new_pages N G N' G'"
  using assms
proof (induction ts arbitrary: N P B G s i)
  case Nil
  then show ?case using takes_new_pages_refl by force
next
  case (Cons t ts)
  have N: "N + 2 < 2 ^ 32" using Cons.prems(2) by simp
  obtain s1 N1 P1 G1 where s1: "add d page slot t i s = Some (0, s1)"
    "inv N1 P1 (B(t := add_to_blocks d page slot i (B t))) G1 s1" "N \<le> N1" "N1 \<le> N + 2"
    "\<forall>q. unat q < N \<and> q \<notin> G \<longrightarrow> q \<notin> G1 \<and> P1 q = P q" "takes_new_pages N G N1 G1"
    using add_inv [OF Cons.prems(1) N, of d page slot t i] by blast
  have "N1 + 2 * length ts < 2 ^ 32" using Cons.prems(2) s1(4) by simp
  then obtain s2 N2 P2 G2 where s2: "run_adds (add d page slot) ts (i + 1) s1 = Some s2"
    "inv N2 P2 (add_terms (add_to_blocks d page slot) ts (i + 1) (B(t := add_to_blocks d page slot i (B t)))) G2 s2"
    "N1 \<le> N2" "N2 \<le> N1 + 2 * length ts" "\<forall>q. unat q < N1 \<and> q \<notin> G1 \<longrightarrow> q \<notin> G2 \<and> P2 q = P1 q"
    "takes_new_pages N1 G1 N2 G2"
    using Cons.IH [OF s1(2), of "i + 1"] by blast
  show ?case
  proof (intro exI conjI)
    show "run_adds (add d page slot) (t # ts) i s = Some s2" using s1(1) s2(1) by simp
    show "inv N2 P2 (add_terms (add_to_blocks d page slot) (t # ts) i B) G2 s2" using s2(2) by simp
    show "\<forall>q. unat q < N \<and> q \<notin> G \<longrightarrow> q \<notin> G2 \<and> P2 q = P q" using s1(3,5) s2(5) by fastforce
    show "takes_new_pages N G N2 G2" using s1(6) s2(6) by (rule takes_new_pages_trans)
  qed (use s1(3,4) s2(3,4) in simp_all)
qed

text \<open>What is read after the additions.\<close>

lemma get_after_adds:
  assumes "inv N P B G s" "N + 2 * length ts < 2 ^ 32"
  shows "\<exists>s1. run_adds (add d page slot) ts i s = Some s1 \<and>
    (\<forall>t m. \<exists>out s2. get t m s1 = Some (out, s2) \<and>
      map used_positions out = take m (concat (add_terms (add_to_blocks d page slot) ts i B t)))"
  using run_adds_inv [OF assms] get_inv by meson

end

text \<open>The code's index provides it, with the rest of the shard unchanged.\<close>

lemma index_blocks_filled:
  assumes "index_rep N P M F I sh" "ps \<in> set (map snd (I t))"
  shows "ps \<noteq> []"
proof -
  have "posting_chain P h L \<Longrightarrow> ps \<in> set (map snd L) \<Longrightarrow> ps \<noteq> []" for h L
    by (induction P h L rule: posting_chain.induct) (auto simp: posting_page_def)
  then show ?thesis using index_rep_term(1,2) [OF assms(1), of t] assms(2)
    by (cases "M (ucast t)") auto
qed

interpretation index: posting_index
  "\<lambda>d page slot t i sh. inverted_index_add_posting sh t d page slot i"
  "\<lambda>t m sh. inverted_index_get_postings sh t m"
  "\<lambda>N P B G sh. index_inv N P B G sh \<and> sh0 = sh\<lparr>us_store := us_store sh0\<rparr>" for sh0
proof unfold_locales
  fix N P B G sh d page slot t i
  assume inv: "index_inv N P B G sh \<and> sh0 = sh\<lparr>us_store := us_store sh0\<rparr>" and N: "N + 2 < (2 :: nat) ^ 32"
  obtain M F I where rep: "index_rep N P M F I sh" "B = (\<lambda>t. map snd (I t))" "G = index_pages F I"
    using inv by (auto simp: index_inv_def)
  obtain sh' where sh': "inverted_index_add_posting sh t d page slot i = Some (0, sh')"
    "posting_added N P F I sh t (add_to_blocks d page slot i (B t)) sh'"
    using add_posting_rep [OF rep(1) N] rep(2) by blast
  then obtain N' P' M' F' I' where new: "index_rep N' P' M' F' I' sh'"
    "map snd (I' t) = add_to_blocks d page slot i (B t)" "\<And>t'. t' \<noteq> t \<Longrightarrow> I' t' = I t'" "N \<le> N'" "N' \<le> N + 2"
    "sh' = sh\<lparr>us_store := us_store sh'\<rparr>"
    "\<forall>q. unat q < N \<and> q \<notin> G \<longrightarrow> q \<notin> index_pages F' I' \<and> P' q = P q" "takes_new_pages N G N' (index_pages F' I')"
    unfolding posting_added_def rep(3) by blast
  have "(\<lambda>t. map snd (I' t)) = B(t := add_to_blocks d page slot i (B t))"
    using new(2,3) rep(2) by (auto simp: fun_eq_iff)
  then have "index_inv N' P' (B(t := add_to_blocks d page slot i (B t))) (index_pages F' I') sh'"
    using new(1) by (metis index_inv_def)
  moreover have "sh0 = sh'\<lparr>us_store := us_store sh0\<rparr>" using inv new(6)
    by (metis UnifiedShard.surjective UnifiedShard.update_convs(2))
  ultimately show "\<exists>s' N' P' G'. inverted_index_add_posting sh t d page slot i = Some (0, s') \<and>
      (index_inv N' P' (B(t := add_to_blocks d page slot i (B t))) G' s' \<and> sh0 = s'\<lparr>us_store := us_store sh0\<rparr>) \<and>
      N \<le> N' \<and> N' \<le> N + 2 \<and> (\<forall>q. unat q < N \<and> q \<notin> G \<longrightarrow> q \<notin> G' \<and> P' q = P q) \<and> takes_new_pages N G N' G'"
    using sh'(1) new(4,5,7,8) by blast
next
  fix N P B G sh t m
  assume inv: "index_inv N P B G sh \<and> sh0 = sh\<lparr>us_store := us_store sh0\<rparr>"
  obtain M F I where rep: "index_rep N P M F I sh" "B = (\<lambda>t. map snd (I t))" "G = index_pages F I"
    using inv by (auto simp: index_inv_def)
  obtain out b where g: "inverted_index_get_postings sh t m = Some (out, with_bpm sh b)"
    "map used_positions out = take m (concat (B t))" "bp_st N {} [] P b"
    using get_postings_rep [OF rep(1), of t m] rep(2) by auto
  have "index_inv N P B G (with_bpm sh b)"
    using index_rep_bpm [OF rep(1) g(3)] rep(2,3) unfolding index_inv_def by blast
  moreover have "sh0 = (with_bpm sh b)\<lparr>us_store := us_store sh0\<rparr>" using inv by (simp only: store_only)
  ultimately show "\<exists>out s'. inverted_index_get_postings sh t m = Some (out, s') \<and>
      map used_positions out = take m (concat (B t)) \<and> index_inv N P B G s' \<and> sh0 = s'\<lparr>us_store := us_store sh0\<rparr>"
    using g(1,2) by blast
next
  fix N P B G sh ps t
  assume "index_inv N P B G sh \<and> sh0 = sh\<lparr>us_store := us_store sh0\<rparr>" "ps \<in> set (B t)"
  then show "ps \<noteq> []" unfolding index_inv_def by (metis index_blocks_filled)
qed

end
