(* ===== verification/RecordStore.thy ===== *)
theory RecordStore
  imports UnifiedShard ShardSearch
begin

text \<open>
  The document records of a shard: the packed struct and back, the records a data page holds,
  and \<open>store_record\<close>, which appends a record to the active data page or starts a new one.
\<close>

section \<open>The packed record\<close>

definition record_wf :: "UnifiedDocRecord \<Rightarrow> bool" where
  "record_wf r \<longleftrightarrow> length (rc_node_id r) = 16 \<and> length (rc_term_frequencies r) = 4 \<and>
     length (rc_document_lengths r) = 4 \<and> length (rc_embedding r) = EMBEDDING_DIM"

lemma put_u32s_Nil [simp]: "put_u32s m a [] = m"
  by (simp add: put_u32s_def)

lemma put_u32s_snoc: "put_u32s m a (ws @ [w]) = put_u32 (put_u32s m a ws) (a + 4 * length ws) w"
proof -
  have "fold (\<lambda>i m. put_u32 m (a + 4 * i) ((ws @ [w]) ! i)) [0..<length ws] m =
    fold (\<lambda>i m. put_u32 m (a + 4 * i) (ws ! i)) [0..<length ws] m"
    by (rule fold_cong) (auto simp: nth_append)
  then show ?thesis by (simp add: put_u32s_def)
qed

lemma put_u32s_outside: "i < a \<or> a + 4 * length ws \<le> i \<Longrightarrow> put_u32s m a ws i = m i"
  by (induction ws rule: rev_induct) (auto simp: put_u32s_snoc put_u32_def poke_other)

lemma get_put_u32s: "k < length ws \<Longrightarrow> get_u32 (put_u32s m a ws) (a + 4 * k) = ws ! k"
proof (induction ws rule: rev_induct)
  case (snoc w ws)
  show ?case
  proof (cases "k = length ws")
    case False
    then have "k < length ws" using snoc.prems by simp
    then show ?thesis using snoc.IH by (simp add: put_u32s_snoc nth_append)
  qed (simp add: put_u32s_snoc)
qed simp

lemma u32s_at_put_u32s: "n = length ws \<Longrightarrow> u32s_at (put_u32s m a ws) a n = ws"
  by (rule nth_equalityI) (simp_all add: u32s_at_def get_put_u32s)

lemma doc_record_at_shift:
  assumes "\<And>i. i < sizeof_UnifiedDocRecord \<Longrightarrow> p (a + i) = p' (b + i)"
  shows "doc_record_at p a = doc_record_at p' b"
proof -
  have u: "get_u32 p (a + j) = get_u32 p' (b + j)" if "j + 4 \<le> 1588" for j
    unfolding get_u32_def using that
    by (intro arg_cong [where f = of_nat] peek_shift) (simp add: assms [of "j + i" for i, simplified add.assoc [symmetric]])
  have us: "u32s_at p (a + j) n = u32s_at p' (b + j) n" if "j + 4 * n \<le> 1588" for j n
    using that u [of "j + 4 * i" for i] by (simp add: u32s_at_def add.assoc)
  have "bytes_at p a 16 = bytes_at p' b 16" by (rule nth_equalityI) (simp_all add: assms)
  then show ?thesis by (simp add: doc_record_at_def us u)
qed

lemma length_doc_record_bytes [simp]: "length (doc_record_bytes r) = 1588"
  by (simp add: doc_record_bytes_def Let_def)

lemma doc_record_round_trip:
  assumes "record_wf r"
  shows "doc_record_at (blit m a (doc_record_bytes r)) a = r"
proof -
  define m1 where "m1 = blit (\<lambda>_. 0) 0 (rc_node_id r)"
  define m2 where "m2 = put_u32s m1 16 (rc_term_frequencies r)"
  define m3 where "m3 = put_u32s m2 32 (rc_document_lengths r)"
  define m4 where "m4 = put_u32s m3 48 (rc_embedding r)"
  define m5 where "m5 = put_u32 m4 1584 (rc_doc_id r)"
  have len: "length (rc_node_id r) = 16" "length (rc_term_frequencies r) = 4"
    "length (rc_document_lengths r) = 4" "length (rc_embedding r) = 384"
    using assms by (simp_all add: record_wf_def)
  have bytes: "doc_record_bytes r = bytes_at m5 0 1588"
    by (simp add: doc_record_bytes_def m5_def m4_def m3_def m2_def m1_def len)
  have "doc_record_at (blit m a (doc_record_bytes r)) a = doc_record_at m5 0"
    by (rule doc_record_at_shift) (simp add: bytes blit_def)
  also have "\<dots> = r"
  proof (rule UnifiedDocRecord.equality)
    have out: "m5 i = m4 i" if "i < 1584" for i using that by (simp add: m5_def put_u32_def poke_other)
    have out4: "m4 i = m3 i" if "i < 48" for i using that by (simp add: m4_def put_u32s_outside)
    have out3: "m3 i = m2 i" if "i < 32" for i using that by (simp add: m3_def put_u32s_outside)
    have out2: "m2 i = m1 i" if "i < 16" for i using that by (simp add: m2_def put_u32s_outside)
    have "bytes_at m5 0 16 = bytes_at m1 0 16"
      by (rule bytes_at_cong) (simp add: out out4 out3 out2)
    then show "rc_node_id (doc_record_at m5 0) = rc_node_id r" by (simp add: doc_record_at_def m1_def len)
    have "u32s_at m5 16 4 = u32s_at m2 16 4" by (rule u32s_at_cong) (simp add: out out4 out3)
    then show "rc_term_frequencies (doc_record_at m5 0) = rc_term_frequencies r"
      by (simp add: doc_record_at_def m2_def u32s_at_put_u32s len)
    have "u32s_at m5 32 4 = u32s_at m3 32 4" by (rule u32s_at_cong) (simp add: out out4)
    then show "rc_document_lengths (doc_record_at m5 0) = rc_document_lengths r"
      by (simp add: doc_record_at_def m3_def u32s_at_put_u32s len)
    have "u32s_at m5 48 384 = u32s_at m4 48 384" by (rule u32s_at_cong) (simp add: out)
    then show "rc_embedding (doc_record_at m5 0) = rc_embedding r"
      by (simp add: doc_record_at_def m4_def u32s_at_put_u32s len)
    show "rc_doc_id (doc_record_at m5 0) = rc_doc_id r" by (simp add: doc_record_at_def m5_def)
  qed simp
  finally show ?thesis .
qed

section \<open>The records of a data page\<close>

definition record_of_tuple :: "byte list \<Rightarrow> UnifiedDocRecord option" where
  "record_of_tuple bs =
     (if length bs = sizeof_UnifiedDocRecord then Some (doc_record_at (blit (\<lambda>_. 0) 0 bs) 0) else None)"

lemma record_of_tuple_bytes: "record_wf r \<Longrightarrow> record_of_tuple (doc_record_bytes r) = Some r"
  by (simp add: record_of_tuple_def doc_record_round_trip)

lemma slot_record_tuple:
  assumes "s < unat (hdr_slot_count p)"
  shows "slot_record p s = record_of_tuple (tuples_of p ! s)"
proof -
  have t: "tuples_of p ! s = tuple_at p s" using assms by (simp add: tuples_of_def)
  have "doc_record_at (blit (\<lambda>_. 0) 0 (tuple_at p s)) 0 = doc_record_at p (unat (slot_offset p s))"
    if "unat (slot_length p s) = 1588"
    by (rule doc_record_at_shift) (simp add: blit_def tuple_at_def that)
  then show ?thesis by (simp add: slot_record_def t record_of_tuple_def tuple_at_def)
qed

definition data_page :: "page \<Rightarrow> bool" where
  "data_page p \<longleftrightarrow> slotted_ok p \<and> hdr_page_type p = page_type_code PAGE_TYPE_VECTOR_DATA"

text \<open>The record a posting's page and slot lead to.\<close>

definition record_at :: "page \<Rightarrow> u16 \<Rightarrow> UnifiedDocRecord option" where
  "record_at p slot = (if slot < hdr_slot_count p then slot_record p (unat slot) else None)"

lemma record_at_tuple:
  "record_at p slot = (if unat slot < length (tuples_of p) then record_of_tuple (tuples_of p ! unat slot) else None)"
  by (simp add: record_at_def word_less_nat_alt slot_record_tuple)

lemma map_filter_cong: "(\<And>x. x \<in> set xs \<Longrightarrow> f x = g x) \<Longrightarrow> List.map_filter f xs = List.map_filter g xs"
  by (induction xs) (simp_all add: List.map_filter_def)

lemma page_records_tuples:
  "data_page p \<Longrightarrow> page_records p = List.map_filter record_of_tuple (tuples_of p)"
proof -
  assume "data_page p"
  then have "page_records p = List.map_filter (slot_record p) [0..<length (tuples_of p)]"
    by (simp add: data_page_def page_records_def)
  also have "\<dots> = List.map_filter (\<lambda>s. record_of_tuple (tuples_of p ! s)) [0..<length (tuples_of p)]"
    by (rule map_filter_cong) (simp add: slot_record_tuple)
  also have "\<dots> = List.map_filter record_of_tuple (map ((!) (tuples_of p)) [0..<length (tuples_of p)])"
    by (simp add: List.map_filter_def filter_map o_def)
  finally show ?thesis by (simp only: map_nth)
qed

section \<open>Storing a record\<close>

lemma set_frame_page_same: "f < length (bp_frames b) \<Longrightarrow> set_frame_page f (frame_page b f) b = b"
  by (simp add: set_frame_page_def frame_page_def set_frame_def)

text \<open>The record ends up as the last tuple of the active page, which is left pinned: the old
  active page with its tuples, or the new page with the next id when the old one is full.\<close>

definition stored_in :: "nat \<Rightarrow> (u32 \<Rightarrow> page) \<Rightarrow> UnifiedShard \<Rightarrow> byte list \<Rightarrow> nat \<Rightarrow> page \<Rightarrow> nat \<Rightarrow> UnifiedShard \<Rightarrow> bool" where
  "stored_in N P sh bs N' p f sh' \<longleftrightarrow>
     (let q = us_active_data_page_id sh' in
      bp_st N' {q} [q] (P(q := p)) (us_bpm sh') \<and> find_frame (us_bpm sh') q = Some f \<and>
      unat (us_next_page_id sh') = N' \<and> data_page p \<and>
      sh' = sh\<lparr>us_store := us_store sh', us_active_data_page_id := q\<rparr> \<and>
      (N' = N \<and> q = us_active_data_page_id sh \<and> tuples_of p = tuples_of (P q) @ [bs] \<or>
       N' = N + 1 \<and> q = us_next_page_id sh \<and> tuples_of p = [bs]))"

lemma store_record_st:
  assumes st: "bp_st N {} [] P (us_bpm sh)" and next_id: "unat (us_next_page_id sh) = N" and N: "N + 1 < 2 ^ 32"
    and active: "unat (us_active_data_page_id sh) < N" "data_page (P (us_active_data_page_id sh))"
  obtains f sh' N' p where "store_record rec sh = (Some f, sh')" "stored_in N P sh (doc_record_bytes rec) N' p f sh'"
proof -
  let ?a = "us_active_data_page_id sh" and ?n = "us_next_page_id sh" and ?bs = "doc_record_bytes rec"
  have ok: "slotted_ok (P ?a)" and ty: "hdr_page_type (P ?a) = 7" using active(2) by (simp_all add: data_page_def)
  have len: "length ?bs = unat (of_nat 1588 :: u16)" by simp
  obtain f b where f: "buffer_pool_fetch_page (us_bpm sh) ?a = (Some f, b)" "bp_st N {} [?a] P b"
    "find_frame b ?a = Some f"
    using pool.fetch_st [OF st _ allocated_not_invalid [OF st active(1)]] by auto
  have fr: "frame_page b f = P ?a" using pool.frame_st [OF f(2) _ f(3)] by simp
  show ?thesis
  proof (cases "free_space (P ?a) < 4 + unat (of_nat 1588 :: u16)")
    case False
    then obtain p where p: "slotted_page_insert_tuple (P ?a) ?bs (of_nat 1588) = (True, p)" "slotted_ok p"
      "tuples_of p = tuples_of (P ?a) @ [?bs]" "hdr_page_type p = hdr_page_type (P ?a)"
      using insert_ok [OF ok _ len] by auto
    let ?sh = "with_bpm sh (set_frame_page f p b)"
    have "bp_st N {?a} [?a] (P(?a := p)) (set_frame_page f p b) \<and> find_frame (set_frame_page f p b) ?a = Some f"
      using pool.update_st [OF f(2) _ f(3) slotted_ok_wf [OF p(2)]] f(3) by simp
    then have "stored_in N P sh ?bs N p f ?sh"
      using p next_id ty by (simp add: stored_in_def data_page_def with_bpm_def)
    then show ?thesis using that [of f ?sh N p] f(1) fr p(1) by (simp add: store_record_def)
  next
    case True
    let ?b = "buffer_pool_unpin_page b ?a False HINT_NORMAL"
    have full: "slotted_page_insert_tuple (P ?a) ?bs (of_nat 1588) = (False, P ?a)"
      by (rule insert_full [OF ok True])
    have "f < length (bp_frames b)"
      using find_frame_sound [OF f(3)] f(2) bp_ok_length [of N "{}" b] by (simp add: bp_st_def)
    then have same: "set_frame_page f (P ?a) b = b" using set_frame_page_same fr by metis
    have stb: "bp_st N {} [] P ?b" using pool.unpin_clean_st [OF f(2), of ?a HINT_NORMAL] by simp
    obtain g c p0 where g: "buffer_pool_fetch_page (snd (bp_write_zero ?b ?n)) ?n = (Some g, c)" "page_wf p0"
      "bp_st (N + 1) {?n} [?n] (P(?n := p0)) c" "find_frame c ?n = Some g"
      using pool.alloc_st [OF stb _ next_id _ N] by auto
    obtain b0 where b0: "bp_write_zero ?b ?n = (int PAGE_SIZE, b0)"
      using bp_write_zero_eq [where b = ?b and N = N and X = "{}"] stb by (simp add: bp_st_def)
    have frg: "frame_page c g = p0" using pool.frame_st [OF g(3) _ g(4)] by simp
    let ?e = "slotted_page_init p0 ?n PAGE_TYPE_VECTOR_DATA"
    have "free_space ?e = 4072" by (simp add: free_space_def)
    then obtain p where p: "slotted_page_insert_tuple ?e ?bs (of_nat 1588) = (True, p)" "slotted_ok p"
      "tuples_of p = [?bs]" "hdr_page_type p = 7"
      using insert_ok [OF init_slotted_ok [OF g(2)] _ len, of ?n PAGE_TYPE_VECTOR_DATA] by auto
    let ?sh = "(with_bpm (with_next_page sh (?n + 1)) (set_frame_page g p c))\<lparr>us_active_data_page_id := ?n\<rparr>"
    have upd: "bp_st (N + 1) {?n} [?n] (P(?n := p)) (set_frame_page g p c)" "find_frame (set_frame_page g p c) ?n = Some g"
      using pool.update_st [OF g(3) _ g(4) slotted_ok_wf [OF p(2)]] g(4) by simp_all
    have "unat (?n + 1) = N + 1" using next_id N by (simp add: unat_word_ariths)
    then have "stored_in N P sh ?bs (N + 1) p g ?sh"
      using upd p by (simp add: stored_in_def data_page_def with_bpm_def with_next_page_def)
    then show ?thesis
      using that [of g ?sh "N + 1" p] f(1) fr full same g(1) b0 frg p(1)
      by (simp add: store_record_def Let_def with_bpm_def with_next_page_def)
  qed
qed

end
