(* ===== verification/ShardInsert.thy ===== *)
theory ShardInsert
  imports PostingLists RecordStore
begin

text \<open>
  A shard as a document store with an index: the invariant that ties the B-tree, the posting
  pages, the data pages and the tombstone page together, its preservation by an insertion,
  what the insertion adds, and the indexed search as a scan of the records that a term's
  postings lead to.
\<close>

section \<open>Where postings point\<close>

definition posting_key :: "InvertedPosting \<Rightarrow> u32 \<times> u32 \<times> u16" where
  "posting_key x = (ip_doc_id x, ip_data_page_id x, ip_data_slot_id x)"

text \<open>Oldest posting first: the newest block is the head, the newest posting its last.\<close>

definition block_keys :: "InvertedPosting list list \<Rightarrow> (u32 \<times> u32 \<times> u16) list" where
  "block_keys blocks = map posting_key (concat (rev blocks))"

lemma posting_key_simps [simp]:
  "posting_key (add_position i x) = posting_key x" "posting_key (first_posting d q s i) = (d, q, s)"
  by (simp_all add: posting_key_def add_position_def first_posting_def)

lemma block_keys_simps [simp]:
  "block_keys [] = []" "block_keys (ps # blocks) = block_keys blocks @ map posting_key ps"
  by (simp_all add: block_keys_def)

definition put_key :: "'k \<Rightarrow> 'k list \<Rightarrow> 'k list" where
  "put_key k ks = (if ks \<noteq> [] \<and> last ks = k then ks else ks @ [k])"

lemma put_key_put_key [simp]: "put_key k (put_key k ks) = put_key k ks" "put_key k (ks @ [k]) = ks @ [k]"
  by (simp_all add: put_key_def)

lemma put_key_new: "k \<notin> set ks \<Longrightarrow> put_key k ks = ks @ [k]"
  by (auto simp: put_key_def)

lemma set_put_key: "set (put_key k ks) = insert k (set ks)"
  by (auto simp: put_key_def)

lemma keys_add_to_blocks:
  assumes "[] \<notin> set blocks" "\<And>k. k \<in> set (block_keys blocks) \<Longrightarrow> fst k = d \<Longrightarrow> k = (d, q, s)"
  shows "block_keys (add_to_blocks d q s i blocks) = put_key (d, q, s) (block_keys blocks)"
proof (cases blocks)
  case Nil
  then show ?thesis by (simp add: put_key_def)
next
  case (Cons ps rest)
  then have ne: "ps \<noteq> []" using assms(1) by auto
  have last: "last (block_keys blocks) = posting_key (last ps)" "block_keys blocks \<noteq> []"
    using Cons ne by (simp_all add: last_map)
  have keys: "map posting_key ps = map posting_key (butlast ps) @ [posting_key (last ps)]"
    by (subst append_butlast_last_id [OF ne, symmetric]) (simp del: append_butlast_last_id)
  have "posting_key (last ps) \<in> set (block_keys blocks)" using Cons ne by simp
  then have "ip_doc_id (last ps) = d \<longleftrightarrow> posting_key (last ps) = (d, q, s)"
    using assms(2) [of "posting_key (last ps)"] by (auto simp: posting_key_def)
  then show ?thesis using Cons keys last by (auto simp: put_key_def)
qed

lemma add_to_blocks_filled: "[] \<notin> set blocks \<Longrightarrow> [] \<notin> set (add_to_blocks d q s i blocks)"
  by (cases blocks) auto

text \<open>After the terms of a document are added, each of them has one posting for it, at the end.\<close>

lemma keys_add_terms:
  assumes "\<And>t. [] \<notin> set (B t)" "\<And>t k. k \<in> set (block_keys (B t)) \<Longrightarrow> fst k = d \<Longrightarrow> k = (d, q, s)"
  shows "block_keys (add_terms (add_to_blocks d q s) ts i B t) =
      (if t \<in> set ts then put_key (d, q, s) (block_keys (B t)) else block_keys (B t)) \<and>
    [] \<notin> set (add_terms (add_to_blocks d q s) ts i B t)"
  using assms
proof (induction ts arbitrary: i B)
  case (Cons t' ts)
  let ?B = "B(t' := add_to_blocks d q s i (B t'))"
  have keys: "block_keys (add_to_blocks d q s i (B t')) = put_key (d, q, s) (block_keys (B t'))"
    by (rule keys_add_to_blocks [OF Cons.prems(1)]) (rule Cons.prems(2))
  have "[] \<notin> set (?B t)" for t using Cons.prems(1) add_to_blocks_filled by simp
  moreover have "k = (d, q, s)" if "k \<in> set (block_keys (?B t))" "fst k = d" for t k
  proof (cases "t = t'")
    case True
    then have "k \<in> insert (d, q, s) (set (block_keys (B t')))" using that(1) keys by (simp add: set_put_key)
    then show ?thesis using Cons.prems(2) that(2) by blast
  next
    case False
    then have "k \<in> set (block_keys (B t))" using that(1) by simp
    then show ?thesis using that(2) by (rule Cons.prems(2))
  qed
  ultimately have "block_keys (add_terms (add_to_blocks d q s) ts (i + 1) ?B t) =
      (if t \<in> set ts then put_key (d, q, s) (block_keys (?B t)) else block_keys (?B t)) \<and>
    [] \<notin> set (add_terms (add_to_blocks d q s) ts (i + 1) ?B t)"
    by (rule Cons.IH)
  then show ?case using keys by simp
qed simp

text \<open>
  An insertion adds its terms and then the term of the whole document; the document is new, so
  every list it is added to grows by one posting at the end.
\<close>

lemma keys_of_new_document:
  assumes filled: "\<And>t. [] \<notin> set (B t)" and fresh: "\<And>t k. k \<in> set (block_keys (B t)) \<Longrightarrow> fst k \<noteq> d"
    and B': "B' = add_terms (add_to_blocks d q s) ts 0 B"
  shows "block_keys ((B'(0 := add_to_blocks d q s 0 (B' 0))) t) =
    block_keys (B t) @ (if t = 0 \<or> t \<in> set ts then [(d, q, s)] else [])"
proof -
  have keys: "block_keys (B' t) = (if t \<in> set ts then put_key (d, q, s) (block_keys (B t)) else block_keys (B t)) \<and>
      [] \<notin> set (B' t)" for t
    unfolding B' by (rule keys_add_terms) (use filled fresh in blast)+
  have "k = (d, q, s)" if "k \<in> set (block_keys (B' 0))" "fst k = d" for k
    using keys [of 0] that fresh [of k 0] by (auto simp: set_put_key split: if_splits)
  then have "block_keys (add_to_blocks d q s 0 (B' 0)) = put_key (d, q, s) (block_keys (B' 0))"
    using keys [of 0] by (intro keys_add_to_blocks) auto
  moreover have "put_key (d, q, s) (block_keys (B t)) = block_keys (B t) @ [(d, q, s)]" for t
    using fresh [of "(d, q, s)" t] by (intro put_key_new) auto
  ultimately show ?thesis using keys [of t] by (auto split: if_splits)
qed

section \<open>The invariant\<close>

text \<open>\<open>D\<close> are the data pages. Every posting leads to a record of its document, and document
  ids are below the next one.\<close>

definition posting_ok :: "(u32 \<Rightarrow> page) \<Rightarrow> u32 set \<Rightarrow> u32 \<Rightarrow> u32 \<times> u32 \<times> u16 \<Rightarrow> bool" where
  "posting_ok P D next_doc = (\<lambda>(d, q, s).
     d < next_doc \<and> q \<in> D \<and> (\<exists>r. record_at (P q) s = Some r \<and> rc_doc_id r = d))"

definition shard_inv ::
  "nat \<Rightarrow> (u32 \<Rightarrow> page) \<Rightarrow> (u32 \<Rightarrow> InvertedPosting list list) \<Rightarrow> u32 set \<Rightarrow> u32 set \<Rightarrow> UnifiedShard \<Rightarrow> bool" where
  "shard_inv N P B G D sh \<longleftrightarrow>
     index_inv N P B G sh \<and> unat (us_tombstone_page_id sh) < N \<and>
     us_tombstone_page_id sh \<notin> G \<and> us_tombstone_page_id sh \<notin> D \<and>
     us_active_data_page_id sh \<in> D \<and> (\<forall>q \<in> D. unat q < N \<and> q \<notin> G \<and> data_page (P q)) \<and>
     (\<forall>q. unat q < N \<longrightarrow> q \<in> G \<union> D \<union> {us_tombstone_page_id sh}) \<and>
     (\<forall>t. \<forall>k \<in> set (block_keys (B t)). posting_ok P D (us_next_doc_id sh) k)"

lemma index_inv_st: "index_inv N P B G sh \<Longrightarrow> bp_st N {} [] P (us_bpm sh)"
  and index_inv_next: "index_inv N P B G sh \<Longrightarrow> unat (us_next_page_id sh) = N"
  using index_rep_st index_rep_next unfolding index_inv_def by blast+

lemma index_inv_filled: "index_inv N P B G sh \<Longrightarrow> [] \<notin> set (B t)"
  using index.blocks_filled [of N P B G sh sh] by auto

lemma index_inv_pages: "index_inv N P B G sh \<Longrightarrow> q \<in> G \<Longrightarrow> unat q < N"
proof -
  assume "index_inv N P B G sh" "q \<in> G"
  then obtain M F I where rep: "index_rep N P M F I sh" "q \<in> index_pages F I" by (auto simp: index_inv_def)
  then have bt: "btree_inv N P (us_btree_root sh) M F (us_store sh)" by (simp add: index_rep_def)
  show "unat q < N"
    using rep(2) btree_inv_pages_less [OF bt] index_rep_term(4) [OF rep(1)] in_index_pages [of q F I] by blast
qed

text \<open>The index depends on its own pages only.\<close>

lemma index_inv_frame:
  assumes inv: "index_inv N P B G sh" and st: "bp_st N' {} [] P' b" and N: "N \<le> N'" "unat n = N'"
    and same: "\<And>q. q \<in> G \<Longrightarrow> P' q = P q"
    and sh': "us_btree_root sh' = us_btree_root sh" "us_store sh' = (us_store sh)\<lparr>ps_next_page_id := n, ps_bpm := b\<rparr>"
  shows "index_inv N' P' B G sh'"
proof -
  obtain M F I where rep: "index_rep N P M F I sh" "B = (\<lambda>t. map snd (I t))" "G = index_pages F I"
    using inv by (auto simp: index_inv_def)
  have bt: "btree_inv N P (us_btree_root sh) M F (us_store sh)" using rep(1) by (simp add: index_rep_def)
  have bt': "btree_inv N' P' (us_btree_root sh) M F (us_store sh')"
    unfolding sh'(2) by (rule tree_frame [OF bt st N]) (use same rep(3) in_index_pages in blast)
  have pages: "q \<in> G" if "q \<in> fst ` set (I t)" for q t using that rep(3) in_index_pages [of q F I] by blast
  have "posting_chain P' h (I t) = posting_chain P h (I t)" for h t
    by (rule posting_chain_cong) (use same pages in blast)
  then have ch: "case M (ucast t) of None \<Rightarrow> I t = [] | Some (q, _) \<Rightarrow> I t \<noteq> [] \<and> posting_chain P' q (I t)" for t
    using index_rep_term(1,2) [OF rep(1), of t] by (auto split: option.split)
  have "index_rep N' P' M F I sh'"
    unfolding index_rep_def sh'(1)
  proof (intro conjI allI ballI)
    show "distinct (map fst (I t))" for t by (rule index_rep_term(3) [OF rep(1)])
    show "3 \<le> N'" using rep(1) N(1) by (simp add: index_rep_def)
    fix t q assume "q \<in> fst ` set (I t)"
    then show "3 \<le> unat q" "unat q < N'" "q \<notin> F" using index_rep_term(4) [OF rep(1), of q t] N(1) by simp_all
  next
    show "t \<noteq> t' \<longrightarrow> fst ` set (I t) \<inter> fst ` set (I t') = {}" for t t' using index_rep_term(5) [OF rep(1)] by blast
  qed (rule bt' ch)+
  then show ?thesis using rep(2,3) unfolding index_inv_def by blast
qed

section \<open>Inserting a document\<close>

lemma add_postings_run:
  "add_postings ts i d q s sh = run_adds (\<lambda>t i sh. inverted_index_add_posting sh t d q s i) ts i sh"
  by (induction ts i d q s sh rule: add_postings.induct) (auto split: option.splits)

lemma shard_inv_st: "shard_inv N P B G D sh \<Longrightarrow> bp_st N {} [] P (us_bpm sh)"
  and shard_inv_next: "shard_inv N P B G D sh \<Longrightarrow> unat (us_next_page_id sh) = N"
  by (auto simp: shard_inv_def index_inv_st index_inv_next)

lemma shard_inv_shard_st: "shard_inv N P B G D sh \<Longrightarrow> shard_st N [] P sh"
  using shard_inv_st shard_inv_next by (auto simp: shard_st_def shard_inv_def)

text \<open>The stored page: the earlier records stay where they were, the new one is the last.\<close>

lemma stored_in_records:
  assumes "stored_in N P sh (doc_record_bytes r) N' p f sh'" "record_wf r"
  defines "q \<equiv> us_active_data_page_id sh'"
  shows "record_at p (hdr_slot_count p - 1) = Some r"
    and "q = us_active_data_page_id sh \<Longrightarrow> N' = N \<Longrightarrow> record_at (P q) s = Some r' \<Longrightarrow> record_at p s = Some r'"
proof -
  obtain ts where ts: "tuples_of p = ts @ [doc_record_bytes r]"
    "N' = N \<Longrightarrow> q = us_active_data_page_id sh \<Longrightarrow> ts = tuples_of (P q)"
    using assms(1) unfolding stored_in_def Let_def q_def
    by (metis append_Nil Suc_eq_plus1 n_not_Suc_n)
  have n: "unat (hdr_slot_count p) = Suc (length ts)" using arg_cong [OF ts(1), of length] by simp
  then have "1 \<le> hdr_slot_count p" by (simp add: word_le_nat_alt)
  then have slot: "unat (hdr_slot_count p - 1) = length ts" using n by (simp add: unat_sub)
  show "record_at p (hdr_slot_count p - 1) = Some r"
    using record_of_tuple_bytes [OF assms(2)] by (simp add: record_at_tuple slot ts(1) n)
  show "record_at (P q) s = Some r' \<Longrightarrow> record_at p s = Some r'" if "q = us_active_data_page_id sh" "N' = N"
    using ts(2) [OF that(2,1)] by (auto simp: record_at_tuple ts(1) nth_append n split: if_splits)
qed

text \<open>The insertion up to the postings: the record is stored, the counters are advanced.\<close>

definition inserted_record :: "UnifiedShard \<Rightarrow> byte list \<Rightarrow> u32 list \<Rightarrow> u32 list \<Rightarrow> u32 list \<Rightarrow> UnifiedDocRecord" where
  "inserted_record sh node_id tf dl embedding =
     \<lparr>rc_node_id = node_id, rc_term_frequencies = tf, rc_document_lengths = dl,
      rc_embedding = embedding, rc_doc_id = us_next_doc_id sh\<rparr>"

lemma posting_ok_mono:
  assumes "posting_ok P D n k" "n \<le> n'" "D \<subseteq> D'" "\<And>q s r. q \<in> D \<Longrightarrow> record_at (P q) s = Some r \<Longrightarrow> record_at (P' q) s = Some r"
  shows "posting_ok P' D' n' k"
  using assms by (cases k) (force simp: posting_ok_def)

text \<open>
  Storing a record fills the active page or a new one; either way the invariant holds with the
  page it used, and every record stored before is still there.
\<close>

lemma stored_record_inv:
  assumes inv: "shard_inv N P B G D sh" and ids: "unat (us_next_doc_id sh) + 1 < 2 ^ 32" and r: "record_wf r"
    and s: "stored_in N P sh0 (doc_record_bytes r) N1 p f sh'"
    and sh0: "sh0 = with_bpm (sh\<lparr>us_next_doc_id := us_next_doc_id sh + 1\<rparr>) b"
    and q: "q = us_active_data_page_id sh'" "P1 = P(q := p)"
    and sh1: "sh1 = count_document dl (with_bpm sh' (buffer_pool_unpin_page (us_bpm sh') q True HINT_NORMAL))"
  shows "shard_inv N1 P1 B G (insert q D) sh1" "N \<le> N1" "N1 \<le> N + 1" "us_active_data_page_id sh1 = q"
    "us_next_doc_id sh1 = us_next_doc_id sh + 1" "us_total_docs sh1 = us_total_docs sh + 1"
    "us_tombstone_page_id sh1 = us_tombstone_page_id sh" "tombstones_of P1 sh1 = tombstones_of P sh"
    "\<forall>q' \<in> D. \<forall>t r'. record_at (P q') t = Some r' \<longrightarrow> record_at (P1 q') t = Some r'"
proof -
  let ?a = "us_active_data_page_id sh" and ?d = "us_next_doc_id sh"
  have a: "unat ?a < N" "?a \<in> D" using inv by (auto simp: shard_inv_def)
  have st: "bp_st N1 {q} [q] P1 (us_bpm sh')" "unat (us_next_page_id sh') = N1" "data_page p"
    "sh' = sh0\<lparr>us_store := us_store sh', us_active_data_page_id := q\<rparr>"
    and place: "N1 = N \<and> q = ?a \<or> N1 = N + 1 \<and> q = us_next_page_id sh"
    using s by (auto simp: stored_in_def Let_def q sh0)
  have qN: "unat q < N1" using place a(1) shard_inv_next [OF inv] by auto
  let ?b = "buffer_pool_unpin_page (us_bpm sh') q True HINT_NORMAL"
  have stb: "bp_st N1 {} [] P1 ?b" using pool.unpin_dirty_st [OF st(1) _ qN, of HINT_NORMAL] by simp
  have f1: "us_store sh1 = (us_store sh)\<lparr>ps_next_page_id := us_next_page_id sh', ps_bpm := ?b\<rparr>"
    "us_active_data_page_id sh1 = q" "us_tombstone_page_id sh1 = us_tombstone_page_id sh" "us_next_doc_id sh1 = ?d + 1"
    "us_total_docs sh1 = us_total_docs sh + 1" "us_btree_root sh1 = us_btree_root sh"
    by (simp_all add: sh1 count_document_def Let_def with_bpm_def) (subst st(4), simp add: sh0 with_bpm_def)+
  have G: "q \<notin> G" "q \<noteq> us_tombstone_page_id sh"
    using place inv a(2) index_inv_pages [of N P B G sh q] shard_inv_next [OF inv] by (auto simp: shard_inv_def)
  have keep: "record_at (P1 q') t = Some r'" if "q' \<in> D" "record_at (P q') t = Some r'" for q' t r'
  proof (cases "q' = q")
    case True
    then have "N1 = N \<and> q = ?a" using place inv that(1) shard_inv_next [OF inv] by (auto simp: shard_inv_def)
    then show ?thesis using stored_in_records(2) [OF s r, of t r'] that(2) True
      by (simp add: q sh0)
  qed (use that in \<open>simp add: q(2)\<close>)
  have "index_inv N1 P1 B G sh1"
    by (rule index_inv_frame [of N P B G sh, OF _ stb _ st(2) _ f1(6,1)]) (use inv G place in \<open>auto simp: shard_inv_def q(2)\<close>)
  moreover have "posting_ok P1 (insert q D) (?d + 1) k" if "k \<in> set (block_keys (B t))" for k t
  proof (rule posting_ok_mono)
    show "posting_ok P D ?d k" using inv that by (auto simp: shard_inv_def)
    show "?d \<le> ?d + 1" using ids by (simp add: word_le_nat_alt unat_word_ariths)
  qed (use keep in auto)
  moreover have "\<forall>q' \<in> insert q D. unat q' < N1 \<and> q' \<notin> G \<and> data_page (P1 q')"
    using inv qN G st(3) place by (auto simp: shard_inv_def q(2))
  moreover have "q' \<in> G \<union> insert q D \<union> {us_tombstone_page_id sh}" if "unat q' < N1" for q'
    using that inv place shard_inv_next [OF inv] unfolding shard_inv_def
    by (cases "q' = us_next_page_id sh") (auto simp: less_Suc_eq word_unat_eq_iff)
  ultimately show "shard_inv N1 P1 B G (insert q D) sh1"
    using inv G place by (auto simp: shard_inv_def f1)
  show "tombstones_of P1 sh1 = tombstones_of P sh" using G(2) f1(3) by (simp add: q(2))
  show "\<forall>q' \<in> D. \<forall>t r'. record_at (P q') t = Some r' \<longrightarrow> record_at (P1 q') t = Some r'" using keep by blast
  show "N \<le> N1" "N1 \<le> N + 1" using place by auto
  show "us_active_data_page_id sh1 = q" "us_next_doc_id sh1 = ?d + 1" "us_total_docs sh1 = us_total_docs sh + 1"
    "us_tombstone_page_id sh1 = us_tombstone_page_id sh" by (rule f1)+
qed

lemma insert_record_st:
  assumes inv: "shard_inv N P B G D sh" and N: "N + 1 < 2 ^ 32" and r: "record_wf (inserted_record sh node_id tf dl emb)"
    and ids: "unat (us_next_doc_id sh) + 1 < 2 ^ 32"
  obtains N1 P1 q slot sh1 where
    "shard_insert_document sh node_id tf dl emb ts =
      (case add_postings ts 0 (us_next_doc_id sh) q slot sh1 of
         None \<Rightarrow> None
       | Some sh2 \<Rightarrow> map_option (\<lambda>(_, sh). (0, sh)) (inverted_index_add_posting sh2 0 (us_next_doc_id sh) q slot 0))"
    "shard_inv N1 P1 B G (insert q D) sh1" "N \<le> N1" "N1 \<le> N + 1" "us_active_data_page_id sh1 = q"
    "us_next_doc_id sh1 = us_next_doc_id sh + 1" "us_total_docs sh1 = us_total_docs sh + 1"
    "us_tombstone_page_id sh1 = us_tombstone_page_id sh" "tombstones_of P1 sh1 = tombstones_of P sh"
    "record_at (P1 q) slot = Some (inserted_record sh node_id tf dl emb)"
    "\<forall>q' \<in> D. \<forall>s r. record_at (P q') s = Some r \<longrightarrow> record_at (P1 q') s = Some r"
proof -
  let ?r = "inserted_record sh node_id tf dl emb" and ?a = "us_active_data_page_id sh" and ?d = "us_next_doc_id sh"
  define sh0 where "sh0 = sh\<lparr>us_next_doc_id := ?d + 1\<rparr>"
  obtain lsn b where log: "bp_log (us_bpm sh0) 0 WAL_REC_INSERT ?a 0 (doc_record_bytes ?r) = (lsn, b)"
    by (cases "bp_log (us_bpm sh0) 0 WAL_REC_INSERT ?a 0 (doc_record_bytes ?r)")
  have st0: "bp_st N {} [] P (us_bpm sh0)" using shard_inv_st [OF inv] by (simp add: sh0_def)
  have a: "unat ?a < N" "data_page (P ?a)" using inv by (auto simp: shard_inv_def)
  let ?sh = "with_bpm sh0 b"
  have pre: "bp_st N {} [] P (us_bpm ?sh)" "unat (us_next_page_id ?sh) = N"
    "unat (us_active_data_page_id ?sh) < N" "data_page (P (us_active_data_page_id ?sh))"
    using bp_log_st(1) [OF st0 log] shard_inv_next [OF inv] a by (simp_all add: sh0_def)
  obtain f sh' N1 p where s: "store_record ?r ?sh = (Some f, sh')" "stored_in N P ?sh (doc_record_bytes ?r) N1 p f sh'"
    by (rule store_record_st [OF pre(1,2) N pre(3,4)])
  define q where "q = us_active_data_page_id sh'"
  define P1 where "P1 = P(q := p)"
  have q: "bp_st N1 {q} [q] P1 (us_bpm sh')" "find_frame (us_bpm sh') q = Some f"
    using s(2) by (auto simp: stored_in_def Let_def q_def P1_def)
  have fr: "frame_page (us_bpm sh') f = p" using pool.frame_st [OF q(1) _ q(2)] by (simp add: P1_def)
  define sh1 where "sh1 = count_document dl (with_bpm sh' (buffer_pool_unpin_page (us_bpm sh') q True HINT_NORMAL))"
  note inv1 = stored_record_inv [OF inv ids r s(2) _ q_def P1_def sh1_def, of b, folded sh0_def, OF refl]
  have rec: "record_at (P1 q) (hdr_slot_count p - 1) = Some ?r"
    using stored_in_records(1) [OF s(2) r] by (simp add: P1_def)
  have "shard_insert_document sh node_id tf dl emb ts =
      (case add_postings ts 0 ?d q (hdr_slot_count p - 1) sh1 of
         None \<Rightarrow> None
       | Some sh2 \<Rightarrow> map_option (\<lambda>(_, sh). (0, sh)) (inverted_index_add_posting sh2 0 ?d q (hdr_slot_count p - 1) 0))"
    using log s(1) unfolding shard_insert_document_def
    by (simp add: Let_def inserted_record_def sh0_def q_def sh1_def fr cong: option.case_cong)
  then show ?thesis by (rule that [OF _ inv1(1-8) rec inv1(9)])
qed

text \<open>The complete insertion.\<close>

lemma store_swap: "(a :: UnifiedShard) = b\<lparr>us_store := s\<rparr> \<Longrightarrow> b = a\<lparr>us_store := us_store b\<rparr>"
  by (cases b) simp

lemma posting_ok_frame:
  assumes "posting_ok P D n k" "\<And>q. q \<in> D \<Longrightarrow> P' q = P q"
  shows "posting_ok P' D n k"
  using assms by (cases k) (auto simp: posting_ok_def)

lemma shard_inv_new_postings:
  assumes inv: "shard_inv N P B G D sh" and idx: "index_inv N' P' B' G' sh'" and N: "N \<le> N'"
    and same: "sh' = sh\<lparr>us_store := us_store sh'\<rparr>" "\<forall>q. unat q < N \<and> q \<notin> G \<longrightarrow> q \<notin> G' \<and> P' q = P q"
    and grow: "takes_new_pages N G N' G'"
    and keys: "\<And>t. set (block_keys (B' t)) \<subseteq> insert k (set (block_keys (B t)))" and k: "posting_ok P D (us_next_doc_id sh) k"
  shows "shard_inv N' P' B' G' D sh'"
proof -
  have f: "us_tombstone_page_id sh' = us_tombstone_page_id sh" "us_active_data_page_id sh' = us_active_data_page_id sh"
    "us_next_doc_id sh' = us_next_doc_id sh"
    by (subst same(1), simp)+
  have D: "P' q = P q" "q \<notin> G'" "unat q < N'" if "q \<in> D" for q
    using that inv same(2) N by (fastforce simp: shard_inv_def)+
  have "posting_ok P' D (us_next_doc_id sh) k'" if "k' \<in> set (block_keys (B' t))" for k' t
  proof -
    have "posting_ok P D (us_next_doc_id sh) k'"
      using that keys [of t] k inv by (auto simp: shard_inv_def)
    then show ?thesis by (rule posting_ok_frame) (rule D(1))
  qed
  moreover have "q \<in> G' \<union> D \<union> {us_tombstone_page_id sh}" if "unat q < N'" for q
    using that grow inv by (auto simp: takes_new_pages_def shard_inv_def)
  ultimately show ?thesis
    using inv idx same(2) N D unfolding shard_inv_def f by (auto simp: D)
qed

text \<open>The postings of a document: one for every term, and one under the term 0 for all documents.\<close>

lemma add_document_postings:
  fixes d q slot
  assumes idx: "index_inv N P B G sh \<and> sh = sh\<lparr>us_store := us_store sh\<rparr>" and N: "N + 2 * length ts + 2 < 2 ^ 32"
  defines "B' \<equiv> (add_terms (add_to_blocks d q slot) ts 0 B)
    (0 := add_to_blocks d q slot 0 (add_terms (add_to_blocks d q slot) ts 0 B 0))"
  obtains sh1 sh2 N' P' G' where "add_postings ts 0 d q slot sh = Some sh1"
    "inverted_index_add_posting sh1 0 d q slot 0 = Some (0, sh2)" "index_inv N' P' B' G' sh2" "sh = sh2\<lparr>us_store := us_store sh\<rparr>"
    "N \<le> N'" "N' \<le> N + 2 * length ts + 2" "\<forall>q. unat q < N \<and> q \<notin> G \<longrightarrow> q \<notin> G' \<and> P' q = P q" "takes_new_pages N G N' G'"
proof -
  let ?put = "add_to_blocks d q slot"
  let ?B1 = "add_terms ?put ts 0 B"
  have room: "N + 2 * length ts < 2 ^ 32" using N by simp
  obtain sh1 N1 P1 G1 where sh1: "add_postings ts 0 d q slot sh = Some sh1"
    "index_inv N1 P1 ?B1 G1 sh1 \<and> sh = sh1\<lparr>us_store := us_store sh\<rparr>" "N \<le> N1" "N1 \<le> N + 2 * length ts"
    "\<forall>q. unat q < N \<and> q \<notin> G \<longrightarrow> q \<notin> G1 \<and> P1 q = P q" "takes_new_pages N G N1 G1"
    using index.run_adds_inv [OF idx room, where d = d and page = q and slot = slot and i = 0] unfolding add_postings_run by blast
  have room1: "N1 + 2 < 2 ^ 32" using N sh1(4) by simp
  obtain sh2 N2 P2 G2 where sh2: "inverted_index_add_posting sh1 0 d q slot 0 = Some (0, sh2)"
    "index_inv N2 P2 (?B1(0 := ?put 0 (?B1 0))) G2 sh2 \<and> sh = sh2\<lparr>us_store := us_store sh\<rparr>" "N1 \<le> N2" "N2 \<le> N1 + 2"
    "\<forall>q. unat q < N1 \<and> q \<notin> G1 \<longrightarrow> q \<notin> G2 \<and> P2 q = P1 q" "takes_new_pages N1 G1 N2 G2"
    using index.add_inv [OF sh1(2) room1, where d = d and page = q and slot = slot and t = 0 and i = 0] by blast
  have frame: "\<forall>q. unat q < N \<and> q \<notin> G \<longrightarrow> q \<notin> G2 \<and> P2 q = P q" using sh1(3,5) sh2(5) by fastforce
  show ?thesis
    by (rule that [OF sh1(1) sh2(1) conjunct1 [OF sh2(2), folded B'_def] conjunct2 [OF sh2(2)] _ _ frame
        takes_new_pages_trans [OF sh1(6) sh2(6)]]) (use sh1(3,4) sh2(3,4) in simp_all)
qed

lemma insert_document_inv:
  assumes inv: "shard_inv N P B G D sh" and N: "N + 2 * length ts + 4 < 2 ^ 32"
    and r: "record_wf (inserted_record sh node_id tf dl emb)" and ids: "unat (us_next_doc_id sh) + 1 < 2 ^ 32"
  obtains sh' N' P' B' G' D' q slot where
    "shard_insert_document sh node_id tf dl emb ts = Some (0, sh')" "shard_inv N' P' B' G' D' sh'"
    "us_next_doc_id sh' = us_next_doc_id sh + 1" "us_total_docs sh' = us_total_docs sh + 1"
    "us_tombstone_page_id sh' = us_tombstone_page_id sh" "tombstones_of P' sh' = tombstones_of P sh"
    "record_at (P' q) slot = Some (inserted_record sh node_id tf dl emb)"
    "\<forall>q' \<in> D. \<forall>s r. record_at (P q') s = Some r \<longrightarrow> record_at (P' q') s = Some r"
    "\<forall>t. block_keys (B' t) = block_keys (B t) @ (if t = 0 \<or> t \<in> set ts then [(us_next_doc_id sh, q, slot)] else [])"
    "N' \<le> N + 2 * length ts + 3"
proof -
  let ?d = "us_next_doc_id sh"
  have N1: "N + 1 < 2 ^ 32" using N by simp
  obtain N1 P1 q slot sh1 where ins: "shard_insert_document sh node_id tf dl emb ts =
      (case add_postings ts 0 ?d q slot sh1 of
         None \<Rightarrow> None
       | Some sh2 \<Rightarrow> map_option (\<lambda>(_, sh). (0, sh)) (inverted_index_add_posting sh2 0 ?d q slot 0))"
    and inv1: "shard_inv N1 P1 B G (insert q D) sh1" "N \<le> N1" "N1 \<le> N + 1" "us_active_data_page_id sh1 = q"
    "us_next_doc_id sh1 = ?d + 1" "us_total_docs sh1 = us_total_docs sh + 1"
    "us_tombstone_page_id sh1 = us_tombstone_page_id sh" "tombstones_of P1 sh1 = tombstones_of P sh"
    and rec: "record_at (P1 q) slot = Some (inserted_record sh node_id tf dl emb)"
    "\<forall>q' \<in> D. \<forall>s r. record_at (P q') s = Some r \<longrightarrow> record_at (P1 q') s = Some r"
    by (rule insert_record_st [OF inv N1 r ids])
  have idx1: "index_inv N1 P1 B G sh1 \<and> sh1 = sh1\<lparr>us_store := us_store sh1\<rparr>" using inv1(1) by (simp add: shard_inv_def)
  have room: "N1 + 2 * length ts + 2 < 2 ^ 32" using N inv1(3) by simp
  let ?B2 = "add_terms (add_to_blocks ?d q slot) ts 0 B"
  let ?B3 = "?B2(0 := add_to_blocks ?d q slot 0 (?B2 0))"
  obtain sh2 sh3 N3 P3 G3 where sh3: "add_postings ts 0 ?d q slot sh1 = Some sh2"
    "inverted_index_add_posting sh2 0 ?d q slot 0 = Some (0, sh3)" "index_inv N3 P3 ?B3 G3 sh3" "sh1 = sh3\<lparr>us_store := us_store sh1\<rparr>"
    "N1 \<le> N3" "N3 \<le> N1 + 2 * length ts + 2" and frame: "\<forall>q. unat q < N1 \<and> q \<notin> G \<longrightarrow> q \<notin> G3 \<and> P3 q = P1 q"
    and taken: "takes_new_pages N1 G N3 G3"
    by (rule add_document_postings [OF idx1 room])
  have fresh: "fst k \<noteq> ?d" if "k \<in> set (block_keys (B t))" for t k
  proof -
    have "posting_ok P D ?d k" using that inv unfolding shard_inv_def by blast
    then show ?thesis by (auto simp: posting_ok_def)
  qed
  have keys3: "block_keys (?B3 t) = block_keys (B t) @ (if t = 0 \<or> t \<in> set ts then [(?d, q, slot)] else [])" for t
    by (rule keys_of_new_document [OF _ _ refl]) (use idx1 index_inv_filled fresh in blast)+
  have same: "sh3 = sh1\<lparr>us_store := us_store sh3\<rparr>"
    by (rule store_swap [OF sh3(4)])
  have new: "posting_ok P1 (insert q D) (us_next_doc_id sh1) (?d, q, slot)"
    using rec(1) inv1(5) ids by (simp add: posting_ok_def inserted_record_def word_less_nat_alt unat_word_ariths)
  have inv3: "shard_inv N3 P3 ?B3 G3 (insert q D) sh3"
    by (rule shard_inv_new_postings [OF inv1(1) sh3(3) _ same frame taken _ new])
      (use sh3(5) keys3 in \<open>auto split: if_splits\<close>)
  have pages: "P3 q' = P1 q'" if "q' \<in> insert q D \<or> q' = us_tombstone_page_id sh1" for q'
    using that frame inv1(1) by (auto simp: shard_inv_def)
  have "shard_insert_document sh node_id tf dl emb ts = Some (0, sh3)"
    using ins sh3(1,2) by simp
  then show ?thesis
  proof (rule that [OF _ inv3])
    show "us_next_doc_id sh3 = ?d + 1" "us_total_docs sh3 = us_total_docs sh + 1"
      "us_tombstone_page_id sh3 = us_tombstone_page_id sh"
      by (subst same, simp add: inv1)+
    then show "tombstones_of P3 sh3 = tombstones_of P sh" using pages [of "us_tombstone_page_id sh1"] inv1(7,8) by simp
    show "record_at (P3 q) slot = Some (inserted_record sh node_id tf dl emb)" using rec(1) pages by simp
    show "\<forall>q' \<in> D. \<forall>s r. record_at (P q') s = Some r \<longrightarrow> record_at (P3 q') s = Some r" using rec(2) pages by simp
    show "N3 \<le> N + 2 * length ts + 3" using inv1(3) sh3(6) by simp
  qed (use keys3 in simp)
qed

section \<open>Indexed search\<close>

text \<open>The records a list of postings leads to.\<close>

definition posting_records :: "(u32 \<Rightarrow> page) \<Rightarrow> InvertedPosting list \<Rightarrow> UnifiedDocRecord list" where
  "posting_records P xs = List.map_filter (\<lambda>x. record_at (P (ip_data_page_id x)) (ip_data_slot_id x)) xs"

lemma shard_inv_with_bpm:
  assumes "shard_inv N P B G D sh" "bp_st N {} [] P b"
  shows "shard_inv N P B G D (with_bpm sh b)"
proof -
  have "index_inv N P B G (with_bpm sh b)"
    using assms index_rep_bpm unfolding shard_inv_def index_inv_def by blast
  then show ?thesis using assms(1) by (simp add: shard_inv_def)
qed

lemma visit_posting_st:
  assumes st: "shard_st N [] P sh" and q: "unat (ip_data_page_id x) < N"
    and r: "record_at (P (ip_data_page_id x)) (ip_data_slot_id x) = Some r"
  shows "\<exists>b. visit_posting visit x (results, sh) =
      (fold visit (alive (tombstones_of P sh) [r]) results, with_bpm sh b) \<and> shard_st N [] P (with_bpm sh b)"
proof -
  let ?q = "ip_data_page_id x" and ?s = "ip_data_slot_id x"
  have bp: "bp_st N {} [] P (us_bpm sh)" by (rule shard_st_bpm [OF st])
  obtain f b1 where f: "buffer_pool_fetch_page (us_bpm sh) ?q = (Some f, b1)" "bp_st N {} [?q] P b1"
    "find_frame b1 ?q = Some f"
    using pool.fetch_st [OF bp _ allocated_not_invalid [OF bp q]] by auto
  have fr: "frame_page b f = P ?q" if "bp_st N {} [?q] P b" "find_frame b ?q = Some f" for b
    using pool.frame_st [OF that(1) _ that(2)] by simp
  have st1: "shard_st N [?q] P (with_bpm sh b1)" by (rule shard_st_with_bpm [OF st f(2)])
  obtain b2 where b2: "shard_is_deleted (with_bpm sh b1) (rc_doc_id r) =
      (fts_tombstone_is_deleted (tombstones_of P sh) (rc_doc_id r), with_bpm sh b2)"
    "shard_st N [?q] P (with_bpm sh b2)" "find_frame b2 ?q = Some f"
    using is_deleted_st [OF st1, of "rc_doc_id r"] f(3) by auto
  let ?b = "buffer_pool_unpin_page b2 ?q False HINT_NORMAL"
  have bp2: "bp_st N {} [?q] P b2" using shard_st_bpm [OF b2(2)] by simp
  have "bp_st N {} [] P ?b" using pool.unpin_clean_st [OF bp2, of ?q HINT_NORMAL] by simp
  moreover have "slotted_page_get_tuple (P ?q) ?s = Some (unat (slot_offset (P ?q) (unat ?s)), slot_length (P ?q) (unat ?s))"
    "unat (slot_length (P ?q) (unat ?s)) = 1588" "doc_record_at (P ?q) (unat (slot_offset (P ?q) (unat ?s))) = r"
    using r by (auto simp: record_at_def slot_record_def slotted_page_get_tuple_def split: if_splits)
  ultimately show ?thesis
    using f(1) fr [OF f(2,3)] fr [OF bp2 b2(3)] b2(1) shard_st_with_bpm [OF st]
    by (intro exI [of _ ?b]) (simp add: visit_posting_def)
qed

lemma visit_postings_st:
  assumes "shard_st N [] P sh"
    "\<forall>x \<in> set xs. unat (ip_data_page_id x) < N \<and> record_at (P (ip_data_page_id x)) (ip_data_slot_id x) \<noteq> None"
  shows "\<exists>b. fold (visit_posting visit) xs (results, sh) =
      (fold visit (alive (tombstones_of P sh) (posting_records P xs)) results, with_bpm sh b) \<and>
    shard_st N [] P (with_bpm sh b)"
  using assms
proof (induction xs arbitrary: results sh)
  case Nil
  then show ?case by (intro exI [of _ "us_bpm sh"]) (simp add: posting_records_def List.map_filter_def)
next
  case (Cons x xs)
  obtain r where r: "record_at (P (ip_data_page_id x)) (ip_data_slot_id x) = Some r" using Cons.prems(2) by auto
  obtain b where b: "visit_posting visit x (results, sh) =
      (fold visit (alive (tombstones_of P sh) [r]) results, with_bpm sh b)" "shard_st N [] P (with_bpm sh b)"
    using visit_posting_st [OF Cons.prems(1) _ r, of visit results] Cons.prems(2) by auto
  show ?case
    using Cons.IH [OF b(2), of "fold visit (alive (tombstones_of P sh) [r]) results"] Cons.prems(2) b(1) r
    by (auto simp: posting_records_def List.map_filter_def)
qed

lemma posting_records_used:
  "map used_positions xs = ys \<Longrightarrow> posting_records P xs = posting_records P ys"
proof (induction xs arbitrary: ys)
  case (Cons x xs)
  then show ?case by (auto simp: posting_records_def List.map_filter_def used_positions_def)
qed simp

lemma indexed_search_st:
  assumes inv: "shard_inv N P B G D sh"
  obtains b' where "shard_search_bm25f_indexed True sh t idf avgdl weights k1 b m =
      Some (exchange_sort sr_bm25f_score no_stamp
        (fold (consider_bm25f idf avgdl weights k1 b m)
          (alive (tombstones_of P sh) (posting_records P (take max_possible_postings (concat (B t))))) []), with_bpm sh b')"
    "shard_inv N P B G D (with_bpm sh b')"
proof -
  obtain M F I where rep: "index_rep N P M F I sh" "B = (\<lambda>t. map snd (I t))"
    using inv by (auto simp: shard_inv_def index_inv_def)
  obtain out b1 where g: "inverted_index_get_postings sh t max_possible_postings = Some (out, with_bpm sh b1)"
    "map used_positions out = take max_possible_postings (concat (B t))" "bp_st N {} [] P b1"
    using get_postings_rep [OF rep(1), of t max_possible_postings] rep(2) by auto
  have ok: "unat (ip_data_page_id x) < N \<and> record_at (P (ip_data_page_id x)) (ip_data_slot_id x) \<noteq> None"
    if "x \<in> set out" for x
  proof -
    have "used_positions x \<in> set (map used_positions out)" using that by simp
    then have "used_positions x \<in> set (concat (B t))" unfolding g(2) by (rule in_set_takeD)
    then have "posting_key (used_positions x) \<in> set (block_keys (B t))" by (auto simp: block_keys_def)
    then have "posting_key x \<in> set (block_keys (B t))" by (simp add: posting_key_def used_positions_def)
    then have "posting_ok P D (us_next_doc_id sh) (posting_key x)" using inv by (auto simp: shard_inv_def)
    then show ?thesis using inv by (auto simp: posting_ok_def posting_key_def shard_inv_def)
  qed
  have st: "shard_st N [] P (with_bpm sh b1)"
    by (rule shard_st_with_bpm [OF shard_inv_shard_st [OF inv] g(3)])
  obtain b2 where "fold (visit_posting (consider_bm25f idf avgdl weights k1 b m)) out ([], with_bpm sh b1) =
      (fold (consider_bm25f idf avgdl weights k1 b m) (alive (tombstones_of P sh) (posting_records P out)) [], with_bpm sh b2)"
    "shard_st N [] P (with_bpm sh b2)"
    using visit_postings_st [OF st, of out "consider_bm25f idf avgdl weights k1 b m" "[]"] ok by auto
  then show ?thesis
    using that [of b2] g(1) posting_records_used [OF g(2)] shard_inv_with_bpm [OF inv, of b2] shard_st_bpm [of N "[]" P "with_bpm sh b2"]
    by (simp add: shard_search_bm25f_indexed_def)
qed

section \<open>Deleting a document\<close>

lemma delete_inv:
  assumes inv: "shard_inv N P B G D sh"
  obtains sh' P' where "shard_delete_document sh d = (0, sh')" "shard_inv N P' B G D sh'"
    "tombstones_of P' sh' = fts_tombstone_mark_deleted (tombstones_of P sh) d" "\<forall>q \<in> G \<union> D. P' q = P q"
    "us_next_doc_id sh' = us_next_doc_id sh" "us_total_docs sh' = us_total_docs sh"
proof -
  let ?t = "us_tombstone_page_id sh" and ?p = "fts_tombstone_mark_deleted (tombstones_of P sh) d"
  obtain b where b: "shard_delete_document sh d = (0, with_bpm sh b)" "shard_st N [] (P(?t := ?p)) (with_bpm sh b)"
    by (rule delete_st [OF shard_inv_shard_st [OF inv]])
  have t: "?t \<notin> G \<union> D" using inv by (auto simp: shard_inv_def)
  have st: "bp_st N {} [] (P(?t := ?p)) b" using shard_st_bpm [OF b(2)] by simp
  have idx: "index_inv N P B G sh" using inv by (simp add: shard_inv_def)
  have "index_inv N (P(?t := ?p)) B G (with_bpm sh b)"
  proof (rule index_inv_frame [OF idx st order_refl index_inv_next [OF idx]])
    show "us_store (with_bpm sh b) = us_store sh\<lparr>ps_next_page_id := us_next_page_id sh, ps_bpm := b\<rparr>" by simp
  qed (use t in auto)
  moreover have "posting_ok (P(?t := ?p)) D (us_next_doc_id sh) k" if "k \<in> set (block_keys (B u))" for k u
    by (rule posting_ok_frame [of P]) (use that inv t in \<open>auto simp: shard_inv_def\<close>)
  ultimately have "shard_inv N (P(?t := ?p)) B G D (with_bpm sh b)"
    using inv by (auto simp: shard_inv_def)
  then show ?thesis using that [OF b(1), of "P(?t := ?p)"] t by (auto simp: with_bpm_def)
qed

end
