(* ===== verification/CDoubleBits.thy ===== *)
theory CDoubleBits
  imports ShardMeta
begin

text \<open>
  The values a C double can hold, that every operation stays among them, and that their 64-bit
  representation is read back as the same value; the round trip of the metadata record, which
  stores eight doubles.
\<close>

section \<open>Representable values\<close>

fun is_binary64 :: "double \<Rightarrow> bool" where
  "is_binary64 (Fin x) \<longleftrightarrow> round64 x = x \<and> \<bar>x\<bar> < dbl_limit"
| "is_binary64 _ \<longleftrightarrow> True"

lemma round64_small:
  assumes m: "\<bar>m\<bar> < 2 ^ 53" and u: "- 1074 \<le> u"
  shows "round64 (of_int m * 2 powi u) = of_int m * 2 powi u"
proof (cases "m = 0")
  case False
  let ?x = "of_int m * 2 powi u :: real"
  have x: "?x \<noteq> 0" using False by simp
  have "of_int \<bar>m\<bar> < (of_int (2 ^ 53) :: real)" using m by (simp only: of_int_less_iff)
  then have "\<bar>?x\<bar> < 2 ^ 53 * 2 powi u" by (simp add: abs_mult)
  also have "\<dots> = 2 powi (u + 53)" by (simp add: power_int_add)
  finally have "binexp ?x < u + 53" using binexp_bounds(1) [OF x] powi_le_less_imp by blast
  then have le: "ulp_exp ?x \<le> u" using u by (simp add: ulp_exp_def)
  have "(2::real) powi (ulp_exp ?x + (u - ulp_exp ?x)) / 2 powi ulp_exp ?x = of_int (2 ^ nat (u - ulp_exp ?x))"
    by (rule powi_diff_int) (use le in simp)
  then have "2 powi u = (of_int (2 ^ nat (u - ulp_exp ?x)) :: real) * 2 powi ulp_exp ?x"
    by (simp add: divide_eq_eq del: of_int_power)
  then have "?x = of_int (m * 2 ^ nat (u - ulp_exp ?x)) * 2 powi ulp_exp ?x"
    by (metis mult.assoc of_int_mult)
  then show ?thesis by (rule round64_exact)
qed simp

lemma round64_grid:
  assumes m: "\<bar>m\<bar> \<le> 2 ^ 53" and u: "- 1074 \<le> u"
  shows "round64 (of_int m * 2 powi u) = of_int m * 2 powi u"
proof (cases "\<bar>m\<bar> < 2 ^ 53")
  case True
  then show ?thesis by (rule round64_small [OF _ u])
next
  case False
  then obtain k :: int where k: "m = k * 2 ^ 53" "\<bar>k\<bar> = 1" using m by (cases "0 \<le> m") force+
  have "of_int m * 2 powi u = (of_int (k * 2 ^ 52) :: real) * 2 powi (u + 1)"
    using k(1) by (simp add: power_int_add)
  moreover have "round64 (of_int (k * 2 ^ 52) * 2 powi (u + 1)) = of_int (k * 2 ^ 52) * 2 powi (u + 1)"
    using k(2) u by (intro round64_small) (simp_all add: abs_mult)
  ultimately show ?thesis by simp
qed

lemma rhe_ulp_bound: "\<bar>rhe (x / 2 powi ulp_exp x)\<bar> \<le> 2 ^ 53"
proof (cases "x = 0")
  case False
  let ?u = "ulp_exp x"
  have "\<bar>x\<bar> \<le> 2 powi (binexp x + 1)" using binexp_bounds(2) [OF False] by simp
  also have "\<dots> \<le> 2 powi (?u + 53)" by (rule powi_mono) (simp add: ulp_exp_def)
  also have "\<dots> = 2 powi ?u * 2 ^ 53" by (simp add: power_int_add)
  finally have "\<bar>x / 2 powi ?u\<bar> \<le> of_int (2 ^ 53)" by (simp add: field_simps abs_mult)
  then have "x / 2 powi ?u \<le> of_int (2 ^ 53)" "- (x / 2 powi ?u) \<le> of_int (2 ^ 53)"
    by (simp_all only: abs_le_iff)
  then have "rhe (x / 2 powi ?u) \<le> 2 ^ 53" "rhe (- (x / 2 powi ?u)) \<le> 2 ^ 53"
    by (metis rhe_mono rhe_of_int)+
  then show ?thesis by (simp add: rhe_minus)
qed (use rhe_of_int [of 0] in simp)

lemma round64_idem: "round64 (round64 x) = round64 x"
proof (cases "x = 0")
  case False
  then show ?thesis
    using round64_grid [OF rhe_ulp_bound [of x], of "ulp_exp x"] by (simp add: round64_def [of x] ulp_exp_def)
qed simp

lemma to_double_binary64: "is_binary64 (to_double x)"
  by (auto simp: to_double_def Let_def round64_idem abs_less_iff)

lemma binary64_0 [simp]: "is_binary64 (Fin 0)"
  by simp

lemma binary64_ops:
  "is_binary64 (dadd a b)" "is_binary64 (dmul a b)" "is_binary64 (ddiv a b)" "is_binary64 (dsqrt a)"
  "is_binary64 (dlog a)" "is_binary64 (dlog2 a)" "is_binary64 (dsub a b)" "is_binary64 (d_of_nat n)"
proof -
  have sinf: "is_binary64 (sinf x)" for x by (simp add: sinf_def)
  show "is_binary64 (dadd a b)" by (cases a; cases b) (simp_all add: to_double_binary64 del: is_binary64.simps(1))
  then show "is_binary64 (dsub a b)"
    unfolding dsub_def by (cases a; cases "dneg b") (simp_all add: to_double_binary64 del: is_binary64.simps(1))
  show "is_binary64 (dmul a b)" by (cases a; cases b) (simp_all add: to_double_binary64 sinf del: is_binary64.simps(1))
  show "is_binary64 (ddiv a b)" by (cases a; cases b) (simp_all add: to_double_binary64 sinf del: is_binary64.simps(1))
  show "is_binary64 (dsqrt a)" by (cases a) (simp_all add: to_double_binary64 del: is_binary64.simps(1))
  show "is_binary64 (dlog a)" "is_binary64 (dlog2 a)"
    by (cases a; simp add: to_double_binary64 del: is_binary64.simps(1))+
  show "is_binary64 (d_of_nat n)" unfolding d_of_nat_def by (rule to_double_binary64)
qed

section \<open>The 64-bit representation\<close>

lemma bits_fields:
  assumes "s < 2" "E < 2048" "r < 2 ^ 52"
  defines "w \<equiv> (of_nat (s * 2 ^ 63 + E * 2 ^ 52 + r) :: u64)"
  shows "unat w div 2 ^ 63 = s" "unat w div 2 ^ 52 mod 2048 = E" "unat w mod 2 ^ 52 = r"
proof -
  let ?n = "s * 2 ^ 63 + E * 2 ^ 52 + r"
  have of_nat: "k < 2 ^ 64 \<Longrightarrow> unat (of_nat k :: u64) = k" for k by (simp add: unat_of_nat)
  have w: "unat w = ?n" unfolding w_def by (rule of_nat) (use assms(1-3) in simp)
  have n: "?n = (s * 2048 + E) * 2 ^ 52 + r" by simp
  have gen: "(a * c + k) div c = a" "(a * c + k) mod c = k" if "k < c" for a c k :: nat using that by simp_all
  have d: "?n div 2 ^ 52 = s * 2048 + E" unfolding n by (rule gen(1) [OF assms(3)])
  show "unat w mod 2 ^ 52 = r" unfolding w n by (rule gen(2) [OF assms(3)])
  show "unat w div 2 ^ 52 mod 2048 = E" unfolding w d by (rule gen(2) [OF assms(2)])
  have "?n div 2 ^ 63 = ?n div 2 ^ 52 div 2048" by (simp add: div_mult2_eq [symmetric])
  then show "unat w div 2 ^ 63 = s" unfolding w d using assms(2) by simp
qed

lemma sign_bit: "(if x < 0 then 2 ^ 63 else 0) = (if x < (0 :: real) then 1 else 0 :: nat) * 2 ^ 63"
  by simp

text \<open>The size of the integer significand tells a subnormal number from a normal one.\<close>

lemma ulp_exp_subnormal:
  assumes x: "x \<noteq> 0" and m: "\<bar>x\<bar> / 2 powi ulp_exp x < of_int (2 ^ 52)"
  shows "ulp_exp x = - 1074"
proof (rule ccontr)
  let ?u = "ulp_exp x"
  assume "?u \<noteq> - 1074"
  then have "binexp x = ?u + 52" by (simp add: ulp_exp_def max_def split: if_splits)
  then have "2 powi (?u + 52) / 2 powi ?u \<le> \<bar>x\<bar> / 2 powi ?u"
    using binexp_bounds(1) [OF x] by (simp add: divide_right_mono)
  moreover have "(2::real) powi (?u + 52) / 2 powi ?u = of_int (2 ^ 52)" by (simp only: powi_diff_int) simp
  ultimately show False using m by simp
qed

lemma ulp_exp_normal:
  assumes x: "x \<noteq> 0" and m: "of_int (2 ^ 52) \<le> \<bar>x\<bar> / 2 powi ulp_exp x"
  shows "- 1022 \<le> binexp x" "ulp_exp x = binexp x - 52" "\<bar>x\<bar> / 2 powi ulp_exp x < of_int (2 ^ 53)"
proof -
  let ?u = "ulp_exp x"
  note be = binexp_bounds [OF x]
  show pos: "- 1022 \<le> binexp x"
  proof (rule ccontr)
    assume "\<not> - 1022 \<le> binexp x"
    then have "binexp x + 1 \<le> ?u + 52" by (simp add: ulp_exp_def)
    then have "\<bar>x\<bar> < 2 powi (?u + 52)" using be(2) powi_mono [of "binexp x + 1" "?u + 52"] by simp
    then have "\<bar>x\<bar> / 2 powi ?u < 2 powi (?u + 52) / 2 powi ?u" by (simp add: divide_strict_right_mono)
    moreover have "(2::real) powi (?u + 52) / 2 powi ?u = of_int (2 ^ 52)" by (simp only: powi_diff_int) simp
    ultimately show False using m by simp
  qed
  then show u: "?u = binexp x - 52" by (simp add: ulp_exp_def)
  have "\<bar>x\<bar> < 2 powi (?u + 53)" using be(2) u by (simp add: add.commute)
  then have "\<bar>x\<bar> / 2 powi ?u < 2 powi (?u + 53) / 2 powi ?u" by (simp add: divide_strict_right_mono)
  moreover have "(2::real) powi (?u + 53) / 2 powi ?u = of_int (2 ^ 53)" by (simp only: powi_diff_int) simp
  ultimately show "\<bar>x\<bar> / 2 powi ?u < of_int (2 ^ 53)" by simp
qed

lemma signed_significand:
  fixes x :: real
  assumes "x = of_int k * 2 powi u"
  shows "x = (if x < 0 then - 1 else 1) * of_nat (nat \<bar>k\<bar>) * 2 powi u" "\<bar>x\<bar> / 2 powi u = of_nat (nat \<bar>k\<bar>)"
proof -
  show "x = (if x < 0 then - 1 else 1) * of_nat (nat \<bar>k\<bar>) * 2 powi u"
    using assms powi_pos [of u] by (cases "0 \<le> k") (auto simp: mult_neg_pos mult_less_0_iff not_less)
  show "\<bar>x\<bar> / 2 powi u = of_nat (nat \<bar>k\<bar>)" by (simp add: assms abs_mult)
qed

lemma bits_round_trip_Fin:
  assumes x: "round64 x = x" "\<bar>x\<bar> < dbl_limit" "x \<noteq> 0"
  shows "dbl_of_bits (bits_of_dbl (Fin x)) = Fin x"
proof -
  define u where "u = ulp_exp x"
  define k where "k = rhe (x / 2 powi u)"
  define m where "m = nat \<bar>k\<bar>"
  define s :: nat where "s = (if x < 0 then 1 else 0)"
  have xk: "x = of_int k * 2 powi u" using x(1,3) by (simp add: round64_def k_def u_def)
  have abs: "\<bar>x\<bar> / 2 powi u = of_nat m" using signed_significand(2) [OF xk] by (simp add: m_def)
  then have floor: "nat \<lfloor>\<bar>x\<bar> / 2 powi u\<rfloor> = m" by simp
  have sg: "x = (if s = 1 then - 1 else 1) * of_nat m * 2 powi u"
    using signed_significand(1) [OF xk] by (cases "x < 0") (simp_all add: s_def m_def)
  have m_real: "of_nat m < (of_int (2 ^ n) :: real) \<longleftrightarrow> m < 2 ^ n" for n
    by (metis of_int_of_nat_eq of_nat_less_iff of_nat_numeral of_nat_power)
  note be = binexp_bounds [OF x(3)]
  have m53: "m \<le> 2 ^ 53" using rhe_ulp_bound [of x] by (simp add: m_def k_def u_def nat_le_iff)
  show ?thesis
  proof (cases "m < 2 ^ 52")
    case True
    then have "u = - 1074" using ulp_exp_subnormal [OF x(3)] abs m_real [of 52] by (simp add: u_def)
    then have x': "x = (if s = 1 then - 1 else 1) * of_nat m * 2 powi (- 1074)" using sg by simp
    have "bits_of_dbl (Fin x) = of_nat (s * 2 ^ 63 + 0 * 2 ^ 52 + m)"
      using x(3) True by (simp add: Let_def floor u_def [symmetric] s_def)
    then have "dbl_of_bits (bits_of_dbl (Fin x)) = Fin ((if s = 1 then - 1 else 1) * of_nat m * 2 powi (- 1074))"
      using bits_fields [of s 0 m] True by (simp add: dbl_of_bits_def Let_def s_def)
    then show ?thesis unfolding x' [symmetric] .
  next
    case False
    then have nrm: "- 1022 \<le> binexp x" "u = binexp x - 52" "m < 2 ^ 53"
      using ulp_exp_normal [OF x(3)] abs m_real [of 52] m_real [of 53] by (simp_all add: u_def not_less)
    have "2 powi binexp x < (2::real) powi 1024" using be(1) x(2) by (simp add: dbl_limit_def)
    then have hi: "binexp x < 1024" by (rule powi_less_imp)
    have m: "m - 2 ^ 52 < 2 ^ 52" using nrm(3) by simp
    define E where "E = nat (u + 1075)"
    have E: "0 < E" "E < 2047" "int E = u + 1075" using nrm(1,2) hi by (simp_all add: E_def)
    have "bits_of_dbl (Fin x) = of_nat (s * 2 ^ 63 + E * 2 ^ 52 + (m - 2 ^ 52))"
      using x(3) False by (simp add: Let_def floor u_def [symmetric] s_def E_def)
    then have "dbl_of_bits (bits_of_dbl (Fin x)) = Fin ((if s = 1 then - 1 else 1) * of_nat (2 ^ 52 + (m - 2 ^ 52)) * 2 powi (int E - 1075))"
      using bits_fields [of s E "m - 2 ^ 52"] m E(1,2) by (simp add: dbl_of_bits_def Let_def s_def)
    also have "2 ^ 52 + (m - 2 ^ 52) = m" using False by simp
    also have "int E - 1075 = u" using E(3) by simp
    finally show ?thesis unfolding sg [symmetric] .
  qed
qed

lemma bits_round_trip: "is_binary64 d \<Longrightarrow> dbl_of_bits (bits_of_dbl d) = d"
proof (cases d)
  case (Fin x)
  assume "is_binary64 d"
  then show ?thesis
    using Fin bits_round_trip_Fin [of x] by (cases "x = 0") (simp_all add: dbl_of_bits_def del: bits_of_dbl.simps(4), simp add: dbl_of_bits_def)
next
  case PInf
  then show ?thesis using bits_fields [of 0 2047 0] by (simp add: dbl_of_bits_def)
next
  case NInf
  then show ?thesis using bits_fields [of 1 2047 0] by (simp add: dbl_of_bits_def)
next
  case NaN
  then show ?thesis using bits_fields [of 0 2047 "2 ^ 51"] by (simp add: dbl_of_bits_def)
qed

section \<open>The metadata record\<close>

definition metadata_wf :: "ShardMetadata \<Rightarrow> bool" where
  "metadata_wf meta \<longleftrightarrow> length (sm_avgdl meta) = 4 \<and> length (sm_sum_dl meta) = 4 \<and>
     (\<forall>d \<in> set (sm_avgdl meta) \<union> set (sm_sum_dl meta). is_binary64 d)"

lemma put_doubles_snoc: "put_doubles m a (ds @ [d]) = put_u64 (put_doubles m a ds) (a + 8 * length ds) (bits_of_dbl d)"
proof -
  have "fold (\<lambda>i m. put_u64 m (a + 8 * i) (bits_of_dbl ((ds @ [d]) ! i))) [0..<length ds] m =
    fold (\<lambda>i m. put_u64 m (a + 8 * i) (bits_of_dbl (ds ! i))) [0..<length ds] m"
    by (rule fold_cong) (auto simp: nth_append)
  then show ?thesis by (simp add: put_doubles_def)
qed

lemma put_doubles_Nil [simp]: "put_doubles m a [] = m"
  by (simp add: put_doubles_def)

lemma put_doubles_outside: "i < a \<or> a + 8 * length ds \<le> i \<Longrightarrow> put_doubles m a ds i = m i"
  by (induction ds rule: rev_induct) (auto simp: put_doubles_snoc put_u64_def poke_other)

lemma get_put_doubles: "k < length ds \<Longrightarrow> get_u64 (put_doubles m a ds) (a + 8 * k) = bits_of_dbl (ds ! k)"
proof (induction ds rule: rev_induct)
  case (snoc d ds)
  show ?case
  proof (cases "k = length ds")
    case False
    then have "k < length ds" using snoc.prems by simp
    then show ?thesis using snoc.IH by (simp add: put_doubles_snoc nth_append)
  qed (simp add: put_doubles_snoc)
qed simp

lemma doubles_at_put_doubles:
  "n = length ds \<Longrightarrow> \<forall>d \<in> set ds. is_binary64 d \<Longrightarrow> doubles_at (put_doubles m a ds) a n = ds"
  by (rule nth_equalityI) (simp_all add: doubles_at_def get_put_doubles bits_round_trip)

lemma doubles_at_cong:
  "(\<And>i. a \<le> i \<Longrightarrow> i < a + 8 * n \<Longrightarrow> m i = m' i) \<Longrightarrow> doubles_at m a n = doubles_at m' a n"
  unfolding doubles_at_def
  by (rule map_cong [OF refl], rule arg_cong [where f = dbl_of_bits], rule get_cong(4) [of _ 8]) auto

lemma length_metadata_bytes [simp]: "length (metadata_bytes meta) = 152"
  by (simp add: metadata_bytes_def Let_def)

lemma metadata_round_trip:
  assumes "metadata_wf meta"
  shows "metadata_of (metadata_bytes meta) = meta"
proof -
  define m1 where "m1 = put_u32 (put_u32 (put_u32 (put_u32 (put_u32 (put_u32 (\<lambda>_. 0) 0 (sm_magic meta))
    4 (sm_version meta)) 8 (sm_shard_id meta)) 12 (sm_total_docs meta)) 16 (sm_next_doc_id meta)) 20 (sm_next_page_id meta)"
  define m2 where "m2 = put_doubles m1 24 (sm_avgdl meta)"
  define m3 where "m3 = put_doubles m2 56 (sm_sum_dl meta)"
  define m where "m = blit (\<lambda>_. 0) 0 (metadata_bytes meta)"
  have len: "length (sm_avgdl meta) = 4" "length (sm_sum_dl meta) = 4" using assms by (simp_all add: metadata_wf_def)
  have "metadata_bytes meta = bytes_at m3 0 152"
    by (simp add: metadata_bytes_def m3_def m2_def m1_def len)
  then have m3: "m i = m3 i" if "i < 152" for i using that by (simp add: m_def blit_def)
  have m2: "m3 i = m2 i" if "i < 56" for i using that by (simp add: m3_def put_doubles_outside)
  have m1: "m2 i = m1 i" if "i < 24" for i using that by (simp add: m2_def put_doubles_outside)
  have words: "get_u32 m a = get_u32 m1 a" if "a + 4 \<le> 24" for a
    by (rule get_cong(3) [of _ 4]) (use that m3 m2 m1 in auto)
  have "doubles_at m 24 4 = doubles_at m2 24 4" by (rule doubles_at_cong) (simp add: m3 m2)
  moreover have "doubles_at m 56 4 = doubles_at m3 56 4" by (rule doubles_at_cong) (simp add: m3)
  moreover have "doubles_at m2 24 4 = sm_avgdl meta" "doubles_at m3 56 4 = sm_sum_dl meta"
    unfolding m2_def m3_def using assms len by (auto simp: metadata_wf_def intro!: doubles_at_put_doubles)
  moreover have "get_u32 m1 0 = sm_magic meta" "get_u32 m1 4 = sm_version meta" "get_u32 m1 8 = sm_shard_id meta"
    "get_u32 m1 12 = sm_total_docs meta" "get_u32 m1 16 = sm_next_doc_id meta" "get_u32 m1 20 = sm_next_page_id meta"
    by (simp_all add: m1_def)
  ultimately show ?thesis
    by (simp add: metadata_of_def m_def [symmetric] words)
qed

lemma binary64_10 [simp]: "round64 10 = 10" "10 < dbl_limit"
  using round64_small [of 10 0] by (simp_all add: dbl_limit_def)

text \<open>The statistics of a shard are saved as they will be read.\<close>

definition stats_wf :: "UnifiedShard \<Rightarrow> bool" where
  "stats_wf sh \<longleftrightarrow> length (us_avgdl sh) = 4 \<and> length (us_sum_dl sh) = 4 \<and>
     (\<forall>d \<in> set (us_avgdl sh) \<union> set (us_sum_dl sh). is_binary64 d)"

lemma meta_saved:
  assumes "stats_wf sh" "0 \<le> fd" "next_outcome plan = IO_full" "next_outcome (tl plan) = IO_full"
  shows "\<exists>bs. shard_meta_save sh fd plan old = (0, Some bs) \<and>
    (\<forall>sh'. shard_meta_load sh' (Some bs) = (0, (with_next_page sh' (us_next_page_id sh))
       \<lparr>us_total_docs := us_total_docs sh, us_next_doc_id := us_next_doc_id sh,
        us_avgdl := us_avgdl sh, us_sum_dl := us_sum_dl sh\<rparr>))"
proof -
  let ?meta = "\<lparr>sm_magic = SHARD_META_MAGIC, sm_version = SHARD_META_VERSION,
    sm_shard_id = us_shard_id sh, sm_total_docs = us_total_docs sh,
    sm_next_doc_id = us_next_doc_id sh, sm_next_page_id = us_next_page_id sh,
    sm_avgdl = us_avgdl sh, sm_sum_dl = us_sum_dl sh\<rparr>"
  have "metadata_wf ?meta" using assms(1) by (simp add: metadata_wf_def stats_wf_def)
  note rt = metadata_round_trip [OF this]
  have "shard_meta_save sh fd plan old = (0, Some (metadata_bytes ?meta))"
    using assms(2-4) by (simp add: shard_meta_save_def transferred_def)
  then show ?thesis
    using rt by (intro exI [of _ "metadata_bytes ?meta"]) (simp add: shard_meta_load_def)
qed

end
