(* ===== verification/ShardOpen.thy ===== *)
theory ShardOpen
  imports ShardInsert CDoubleBits
begin

text \<open>
  Opening a shard on empty files: \<open>shard_init\<close> writes the three first pages, makes page 0 the
  root of the B-tree, page 1 the tombstones and page 2 the first data page, and so establishes
  the invariant of \<open>ShardInsert\<close> with an empty index.
\<close>

section \<open>The first pages\<close>

text \<open>A page that no frame caches can be zeroed on the file at any time.\<close>

lemma write_zero_st:
  assumes st: "bp_st N {} [] P b" and pid: "unat pid = N" and N: "N + 1 < 2 ^ 32"
    and free: "\<not> bp_cached b pid"
  obtains b' where "bp_write_zero b pid = (int PAGE_SIZE, b')" "bp_st (N + 1) {} [] (P(pid := (\<lambda>_. 0))) b'"
    "bp_cached b' = bp_cached b" "bp_wal b' = bp_wal b"
proof -
  have ok: "bp_ok N {} b" and P: "bp_page b = P" using st by (simp_all add: bp_st_def)
  let ?b = "b\<lparr>bp_file := write_page (bp_file b) pid (\<lambda>_. 0)\<rparr>"
  have free': "pid \<in> {} \<or> \<not> bp_cached b pid" using free by simp
  note w = bp_ok_write_file [OF ok _ _ N free' page_wf_zero refl, simplified pid]
  have none: "find_frame ?b pid = None" using free w(4) by (simp add: bp_cached_def)
  have "bp_page ?b pid = (\<lambda>_. 0)"
    using none by (simp add: bp_page_def load_page_def on_file_write disk_page_write [OF page_wf_zero])
  then have "bp_page ?b = P(pid := (\<lambda>_. 0))" using w(2) P by (auto simp: fun_eq_iff)
  then have "bp_st (N + 1) {} [] (P(pid := (\<lambda>_. 0))) ?b"
    using w(1,3) st by (simp add: bp_st_def)
  moreover have "bp_cached ?b = bp_cached b" using w(4) by (simp add: bp_cached_def fun_eq_iff)
  ultimately show ?thesis using that [of ?b] bp_write_zero_eq [OF ok, of pid] by simp
qed

lemma init_page_as_st:
  assumes st: "bp_st N {} [] P b" and pid: "unat pid < N" and wf: "page_wf (g (P pid))"
  shows "bp_st N {} [] (P(pid := g (P pid))) (init_page_as pid g b)"
proof -
  obtain f c where f: "buffer_pool_fetch_page b pid = (Some f, c)" "frame_page c f = P pid"
    "\<And>h p. page_wf p \<Longrightarrow> bp_st N {} [] (P(pid := p)) (buffer_pool_unpin_page (set_frame_page f p c) pid True h)"
    using pool.write_page [OF st _ allocated_not_invalid [OF st pid] pid] by auto
  then show ?thesis using wf by (simp add: init_page_as_def)
qed

lemma init_not_cached:
  "buffer_pool_init fd wal n d True = Some b \<Longrightarrow> q \<noteq> INVALID_PAGE_ID \<Longrightarrow> \<not> bp_cached b q"
  by (auto simp: buffer_pool_init_def bp_cached_def find_frame_none empty_frame_def)

text \<open>The three zeroed pages.\<close>

lemma first_pages:
  assumes st: "bp_st 0 {} [] P b" and free: "\<And>q. q \<noteq> INVALID_PAGE_ID \<Longrightarrow> \<not> bp_cached b q"
  obtains b' where "write_zero_pages [0, 1, 2] b = (True, b')"
    "bp_st 3 {} [] (P(0 := (\<lambda>_. 0), 1 := (\<lambda>_. 0), 2 := (\<lambda>_. 0))) b'"
proof -
  have f0: "\<not> bp_cached b 0" "\<not> bp_cached b 1" "\<not> bp_cached b 2" by (rule free; simp)+
  obtain b1 where b1: "bp_write_zero b 0 = (int PAGE_SIZE, b1)" "bp_st (0 + 1) {} [] (P(0 := (\<lambda>_. 0))) b1" "bp_cached b1 = bp_cached b"
    by (rule write_zero_st [OF st, of 0]) (use f0 in auto)
  obtain b2 where b2: "bp_write_zero b1 1 = (int PAGE_SIZE, b2)"
    "bp_st (0 + 1 + 1) {} [] (P(0 := (\<lambda>_. 0), 1 := (\<lambda>_. 0))) b2" "bp_cached b2 = bp_cached b"
    by (rule write_zero_st [OF b1(2), of 1]) (use f0 in \<open>auto simp: b1(3)\<close>)
  obtain b3 where b3: "bp_write_zero b2 2 = (int PAGE_SIZE, b3)"
    "bp_st (0 + 1 + 1 + 1) {} [] (P(0 := (\<lambda>_. 0), 1 := (\<lambda>_. 0), 2 := (\<lambda>_. 0))) b3"
    by (rule write_zero_st [OF b2(2), of 2]) (use f0 in \<open>auto simp: b2(3)\<close>)
  show ?thesis using that [of b3] b1(1) b2(1) b3 by (simp add: numeral_3_eq_3)
qed

section \<open>Opening\<close>

definition empty_files :: "u32 \<Rightarrow> string \<Rightarrow> Disk \<Rightarrow> bool" where
  "empty_files shard_id base_path disk \<longleftrightarrow>
     (let path = shard_path base_path shard_id in
      0 \<le> dk_data_fd disk (path ''.dat'') \<and> 0 \<le> dk_wal_fd disk (path ''.wal'') \<and>
      df_size (dk_data disk (path ''.dat'')) = 0 \<and> df_plan (dk_data disk (path ''.dat'')) = [] \<and>
      dk_meta disk (path ''.meta'') = None \<and> dk_calloc disk)"

text \<open>What stays the same while a shard is open: its identity, the pages \<open>shard_init\<close> reserves,
  and statistics that are numbers a C double can hold.\<close>

definition opened_as :: "u32 \<Rightarrow> string \<Rightarrow> UnifiedShard \<Rightarrow> bool" where
  "opened_as shard_id base_path sh \<longleftrightarrow>
     us_shard_id sh = shard_id \<and> us_directory sh = base_path \<and> us_btree_root sh = 0 \<and>
     us_tombstone_page_id sh = 1 \<and> us_is_initialized sh \<and> stats_wf sh"

lemma shard_init_fresh:
  assumes files: "empty_files shard_id base_path disk" and n: "4 \<le> unat n" "unat n < 2 ^ 31"
  obtains sh P where "shard_init shard_id base_path n disk = Opened sh" "shard_inv 3 P (\<lambda>_. []) {0} {2} sh"
    "us_next_doc_id sh = 0" "us_total_docs sh = 0" "tombstones_of P sh = fts_tombstone_init (\<lambda>_. 0) 1"
    "page_records (P 2) = []" "opened_as shard_id base_path sh"
proof -
  define path where "path = shard_path base_path shard_id"
  define wal where "wal = snd (wal_init (path ''.wal'') (dk_wal disk (path ''.wal''))
    (dk_wal_fd disk (path ''.wal'')) (dk_wal_plan disk (path ''.wal'')))"
  have f: "0 \<le> dk_data_fd disk (path ''.dat'')" "0 \<le> dk_wal_fd disk (path ''.wal'')"
    "df_size (dk_data disk (path ''.dat'')) = 0" "df_plan (dk_data disk (path ''.dat'')) = []"
    "dk_meta disk (path ''.meta'') = None" "dk_calloc disk"
    using files by (simp_all add: empty_files_def Let_def path_def)
  have w: "wal_init (path ''.wal'') (dk_wal disk (path ''.wal'')) (dk_wal_fd disk (path ''.wal''))
      (dk_wal_plan disk (path ''.wal'')) = (0, wal)"
    using f(2) by (simp add: wal_def wal_init_def Let_def)
  obtain b where b: "buffer_pool_init (dk_data_fd disk (path ''.dat'')) (Some wal) n (dk_data disk (path ''.dat'')) True = Some b"
    "bp_st 0 {} [] (load_page (dk_data disk (path ''.dat''))) b"
    using init_st [OF f(1,4), of 0 n "Some wal"] f(3) n by auto
  have size: "df_size (bp_file b) = 0" using b(1) f(3) by (auto simp: buffer_pool_init_def)
  define P0 where "P0 = (load_page (dk_data disk (path ''.dat'')))(0 := (\<lambda>_. 0), 1 := (\<lambda>_. 0), 2 := (\<lambda>_. 0))"
  obtain b1 where b1: "write_zero_pages [0, 1, 2] b = (True, b1)" "bp_st 3 {} [] P0 b1"
    by (rule first_pages [OF b(2)]) (use init_not_cached [OF b(1)] in \<open>auto simp: P0_def\<close>)
  define P1 where "P1 = P0(1 := fts_tombstone_init (\<lambda>_. 0) 1)"
  define P2 where "P2 = P1(2 := slotted_page_init (\<lambda>_. 0) 2 PAGE_TYPE_VECTOR_DATA)"
  let ?b2 = "init_page_as 1 (\<lambda>p. fts_tombstone_init p 1) b1"
  let ?b3 = "init_page_as 2 (\<lambda>p. slotted_page_init p 2 PAGE_TYPE_VECTOR_DATA) ?b2"
  have pages: "P0 0 = (\<lambda>_. 0)" "P0 1 = (\<lambda>_. 0)" "P0 2 = (\<lambda>_. 0)" by (simp_all add: P0_def)
  have "bp_st 3 {} [] P1 ?b2"
    using init_page_as_st [OF b1(2), of 1 "\<lambda>p. fts_tombstone_init p 1"] pages
    by (simp add: P1_def fts_tombstone_init_def init_page_wf)
  then have st3: "bp_st 3 {} [] P2 ?b3"
    using init_page_as_st [of 3 P1 ?b2 2 "\<lambda>p. slotted_page_init p 2 PAGE_TYPE_VECTOR_DATA"] pages
    by (simp add: P2_def P1_def init_page_wf)
  have "P2 0 = (\<lambda>_. 0)" using pages by (simp add: P2_def P1_def)
  then have ty: "hdr_page_type (P2 0) = 0" by (simp add: get_u16_def numeral_2_eq_2)
  obtain p where bt: "btree_inv 3 (P2(0 := p)) 0 Map.empty {0} \<lparr>ps_bpm = btree_init 0 ?b3, ps_next_page_id = 3\<rparr>"
    by (rule btree_init_inv [OF st3, of 0 3]) (use ty in simp_all)
  define P where "P = P2(0 := p)"
  define sh where "sh = \<lparr>us_shard_id = shard_id,
    us_store = \<lparr>ps_bpm = btree_init 0 ?b3, ps_next_page_id = 3\<rparr>,
    us_btree_root = 0, us_total_docs = 0, us_avgdl = replicate 4 (Fin 10), us_sum_dl = replicate 4 (Fin 0),
    us_active_data_page_id = 2, us_next_doc_id = 0, us_tombstone_page_id = 1, us_is_initialized = True,
    us_directory = base_path\<rparr>"
  have "index_rep 3 P Map.empty {0} (\<lambda>_. []) sh" using bt by (simp add: index_rep_def sh_def P_def)
  then have "index_inv 3 P (\<lambda>_. []) {0} sh" by (force simp: index_inv_def index_pages_def)
  moreover have "data_page (P 2)"
    by (simp add: P_def P2_def data_page_def init_slotted_ok)
  moreover have "q \<in> {0} \<union> {2} \<union> {1}" if "unat q < 3" for q :: u32
    using that by (auto simp: numeral_3_eq_3 less_Suc_eq word_unat_eq_iff)
  ultimately have inv: "shard_inv 3 P (\<lambda>_. []) {0} {2} sh" by (simp add: shard_inv_def sh_def)
  have "shard_init shard_id base_path n disk = Opened sh"
    using f(1,5,6) w b(1) b1(1) size unfolding shard_init_def path_def [symmetric] Let_def
    by (simp add: shard_meta_load_def sh_def)
  then show ?thesis
    using that [of sh P] inv by (simp add: opened_as_def stats_wf_def sh_def P_def P2_def P1_def page_records_def List.map_filter_def)
qed

end
