(* ===== verification/ShardFrame.thy ===== *)
theory ShardFrame
  imports AsyncSearch
begin

text \<open>
  What the operations leave alone: a field of the shard record outside its page store and its
  active page is untouched by the index, all searches and the deletions; an insertion changes the
  statistics as well. Stated once for any field, and used for the shard's number, by which
  \<open>shard_search_done_cb\<close> finds its context.
\<close>

text \<open>
  What a shard keeps outside its page store and its active page is untouched by the index, the
  searches and the deletions; an insertion changes the statistics as well.
\<close>

locale untouched_field =
  fixes field :: "UnifiedShard \<Rightarrow> 'a"
  assumes field_store: "field (sh\<lparr>us_store := s\<rparr>) = field sh"
    and field_active: "field (sh\<lparr>us_active_data_page_id := q\<rparr>) = field sh"
begin

lemma field_pool: "field (with_bpm sh b) = field sh" "field (with_next_page sh n) = field sh"
  by (simp_all add: with_bpm_def with_next_page_def field_store)

lemma alloc_kept: "field (snd (alloc_posting_page t nx doc q s pos sh)) = field sh"
  by (simp add: alloc_posting_page_def Let_def field_pool field_store split: prod.split option.split)

lemma add_kept:
  assumes "inverted_index_add_posting sh t doc q s pos = Some (r, sh')"
  shows "field sh' = field sh"
proof -
  have a: "field sh1 = field sh0" if "alloc_posting_page t nx doc q s pos sh0 = (n, sh1)" for nx n sh0 sh1
    using alloc_kept [of t nx doc q s pos sh0] that by simp
  show ?thesis
    using assms unfolding inverted_index_add_posting_def Let_def
    by (auto simp: field_pool field_store split: option.splits prod.splits if_splits dest: a)
qed

lemma adds_kept: "add_postings ts k doc q s sh = Some sh' \<Longrightarrow> field sh' = field sh"
proof (induction ts arbitrary: k sh)
  case (Cons t ts)
  then obtain r sh1 where "inverted_index_add_posting sh t doc q s k = Some (r, sh1)" "add_postings ts (k + 1) doc q s sh1 = Some sh'"
    by (auto split: option.splits)
  then show ?case using Cons.IH add_kept by metis
qed simp

lemma store_record_kept: "store_record rec sh = (f, sh') \<Longrightarrow> field sh' = field sh"
  by (auto simp: store_record_def Let_def field_pool field_store field_active split: prod.splits option.splits if_splits)

lemma delete_kept: "field (snd (shard_delete_document sh e)) = field sh"
  by (simp add: shard_delete_document_def Let_def field_pool split: prod.split option.split)

lemma is_deleted_kept: "shard_is_deleted sh e = (x, sh') \<Longrightarrow> field sh' = field sh"
  by (auto simp: shard_is_deleted_def Let_def field_pool split: prod.splits option.splits)

lemma visit_kept: "field (snd (visit_posting visit post st)) = field (snd st)"
  by (auto simp: visit_posting_def Let_def field_pool split: prod.split option.split if_split dest: is_deleted_kept)

lemma visits_kept: "field (snd (fold (visit_posting visit) posts st)) = field (snd st)"
  by (induction posts arbitrary: st) (simp_all add: visit_kept)

lemma find_active_kept: "field (find_active_page k pid sh) = field sh"
  by (induction k pid sh rule: find_active_page.induct)
    (simp_all add: Let_def field_pool field_active split: prod.split option.split)

lemma search_kept:
  assumes "shard_search_bm25f_indexed ok sh t idf avgdl weights k1 b m = Some (results, sh')"
  shows "field sh' = field sh"
proof -
  have g: "field sh1 = field sh"
    if "inverted_index_get_postings sh t max_possible_postings = Some (ps, sh1)" for ps sh1
    using that by (auto simp: inverted_index_get_postings_def Let_def field_pool split: option.splits prod.splits)
  have v: "field sh2 = field sh1" if "fold (visit_posting f) ps ([], sh1) = (rs, sh2)" for f ps sh1 rs sh2
    using visits_kept [of f ps "([], sh1)"] that by simp
  show ?thesis
    using assms by (auto simp: shard_search_bm25f_indexed_def Let_def split: if_splits option.splits prod.splits dest!: g v)
qed

lemma postings_kept:
  "inverted_index_get_postings sh t m = Some (ps, sh') \<Longrightarrow> field sh' = field sh"
  by (auto simp: inverted_index_get_postings_def Let_def field_pool split: option.splits prod.splits)

lemma all_postings_kept: "get_all_postings ts sh = Some (r, sh') \<Longrightarrow> field sh' = field sh"
  by (induction ts arbitrary: sh r)
    (auto split: option.splits prod.splits list.splits dest: postings_kept)

lemma phrase_loop_kept: "field (snd (phrase_loop visit posts others st)) = field (snd st)"
  by (induction visit posts others st rule: phrase_loop.induct) (simp_all add: Let_def visit_kept split: prod.split)

lemma phrase_kept:
  assumes "shard_search_phrase_indexed ok sh ts idf avgdl weights k1 b m = Some (results, sh')"
  shows "field sh' = field sh"
proof -
  have v: "field sh2 = field sh1" if "phrase_loop f posts others ([], sh1) = (rs, sh2)" for f posts others sh1 rs sh2
    using phrase_loop_kept [of f posts others "([], sh1)"] that by simp
  show ?thesis
    using assms unfolding shard_search_phrase_indexed_def Let_def
    by (auto split: list.splits if_splits option.splits prod.splits dest!: v search_kept all_postings_kept
        simp del: get_all_postings.simps)
qed

lemma terms_kept: "search_terms ok ts avgdl weights k1 b (acc, sh) = Some (results, sh') \<Longrightarrow> field sh' = field sh"
proof (induction ts arbitrary: acc sh)
  case (Cons t ts)
  then show ?case by (auto split: option.splits prod.splits) (metis search_kept)
qed simp

lemma scan_slot_kept: "field (snd (scan_slot visit f i st)) = field (snd st)"
  by (cases st) (auto simp: scan_slot_def Let_def split: prod.split option.split dest: is_deleted_kept)

lemma scan_slots_kept: "field (snd (fold (scan_slot visit f) is st)) = field (snd st)"
  by (induction "is" arbitrary: st) (simp_all add: scan_slot_kept)

lemma scan_page_kept: "field (snd (scan_page visit pid st)) = field (snd st)"
proof (cases st)
  case (Pair results sh)
  have v: "field sh2 = field sh1" if "fold (scan_slot visit f) is (rs, sh1) = (rs', sh2)" for f "is" rs sh1 rs' sh2
    using scan_slots_kept [of visit f "is" "(rs, sh1)"] that by simp
  show ?thesis
    by (simp add: Pair scan_page_def Let_def field_pool split: prod.split option.split) (metis v field_pool(1))
qed

lemma scan_kept: "field (snd (shard_scan visit key sh)) = field sh"
proof -
  have "field (snd (fold (scan_page visit) is st)) = field (snd st)" for "is" st
    by (induction "is" arbitrary: st) (simp_all add: scan_page_kept)
  then show ?thesis by (simp add: shard_scan_def Let_def case_prod_unfold)
qed

lemma work_kept:
  assumes "shard_search_work_cb ok query avgdl weights k1 b sh = Some (results, sh')"
  shows "field sh' = field sh"
proof -
  have v: "field sh2 = field sh1" if "shard_search_vector sh1 vec m = (rs, sh2)" for vec m rs sh1 sh2
    using scan_kept [of "consider_cosine vec m" sr_cosine_score sh1] that by (simp add: shard_search_vector_def)
  show ?thesis
    using assms unfolding shard_search_work_cb_def Let_def
    by (auto split: if_splits option.splits prod.splits dest!: v phrase_kept terms_kept search_kept)
qed

end

text \<open>A field that is no part of the statistics either.\<close>

locale fixed_field = untouched_field field for field :: "UnifiedShard \<Rightarrow> 'a" +
  assumes field_statistics: "field (count_document dl sh) = field sh" "field (sh\<lparr>us_next_doc_id := n\<rparr>) = field sh"
begin

lemma insert_kept:
  "shard_insert_document sh node_id tf dl emb ts = Some (r, sh') \<Longrightarrow> field sh' = field sh"
  unfolding shard_insert_document_def Let_def
  by (auto split: option.splits prod.splits simp: field_statistics field_pool
      dest!: store_record_kept add_kept adds_kept)

end

interpretation number: fixed_field us_shard_id
  by unfold_locales (simp_all add: count_document_def Let_def)

text \<open>Opening numbers the shards from the given number on, whatever the files hold.\<close>

lemma meta_load_number: "us_shard_id (snd (shard_meta_load sh content)) = us_shard_id sh"
  by (simp add: shard_meta_load_def with_next_page_def Let_def split: option.split)

lemma shard_init_number: "shard_init i d n disk = Opened sh \<Longrightarrow> us_shard_id sh = i"
  unfolding shard_init_def Let_def
  by (auto split: prod.splits if_splits option.splits simp: number.find_active_kept
      dest!: arg_cong [where f = "\<lambda>x. us_shard_id (snd x)"] simp: meta_load_number)

lemma open_shards_number:
  "open_shards k i d n disk = Some (True, shs) \<Longrightarrow>
    length shs = k \<and> (\<forall>j < k. us_shard_id (shs ! j) = i + of_nat j)"
proof (induction k arbitrary: i shs)
  case (Suc k)
  then obtain sh rest where s: "shard_init i d n disk = Opened sh" "open_shards k (i + 1) d n disk = Some (True, rest)" "shs = sh # rest"
    by (auto split: shard_open.splits)
  show ?case
    using Suc.IH [OF s(2)] shard_init_number [OF s(1)] by (auto simp: s(3) nth_Cons algebra_simps split: nat.split)
qed simp

end
