(* ===== verification/ShardStore.thy ===== *)
theory ShardStore
  imports ShardOpen ShardFrame "HOL-Library.Multiset"
begin

text \<open>
  What a shard promises as a whole: it is a list of documents with their terms and a list of
  deleted ids. Every sequence of insertions, deletions and indexed searches on a shard opened on
  empty files runs to its end and refines the same operations on that list, through all the
  layers below: eviction, the B-tree with its splits, posting pages, data pages and tombstones.
\<close>

section \<open>The abstract store\<close>

datatype shard_op =
    InsertDoc "byte list" "u32 list" "u32 list" "u32 list" "u32 list"
  | DeleteDoc u32
  | SearchTerm u32 double "double list" "double list" double double nat

record doc_store =
  ds_docs :: "(UnifiedDocRecord \<times> u32 list) list"
  ds_deleted :: "u32 list"

abbreviation (input) no_docs :: doc_store where "no_docs \<equiv> \<lparr>ds_docs = [], ds_deleted = []\<rparr>"

fun spec_op :: "shard_op \<Rightarrow> doc_store \<Rightarrow> doc_store" where
  "spec_op (InsertDoc node_id tf dl embedding terms) st =
     st\<lparr>ds_docs := ds_docs st @ [(\<lparr>rc_node_id = node_id, rc_term_frequencies = tf, rc_document_lengths = dl,
       rc_embedding = embedding, rc_doc_id = of_nat (length (ds_docs st))\<rparr>, terms)]\<rparr>"
| "spec_op (DeleteDoc d) st = st\<lparr>ds_deleted := ds_deleted st @ [d]\<rparr>"
| "spec_op (SearchTerm t idf avgdl weights k1 b m) st = st"

text \<open>A tombstone covers the ids that share its bit; an id without a bit is never deleted.\<close>

definition tombstoned :: "u32 list \<Rightarrow> u32 \<Rightarrow> bool" where
  "tombstoned deleted e \<longleftrightarrow> (\<exists>d \<in> set deleted. tombstone_fits d \<and> tombstone_slot e = tombstone_slot d)"

text \<open>Term 0 stands for every document.\<close>

definition docs_with :: "u32 \<Rightarrow> doc_store \<Rightarrow> UnifiedDocRecord list" where
  "docs_with t st = map fst (filter (\<lambda>(r, ts). t = 0 \<or> t \<in> set ts) (ds_docs st))"

definition live_docs_with :: "u32 \<Rightarrow> doc_store \<Rightarrow> UnifiedDocRecord list" where
  "live_docs_with t st = filter (\<lambda>r. \<not> tombstoned (ds_deleted st) (rc_doc_id r)) (docs_with t st)"

section \<open>The shard's operations\<close>

fun run_op :: "shard_op \<Rightarrow> UnifiedShard \<Rightarrow> UnifiedShard option" where
  "run_op (InsertDoc node_id tf dl embedding terms) sh =
     map_option snd (shard_insert_document sh node_id tf dl embedding terms)"
| "run_op (DeleteDoc d) sh = Some (snd (shard_delete_document sh d))"
| "run_op (SearchTerm t idf avgdl weights k1 b m) sh =
     map_option snd (shard_search_bm25f_indexed True sh t idf avgdl weights k1 b m)"

fun run_ops :: "shard_op list \<Rightarrow> UnifiedShard \<Rightarrow> UnifiedShard option" where
  "run_ops [] sh = Some sh"
| "run_ops (op # ops) sh = (case run_op op sh of None \<Rightarrow> None | Some sh \<Rightarrow> run_ops ops sh)"

context fixed_field
begin

lemma run_op_kept: "run_op op sh = Some sh' \<Longrightarrow> field sh' = field sh"
  by (cases op) (auto simp: delete_kept dest: insert_kept search_kept)

lemma run_ops_kept: "run_ops ops sh = Some sh' \<Longrightarrow> field sh' = field sh"
  by (induction ops arbitrary: sh) (auto split: option.splits dest: run_op_kept)

end

text \<open>The arrays have the lengths the C signature declares; \<open>op_pages\<close> bounds the pages an
  operation allocates.\<close>

fun op_ok :: "shard_op \<Rightarrow> bool" where
  "op_ok (InsertDoc node_id tf dl embedding terms) \<longleftrightarrow>
     length node_id = 16 \<and> length tf = 4 \<and> length dl = 4 \<and> length embedding = EMBEDDING_DIM"
| "op_ok _ \<longleftrightarrow> True"

fun op_pages :: "shard_op \<Rightarrow> nat" where
  "op_pages (InsertDoc node_id tf dl embedding terms) = 2 * length terms + 3"
| "op_pages _ = 0"

section \<open>The refinement relation\<close>

definition key_record :: "(u32 \<Rightarrow> page) \<Rightarrow> u32 \<times> u32 \<times> u16 \<Rightarrow> UnifiedDocRecord option" where
  "key_record P = (\<lambda>(d, q, s). record_at (P q) s)"

lemma key_records_cong:
  "(\<And>d q s. (d, q, s) \<in> set ks \<Longrightarrow> record_at (P' q) s = record_at (P q) s) \<Longrightarrow>
    map (key_record P') ks = map (key_record P) ks"
  by (rule map_cong) (auto simp: key_record_def)

definition store_rel :: "nat \<Rightarrow> (u32 \<Rightarrow> page) \<Rightarrow> (u32 \<Rightarrow> InvertedPosting list list) \<Rightarrow> doc_store \<Rightarrow> UnifiedShard \<Rightarrow> bool" where
  "store_rel N P B st sh \<longleftrightarrow>
     (\<exists>G D. shard_inv N P B G D sh) \<and>
     us_next_doc_id sh = of_nat (length (ds_docs st)) \<and> us_total_docs sh = of_nat (length (ds_docs st)) \<and>
     (\<forall>t. map (key_record P) (block_keys (B t)) = map Some (docs_with t st)) \<and>
     (\<forall>e. fts_tombstone_is_deleted (tombstones_of P sh) e \<longleftrightarrow> tombstoned (ds_deleted st) e)"

lemma docs_with_insert:
  "docs_with t (spec_op (InsertDoc node_id tf dl emb ts) st) = docs_with t st @
    (if t = 0 \<or> t \<in> set ts then [\<lparr>rc_node_id = node_id, rc_term_frequencies = tf, rc_document_lengths = dl,
       rc_embedding = emb, rc_doc_id = of_nat (length (ds_docs st))\<rparr>] else [])"
  by (simp add: docs_with_def)

lemma insert_refines:
  assumes rel: "store_rel N P B st sh" and ok: "op_ok op" "op = InsertDoc node_id tf dl emb ts"
    and N: "N + op_pages op + 1 < 2 ^ 32" and docs: "length (ds_docs st) + 1 < 2 ^ 32"
  shows "\<exists>sh' N' P' B'. run_op op sh = Some sh' \<and> store_rel N' P' B' (spec_op op st) sh' \<and> N' \<le> N + op_pages op"
proof -
  obtain G D where inv: "shard_inv N P B G D sh" using rel by (auto simp: store_rel_def)
  let ?r = "inserted_record sh node_id tf dl emb"
  have N': "N + 2 * length ts + 4 < 2 ^ 32" and r: "record_wf ?r"
    using N ok by (simp_all add: record_wf_def inserted_record_def)
  have ids: "unat (us_next_doc_id sh) + 1 < 2 ^ 32"
    using rel docs by (simp add: store_rel_def unat_of_nat)
  obtain sh' N1 P1 B1 G1 D1 q slot where ins:
    "shard_insert_document sh node_id tf dl emb ts = Some (0, sh')" "shard_inv N1 P1 B1 G1 D1 sh'"
    "us_next_doc_id sh' = us_next_doc_id sh + 1" "us_total_docs sh' = us_total_docs sh + 1"
    "tombstones_of P1 sh' = tombstones_of P sh" "record_at (P1 q) slot = Some ?r"
    "\<forall>q' \<in> D. \<forall>s r. record_at (P q') s = Some r \<longrightarrow> record_at (P1 q') s = Some r"
    "\<forall>t. block_keys (B1 t) = block_keys (B t) @ (if t = 0 \<or> t \<in> set ts then [(us_next_doc_id sh, q, slot)] else [])"
    "N1 \<le> N + 2 * length ts + 3"
    by (rule insert_document_inv [OF inv N' r ids])
  have keep: "record_at (P1 q') s = record_at (P q') s" if "(d, q', s) \<in> set (block_keys (B t))" for d q' s t
  proof -
    have "posting_ok P D (us_next_doc_id sh) (d, q', s)" using that inv unfolding shard_inv_def by blast
    then show ?thesis using ins(7) by (auto simp: posting_ok_def)
  qed
  have old: "map (key_record P1) (block_keys (B t)) = map Some (docs_with t st)" for t
  proof -
    have "map (key_record P1) (block_keys (B t)) = map (key_record P) (block_keys (B t))"
      by (rule key_records_cong) (rule keep)
    also have "\<dots> = map Some (docs_with t st)" using rel by (simp add: store_rel_def)
    finally show ?thesis .
  qed
  have "map (key_record P1) (block_keys (B1 t)) = map Some (docs_with t (spec_op op st))" for t
    using ins(6,8) old [of t] rel by (simp add: ok(2) docs_with_insert store_rel_def inserted_record_def key_record_def del: spec_op.simps)
  then have "store_rel N1 P1 B1 (spec_op op st) sh'"
    using rel ins(2-5) by (auto simp: store_rel_def ok(2))
  then show ?thesis using ins(1,9) ok(2) by (intro exI conjI) auto
qed

lemma tombstoned_snoc:
  "tombstoned (ds @ [d]) e \<longleftrightarrow> tombstoned ds e \<or> (tombstone_fits d \<and> tombstone_slot e = tombstone_slot d)"
  by (auto simp: tombstoned_def)

lemma delete_refines:
  assumes rel: "store_rel N P B st sh"
  shows "\<exists>sh' P'. run_op (DeleteDoc d) sh = Some sh' \<and> store_rel N P' B (spec_op (DeleteDoc d) st) sh'"
proof -
  obtain G D where inv: "shard_inv N P B G D sh" using rel by (auto simp: store_rel_def)
  obtain sh' P' where del: "shard_delete_document sh d = (0, sh')" "shard_inv N P' B G D sh'"
    "tombstones_of P' sh' = fts_tombstone_mark_deleted (tombstones_of P sh) d" "\<forall>q \<in> G \<union> D. P' q = P q"
    "us_next_doc_id sh' = us_next_doc_id sh" "us_total_docs sh' = us_total_docs sh"
    by (rule delete_inv [OF inv])
  have keep: "record_at (P' q) s = record_at (P q) s" if "(d', q, s) \<in> set (block_keys (B t))" for d' q s t
  proof -
    have "posting_ok P D (us_next_doc_id sh) (d', q, s)" using that inv unfolding shard_inv_def by blast
    then show ?thesis using del(4) by (simp add: posting_ok_def)
  qed
  have "map (key_record P') (block_keys (B t)) = map Some (docs_with t st)" for t
  proof -
    have "map (key_record P') (block_keys (B t)) = map (key_record P) (block_keys (B t))"
      by (rule key_records_cong) (rule keep)
    also have "\<dots> = map Some (docs_with t st)" using rel by (simp add: store_rel_def)
    finally show ?thesis .
  qed
  then have "store_rel N P' B (spec_op (DeleteDoc d) st) sh'"
    using rel del by (auto simp: store_rel_def is_deleted_mark tombstoned_snoc docs_with_def)
  then show ?thesis using del(1) by auto
qed

section \<open>Searching\<close>

text \<open>A search scores each live document with the term exactly once, in some order.\<close>

definition scores_docs ::
  "UnifiedSearchResult list \<Rightarrow> visitor \<Rightarrow> UnifiedDocRecord list \<Rightarrow> bool" where
  "scores_docs results visit docs \<longleftrightarrow>
     (\<exists>rs. mset rs = mset docs \<and> results = exchange_sort sr_bm25f_score no_stamp (fold visit rs []))"

lemma mset_map_filter: "mset xs = mset ys \<Longrightarrow> mset (List.map_filter f xs) = mset (List.map_filter f ys)"
  unfolding List.map_filter_def by (metis mset_filter mset_map)

lemma map_filter_Some: "map f xs = map Some ys \<Longrightarrow> List.map_filter f xs = ys"
  by (induction xs arbitrary: ys) (auto simp: List.map_filter_def)

lemma mset_posting_records:
  assumes "map (key_record P) (block_keys blocks) = map Some rs"
  shows "mset (posting_records P (concat blocks)) = mset rs" "length (concat blocks) = length rs"
proof -
  let ?f = "\<lambda>x. record_at (P (ip_data_page_id x)) (ip_data_slot_id x)"
  have rev: "mset (concat blocks) = mset (concat (rev blocks))" by (simp add: mset_concat flip: mset_rev [of "map mset blocks"] rev_map)
  have "map ?f (concat (rev blocks)) = map (key_record P) (block_keys blocks)"
    by (simp add: block_keys_def key_record_def posting_key_def o_def)
  then have "List.map_filter ?f (concat (rev blocks)) = rs" using assms by (intro map_filter_Some) simp
  then show "mset (posting_records P (concat blocks)) = mset rs"
    using mset_map_filter [OF rev, of ?f] by (simp add: posting_records_def)
  have "length (concat blocks) = length (concat (rev blocks))" using rev by (metis size_mset)
  then show "length (concat blocks) = length rs"
    using arg_cong [OF assms, of length] by (simp add: block_keys_def)
qed

lemma search_refines:
  assumes rel: "store_rel N P B st sh" and size: "length (ds_docs st) \<le> max_possible_postings"
  shows "\<exists>results sh'. shard_search_bm25f_indexed True sh t idf avgdl weights k1 b m = Some (results, sh') \<and>
    scores_docs results (consider_bm25f idf avgdl weights k1 b m) (live_docs_with t st) \<and> store_rel N P B st sh'"
proof -
  obtain G D where inv: "shard_inv N P B G D sh" using rel by (auto simp: store_rel_def)
  let ?visit = "consider_bm25f idf avgdl weights k1 b m"
  obtain b' where s: "shard_search_bm25f_indexed True sh t idf avgdl weights k1 b m =
      Some (exchange_sort sr_bm25f_score no_stamp
        (fold ?visit (alive (tombstones_of P sh) (posting_records P (take max_possible_postings (concat (B t))))) []),
        with_bpm sh b')"
    "shard_inv N P B G D (with_bpm sh b')"
    by (rule indexed_search_st [OF inv])
  have keys: "map (key_record P) (block_keys (B t)) = map Some (docs_with t st)" using rel by (simp add: store_rel_def)
  have "length (docs_with t st) \<le> max_possible_postings"
    unfolding docs_with_def length_map by (rule order_trans [OF length_filter_le size])
  then have all: "take max_possible_postings (concat (B t)) = concat (B t)"
    using mset_posting_records(2) [OF keys] by simp
  have "mset (alive (tombstones_of P sh) (posting_records P (concat (B t)))) = mset (live_docs_with t st)"
    using rel mset_posting_records(1) [OF keys] by (simp add: live_docs_with_def mset_filter store_rel_def)
  then have "scores_docs (exchange_sort sr_bm25f_score no_stamp
      (fold ?visit (alive (tombstones_of P sh) (posting_records P (concat (B t)))) [])) ?visit (live_docs_with t st)"
    unfolding scores_docs_def by blast
  moreover have "store_rel N P B st (with_bpm sh b')"
    using rel s(2) by (auto simp: store_rel_def with_bpm_def)
  ultimately show ?thesis using s(1) unfolding all by blast
qed

section \<open>Runs\<close>

definition op_count :: "shard_op list \<Rightarrow> nat" where
  "op_count ops = length (filter (\<lambda>op. case op of InsertDoc _ _ _ _ _ \<Rightarrow> True | _ \<Rightarrow> False) ops)"

lemma docs_fold_op: "length (ds_docs (fold spec_op ops st)) = length (ds_docs st) + op_count ops"
proof (induction ops arbitrary: st)
  case (Cons op ops)
  then show ?case by (cases op) (simp_all add: op_count_def)
qed (simp add: op_count_def)

lemma run_op_refines:
  assumes rel: "store_rel N P B st sh" and ok: "op_ok op" and N: "N + op_pages op + 1 < 2 ^ 32"
    and docs: "length (ds_docs st) \<le> max_possible_postings"
  shows "\<exists>sh' N' P' B'. run_op op sh = Some sh' \<and> store_rel N' P' B' (spec_op op st) sh' \<and> N' \<le> N + op_pages op"
proof (cases op)
  case (InsertDoc node_id tf dl emb ts)
  have "length (ds_docs st) + 1 < 2 ^ 32" using docs by simp
  then show ?thesis by (rule insert_refines [OF rel ok InsertDoc N])
next
  case (DeleteDoc d)
  obtain sh' P' where "run_op op sh = Some sh'" "store_rel N P' B (spec_op op st) sh'"
    using delete_refines [OF rel, of d] DeleteDoc by auto
  then show ?thesis using DeleteDoc by (intro exI conjI) auto
next
  case (SearchTerm t idf avgdl weights k1 b m)
  obtain results sh' where "shard_search_bm25f_indexed True sh t idf avgdl weights k1 b m = Some (results, sh')"
    "store_rel N P B st sh'"
    using search_refines [OF rel docs] by blast
  then show ?thesis using SearchTerm by (intro exI [of _ sh'] exI [of _ N] exI [of _ P] exI [of _ B]) simp
qed

lemma run_ops_refines:
  assumes "store_rel N P B st sh" "\<forall>op \<in> set ops. op_ok op" "N + sum_list (map op_pages ops) + 1 < 2 ^ 32"
    "length (ds_docs st) + op_count ops \<le> max_possible_postings"
  shows "\<exists>sh' N' P' B'. run_ops ops sh = Some sh' \<and> store_rel N' P' B' (fold spec_op ops st) sh'"
  using assms
proof (induction ops arbitrary: N P B st sh)
  case (Cons op ops)
  have 1: "op_ok op" "N + op_pages op + 1 < 2 ^ 32" "length (ds_docs st) \<le> max_possible_postings"
    using Cons.prems(2-4) by simp_all
  obtain sh1 N1 P1 B1 where s: "run_op op sh = Some sh1" "store_rel N1 P1 B1 (spec_op op st) sh1" "N1 \<le> N + op_pages op"
    using run_op_refines [OF Cons.prems(1) 1] by blast
  have count: "length (ds_docs (spec_op op st)) + op_count ops = length (ds_docs st) + op_count (op # ops)"
    using docs_fold_op [of "op # ops" st] docs_fold_op [of ops "spec_op op st"] by simp
  have "N1 + sum_list (map op_pages ops) + 1 < 2 ^ 32" using Cons.prems(3) s(3) by simp
  then show ?case using Cons.IH [OF s(2)] Cons.prems(2,4) s(1) count by simp
qed auto

lemma fresh_store_rel:
  assumes "empty_files shard_id base_path disk" "4 \<le> unat n" "unat n < 2 ^ 31"
  obtains sh P where "shard_init shard_id base_path n disk = Opened sh" "store_rel 3 P (\<lambda>_. []) no_docs sh"
proof -
  obtain sh P where "shard_init shard_id base_path n disk = Opened sh" "shard_inv 3 P (\<lambda>_. []) {0} {2} sh"
    "us_next_doc_id sh = 0" "us_total_docs sh = 0" "tombstones_of P sh = fts_tombstone_init (\<lambda>_. 0) 1"
    by (rule shard_init_fresh [OF assms])
  then show ?thesis using that [of sh P]
    by (auto simp: store_rel_def docs_with_def tombstoned_def is_deleted_init)
qed

end
