(* ===== verification/AsyncProperties.thy ===== *)
theory AsyncProperties
  imports ShardFrame
begin

text \<open>
  The work items of the asynchronous search: what is left when all have run, whatever the order,
  that every completion callback finds the search's context, and the same for the complete
  search function.
\<close>

section \<open>Running the items\<close>

text \<open>What item \<open>i\<close> does to its shard, if its completion finds the context.\<close>

definition item_work :: "work \<Rightarrow> nat \<Rightarrow> work" where
  "item_work work i sh =
     (case work sh of
        None \<Rightarrow> None
      | Some (rs, sh') \<Rightarrow> if unat (us_shard_id sh') = i then Some (rs, sh') else None)"

lemma run_item_eq:
  "i < length (pl_shards pl) \<Longrightarrow> run_item work i pl =
    map_option (\<lambda>(rs, sh). pl\<lparr>pl_shards := (pl_shards pl)[i := sh], pl_results := (pl_results pl)(i := rs),
      pl_completed := pl_completed pl + 1\<rparr>) (item_work work i (pl_shards pl ! i))"
  by (simp add: run_item_def item_work_def shard_search_done_cb_def split: option.split)

text \<open>A pool in which the items of \<open>done\<close> have run.\<close>

definition items_done :: "work \<Rightarrow> Pool \<Rightarrow> nat set \<Rightarrow> Pool \<Rightarrow> bool" where
  "items_done work pl done' pl' \<longleftrightarrow>
     length (pl_shards pl') = length (pl_shards pl) \<and> pl_completed pl' = pl_completed pl + card done' \<and>
     (\<forall>i. i \<notin> done' \<longrightarrow> pl_shards pl' ! i = pl_shards pl ! i \<and> pl_results pl' i = pl_results pl i) \<and>
     (\<forall>i \<in> done'. item_work work i (pl_shards pl ! i) = Some (pl_results pl' i, pl_shards pl' ! i))"

lemma run_items_done:
  assumes "distinct order" "\<forall>i \<in> set order. i < length (pl_shards pl)"
  shows "((\<forall>i \<in> set order. item_work work i (pl_shards pl ! i) \<noteq> None) \<longrightarrow>
      (\<exists>pl'. run_items work order pl = Some pl' \<and> items_done work pl (set order) pl')) \<and>
    (\<not> (\<forall>i \<in> set order. item_work work i (pl_shards pl ! i) \<noteq> None) \<longrightarrow> run_items work order pl = None)"
  using assms
proof (induction order arbitrary: pl)
  case Nil
  then show ?case by (simp add: items_done_def)
next
  case (Cons i order)
  have i: "i < length (pl_shards pl)" "i \<notin> set order" using Cons.prems by simp_all
  show ?case
  proof (cases "item_work work i (pl_shards pl ! i)")
    case None
    then show ?thesis using i by (simp add: run_item_eq)
  next
    case (Some x)
    then obtain rs sh where x: "item_work work i (pl_shards pl ! i) = Some (rs, sh)" by (cases x) auto
    define pl1 where "pl1 = pl\<lparr>pl_shards := (pl_shards pl)[i := sh], pl_results := (pl_results pl)(i := rs),
      pl_completed := pl_completed pl + 1\<rparr>"
    have run: "run_items work (i # order) pl = run_items work order pl1"
      using i(1) x by (simp add: run_item_eq pl1_def)
    have same: "pl_shards pl1 ! j = pl_shards pl ! j" "pl_results pl1 j = pl_results pl j" if "j \<noteq> i" for j
      using that by (simp_all add: pl1_def)
    have "pl_shards pl1 ! j = pl_shards pl ! j" if "j \<in> set order" for j by (rule same) (use that i(2) in auto)
    then have ok: "(\<forall>j \<in> set order. item_work work j (pl_shards pl1 ! j) \<noteq> None) \<longleftrightarrow>
        (\<forall>j \<in> set (i # order). item_work work j (pl_shards pl ! j) \<noteq> None)"
      using x by simp
    have IH: "((\<forall>j \<in> set order. item_work work j (pl_shards pl1 ! j) \<noteq> None) \<longrightarrow>
        (\<exists>pl'. run_items work order pl1 = Some pl' \<and> items_done work pl1 (set order) pl')) \<and>
      (\<not> (\<forall>j \<in> set order. item_work work j (pl_shards pl1 ! j) \<noteq> None) \<longrightarrow> run_items work order pl1 = None)"
      by (rule Cons.IH) (use Cons.prems in \<open>simp_all add: pl1_def\<close>)
    have "items_done work pl (set (i # order)) pl'" if d: "items_done work pl1 (set order) pl'" for pl'
      unfolding items_done_def
    proof (intro conjI allI impI ballI)
      show "length (pl_shards pl') = length (pl_shards pl)" using d by (simp add: items_done_def pl1_def)
      show "pl_completed pl' = pl_completed pl + card (set (i # order))"
        using d i(2) by (simp add: items_done_def pl1_def)
      show "pl_shards pl' ! j = pl_shards pl ! j" "pl_results pl' j = pl_results pl j" if "j \<notin> set (i # order)" for j
        using d that same [of j] by (simp_all add: items_done_def)
      show "item_work work j (pl_shards pl ! j) = Some (pl_results pl' j, pl_shards pl' ! j)" if j: "j \<in> set (i # order)" for j
      proof (cases "j = i")
        case True
        then show ?thesis using d i x by (simp add: items_done_def) (simp add: pl1_def)
      next
        case False
        then show ?thesis using d j same(1) [OF False, symmetric] by (simp add: items_done_def)
      qed
    qed
    then show ?thesis using IH unfolding run ok by blast
  qed
qed

text \<open>The finished pool as far as the search reads it.\<close>

lemma run_items_finished:
  assumes "distinct order" "set order = {..<length shards}"
  shows "map_option (\<lambda>pl. (map (pl_results pl) [0..<length shards], pl_shards pl))
      (run_items work order (pool_start shards)) =
    (if \<forall>i < length shards. item_work work i (shards ! i) \<noteq> None
     then Some (map (\<lambda>i. fst (the (item_work work i (shards ! i)))) [0..<length shards],
       map (\<lambda>i. snd (the (item_work work i (shards ! i)))) [0..<length shards]) else None)"
proof -
  have start: "pl_shards (pool_start shards) = shards" by (simp add: pool_start_def)
  show ?thesis
  proof (cases "\<forall>i < length shards. item_work work i (shards ! i) \<noteq> None")
  case True
  obtain pl where pl: "run_items work order (pool_start shards) = Some pl" "items_done work (pool_start shards) {..<length shards} pl"
    using run_items_done [OF assms(1), of "pool_start shards" work] True unfolding assms(2) start by blast
  have w: "item_work work i (shards ! i) = Some (pl_results pl i, pl_shards pl ! i)" if "i < length shards" for i
    using pl(2) that by (simp add: items_done_def pool_start_def)
  have len: "length (pl_shards pl) = length shards" using pl(2) by (simp add: items_done_def pool_start_def)
  have "pl_shards pl = map (\<lambda>i. snd (the (item_work work i (shards ! i)))) [0..<length shards]"
    by (rule nth_equalityI) (simp_all add: w len)
  moreover have "map (pl_results pl) [0..<length shards] = map (\<lambda>i. fst (the (item_work work i (shards ! i)))) [0..<length shards]"
    by (simp add: w)
  ultimately show ?thesis by (subst if_P [OF True]) (simp only: pl(1) option.map)
next
  case False
  then have "run_items work order (pool_start shards) = None"
    using run_items_done [OF assms(1), of "pool_start shards" work] unfolding assms(2) start by blast
  then show ?thesis using False by auto
qed
qed

section \<open>Numbered shards\<close>

text \<open>Every shard has its index as its number, as \<open>engine_init\<close> opens them.\<close>

definition shards_numbered :: "UnifiedShard list \<Rightarrow> bool" where
  "shards_numbered shards \<longleftrightarrow> (\<forall>i < length shards. unat (us_shard_id (shards ! i)) = i)"

lemma item_work_numbered:
  assumes "unat (us_shard_id sh) = i"
  shows "item_work (shard_search_work_cb ok query avgdl weights k1 b) i sh = shard_search_work_cb ok query avgdl weights k1 b sh"
proof (cases "shard_search_work_cb ok query avgdl weights k1 b sh")
  case (Some x)
  then obtain rs sh' where w: "shard_search_work_cb ok query avgdl weights k1 b sh = Some (rs, sh')" by (cases x) auto
  show ?thesis using assms number.work_kept [OF w] by (simp add: item_work_def w)
qed (simp add: item_work_def)

lemma engine_init_numbered:
  assumes "engine_init base num ram disk = Some (0, en)"
  shows "shards_numbered (en_shards en) \<and> length (en_shards en) = unat num"
proof -
  obtain n shs where "open_shards (unat num) 0 base n disk = Some (True, shs)" "en_shards en = shs"
    using assms by (auto simp: engine_init_def engine_recompute_global_stats_def Let_def split: if_splits option.splits)
  then have s: "length (en_shards en) = unat num" "\<forall>j < unat num. us_shard_id (en_shards en ! j) = of_nat j"
    using open_shards_number [of "unat num" 0 base n disk shs] by simp_all
  have "unat (of_nat j :: u32) = j" if "j < unat num" for j
    using that unat_u32_less [of num] by (simp add: unat_of_nat take_bit_nat_eq_self)
  then show ?thesis using s by (simp add: shards_numbered_def)
qed

lemma engine_insert_numbered:
  assumes "engine_insert_document en node tf dl emb ts = Some (r, en')" "shards_numbered (en_shards en)"
  shows "shards_numbered (en_shards en') \<and> length (en_shards en') = length (en_shards en)"
proof -
  let ?i = "shard_of_node (length (en_shards en)) node"
  obtain sh where sh: "shard_insert_document (en_shards en ! ?i) node tf dl emb ts = Some (r, sh)"
    "en' = en\<lparr>en_shards := (en_shards en)[?i := sh]\<rparr>"
    using assms(1) by (auto simp: engine_insert_document_def Let_def)
  have "us_shard_id ((en_shards en)[?i := sh] ! j) = us_shard_id (en_shards en ! j)" if "j < length (en_shards en)" for j
    using number.insert_kept [OF sh(1)] that by (cases "j = ?i") simp_all
  then show ?thesis using assms(2) by (simp add: sh(2) shards_numbered_def)
qed

section \<open>Properties\<close>

definition sample_shards :: "UnifiedShard list" where
  "sample_shards = [zero_shard, zero_shard\<lparr>us_shard_id := 1\<rparr>]"

text \<open>C22: engine_search_async returns the same results, engine and loop state for every order in
  which the thread pool runs the shards' work items.\<close>

theorem async_search_ignores_schedule:
  assumes "distinct order" "set order = {..<length (en_shards en)}"
  shows "engine_search_async qsort order malloc_ok loop_ok has_loop en query max_results =
    engine_search_async qsort [0..<length (en_shards en)] malloc_ok loop_ok has_loop en query max_results"
proof -
  define work where "work = shard_search_work_cb malloc_ok query (en_global_avgdl en) (en_field_weights en)
      (en_k1 en) (en_b en)"
  define finish where "finish = (\<lambda>has_loop (results, shards).
      let (bm25f_all, vector_all) = gather_results query (concat results)
      in (fuse_results qsort (q_use_text query) (q_use_vector query) bm25f_all vector_all max_results,
          en\<lparr>en_shards := shards\<rparr>, has_loop :: bool))"
  have search: "engine_search_async qsort ord malloc_ok loop_ok has_loop en query max_results =
      (let (rc, hl) = (if has_loop then (0, True) else async_search_init loop_ok False) in
       if rc \<noteq> 0 then Some ([], en, hl)
       else map_option (finish hl)
         (map_option (\<lambda>pl. (map (pl_results pl) [0..<length (en_shards en)], pl_shards pl))
           (run_items work ord (pool_start (en_shards en)))))" for ord
    by (simp add: engine_search_async_def work_def finish_def Let_def split: option.split prod.split)
  have "map_option (\<lambda>pl. (map (pl_results pl) [0..<length (en_shards en)], pl_shards pl))
      (run_items work order (pool_start (en_shards en))) =
    map_option (\<lambda>pl. (map (pl_results pl) [0..<length (en_shards en)], pl_shards pl))
      (run_items work [0..<length (en_shards en)] (pool_start (en_shards en)))"
    using assms by (subst (1 2) run_items_finished) (auto simp: atLeast0LessThan)
  then show ?thesis by (simp only: search)
qed

lemma async_search_ignores_schedule_witness:
  "\<forall>qsort query. engine_search_async qsort [1, 0] True True False
      \<lparr>en_shards = sample_shards, en_base_path = ''db'', en_global_total_docs = 0, en_global_avgdl = [],
       en_field_weights = [], en_k1 = Fin 0, en_b = Fin 0\<rparr> query 10 =
   engine_search_async qsort [0, 1] True True False
      \<lparr>en_shards = sample_shards, en_base_path = ''db'', en_global_total_docs = 0, en_global_avgdl = [],
       en_field_weights = [], en_k1 = Fin 0, en_b = Fin 0\<rparr> query 10"
proof (intro allI)
  fix qsort query
  show "engine_search_async qsort [1, 0] True True False
      \<lparr>en_shards = sample_shards, en_base_path = ''db'', en_global_total_docs = 0, en_global_avgdl = [],
       en_field_weights = [], en_k1 = Fin 0, en_b = Fin 0\<rparr> query 10 =
   engine_search_async qsort [0, 1] True True False
      \<lparr>en_shards = sample_shards, en_base_path = ''db'', en_global_total_docs = 0, en_global_avgdl = [],
       en_field_weights = [], en_k1 = Fin 0, en_b = Fin 0\<rparr> query 10"
    by (subst async_search_ignores_schedule) (auto simp: sample_shards_def upt_rec numeral_2_eq_2)
qed

end
