(* ===== verification/EngineSearch.thy ===== *)
theory EngineSearch
  imports ShardStore AsyncProperties ResultOrder
begin

text \<open>
  The engine as a whole: documents routed to shards, and a text query answered by the work
  items of all shards. The result lists are followed from the documents a shard holds through
  the bounded collection, the sums per node, the gathering and the final sort.
\<close>

section \<open>Positive scores\<close>

text \<open>A score a work item can hold: a positive binary64 value. Sums of such scores stay positive.\<close>

definition hit_score :: "double \<Rightarrow> bool" where
  "hit_score d \<longleftrightarrow> is_binary64 d \<and> dlt (Fin 0) d"

lemma hit_score_not_NaN: "hit_score d \<Longrightarrow> d \<noteq> NaN"
  by (auto simp: hit_score_def)

lemma hit_score_dadd:
  assumes "hit_score a" "hit_score b"
  shows "hit_score (dadd a b)"
proof -
  have "dlt (Fin 0) (dadd a b)"
  proof (cases "\<exists>x y. a = Fin x \<and> b = Fin y")
    case True
    then obtain x y where xy: "a = Fin x" "b = Fin y" by auto
    then have "round64 x = x" "0 < x" "0 < y" using assms by (simp_all add: hit_score_def)
    moreover have "round64 x \<le> round64 (x + y)" using \<open>0 < y\<close> by (intro round64_mono) simp
    ultimately have "0 < round64 (x + y)" by simp
    then show ?thesis using dbl_limit_pos by (auto simp: xy to_double_def Let_def)
  next
    case False
    then show ?thesis using assms by (cases a; cases b) (auto simp: hit_score_def)
  qed
  then show ?thesis by (simp add: hit_score_def binary64_ops)
qed

lemma bm25f_score_binary64: "is_binary64 (compute_bm25f_score tf dl avgdl weights idf k1 b)"
  by (simp add: compute_bm25f_score_def Let_def binary64_ops del: is_binary64.simps)

section \<open>The results of one shard\<close>

text \<open>The results of the documents with a positive score.\<close>

definition hits :: "(UnifiedDocRecord \<Rightarrow> double) \<Rightarrow> UnifiedDocRecord list \<Rightarrow> UnifiedSearchResult list" where
  "hits score docs = map (\<lambda>d. bm25f_result (rc_node_id d) (score d)) (filter (\<lambda>d. dlt (Fin 0) (score d)) docs)"

abbreviation nodes_of :: "UnifiedSearchResult list \<Rightarrow> byte list set" where
  "nodes_of rs \<equiv> sr_node_id ` set rs"

definition hit_nodes :: "(UnifiedDocRecord \<Rightarrow> double) \<Rightarrow> UnifiedDocRecord list \<Rightarrow> byte list set" where
  "hit_nodes score docs = rc_node_id ` {d \<in> set docs. dlt (Fin 0) (score d)}"

lemma nodes_of_hits: "nodes_of (hits score docs) = hit_nodes score docs"
  by (force simp: hits_def hit_nodes_def bm25f_result_def)

abbreviation all_hits :: "UnifiedSearchResult list \<Rightarrow> bool" where
  "all_hits rs \<equiv> \<forall>r \<in> set rs. hit_score (sr_bm25f_score r)"

lemma length_hits: "length (hits score docs) \<le> length docs"
  by (simp add: hits_def)

text \<open>The collection keeps every hit when there is room for all documents.\<close>

lemma collect_all_hits:
  assumes "length acc + length docs \<le> m"
  shows "fold (consider_bm25f idf avgdl weights k1 b m) docs acc = acc @
    hits (\<lambda>d. compute_bm25f_score (rc_term_frequencies d) (rc_document_lengths d) avgdl weights idf k1 b) docs"
  using assms
  by (induction docs arbitrary: acc) (auto simp: consider_bm25f_def Let_def collect_top_def hits_def)

lemma sort_hits:
  assumes "all_hits rs"
  shows "mset (exchange_sort sr_bm25f_score no_stamp rs) = mset rs"
  using assms unstamped.sort_law [of sr_bm25f_score rs] by (auto simp: comparable_def hit_score_not_NaN)

lemma hits_all_hits:
  "all_hits (hits (\<lambda>d. compute_bm25f_score (rc_term_frequencies d) (rc_document_lengths d) avgdl weights idf k1 b) docs)"
  by (auto simp: hits_def hit_score_def bm25f_result_def bm25f_score_binary64)

lemma scores_docs_hits:
  assumes sd: "scores_docs rs (consider_bm25f idf avgdl weights k1 b m) docs" and len: "length docs \<le> m"
  defines "score \<equiv> \<lambda>d. compute_bm25f_score (rc_term_frequencies d) (rc_document_lengths d) avgdl weights idf k1 b"
  shows "mset rs = mset (hits score docs)"
proof -
  obtain ds where ds: "mset ds = mset docs" "rs = exchange_sort sr_bm25f_score no_stamp (fold (consider_bm25f idf avgdl weights k1 b m) ds [])"
    using sd by (auto simp: scores_docs_def)
  have "length ds = length docs" using ds(1) by (metis size_mset)
  then have f: "fold (consider_bm25f idf avgdl weights k1 b m) ds [] = hits score ds"
    using collect_all_hits [of "[]" ds m] len by (simp add: score_def)
  have "all_hits (hits score ds)" unfolding score_def by (rule hits_all_hits)
  then have "mset rs = mset (hits score ds)" using ds(2) f sort_hits by simp
  also have "\<dots> = mset (hits score docs)" using ds(1) by (simp add: hits_def mset_filter)
  finally show ?thesis .
qed

section \<open>Sums per node\<close>

lemma add_term_result_nodes:
  "map sr_node_id (add_term_result acc r room) =
    (if sr_node_id r \<in> nodes_of acc then map sr_node_id acc
     else if length acc < room then map sr_node_id acc @ [sr_node_id r] else map sr_node_id acc)"
  by (induction acc r room rule: add_term_result.induct) auto

lemma add_term_result_hits:
  "all_hits acc \<Longrightarrow> hit_score (sr_bm25f_score r) \<Longrightarrow> all_hits (add_term_result acc r room)"
  by (induction acc r room rule: add_term_result.induct) (auto simp: hit_score_dadd)

text \<open>With at most \<open>room\<close> nodes in play no result is dropped.\<close>

lemma add_results:
  assumes "all_hits acc" "all_hits rs" "distinct (map sr_node_id acc)"
    and "finite V" "card V \<le> room" "nodes_of acc \<union> nodes_of rs \<subseteq> V"
  defines "out \<equiv> fold (\<lambda>r acc. add_term_result acc r room) rs acc"
  shows "all_hits out \<and> distinct (map sr_node_id out) \<and> nodes_of out = nodes_of acc \<union> nodes_of rs"
  using assms(1-6) unfolding out_def
proof (induction rs arbitrary: acc)
  case (Cons r rs)
  let ?acc = "add_term_result acc r room"
  have r: "hit_score (sr_bm25f_score r)" "sr_node_id r \<in> V" using Cons.prems by simp_all
  have fits: "length acc < room" if "sr_node_id r \<notin> nodes_of acc"
  proof -
    have "nodes_of acc \<subset> V" using Cons.prems(6) r(2) that by blast
    then have "card (nodes_of acc) < card V" by (rule psubset_card_mono [OF Cons.prems(4)])
    then show ?thesis using distinct_card [OF Cons.prems(3)] Cons.prems(5) by simp
  qed
  then have m: "map sr_node_id ?acc =
      (if sr_node_id r \<in> nodes_of acc then map sr_node_id acc else map sr_node_id acc @ [sr_node_id r])"
    by (auto simp: add_term_result_nodes)
  then have n: "nodes_of ?acc = insert (sr_node_id r) (nodes_of acc)"
    by (auto simp flip: set_map)
  have d: "distinct (map sr_node_id ?acc)" unfolding m using Cons.prems(3) by simp
  have h: "all_hits ?acc" by (rule add_term_result_hits [OF Cons.prems(1) r(1)])
  show ?case
    using Cons.IH [OF h _ d Cons.prems(4,5)] Cons.prems(2,6) r(2) n by (auto simp del: set_map)
qed simp

section \<open>The work item\<close>

text \<open>The score of a document in an engine, and the nodes a text query on a shard finds.\<close>

definition doc_score :: "double list \<Rightarrow> double list \<Rightarrow> double \<Rightarrow> double \<Rightarrow> UnifiedDocRecord \<Rightarrow> double" where
  "doc_score avgdl weights k1 b d =
     compute_bm25f_score (rc_term_frequencies d) (rc_document_lengths d) avgdl weights (Fin 1) k1 b"

definition query_terms :: "UnifiedQuery \<Rightarrow> u32 list" where
  "query_terms query = (if q_term_ids query = [] then [0] else q_term_ids query)"

definition matching_nodes :: "(UnifiedDocRecord \<Rightarrow> double) \<Rightarrow> u32 list \<Rightarrow> doc_store \<Rightarrow> byte list set" where
  "matching_nodes score ts st = (\<Union>t \<in> set ts. hit_nodes score (live_docs_with t st))"

lemma live_docs_subset: "set (live_docs_with t st) \<subseteq> fst ` set (ds_docs st)"
  by (auto simp: live_docs_with_def docs_with_def)

lemma hit_nodes_subset: "hit_nodes score (live_docs_with t st) \<subseteq> (\<lambda>(d, _). rc_node_id d) ` set (ds_docs st)"
  using live_docs_subset [of t st] by (force simp: hit_nodes_def)

lemma search_term_hits:
  assumes rel: "store_rel N P B st sh" and size: "length (ds_docs st) \<le> m" "m \<le> max_possible_postings"
  shows "\<exists>rs sh'. shard_search_bm25f_indexed True sh t (Fin 1) avgdl weights k1 b m = Some (rs, sh') \<and>
    store_rel N P B st sh' \<and> all_hits rs \<and> length rs \<le> length (ds_docs st) \<and>
    nodes_of rs = hit_nodes (doc_score avgdl weights k1 b) (live_docs_with t st)"
proof -
  have docs: "length (ds_docs st) \<le> max_possible_postings" using size by simp
  have len: "length (live_docs_with t st) \<le> length (ds_docs st)"
    unfolding live_docs_with_def docs_with_def
    by (rule order_trans [OF length_filter_le]) (simp only: length_map length_filter_le)
  obtain rs sh' where r: "shard_search_bm25f_indexed True sh t (Fin 1) avgdl weights k1 b m = Some (rs, sh')"
    "scores_docs rs (consider_bm25f (Fin 1) avgdl weights k1 b m) (live_docs_with t st)" "store_rel N P B st sh'"
    using search_refines [OF rel docs, of t "Fin 1" avgdl weights k1 b m] by blast
  let ?score = "\<lambda>d. compute_bm25f_score (rc_term_frequencies d) (rc_document_lengths d) avgdl weights (Fin 1) k1 b"
  have ms: "mset rs = mset (hits ?score (live_docs_with t st))"
    by (rule scores_docs_hits [OF r(2)]) (use len size(1) in simp)
  have "length rs \<le> length (ds_docs st)"
    using arg_cong [OF ms, of size] length_hits [of ?score "live_docs_with t st"] len by simp
  moreover have "nodes_of rs = hit_nodes (doc_score avgdl weights k1 b) (live_docs_with t st)"
    using mset_eq_setD [OF ms] nodes_of_hits [of ?score "live_docs_with t st"] by (simp add: doc_score_def [abs_def])
  moreover have "all_hits rs"
    using hits_all_hits [of avgdl weights "Fin 1" k1 b "live_docs_with t st"] unfolding mset_eq_setD [OF ms] .
  ultimately show ?thesis using r(1,3) by blast
qed

lemma search_terms_hits:
  assumes rel: "store_rel N P B st sh" and size: "length (ds_docs st) \<le> 64"
    and acc: "all_hits acc" "distinct (map sr_node_id acc)" "nodes_of acc \<subseteq> (\<lambda>(d, _). rc_node_id d) ` set (ds_docs st)"
  shows "\<exists>rs sh'. search_terms True ts avgdl weights k1 b (acc, sh) = Some (rs, sh') \<and> store_rel N P B st sh' \<and>
    all_hits rs \<and> distinct (map sr_node_id rs) \<and>
    nodes_of rs = nodes_of acc \<union> matching_nodes (doc_score avgdl weights k1 b) ts st"
  using rel acc
proof (induction ts arbitrary: acc sh)
  case Nil
  then show ?case by (simp add: matching_nodes_def)
next
  case (Cons t ts)
  let ?V = "(\<lambda>(d, _). rc_node_id d) ` set (ds_docs st)" and ?score = "doc_score avgdl weights k1 b"
  have V: "finite ?V" "card ?V \<le> 64"
    using card_image_le [of "set (ds_docs st)" "\<lambda>(d, _). rc_node_id d"] card_length [of "ds_docs st"] size by simp_all
  obtain rs sh1 where r: "shard_search_bm25f_indexed True sh t (Fin 1) avgdl weights k1 b 64 = Some (rs, sh1)"
    "store_rel N P B st sh1" "all_hits rs" "nodes_of rs = hit_nodes ?score (live_docs_with t st)"
    using search_term_hits [OF Cons.prems(1) size, of t avgdl weights k1 b] by auto
  define acc1 where "acc1 = fold (\<lambda>r acc. add_term_result acc r 64) rs acc"
  have sub: "nodes_of acc \<union> nodes_of rs \<subseteq> ?V" using Cons.prems(4) r(4) hit_nodes_subset by simp
  have a: "all_hits acc1" "distinct (map sr_node_id acc1)" "nodes_of acc1 = nodes_of acc \<union> nodes_of rs"
    using add_results [OF Cons.prems(2) r(3) Cons.prems(3) V sub] by (simp_all add: acc1_def)
  obtain out sh' where o: "search_terms True ts avgdl weights k1 b (acc1, sh1) = Some (out, sh')" "store_rel N P B st sh'"
    "all_hits out" "distinct (map sr_node_id out)" "nodes_of out = nodes_of acc1 \<union> matching_nodes ?score ts st"
    using Cons.IH [OF r(2) a(1,2)] a(3) sub by auto
  have "matching_nodes ?score (t # ts) st = nodes_of rs \<union> matching_nodes ?score ts st"
    by (simp add: matching_nodes_def r(4))
  then have "nodes_of out = nodes_of acc \<union> matching_nodes ?score (t # ts) st" unfolding o(5) a(3) by (simp only: Un_assoc)
  moreover have "search_terms True (t # ts) avgdl weights k1 b (acc, sh) = Some (out, sh')"
    using r(1) o(1) by (simp add: acc1_def)
  ultimately show ?case using o(2-4) by blast
qed

text \<open>A text query that is not a phrase.\<close>

definition plain_text_query :: "UnifiedQuery \<Rightarrow> bool" where
  "plain_text_query query \<longleftrightarrow> q_use_text query \<and> \<not> q_use_vector query \<and> \<not> q_is_phrase query"

lemma matching_nodes_subset: "matching_nodes score ts st \<subseteq> (\<lambda>(d, _). rc_node_id d) ` set (ds_docs st)"
  using hit_nodes_subset by (fastforce simp: matching_nodes_def)

lemma work_hits:
  assumes rel: "store_rel N P B st sh" and size: "length (ds_docs st) \<le> 64" and q: "plain_text_query query"
  shows "\<exists>rs sh'. shard_search_work_cb True query avgdl weights k1 b sh = Some (rs, sh') \<and> store_rel N P B st sh' \<and>
    all_hits rs \<and> length rs \<le> length (ds_docs st) \<and>
    nodes_of rs = matching_nodes (doc_score avgdl weights k1 b) (query_terms query) st"
proof -
  let ?rrf = "map (\<lambda>r. r\<lparr>sr_rrf_score := sr_bm25f_score r\<rparr>)"
  have rrf: "nodes_of (?rrf rs) = nodes_of rs" "length (?rrf rs) = length rs" for rs by (simp_all add: image_image)
  have "\<exists>rs sh'. (if q_term_ids query \<noteq> [] then search_terms True (q_term_ids query) avgdl weights k1 b ([], sh)
      else shard_search_bm25f_indexed True sh 0 (Fin 1) avgdl weights k1 b 64) = Some (rs, sh') \<and>
    store_rel N P B st sh' \<and> all_hits rs \<and> length rs \<le> length (ds_docs st) \<and>
    nodes_of rs = matching_nodes (doc_score avgdl weights k1 b) (query_terms query) st"
  proof (cases "q_term_ids query = []")
    case True
    then show ?thesis
      using search_term_hits [OF rel size, of 0 avgdl weights k1 b] by (auto simp: query_terms_def matching_nodes_def)
  next
    case False
    obtain rs sh' where r: "search_terms True (q_term_ids query) avgdl weights k1 b ([], sh) = Some (rs, sh')"
      "store_rel N P B st sh'" "all_hits rs" "distinct (map sr_node_id rs)"
      "nodes_of rs = matching_nodes (doc_score avgdl weights k1 b) (query_terms query) st"
      using search_terms_hits [OF rel size, of "[]" "q_term_ids query" avgdl weights k1 b] False by (auto simp: query_terms_def)
    have "length rs = card (nodes_of rs)" using distinct_card [OF r(4)] by simp
    also have "\<dots> \<le> card ((\<lambda>(d, _). rc_node_id d) ` set (ds_docs st))"
      unfolding r(5) by (rule card_mono [OF _ matching_nodes_subset]) simp
    also have "\<dots> \<le> length (ds_docs st)" by (meson card_image_le card_length finite_set order_trans)
    finally show ?thesis using False r by auto
  qed
  then obtain rs sh' where r: "(if q_term_ids query \<noteq> [] then search_terms True (q_term_ids query) avgdl weights k1 b ([], sh)
      else shard_search_bm25f_indexed True sh 0 (Fin 1) avgdl weights k1 b 64) = Some (rs, sh')"
    "store_rel N P B st sh'" "all_hits rs" "length rs \<le> length (ds_docs st)"
    "nodes_of rs = matching_nodes (doc_score avgdl weights k1 b) (query_terms query) st" by blast
  have "shard_search_work_cb True query avgdl weights k1 b sh = Some (?rrf rs, sh')"
    using q r(1) by (simp add: shard_search_work_cb_def plain_text_query_def)
  then show ?thesis using r(2-5) rrf by auto
qed

section \<open>The engine\<close>

text \<open>Shard \<open>i\<close> of the engine has the number \<open>i\<close> and holds the documents \<open>sts ! i\<close> on at most \<open>K\<close> pages.\<close>

definition engine_rel :: "nat \<Rightarrow> UnifiedEngine \<Rightarrow> doc_store list \<Rightarrow> bool" where
  "engine_rel K en sts \<longleftrightarrow> shards_numbered (en_shards en) \<and>
     list_all2 (\<lambda>sh st. \<exists>N P B. store_rel N P B st sh \<and> N \<le> K) (en_shards en) sts"

lemma engine_rel_shard:
  "engine_rel K en sts \<Longrightarrow> i < length sts \<Longrightarrow> \<exists>N P B. store_rel N P B (sts ! i) (en_shards en ! i) \<and> N \<le> K"
  by (auto simp: engine_rel_def list_all2_conv_all_nth)

lemma engine_rel_length: "engine_rel K en sts \<Longrightarrow> length (en_shards en) = length sts"
  by (auto simp: engine_rel_def list_all2_lengthD)

lemma engine_rel_numbered: "engine_rel K en sts \<Longrightarrow> i < length sts \<Longrightarrow> unat (us_shard_id (en_shards en ! i)) = i"
  using engine_rel_length [of K en sts] by (simp add: engine_rel_def shards_numbered_def)

lemma sort_fused:
  assumes "all_hits rs"
  defines "out \<equiv> exchange_sort sr_bm25f_score no_stamp (exchange_sort sr_bm25f_score stamp_bm25f rs)"
  shows "nodes_of out = nodes_of rs" "length out = length rs" "descending sr_bm25f_score out"
proof -
  let ?s = "exchange_sort sr_bm25f_score stamp_bm25f rs" and ?body = "\<lambda>r. r\<lparr>sr_bm25f_rank := 0\<rparr>"
  have cmp: "comparable sr_bm25f_score rs" using assms(1) by (auto simp: comparable_def hit_score_not_NaN)
  note law = by_bm25f.sort_law [OF cmp]
  have "set (map ?body ?s) = set (map ?body rs)" using law mset_eq_setD by blast
  then have body: "?body ` set ?s = ?body ` set rs" by simp
  have f: "f ` set ?s = f ` set rs" if "\<And>r. f (?body r) = f r" for f :: "UnifiedSearchResult \<Rightarrow> 'a"
    using arg_cong [OF body, of "(`) f"] that by (simp add: image_image)
  have "sr_bm25f_score ` set ?s = sr_bm25f_score ` set rs" by (rule f) simp
  then have cmp': "comparable sr_bm25f_score ?s" using cmp by (metis (no_types, lifting) comparable_def imageE imageI)
  note law' = unstamped.sort_law [OF cmp']
  have "set out = set ?s" using law' mset_eq_setD unfolding out_def by (metis list.map_ident)
  then show "nodes_of out = nodes_of rs" using f [of sr_node_id] by simp
  show "length out = length rs" "descending sr_bm25f_score out" using law law' by (simp_all add: out_def)
qed

lemma gather_hits:
  "plain_text_query query \<Longrightarrow> all_hits rs \<Longrightarrow> gather_results query rs = (rs, [])"
  by (auto simp: gather_results_def plain_text_query_def hit_score_def intro!: filter_True)

text \<open>Every shard answers its work item.\<close>

lemma shards_answer:
  assumes rel: "engine_rel K en sts" and size: "\<forall>st \<in> set sts. length (ds_docs st) \<le> 64" and q: "plain_text_query query"
  defines "score \<equiv> doc_score (en_global_avgdl en) (en_field_weights en) (en_k1 en) (en_b en)"
    and "work \<equiv> shard_search_work_cb True query (en_global_avgdl en) (en_field_weights en) (en_k1 en) (en_b en)"
  obtains rss shs where "\<And>i. i < length sts \<Longrightarrow> work (en_shards en ! i) = Some (rss i, shs i)"
    "\<And>i. i < length sts \<Longrightarrow> \<exists>N P B. store_rel N P B (sts ! i) (shs i) \<and> N \<le> K"
    "\<And>i. i < length sts \<Longrightarrow> all_hits (rss i)" "\<And>i. i < length sts \<Longrightarrow> length (rss i) \<le> length (ds_docs (sts ! i))"
    "\<And>i. i < length sts \<Longrightarrow> nodes_of (rss i) = matching_nodes score (query_terms query) (sts ! i)"
proof -
  have "\<forall>i. \<exists>rs sh'. i < length sts \<longrightarrow> work (en_shards en ! i) = Some (rs, sh') \<and>
    (\<exists>N P B. store_rel N P B (sts ! i) sh' \<and> N \<le> K) \<and>
    all_hits rs \<and> length rs \<le> length (ds_docs (sts ! i)) \<and> nodes_of rs = matching_nodes score (query_terms query) (sts ! i)"
  proof (rule allI, cases)
    fix i assume i: "i < length sts"
    obtain N P B where "store_rel N P B (sts ! i) (en_shards en ! i)" "N \<le> K" using engine_rel_shard [OF rel i] by blast
    moreover have "length (ds_docs (sts ! i)) \<le> 64" using size i by simp
    ultimately show "\<exists>rs sh'. i < length sts \<longrightarrow> work (en_shards en ! i) = Some (rs, sh') \<and>
      (\<exists>N P B. store_rel N P B (sts ! i) sh' \<and> N \<le> K) \<and>
      all_hits rs \<and> length rs \<le> length (ds_docs (sts ! i)) \<and> nodes_of rs = matching_nodes score (query_terms query) (sts ! i)"
      using work_hits [of N P B "sts ! i" "en_shards en ! i" query "en_global_avgdl en" "en_field_weights en" "en_k1 en" "en_b en"] q
      unfolding work_def score_def by blast
  qed simp
  then show ?thesis using that by metis
qed

lemma nodes_of_concat:
  assumes "\<And>i. i < length sts \<Longrightarrow> nodes_of (rss i) = f (sts ! i)"
  shows "nodes_of (concat (map rss [0..<length sts])) = (\<Union>st \<in> set sts. f st)"
proof -
  have "nodes_of (concat (map rss [0..<length sts])) = (\<Union>i \<in> {..<length sts}. nodes_of (rss i))"
    by (simp add: image_UN atLeast0LessThan)
  also have "\<dots> = (\<Union>i \<in> {..<length sts}. f (sts ! i))" using assms by simp
  also have "\<dots> = (\<Union>st \<in> set sts. f st)" by (auto simp: set_conv_nth)
  finally show ?thesis .
qed

lemma engine_text_search:
  assumes rel: "engine_rel K en sts" and size: "\<forall>st \<in> set sts. length (ds_docs st) \<le> 64"
    and order: "distinct order" "set order = {..<length sts}" and q: "plain_text_query query"
    and max: "sum_list (map (\<lambda>st. length (ds_docs st)) sts) \<le> max_results" and loop: "has_loop \<or> loop_ok"
  defines "score \<equiv> doc_score (en_global_avgdl en) (en_field_weights en) (en_k1 en) (en_b en)"
  shows "\<exists>results en'. engine_search_async qsort order True loop_ok has_loop en query max_results = Some (results, en', True) \<and>
    engine_rel K en' sts \<and> nodes_of results = (\<Union>st \<in> set sts. matching_nodes score (query_terms query) st) \<and>
    descending sr_bm25f_score results"
proof -
  define work where "work = shard_search_work_cb True query (en_global_avgdl en) (en_field_weights en) (en_k1 en) (en_b en)"
  have n: "length (en_shards en) = length sts" by (rule engine_rel_length [OF rel])
  obtain rss shs where w: "\<And>i. i < length sts \<Longrightarrow> work (en_shards en ! i) = Some (rss i, shs i)"
    "\<And>i. i < length sts \<Longrightarrow> \<exists>N P B. store_rel N P B (sts ! i) (shs i) \<and> N \<le> K"
    "\<And>i. i < length sts \<Longrightarrow> all_hits (rss i)" "\<And>i. i < length sts \<Longrightarrow> length (rss i) \<le> length (ds_docs (sts ! i))"
    "\<And>i. i < length sts \<Longrightarrow> nodes_of (rss i) = matching_nodes score (query_terms query) (sts ! i)"
    unfolding work_def score_def by (rule shards_answer [OF rel size q]) blast
  have item: "item_work work i (en_shards en ! i) = Some (rss i, shs i)" if "i < length sts" for i
    using w(1) [OF that] engine_rel_numbered [OF rel that] unfolding work_def by (simp add: item_work_numbered)
  have all: "\<forall>i < length (en_shards en). item_work work i (en_shards en ! i) \<noteq> None" using item n by simp
  have m: "map (\<lambda>i. fst (the (item_work work i (en_shards en ! i)))) [0..<length (en_shards en)] = map rss [0..<length sts]"
    "map (\<lambda>i. snd (the (item_work work i (en_shards en ! i)))) [0..<length (en_shards en)] = map shs [0..<length sts]"
    using item n by simp_all
  obtain pl where pl: "run_items work order (pool_start (en_shards en)) = Some pl"
    "map (pl_results pl) [0..<length sts] = map rss [0..<length sts]" "pl_shards pl = map shs [0..<length sts]"
    using run_items_finished [of order "en_shards en" work] order(1) unfolding n order(2) [symmetric] if_P [OF all [unfolded n]] m [unfolded n]
    by auto
  define rs where "rs = concat (map rss [0..<length sts])"
  define out where "out = exchange_sort sr_bm25f_score no_stamp (exchange_sort sr_bm25f_score stamp_bm25f rs)"
  have hits: "all_hits rs" using w(3) by (auto simp: rs_def)
  have "length rs = sum_list (map (\<lambda>i. length (rss i)) [0..<length sts])" by (simp add: rs_def length_concat comp_def)
  also have "\<dots> \<le> sum_list (map (\<lambda>i. length (ds_docs (sts ! i))) [0..<length sts])" by (rule sum_list_mono) (simp add: w(4))
  also have "\<dots> = sum_list (map (\<lambda>st. length (ds_docs st)) (map ((!) sts) [0..<length sts]))" by (simp add: comp_def)
  finally have len: "length rs \<le> max_results" using max by (simp only: map_nth)
  note s = sort_fused [OF hits, folded out_def]
  have fuse: "fuse_results qsort True False rs [] max_results = out"
    using s(2) len by (simp add: fuse_results_def out_def)
  have gathered: "concat (map (pl_results pl) [0..<length (en_shards en)]) = rs" by (simp only: n pl(2) rs_def)
  let ?en = "en\<lparr>en_shards := pl_shards pl\<rparr>"
  have flags: "q_use_text query" "\<not> q_use_vector query" using q by (simp_all add: plain_text_query_def)
  have "engine_search_async qsort order True loop_ok has_loop en query max_results = Some (out, ?en, True)"
    using loop pl(1) flags gather_hits [OF q hits] fuse gathered unfolding engine_search_async_def work_def [symmetric]
    by (auto simp: async_search_init_def)
  moreover have "unat (us_shard_id (shs i)) = i" if "i < length sts" for i
    using number.work_kept [OF w(1) [OF that, unfolded work_def]] engine_rel_numbered [OF rel that] by simp
  then have "engine_rel K ?en sts"
    using w(2) by (simp add: engine_rel_def shards_numbered_def pl(3) list_all2_conv_all_nth)
  moreover have "nodes_of out = (\<Union>st \<in> set sts. matching_nodes score (query_terms query) st)"
    unfolding s(1) rs_def by (rule nodes_of_concat) (rule w(5))
  ultimately show ?thesis using s(3) by blast
qed

end
