(* ===== verification/ScoreRange.thy ===== *)
theory ScoreRange
  imports CDoubleBits Ranking
begin

text \<open>
  Bounds on computed scores. A double between two powers of two stays between powers of two
  under the operations of the BM25F formula, so that with the parameters of an engine no
  intermediate result over- or underflows and a document scores above zero exactly when a term
  occurs in one of its fields and the average length of that field is not zero.
\<close>

section \<open>Ranges\<close>

definition between :: "int \<Rightarrow> int \<Rightarrow> double \<Rightarrow> bool" where
  "between lo hi d \<longleftrightarrow> (\<exists>x. d = Fin x \<and> 2 powi lo \<le> x \<and> x \<le> 2 powi hi)"

definition up_to :: "int \<Rightarrow> double \<Rightarrow> bool" where
  "up_to hi d \<longleftrightarrow> (\<exists>x. d = Fin x \<and> 0 \<le> x \<and> x \<le> 2 powi hi)"

lemma powi_le_pos: "2 powi a \<le> x \<Longrightarrow> 0 < (x :: real)"
  by (rule less_le_trans [OF powi_pos])

lemma between_up_to: "between lo hi d \<Longrightarrow> up_to hi d"
  by (auto simp: between_def up_to_def dest: powi_le_pos)

lemma between_positive: "between lo hi d \<Longrightarrow> dlt (Fin 0) d"
  by (auto simp: between_def dest: powi_le_pos)

lemma between_weaken: "between lo hi d \<Longrightarrow> lo' \<le> lo \<Longrightarrow> hi \<le> hi' \<Longrightarrow> between lo' hi' d"
  by (auto simp: between_def intro: order_trans [OF powi_mono] order_trans [OF _ powi_mono])

lemma up_to_weaken: "up_to hi d \<Longrightarrow> hi \<le> hi' \<Longrightarrow> up_to hi' d"
  by (auto simp: up_to_def intro: order_trans [OF _ powi_mono])

lemma round64_powi: "- 1074 \<le> e \<Longrightarrow> round64 (2 powi e) = 2 powi e"
  using round64_small [of 1 e] by simp

lemma to_double_up_to:
  assumes "0 \<le> x" "x \<le> 2 powi hi" "0 \<le> hi" "hi < 1024"
  shows "to_double x = Fin (round64 x)" "0 \<le> round64 x" "round64 x \<le> 2 powi hi"
proof -
  have hi: "2 powi hi = (2 :: real) ^ nat hi" using assms(3) by (simp add: power_int_def)
  have "\<bar>x\<bar> \<le> 2 ^ nat hi" using assms(1,2) hi by simp
  then show "to_double x = Fin (round64 x)" using assms(3,4) by (intro to_double_bounded) auto
  show "0 \<le> round64 x" by (rule round64_nonneg [OF assms(1)])
  show "round64 x \<le> 2 powi hi" using round64_mono [OF assms(2)] round64_powi [of hi] assms(3) by simp
qed

lemma up_to_to_double: "0 \<le> x \<Longrightarrow> x \<le> 2 powi hi \<Longrightarrow> 0 \<le> hi \<Longrightarrow> hi < 1024 \<Longrightarrow> up_to hi (to_double x)"
  using to_double_up_to [of x hi] by (simp add: up_to_def)

lemma between_to_double:
  assumes "2 powi lo \<le> x" "x \<le> 2 powi hi" "- 1074 \<le> lo" "0 \<le> hi" "hi < 1024"
  shows "between lo hi (to_double x)"
proof -
  have "0 \<le> x" using assms(1) by (meson order_trans zero_le_power_int zero_le_numeral)
  note t = to_double_up_to [OF this assms(2,4,5)]
  have "2 powi lo \<le> round64 x" using round64_mono [OF assms(1)] round64_powi [OF assms(3)] by simp
  then show ?thesis using t by (simp add: between_def)
qed

section \<open>Operations\<close>

lemma powi_sum: "(2 :: real) powi a * 2 powi b = 2 powi (a + b)"
  by (simp add: power_int_add)

lemma powi_diff: "(2 :: real) powi a / 2 powi b = 2 powi (a - b)"
  by (simp add: power_int_diff)

lemma powi_max_sum: "(2 :: real) powi a + 2 powi b \<le> 2 powi (max a b + 1)"
proof -
  have "(2 :: real) powi (max a b + 1) = 2 * 2 powi (max a b)" by (simp add: power_int_add)
  moreover have "(2 :: real) powi a \<le> 2 powi (max a b)" "(2 :: real) powi b \<le> 2 powi (max a b)" by (simp_all add: powi_mono)
  ultimately show ?thesis by linarith
qed

lemma up_to_dadd: "up_to h1 a \<Longrightarrow> up_to h2 b \<Longrightarrow> 0 \<le> max h1 h2 \<Longrightarrow> max h1 h2 < 1023 \<Longrightarrow> up_to (max h1 h2 + 1) (dadd a b)"
  using powi_max_sum [of h1 h2] unfolding up_to_def [of h1] up_to_def [of h2]
  by (auto intro!: up_to_to_double)

lemma between_dadd:
  assumes "between lo h1 a" "up_to h2 b" "- 1074 \<le> lo" "0 \<le> max h1 h2" "max h1 h2 < 1023"
  shows "between lo (max h1 h2 + 1) (dadd a b)" "between lo (max h1 h2 + 1) (dadd b a)"
proof -
  obtain x y where x: "a = Fin x" "2 powi lo \<le> x" "x \<le> 2 powi h1" "b = Fin y" "0 \<le> y" "y \<le> 2 powi h2"
    using assms(1,2) by (auto simp: between_def up_to_def)
  then have "x + y \<le> 2 powi (max h1 h2 + 1)" using powi_max_sum [of h1 h2] by linarith
  then have "between lo (max h1 h2 + 1) (to_double (x + y))"
    using x assms(3-5) by (intro between_to_double) auto
  then show "between lo (max h1 h2 + 1) (dadd a b)" "between lo (max h1 h2 + 1) (dadd b a)"
    by (simp_all add: x add.commute)
qed

lemma up_to_dmul:
  assumes "up_to h1 a" "up_to h2 b" "0 \<le> h1 + h2" "h1 + h2 < 1024"
  shows "up_to (h1 + h2) (dmul a b)"
proof -
  obtain x y where x: "a = Fin x" "0 \<le> x" "x \<le> 2 powi h1" "b = Fin y" "0 \<le> y" "y \<le> 2 powi h2"
    using assms(1,2) by (auto simp: up_to_def)
  have "x * y \<le> 2 powi h1 * 2 powi h2" by (rule mult_mono) (use x in auto)
  then show ?thesis using x assms(3,4) by (auto simp: powi_sum intro!: up_to_to_double)
qed

lemma between_dmul:
  assumes "between l1 h1 a" "between l2 h2 b" "- 1074 \<le> l1 + l2" "0 \<le> h1 + h2" "h1 + h2 < 1024"
  shows "between (l1 + l2) (h1 + h2) (dmul a b)"
proof -
  obtain x y where x: "a = Fin x" "2 powi l1 \<le> x" "x \<le> 2 powi h1" "b = Fin y" "2 powi l2 \<le> y" "y \<le> 2 powi h2"
    using assms(1,2) by (auto simp: between_def)
  have pos: "(0 :: real) < 2 powi l1" "(0 :: real) < 2 powi l2" by simp_all
  have "x * y \<le> 2 powi h1 * 2 powi h2" "2 powi l1 * 2 powi l2 \<le> x * y"
    using x pos by (intro mult_mono; linarith)+
  then show ?thesis using x(1,4) assms(3-5) by (auto simp: powi_sum intro!: between_to_double)
qed

lemma between_ddiv:
  assumes "between l1 h1 a" "between l2 h2 b" "- 1074 \<le> l1 - h2" "0 \<le> h1 - l2" "h1 - l2 < 1024"
  shows "between (l1 - h2) (h1 - l2) (ddiv a b)"
proof -
  obtain x y where x: "a = Fin x" "2 powi l1 \<le> x" "x \<le> 2 powi h1" "b = Fin y" "2 powi l2 \<le> y" "y \<le> 2 powi h2"
    using assms(1,2) by (auto simp: between_def)
  have pos: "(0 :: real) < 2 powi l1" "(0 :: real) < 2 powi l2" by simp_all
  have y: "0 < y" using x(5) pos by linarith
  have "x / y \<le> 2 powi h1 / 2 powi l2" "2 powi l1 / 2 powi h2 \<le> x / y"
    using x pos y by (intro frac_le; linarith)+
  then show ?thesis using x(1,4) y assms(3-5) by (auto simp: powi_diff intro!: between_to_double)
qed

lemma up_to_ddiv:
  assumes "up_to h1 a" "between l2 h2 b" "0 \<le> h1 - l2" "h1 - l2 < 1024"
  shows "up_to (h1 - l2) (ddiv a b)"
proof -
  obtain x y where x: "a = Fin x" "0 \<le> x" "x \<le> 2 powi h1" "b = Fin y" "2 powi l2 \<le> y"
    using assms(1,2) by (auto simp: between_def up_to_def)
  have pos: "(0 :: real) < 2 powi l2" by simp
  have y: "0 < y" using x(5) pos by linarith
  have "x / y \<le> 2 powi h1 / 2 powi l2" using x pos by (intro frac_le) auto
  then show ?thesis using x(1,2,4) y assms(3,4) by (auto simp: powi_diff intro!: up_to_to_double)
qed

lemma u32_real: "real (unat (v :: u32)) \<le> 2 powi 32"
proof -
  have "unat v \<le> 2 ^ 32" using unat_u32_less [of v] by simp
  then have "real (unat v) \<le> real (2 ^ 32)" by (simp only: of_nat_le_iff)
  then show ?thesis by simp
qed

lemma up_to_u32: "up_to 32 (d_of_nat (unat (v :: u32)))"
  unfolding d_of_u32 up_to_def using u32_real [of v] of_nat_0_le_iff by blast

lemma between_u32:
  assumes "0 < v"
  shows "between 0 32 (d_of_nat (unat (v :: u32)))"
proof -
  have "1 \<le> unat v" using assms by (simp add: word_less_nat_alt Suc_le_eq)
  then have "real 1 \<le> real (unat v)" by (simp only: of_nat_le_iff)
  then have "2 powi 0 \<le> real (unat v)" by (simp only: power_int_0_right of_nat_1)
  then show ?thesis unfolding d_of_u32 between_def using u32_real [of v] by blast
qed

section \<open>The score with the parameters of an engine\<close>

text \<open>Weights 10, 5, 2 and 1, \<open>k1\<close> 1.2 and \<open>b\<close> 3/4, as \<open>engine_init\<close> sets them. The average lengths
  are 10 in a new engine; after a restart an average is zero or in a wide range of positive
  numbers.\<close>

abbreviation new_avgdl :: "double list" where "new_avgdl \<equiv> replicate 4 (Fin 10)"
abbreviation new_weights :: "double list" where "new_weights \<equiv> [Fin 10, Fin 5, Fin 2, Fin 1]"
abbreviation new_k1 :: double where "new_k1 \<equiv> to_double (12 / 10)"
abbreviation new_b :: double where "new_b \<equiv> Fin (3 / 4)"

definition averages_in_range :: "double list \<Rightarrow> bool" where
  "averages_in_range avgdl \<longleftrightarrow> (\<forall>i < 4. avgdl ! i = Fin 0 \<or> between (- 34) 114 (avgdl ! i))"

definition field_weight :: "u32 list \<Rightarrow> u32 list \<Rightarrow> double list \<Rightarrow> nat \<Rightarrow> double" where
  "field_weight tf dl avgdl i =
     (let len_norm = dadd (dsub (Fin 1) new_b) (dmul new_b (ddiv (d_of_nat (unat (dl ! i))) (avgdl ! i)))
      in dmul (new_weights ! i) (ddiv (d_of_nat (unat (tf ! i))) len_norm))"

text \<open>A field counts when the term occurs in it and some document has a length in it.\<close>

definition field_counts :: "u32 list \<Rightarrow> double list \<Rightarrow> nat \<Rightarrow> bool" where
  "field_counts tf avgdl i \<longleftrightarrow> 0 < tf ! i \<and> dlt (Fin 0) (avgdl ! i)"

lemma less_4: "i < 4 \<longleftrightarrow> i = 0 \<or> i = 1 \<or> i = 2 \<or> i = (3 :: nat)"
  by auto

lemma counted_field: "i < 4 \<Longrightarrow> bm25f_field tf dl avgdl new_weights new_b i f =
    (if field_counts tf avgdl i then dadd f (field_weight tf dl avgdl i) else f)"
  by (auto simp: bm25f_field_def field_weight_def field_counts_def Let_def less_4)

lemma between_const: "between 0 4 (Fin 10)" "between 3 4 (Fin 10)" "up_to 0 (Fin (3 / 4))" "between 0 3 (Fin 5)"
  "between 0 1 (Fin 2)" "between 0 0 (Fin 1)"
  by (auto simp: between_def up_to_def power_int_def intro!: exI [of _ "3 / 4 :: real"])

lemma new_averages: "averages_in_range new_avgdl"
  using between_weaken [OF between_const(1), of "- 34" 114] by (simp add: averages_in_range_def)

lemma quarter: "between (- 2) 0 (dsub (Fin 1) (Fin (3 / 4)))"
  by (auto simp: dsub_def power_int_def power2_eq_square intro!: between_to_double)

lemma field_weight_between:
  assumes "averages_in_range avgdl" "i < 4" "field_counts tf avgdl i"
  shows "between (- 67) 38 (field_weight tf dl avgdl i)"
proof -
  have w: "between 0 4 (new_weights ! i)"
    using assms(2) between_const by (auto simp: less_4 intro: between_weaken)
  have avg: "between (- 34) 114 (avgdl ! i)" and tf: "0 < tf ! i"
    using assms by (auto simp: averages_in_range_def field_counts_def)
  have "up_to 66 (ddiv (d_of_nat (unat (dl ! i))) (avgdl ! i))"
    using up_to_ddiv [OF up_to_u32 avg] by simp
  then have "up_to 66 (dmul new_b (ddiv (d_of_nat (unat (dl ! i))) (avgdl ! i)))"
    using up_to_dmul [OF between_const(3)] by fastforce
  then have "between (- 2) 67 (dadd (dsub (Fin 1) new_b) (dmul new_b (ddiv (d_of_nat (unat (dl ! i))) (avgdl ! i))))"
    using between_dadd(1) [OF quarter] by fastforce
  then have "between (- 67) 34 (ddiv (d_of_nat (unat (tf ! i)))
      (dadd (dsub (Fin 1) new_b) (dmul new_b (ddiv (d_of_nat (unat (dl ! i))) (avgdl ! i)))))"
    using between_ddiv [OF between_u32 [OF tf]] by fastforce
  then show ?thesis using between_dmul [OF w] by (fastforce simp: field_weight_def Let_def)
qed

text \<open>The sum over the fields: zero or in range.\<close>

lemma fields_sum:
  assumes avg: "averages_in_range avgdl"
  shows "n \<le> 4 \<Longrightarrow> (if \<exists>i < n. field_counts tf avgdl i
     then between (- 67) (38 + int n) (fold (bm25f_field tf dl avgdl new_weights new_b) [0..<n] (Fin 0))
     else fold (bm25f_field tf dl avgdl new_weights new_b) [0..<n] (Fin 0) = Fin 0)"
proof (induction n)
  case (Suc n)
  let ?f = "fold (bm25f_field tf dl avgdl new_weights new_b) [0..<n] (Fin 0)"
  have n: "n < 4" using Suc.prems by simp
  have step: "fold (bm25f_field tf dl avgdl new_weights new_b) [0..<Suc n] (Fin 0) =
      (if field_counts tf avgdl n then dadd ?f (field_weight tf dl avgdl n) else ?f)"
    using counted_field [OF n] by simp
  have IH: "if \<exists>i < n. field_counts tf avgdl i then between (- 67) (38 + int n) ?f else ?f = Fin 0" using Suc by simp
  then have up: "up_to (38 + int n) ?f" using between_up_to by (auto simp: up_to_def split: if_splits)
  show ?case
  proof (cases "field_counts tf avgdl n")
    case True
    have "between (- 67) (38 + int (Suc n)) (dadd ?f (field_weight tf dl avgdl n))"
      using between_dadd(2) [OF field_weight_between [OF avg n True, of dl] up] n by (simp add: max_def)
    then show ?thesis unfolding step using True by auto
  next
    case False
    then have "(\<exists>i < Suc n. field_counts tf avgdl i) \<longleftrightarrow> (\<exists>i < n. field_counts tf avgdl i)" by (auto simp: less_Suc_eq)
    moreover have "between (- 67) (38 + int n) ?f \<Longrightarrow> between (- 67) (38 + int (Suc n)) ?f"
      by (erule between_weaken) simp_all
    ultimately show ?thesis unfolding step using IH False by (auto cong: if_cong)
  qed
qed simp

lemma new_k1_between: "between 0 1 new_k1"
  by (auto intro!: between_to_double)

lemma score_positive:
  assumes avg: "averages_in_range avgdl"
  shows "dlt (Fin 0) (compute_bm25f_score tf dl avgdl new_weights (Fin 1) new_k1 new_b) \<longleftrightarrow>
    (\<exists>i < 4. field_counts tf avgdl i)"
proof -
  let ?f = "fold (bm25f_field tf dl avgdl new_weights new_b) [0..<4] (Fin 0)"
  have f: "if \<exists>i < 4. field_counts tf avgdl i then between (- 67) 42 ?f else ?f = Fin 0"
    using fields_sum [OF avg, of 4 tf dl] by (simp cong: if_cong)
  show ?thesis
  proof (cases "\<exists>i < 4. field_counts tf avgdl i")
    case False
    then show ?thesis using f by (simp add: compute_bm25f_score_def Let_def)
  next
    case True
    then have f: "between (- 67) 42 ?f" using f by simp
    then have nz: "\<not> deq ?f (Fin 0)" using between_positive [OF f] by (cases ?f) auto
    have "between 0 2 (dadd new_k1 (Fin 1))"
      using between_dadd(1) [OF new_k1_between between_up_to [OF between_const(6)]] by simp
    then have num: "between (- 67) 44 (dmul ?f (dadd new_k1 (Fin 1)))" using between_dmul [OF f] by fastforce
    have den: "between (- 67) 43 (dadd ?f new_k1)"
      using between_dadd(1) [OF f between_up_to [OF new_k1_between]] by simp
    have "between (- 110) 111 (ddiv (dmul ?f (dadd new_k1 (Fin 1))) (dadd ?f new_k1))"
      using between_ddiv [OF num den] by simp
    then have "between (- 110) 111 (dmul (Fin 1) (ddiv (dmul ?f (dadd new_k1 (Fin 1))) (dadd ?f new_k1)))"
      using between_dmul [OF between_const(6)] by fastforce
    then show ?thesis using True nz between_positive by (simp add: compute_bm25f_score_def Let_def)
  qed
qed

lemma new_score_positive:
  "dlt (Fin 0) (compute_bm25f_score tf dl new_avgdl new_weights (Fin 1) new_k1 new_b) \<longleftrightarrow> (\<exists>i < 4. 0 < tf ! i)"
  unfolding score_positive [OF new_averages] by (auto simp: field_counts_def)

end
