(* ===== verification/EngineStore.thy ===== *)
theory EngineStore
  imports EngineSearch ScoreRange
begin

text \<open>
  Opening an engine on empty files and inserting documents: every document lands in the shard
  its node id hashes to, and a text query over all shards finds exactly the inserted documents
  that match.
\<close>

section \<open>Opening\<close>

lemma open_shards_fresh:
  assumes "\<forall>j < k. empty_files (i + of_nat j) base disk" "4 \<le> unat n" "unat n < 2 ^ 31"
  shows "\<exists>shs. open_shards k i base n disk = Some (True, shs) \<and>
    list_all2 (\<lambda>sh st. \<exists>N P B. store_rel N P B st sh \<and> N \<le> 3) shs (replicate k no_docs)"
  using assms(1)
proof (induction k arbitrary: i)
  case (Suc k)
  have "empty_files i base disk" using Suc.prems [rule_format, of 0] by simp
  then obtain sh P where sh: "shard_init i base n disk = Opened sh" "store_rel 3 P (\<lambda>_. []) no_docs sh"
    by (rule fresh_store_rel [OF _ assms(2,3)])
  have "\<forall>j < k. empty_files (i + 1 + of_nat j) base disk"
    using Suc.prems by (auto simp: algebra_simps dest: spec [of _ "Suc _"])
  then obtain shs where "open_shards k (i + 1) base n disk = Some (True, shs)"
    "list_all2 (\<lambda>sh st. \<exists>N P B. store_rel N P B st sh \<and> N \<le> 3) shs (replicate k no_docs)"
    using Suc.IH by blast
  then show ?case using sh by auto
qed simp

text \<open>A terabyte of memory at most, so that the number of frames does not wrap around.\<close>

lemma frames_per_shard_bounds:
  assumes "unat ram \<le> 2 ^ 20" "0 < unat num"
  shows "1024 \<le> unat (frames_per_shard ram num)" "unat (frames_per_shard ram num) < 2 ^ 31"
proof -
  let ?total = "ucast ((ucast ram :: u64) * 1024 * 1024 div 4120) :: u32"
  have r: "unat (ucast ram :: u64) = unat ram" by (simp add: unsigned_ucast_eq take_bit_nat_eq_self unat_u32_less less_le_trans [OF unat_u32_less])
  have "unat ((ucast ram :: u64) * 1024 * 1024) = unat ram * 1024 * 1024"
    using assms(1) by (simp add: unat_word_ariths r)
  then have "unat ((ucast ram :: u64) * 1024 * 1024 div 4120) < 2 ^ 31"
    using assms(1) by (simp add: unat_div_distrib div_less_iff_less_mult)
  then have t: "unat ?total < 2 ^ 31" by (simp add: unsigned_ucast_eq take_bit_nat_eq_self)
  have "unat (?total div num) \<le> unat ?total" by (simp add: unat_div_distrib)
  then show "1024 \<le> unat (frames_per_shard ram num)" "unat (frames_per_shard ram num) < 2 ^ 31"
    using t by (auto simp: frames_per_shard_def Let_def word_less_nat_alt)
qed

definition new_parameters :: "UnifiedEngine \<Rightarrow> bool" where
  "new_parameters en \<longleftrightarrow> en_global_avgdl en = new_avgdl \<and> en_field_weights en = new_weights \<and>
     en_k1 en = new_k1 \<and> en_b en = new_b"

lemma no_docs_total:
  "list_all2 (\<lambda>sh st. \<exists>N P B. store_rel N P B st sh \<and> N \<le> K) shs (replicate k no_docs) \<Longrightarrow>
    fold (\<lambda>sh t. t + ucast (us_total_docs sh)) shs (0 :: u64) = 0"
proof (induction shs arbitrary: k)
  case (Cons sh shs)
  then show ?case by (cases k) (auto simp: store_rel_def)
qed simp

lemma engine_init_fresh:
  assumes files: "\<forall>i < unat num. empty_files (of_nat i) base disk" and num: "0 < unat num" and ram: "unat ram \<le> 2 ^ 20"
  obtains en where "engine_init base num ram disk = Some (0, en)" "engine_rel 3 en (replicate (unat num) no_docs)"
    "new_parameters en"
proof -
  note n = frames_per_shard_bounds [OF ram num]
  have "4 \<le> unat (frames_per_shard ram num)" using n by simp
  then obtain shs where s: "open_shards (unat num) 0 base (frames_per_shard ram num) disk = Some (True, shs)"
    "list_all2 (\<lambda>sh st. \<exists>N P B. store_rel N P B st sh \<and> N \<le> 3) shs (replicate (unat num) no_docs)"
    using open_shards_fresh [of "unat num" 0 base disk "frames_per_shard ram num"] files n(2) by auto
  have "num \<noteq> 0" using num by auto
  moreover have "map (\<lambda>i. Fin 10) [0..<4] = new_avgdl" by (simp add: map_replicate_const)
  ultimately obtain en where en: "engine_init base num ram disk = Some (0, en)" "en_shards en = shs" "new_parameters en"
    using s(1) no_docs_total [OF s(2)]
    by (simp add: engine_init_def engine_recompute_global_stats_def new_parameters_def Let_def comp_def)
  then show ?thesis using that s(2) engine_init_numbered [OF en(1)] by (simp add: engine_rel_def)
qed

section \<open>Inserting\<close>

text \<open>The arguments of one insertion: node id, term frequencies, document lengths, embedding, terms.\<close>

type_synonym engine_doc = "byte list \<times> u32 list \<times> u32 list \<times> u32 list \<times> u32 list"

fun doc_op :: "engine_doc \<Rightarrow> shard_op" where
  "doc_op (node_id, tf, dl, embedding, terms) = InsertDoc node_id tf dl embedding terms"

text \<open>A caller that inserts documents and stops at the first failure.\<close>

fun engine_insert_all :: "engine_doc list \<Rightarrow> UnifiedEngine \<Rightarrow> UnifiedEngine option" where
  "engine_insert_all [] en = Some en"
| "engine_insert_all ((node_id, tf, dl, embedding, terms) # docs) en =
     (case engine_insert_document en node_id tf dl embedding terms of
        None \<Rightarrow> None
      | Some (res, en) \<Rightarrow> if res = 0 then engine_insert_all docs en else None)"

lemma engine_insert_all_numbered:
  "engine_insert_all docs en = Some en' \<Longrightarrow> shards_numbered (en_shards en) \<Longrightarrow>
    shards_numbered (en_shards en') \<and> length (en_shards en') = length (en_shards en)"
proof (induction docs en rule: engine_insert_all.induct)
  case (2 node tf dl emb terms docs en)
  obtain r en1 where e: "engine_insert_document en node tf dl emb terms = Some (r, en1)" "r = 0" "engine_insert_all docs en1 = Some en'"
    using 2(2) by (auto split: option.splits if_splits)
  then show ?case using 2(1) [OF e(1) refl] engine_insert_numbered [OF e(1) 2(3)] by simp
qed simp

definition routed :: "nat \<Rightarrow> nat \<Rightarrow> engine_doc list \<Rightarrow> engine_doc list" where
  "routed n i docs = filter (\<lambda>d. shard_of_node n (fst d) = i) docs"

definition routed_store :: "nat \<Rightarrow> engine_doc list \<Rightarrow> nat \<Rightarrow> doc_store \<Rightarrow> doc_store" where
  "routed_store n docs i st = fold spec_op (map doc_op (routed n i docs)) st"

lemma shard_of_node_less: "0 < n \<Longrightarrow> shard_of_node n node < n"
  by (simp add: shard_of_node_def)

lemma doc_op_pages: "op_pages (doc_op d) = 2 * length (snd (snd (snd (snd d)))) + 3"
  by (cases d) simp

lemma length_routed_store: "length (ds_docs (routed_store n docs i st)) = length (ds_docs st) + length (routed n i docs)"
proof -
  have "op_count (map doc_op ds) = length ds" for ds
    by (induction ds) (auto simp: op_count_def)
  then show ?thesis by (simp add: routed_store_def docs_fold_op)
qed

lemma insert_succeeds:
  assumes rel: "store_rel N P B st sh" and ok: "op_ok op" "op = InsertDoc node tf dl emb ts"
    and N: "N + op_pages op + 1 < 2 ^ 32" and docs: "length (ds_docs st) \<le> max_possible_postings"
  shows "\<exists>sh'. shard_insert_document sh node tf dl emb ts = Some (0, sh')"
proof -
  obtain G D where inv: "shard_inv N P B G D sh" using rel by (auto simp: store_rel_def)
  have N': "N + 2 * length ts + 4 < 2 ^ 32" and r: "record_wf (inserted_record sh node tf dl emb)"
    using N ok by (simp_all add: record_wf_def inserted_record_def)
  have ids: "unat (us_next_doc_id sh) + 1 < 2 ^ 32"
    using rel docs by (simp add: store_rel_def unat_of_nat)
  show ?thesis by (rule insert_document_inv [OF inv N' r ids]) blast
qed

lemma engine_insert_rel:
  assumes rel: "engine_rel K en sts" and ok: "op_ok (doc_op d)" "d = (node, tf, dl, emb, ts)" and n: "0 < length sts"
    and K: "K + op_pages (doc_op d) + 1 < 2 ^ 32" and docs: "\<forall>st \<in> set sts. length (ds_docs st) \<le> max_possible_postings"
  shows "\<exists>en'. engine_insert_document en node tf dl emb ts = Some (0, en') \<and> en' = en\<lparr>en_shards := en_shards en'\<rparr> \<and>
    engine_rel (K + op_pages (doc_op d)) en' (map (\<lambda>i. routed_store (length sts) [d] i (sts ! i)) [0..<length sts])"
proof -
  let ?n = "length sts" and ?op = "doc_op d"
  let ?i = "shard_of_node ?n node"
  have len: "length (en_shards en) = ?n" by (rule engine_rel_length [OF rel])
  have i: "?i < ?n" using n by (rule shard_of_node_less)
  obtain N P B where st: "store_rel N P B (sts ! ?i) (en_shards en ! ?i)" "N \<le> K" using engine_rel_shard [OF rel i] by blast
  have pre: "N + op_pages ?op + 1 < 2 ^ 32" "length (ds_docs (sts ! ?i)) \<le> max_possible_postings" using K st(2) docs i by simp_all
  obtain sh' N' P' B' where run: "run_op ?op (en_shards en ! ?i) = Some sh'" "store_rel N' P' B' (spec_op ?op (sts ! ?i)) sh'"
    "N' \<le> N + op_pages ?op"
    using run_op_refines [OF st(1) ok(1) pre] by blast
  have op: "op_ok ?op" "?op = InsertDoc node tf dl emb ts" using ok by simp_all
  have "shard_insert_document (en_shards en ! ?i) node tf dl emb ts = Some (0, sh')"
    using insert_succeeds [OF st(1) op pre] run(1) ok(2) by auto
  then have ins: "engine_insert_document en node tf dl emb ts = Some (0, en\<lparr>en_shards := (en_shards en)[?i := sh']\<rparr>)"
    by (simp add: engine_insert_document_def len Let_def)
  have shard: "\<exists>N P B. store_rel N P B (routed_store ?n [d] j (sts ! j)) ((en_shards en)[?i := sh'] ! j) \<and> N \<le> K + op_pages ?op"
    if j: "j < ?n" for j
  proof (cases "j = ?i")
    case True
    then show ?thesis using run(2,3) st(2) i len ok(2) by (auto simp: routed_store_def routed_def intro!: exI [of _ N'])
  next
    case False
    obtain N P B where "store_rel N P B (sts ! j) (en_shards en ! j)" "N \<le> K" using engine_rel_shard [OF rel j] by blast
    then show ?thesis using False ok(2) by (auto simp: routed_store_def routed_def intro!: exI [of _ N])
  qed
  have "engine_rel (K + op_pages ?op) (en\<lparr>en_shards := (en_shards en)[?i := sh']\<rparr>)
      (map (\<lambda>j. routed_store ?n [d] j (sts ! j)) [0..<?n])"
    unfolding engine_rel_def list_all2_conv_all_nth
    using shard engine_insert_numbered [OF ins] rel by (simp add: len engine_rel_def)
  then show ?thesis using ins by (intro exI [of _ "en\<lparr>en_shards := (en_shards en)[?i := sh']\<rparr>"]) simp
qed

lemma engine_insert_all_rel:
  assumes "engine_rel K en sts" "\<forall>d \<in> set docs. op_ok (doc_op d)" "0 < length sts"
    and "K + sum_list (map (\<lambda>d. op_pages (doc_op d)) docs) + 1 < 2 ^ 32"
    and "\<forall>i < length sts. length (ds_docs (sts ! i)) + length (routed (length sts) i docs) \<le> max_possible_postings"
  shows "\<exists>en' K'. engine_insert_all docs en = Some en' \<and> en' = en\<lparr>en_shards := en_shards en'\<rparr> \<and>
    engine_rel K' en' (map (\<lambda>i. routed_store (length sts) docs i (sts ! i)) [0..<length sts]) \<and>
    K' \<le> K + sum_list (map (\<lambda>d. op_pages (doc_op d)) docs)"
  using assms
proof (induction docs arbitrary: K en sts)
  case Nil
  then show ?case by (auto simp: routed_store_def routed_def map_nth)
next
  case (Cons d docs)
  obtain node tf dl emb ts where d: "d = (node, tf, dl, emb, ts)" by (cases d)
  let ?n = "length sts"
  define sts1 where "sts1 = map (\<lambda>i. routed_store ?n [d] i (sts ! i)) [0..<?n]"
  have n1: "length sts1 = ?n" by (simp add: sts1_def)
  have split: "length (routed ?n i (d # docs)) = length (routed ?n i [d]) + length (routed ?n i docs)" for i
    by (simp add: routed_def)
  have ok: "op_ok (doc_op d)" "K + op_pages (doc_op d) + 1 < 2 ^ 32" using Cons.prems(2,4) by simp_all
  have docs: "\<forall>st \<in> set sts. length (ds_docs st) \<le> max_possible_postings"
    using Cons.prems(5) by (metis add_leD1 in_set_conv_nth)
  obtain en1 where e1: "engine_insert_document en node tf dl emb ts = Some (0, en1)" "en1 = en\<lparr>en_shards := en_shards en1\<rparr>"
    "engine_rel (K + op_pages (doc_op d)) en1 sts1"
    using engine_insert_rel [OF Cons.prems(1) ok(1) d Cons.prems(3) ok(2) docs] unfolding sts1_def by blast
  have "\<forall>i < length sts1. length (ds_docs (sts1 ! i)) + length (routed (length sts1) i docs) \<le> max_possible_postings"
    using Cons.prems(5) split by (simp add: sts1_def length_routed_store add.assoc)
  moreover have "\<forall>d \<in> set docs. op_ok (doc_op d)" "0 < length sts1" using Cons.prems(2,3) n1 by simp_all
  moreover have "K + op_pages (doc_op d) + sum_list (map (\<lambda>d. op_pages (doc_op d)) docs) + 1 < 2 ^ 32" using Cons.prems(4) by simp
  ultimately obtain en2 K2 where e2: "engine_insert_all docs en1 = Some en2" "en2 = en1\<lparr>en_shards := en_shards en2\<rparr>"
    "engine_rel K2 en2 (map (\<lambda>i. routed_store (length sts1) docs i (sts1 ! i)) [0..<length sts1])"
    "K2 \<le> K + op_pages (doc_op d) + sum_list (map (\<lambda>d. op_pages (doc_op d)) docs)"
    using Cons.IH [OF e1(3)] by blast
  have eq: "map (\<lambda>i. routed_store (length sts1) docs i (sts1 ! i)) [0..<length sts1] =
      map (\<lambda>i. routed_store ?n (d # docs) i (sts ! i)) [0..<?n]"
    by (simp add: n1) (simp add: sts1_def routed_store_def routed_def)
  have run: "engine_insert_all (d # docs) en = Some en2" using e1(1) e2(1) d by simp
  have upd: "en2 = en\<lparr>en_shards := en_shards en2\<rparr>"
    by (subst e2(2), subst e1(2)) simp
  have "K2 \<le> K + sum_list (map (\<lambda>d. op_pages (doc_op d)) (d # docs))" using e2(4) by simp
  then show ?case using run upd e2(3) [unfolded eq] by blast
qed

section \<open>Which documents match\<close>

text \<open>The nodes of the inserted documents with a query term (no terms, or term 0, stand for all
  documents) and a positive score.\<close>

fun doc_matches :: "u32 list \<Rightarrow> (u32 list \<Rightarrow> u32 list \<Rightarrow> double) \<Rightarrow> engine_doc \<Rightarrow> bool" where
  "doc_matches terms score (node, tf, dl, emb, ts) \<longleftrightarrow>
     (terms = [] \<or> 0 \<in> set terms \<or> set ts \<inter> set terms \<noteq> {}) \<and> dlt (Fin 0) (score tf dl)"

definition matches :: "u32 list \<Rightarrow> (u32 list \<Rightarrow> u32 list \<Rightarrow> double) \<Rightarrow> engine_doc list \<Rightarrow> byte list set" where
  "matches terms score docs = fst ` {d \<in> set docs. doc_matches terms score d}"

definition doc_fields :: "UnifiedDocRecord \<times> u32 list \<Rightarrow> engine_doc" where
  "doc_fields d = (rc_node_id (fst d), rc_term_frequencies (fst d), rc_document_lengths (fst d),
     rc_embedding (fst d), snd d)"

lemma docs_of_inserts:
  "map doc_fields (ds_docs (fold spec_op (map doc_op ds) st)) = map doc_fields (ds_docs st) @ ds"
  by (induction ds arbitrary: st) (auto simp: doc_fields_def)

lemma inserts_not_deleted: "ds_deleted (fold spec_op (map doc_op ds) st) = ds_deleted st"
  by (induction ds arbitrary: st) auto

lemma in_hit_nodes:
  assumes "ds_deleted st = []"
  shows "hit_nodes score (live_docs_with t st) =
    (\<lambda>d. rc_node_id (fst d)) ` {d \<in> set (ds_docs st). (t = 0 \<or> t \<in> set (snd d)) \<and> dlt (Fin 0) (score (fst d))}"
proof -
  have "set (live_docs_with t st) = fst ` {d \<in> set (ds_docs st). t = 0 \<or> t \<in> set (snd d)}"
    using assms by (simp add: live_docs_with_def docs_with_def tombstoned_def split_beta)
  then show ?thesis by (auto simp: hit_nodes_def)
qed

lemma matching_nodes_inserts:
  fixes score :: "u32 list \<Rightarrow> u32 list \<Rightarrow> double"
  shows "matching_nodes (\<lambda>r. score (rc_term_frequencies r) (rc_document_lengths r)) (if terms = [] then [0] else terms)
    (fold spec_op (map doc_op ds) no_docs) = matches terms score ds"
proof -
  let ?st = "fold spec_op (map doc_op ds) no_docs" and ?terms = "if terms = [] then [0] else terms"
  have none: "ds_deleted ?st = []" by (simp add: inserts_not_deleted)
  have docs: "set ds = doc_fields ` set (ds_docs ?st)"
    using arg_cong [OF docs_of_inserts [of ds no_docs], of set] by simp
  have match: "doc_matches terms score (doc_fields d) \<longleftrightarrow> (\<exists>t \<in> set ?terms. t = 0 \<or> t \<in> set (snd d)) \<and>
      dlt (Fin 0) (score (rc_term_frequencies (fst d)) (rc_document_lengths (fst d)))" for d
    by (auto simp: doc_fields_def)
  have "matching_nodes (\<lambda>r. score (rc_term_frequencies r) (rc_document_lengths r)) ?terms ?st =
      (\<lambda>d. rc_node_id (fst d)) ` {d \<in> set (ds_docs ?st). (\<exists>t \<in> set ?terms. t = 0 \<or> t \<in> set (snd d)) \<and>
        dlt (Fin 0) (score (rc_term_frequencies (fst d)) (rc_document_lengths (fst d)))}"
    unfolding matching_nodes_def in_hit_nodes [OF none] by blast
  also have "\<dots> = fst ` doc_fields ` {d \<in> set (ds_docs ?st). doc_matches terms score (doc_fields d)}"
    unfolding match image_image by (simp add: doc_fields_def)
  also have "doc_fields ` {d \<in> set (ds_docs ?st). doc_matches terms score (doc_fields d)} = {d \<in> set ds. doc_matches terms score d}"
    unfolding docs by blast
  finally show ?thesis by (simp add: matches_def)
qed

lemma matches_routed:
  assumes "0 < n"
  shows "(\<Union>i \<in> {..<n}. matches terms score (routed n i docs)) = matches terms score docs"
proof -
  have "{d \<in> set docs. doc_matches terms score d} =
      (\<Union>i \<in> {..<n}. {d \<in> set (routed n i docs). doc_matches terms score d})"
    using shard_of_node_less [OF assms] by (auto simp: routed_def)
  then show ?thesis by (simp only: matches_def image_UN)
qed

text \<open>With the parameters of a new engine the score condition is that a term occurs in some field.\<close>

fun found_by :: "u32 list \<Rightarrow> engine_doc \<Rightarrow> bool" where
  "found_by terms (node, tf, dl, emb, ts) \<longleftrightarrow>
     (terms = [] \<or> 0 \<in> set terms \<or> set ts \<inter> set terms \<noteq> {}) \<and> (\<exists>i < 4. 0 < tf ! i)"

lemma matches_new_parameters:
  assumes "new_parameters en"
  shows "matches terms (\<lambda>tf dl. compute_bm25f_score tf dl (en_global_avgdl en) (en_field_weights en) (Fin 1) (en_k1 en) (en_b en))
    docs = fst ` {d \<in> set docs. found_by terms d}"
proof -
  have "doc_matches terms (\<lambda>tf dl. compute_bm25f_score tf dl new_avgdl new_weights (Fin 1) new_k1 new_b) d = found_by terms d" for d
    using new_score_positive by (cases d) simp
  then show ?thesis using assms by (simp add: matches_def new_parameters_def)
qed

end
