(* ===== verification/ShardProperties.thy ===== *)
theory ShardProperties
  imports ShardStore
begin

text \<open>
  The properties of a shard as a whole: the document store it refines, the invariant behind
  it, the posting lists of its index and what its two kinds of search score.
\<close>

section \<open>A concrete shard\<close>

text \<open>Empty files that open, and three operations on a document with two terms.\<close>

definition empty_disk :: Disk where
  "empty_disk =
     \<lparr>dk_data = (\<lambda>_. \<lparr>df_bytes = (\<lambda>_. 0), df_size = 0, df_plan = []\<rparr>), dk_data_fd = (\<lambda>_. 3), dk_wal = (\<lambda>_. []),
      dk_wal_fd = (\<lambda>_. 4), dk_wal_plan = (\<lambda>_. []), dk_meta = (\<lambda>_. None), dk_meta_fd = (\<lambda>_. 5),
      dk_meta_plan = (\<lambda>_. []), dk_calloc = True\<rparr>"

lemma empty_disk_files: "empty_files i base empty_disk"
  by (simp add: empty_files_def empty_disk_def Let_def)

abbreviation sample_op :: shard_op where
  "sample_op \<equiv> InsertDoc (replicate 16 1) [1, 0, 0, 0] [5, 0, 0, 0] (replicate EMBEDDING_DIM 0) [9, 7, 9]"

definition sample_record :: "u32 \<Rightarrow> UnifiedDocRecord" where
  "sample_record d = \<lparr>rc_node_id = replicate 16 1, rc_term_frequencies = [1, 0, 0, 0],
     rc_document_lengths = [5, 0, 0, 0], rc_embedding = replicate EMBEDDING_DIM 0, rc_doc_id = d\<rparr>"

lemma fresh_shard_inv:
  obtains sh P where "shard_init 0 ''db'' 1024 empty_disk = Opened sh" "shard_inv 3 P (\<lambda>_. []) {0} {2} sh"
    "us_next_doc_id sh = 0"
  by (rule shard_init_fresh [OF empty_disk_files, of 1024 0 "''db''"]) auto

section \<open>Properties\<close>

text \<open>C4: A shard opened on empty files is a document store. Every sequence of insertions,
  deletions and indexed searches (page ids and the search's limit of a million postings
  permitting) runs to its end; then the indexed search on a term returns the sorted best
  results of scoring each inserted document that has the term and no tombstone exactly once,
  and term 0 stands for all documents. Evictions, splits of tree leaves, full posting pages and
  full data pages are covered. No I/O request on the shard's files fails.\<close>

theorem shard_is_a_document_store:
  assumes "empty_files shard_id base_path disk" "4 \<le> unat n" "unat n < 2 ^ 31"
    and "\<forall>op \<in> set ops. op_ok op" "sum_list (map op_pages ops) + 4 < 2 ^ 32" "op_count ops \<le> 1000000"
  shows "\<exists>sh sh'. shard_init shard_id base_path n disk = Opened sh \<and> run_ops ops sh = Some sh' \<and>
    us_total_docs sh' = of_nat (op_count ops) \<and>
    (\<forall>t idf avgdl weights k1 b m. \<exists>results sh''.
       shard_search_bm25f_indexed True sh' t idf avgdl weights k1 b m = Some (results, sh'') \<and>
       scores_docs results (consider_bm25f idf avgdl weights k1 b m) (live_docs_with t (fold spec_op ops no_docs)))"
proof -
  obtain sh P where sh: "shard_init shard_id base_path n disk = Opened sh" "store_rel 3 P (\<lambda>_. []) no_docs sh"
    by (rule fresh_store_rel [OF assms(1-3)])
  have bounds: "3 + sum_list (map op_pages ops) + 1 < 2 ^ 32" "length (ds_docs no_docs) + op_count ops \<le> 1000000"
    using assms(5,6) by simp_all
  obtain sh' N P' B where run: "run_ops ops sh = Some sh'" "store_rel N P' B (fold spec_op ops no_docs) sh'"
    using run_ops_refines [OF sh(2) assms(4) bounds] by blast
  have count: "length (ds_docs (fold spec_op ops no_docs)) = op_count ops" using docs_fold_op [of ops no_docs] by simp
  then have "us_total_docs sh' = of_nat (op_count ops)" using run(2) by (simp add: store_rel_def)
  moreover have "\<exists>results sh''. shard_search_bm25f_indexed True sh' t idf avgdl weights k1 b m = Some (results, sh'') \<and>
      scores_docs results (consider_bm25f idf avgdl weights k1 b m) (live_docs_with t (fold spec_op ops no_docs))"
    for t idf avgdl weights k1 b m
    using search_refines [OF run(2), of t idf avgdl weights k1 b m] count assms(6) by auto
  ultimately show ?thesis using sh(1) run(1) by blast
qed

theorem shard_is_a_document_store_witness:
  "\<exists>sh sh' results sh''. shard_init 0 ''db'' 1024 empty_disk = Opened sh \<and>
    run_ops [sample_op, sample_op, DeleteDoc 0] sh = Some sh' \<and> us_total_docs sh' = 2 \<and>
    shard_search_bm25f_indexed True sh' 7 (Fin 1) (replicate 4 (Fin 10)) (replicate 4 (Fin 1)) (Fin 1) (Fin 1) 5 = Some (results, sh'') \<and>
    scores_docs results (consider_bm25f (Fin 1) (replicate 4 (Fin 10)) (replicate 4 (Fin 1)) (Fin 1) (Fin 1) 5) [sample_record 1]"
proof -
  let ?ops = "[sample_op, sample_op, DeleteDoc 0]"
  have live: "live_docs_with 7 (fold spec_op ?ops no_docs) = [sample_record 1]"
    by (simp add: live_docs_with_def docs_with_def tombstoned_def tombstone_fits_def tombstone_slot_def sample_record_def)
  obtain sh sh' where "shard_init 0 ''db'' 1024 empty_disk = Opened sh" "run_ops ?ops sh = Some sh'"
    "us_total_docs sh' = of_nat (op_count ?ops)"
    "\<forall>t idf avgdl weights k1 b m. \<exists>results sh''.
       shard_search_bm25f_indexed True sh' t idf avgdl weights k1 b m = Some (results, sh'') \<and>
       scores_docs results (consider_bm25f idf avgdl weights k1 b m) (live_docs_with t (fold spec_op ?ops no_docs))"
    using shard_is_a_document_store [OF empty_disk_files, of 1024 ?ops 0 "''db''"] by (auto simp: op_count_def)
  then show ?thesis unfolding live [symmetric] by (fastforce simp: op_count_def)
qed

text \<open>C9: shard_insert_document keeps the shard's pages consistent: the posting pages, the tree
  and the data pages stay disjoint and, with the tombstones, make up all allocated pages, every posting leads to the stored record of its document,
  document ids stay below the next one. The new record can be read back field by field at the
  page and slot it was given; no earlier record moves; each term of the document (and term 0)
  gets exactly one posting for it, at the end of its list, and no other term gets one. The
  pool's I/O requests succeed.\<close>

theorem insert_keeps_shard_consistent:
  assumes "shard_inv N P B G D sh" "N + 2 * length ts + 4 < 2 ^ 32" "unat (us_next_doc_id sh) + 1 < 2 ^ 32"
    and "length node_id = 16" "length tf = 4" "length dl = 4" "length emb = EMBEDDING_DIM"
  shows "\<exists>sh' N' P' B' G' D' q slot. shard_insert_document sh node_id tf dl emb ts = Some (0, sh') \<and>
    shard_inv N' P' B' G' D' sh' \<and> us_next_doc_id sh' = us_next_doc_id sh + 1 \<and>
    record_at (P' q) slot = Some \<lparr>rc_node_id = node_id, rc_term_frequencies = tf, rc_document_lengths = dl,
      rc_embedding = emb, rc_doc_id = us_next_doc_id sh\<rparr> \<and>
    (\<forall>q' \<in> D. \<forall>s r. record_at (P q') s = Some r \<longrightarrow> record_at (P' q') s = Some r) \<and>
    (\<forall>t. block_keys (B' t) = block_keys (B t) @ (if t = 0 \<or> t \<in> set ts then [(us_next_doc_id sh, q, slot)] else []))"
proof -
  have r: "record_wf (inserted_record sh node_id tf dl emb)"
    using assms(4-7) by (simp add: record_wf_def inserted_record_def)
  show ?thesis
    by (rule insert_document_inv [OF assms(1,2) r assms(3)]) (unfold inserted_record_def, blast)
qed

theorem insert_keeps_shard_consistent_witness:
  "\<exists>sh sh' N' P' B' G' D' q slot. shard_init 0 ''db'' 1024 empty_disk = Opened sh \<and>
    shard_insert_document sh (replicate 16 1) [1, 0, 0, 0] [5, 0, 0, 0] (replicate EMBEDDING_DIM 0) [9, 7, 9] = Some (0, sh') \<and>
    shard_inv N' P' B' G' D' sh' \<and> record_at (P' q) slot = Some (sample_record 0) \<and>
    block_keys (B' 9) = [(0, q, slot)] \<and> block_keys (B' 8) = []"
proof -
  obtain sh P where sh: "shard_init 0 ''db'' 1024 empty_disk = Opened sh" "shard_inv 3 P (\<lambda>_. []) {0} {2} sh"
    "us_next_doc_id sh = 0"
    by (rule fresh_shard_inv)
  obtain sh' N' P' B' G' D' q slot where s: "shard_insert_document sh (replicate 16 1) [1, 0, 0, 0] [5, 0, 0, 0]
      (replicate EMBEDDING_DIM 0) [9, 7, 9] = Some (0, sh')" "shard_inv N' P' B' G' D' sh'"
    "record_at (P' q) slot = Some (sample_record 0)"
    "\<forall>t. block_keys (B' t) = block_keys [] @ (if t = 0 \<or> t \<in> set [9, 7, 9] then [(0, q, slot)] else [])"
    using insert_keeps_shard_consistent [OF sh(2), of "[9, 7, 9]" "replicate 16 1" "[1, 0, 0, 0]" "[5, 0, 0, 0]" "replicate EMBEDDING_DIM 0"]
      sh(3) by (auto simp: sample_record_def)
  then show ?thesis using sh(1) s(4) [THEN spec, of 9] s(4) [THEN spec, of 8] by fastforce
qed

text \<open>C10: The inverted index refines blocks of postings. inverted_index_add_posting succeeds and
  changes the blocks of its term only: it adds the position to the newest posting when that
  belongs to the document (at most eight are kept), else appends a posting to the newest block,
  else (92 postings) starts a new block in front; it allocates at most two pages and changes no
  page outside the index. inverted_index_get_postings then returns, for every term and limit,
  the postings of the blocks in order, cut at the limit. The pool's I/O requests succeed.\<close>

theorem add_posting_refines_blocks:
  assumes "index_inv N P B G sh" "N + 2 < 2 ^ 32"
  shows "let B' = B(t := add_to_blocks doc_id page slot pos (B t)) in
    \<exists>sh' N' P' G'. inverted_index_add_posting sh t doc_id page slot pos = Some (0, sh') \<and>
    index_inv N' P' B' G' sh' \<and> N' \<le> N + 2 \<and> (\<forall>q. unat q < N \<and> q \<notin> G \<longrightarrow> q \<notin> G' \<and> P' q = P q) \<and>
    (\<forall>t' m. \<exists>out sh''. inverted_index_get_postings sh' t' m = Some (out, sh'') \<and>
       map used_positions out = take m (concat (B' t')))"
proof -
  let ?B = "B(t := add_to_blocks doc_id page slot pos (B t))"
  have inv: "index_inv N P B G sh \<and> sh = sh\<lparr>us_store := us_store sh\<rparr>" using assms(1) by simp
  obtain sh' N' P' G' where s: "inverted_index_add_posting sh t doc_id page slot pos = Some (0, sh')"
    "index_inv N' P' ?B G' sh' \<and> sh = sh'\<lparr>us_store := us_store sh\<rparr>" "N' \<le> N + 2"
    "\<forall>q. unat q < N \<and> q \<notin> G \<longrightarrow> q \<notin> G' \<and> P' q = P q"
    using index.add_inv [OF inv assms(2), where d = doc_id and page = page and slot = slot and t = t and i = pos] by blast
  have "\<exists>out sh''. inverted_index_get_postings sh' t' m = Some (out, sh'') \<and>
      map used_positions out = take m (concat (?B t'))" for t' m
    using index.get_inv [OF s(2), where t = t' and m = m] by blast
  then show ?thesis unfolding Let_def using s by blast
qed

theorem add_posting_refines_blocks_witness:
  "\<exists>sh sh' out sh''. shard_init 0 ''db'' 1024 empty_disk = Opened sh \<and>
    inverted_index_add_posting sh 9 1 2 0 5 = Some (0, sh') \<and>
    inverted_index_get_postings sh' 9 10 = Some (out, sh'') \<and> map used_positions out = [first_posting 1 2 0 5]"
proof -
  obtain sh P where sh: "shard_init 0 ''db'' 1024 empty_disk = Opened sh" "shard_inv 3 P (\<lambda>_. []) {0} {2} sh"
    by (rule fresh_shard_inv)
  have idx: "index_inv 3 P (\<lambda>_. []) {0} sh" using sh(2) by (simp add: shard_inv_def)
  obtain sh' where "inverted_index_add_posting sh 9 1 2 0 5 = Some (0, sh')"
    "\<forall>t' m. \<exists>out sh''. inverted_index_get_postings sh' t' m = Some (out, sh'') \<and>
       map used_positions out = take m (concat (((\<lambda>_. [])(9 := add_to_blocks 1 2 0 5 [])) t'))"
    using add_posting_refines_blocks [OF idx, of 9 1 2 0 5] by auto
  then show ?thesis using sh(1) by fastforce
qed

text \<open>C14: The sequential BM25F and vector searches score exactly the records of the right size in
  the pages marked as vector data whose document has no tombstone, each once, in page and slot
  order, and return them as the exchange sort orders them. The page after the last allocated
  one, which the loop also visits, adds nothing, and the searches leave every page as it was.
  The pool's I/O requests succeed.\<close>

theorem sequential_search_scores_live_records:
  assumes "shard_st N [] P sh" "2 \<le> N" "N + 1 < 2 ^ 32"
  shows "let docs = live_records N P (P (us_tombstone_page_id sh)) in
    \<exists>sh1 sh2. shard_st N [] P sh1 \<and> shard_st N [] P sh2 \<and>
    shard_search_bm25f sh t idf avgdl weights k1 b m =
      (exchange_sort sr_bm25f_score no_stamp (fold (consider_bm25f idf avgdl weights k1 b m) docs []), sh1) \<and>
    shard_search_vector sh v m = (exchange_sort sr_cosine_score no_stamp (fold (consider_cosine v m) docs []), sh2)"
proof -
  define docs where "docs = live_records N P (P (us_tombstone_page_id sh))"
  obtain b1 where "shard_scan (consider_bm25f idf avgdl weights k1 b m) sr_bm25f_score sh =
      (exchange_sort sr_bm25f_score no_stamp (fold (consider_bm25f idf avgdl weights k1 b m) docs []), with_bpm sh b1)"
    "shard_st N [] P (with_bpm sh b1)"
    unfolding docs_def by (rule shard_scan_st [OF assms(1-3)])
  moreover obtain b2 where "shard_scan (consider_cosine v m) sr_cosine_score sh =
      (exchange_sort sr_cosine_score no_stamp (fold (consider_cosine v m) docs []), with_bpm sh b2)"
    "shard_st N [] P (with_bpm sh b2)"
    unfolding docs_def by (rule shard_scan_st [OF assms(1-3)])
  ultimately show ?thesis
    unfolding shard_search_bm25f_def shard_search_vector_def Let_def docs_def [symmetric] by blast
qed

theorem sequential_search_scores_live_records_witness:
  "\<exists>sh sh1. shard_init 0 ''db'' 1024 empty_disk = Opened sh \<and>
    shard_search_bm25f sh 0 (Fin 1) (replicate 4 (Fin 10)) (replicate 4 (Fin 1)) (Fin 1) (Fin 1) 5 = ([], sh1)"
proof -
  obtain sh P where sh: "shard_init 0 ''db'' 1024 empty_disk = Opened sh" "shard_inv 3 P (\<lambda>_. []) {0} {2} sh"
    "page_records (P 2) = []"
    by (rule shard_init_fresh [OF empty_disk_files, of 1024 0 "''db''"]) auto
  have "live_records 3 P (tombstones_of P sh) = []" by (simp add: live_records_def sh(3) upt_rec [of 2 3])
  then show ?thesis
    using sequential_search_scores_live_records [OF shard_inv_shard_st [OF sh(2)],
        of 0 "Fin 1" "replicate 4 (Fin 10)" "replicate 4 (Fin 1)" "Fin 1" "Fin 1" 5 "[]"] sh(1)
    by (auto simp: exchange_sort_def)
qed

end
