(* ===== verification/EngineProperties.thy ===== *)
theory EngineProperties
  imports EngineStore ShardProperties
begin

text \<open>
  The engine end to end: what a text query over all shards returns, first for any documents and
  deletions the shards hold, then for documents inserted into an engine opened on empty files.
\<close>

section \<open>Counting the routed documents\<close>

lemma routed_total: "0 < n \<Longrightarrow> sum_list (map (\<lambda>i. length (routed n i docs)) [0..<n]) = length docs"
proof (induction docs)
  case Nil
  then show ?case by (simp add: routed_def sum_list_triv)
next
  case (Cons d docs)
  have s: "shard_of_node n (fst d) < n" using Cons.prems by (rule shard_of_node_less)
  have "length (routed n i (d # docs)) = (if i = shard_of_node n (fst d) then 1 else 0) + length (routed n i docs)" for i
    by (simp add: routed_def)
  then have "sum_list (map (\<lambda>i. length (routed n i (d # docs))) [0..<n]) =
      sum_list (map (\<lambda>i. if i = shard_of_node n (fst d) then 1 else 0) [0..<n]) + length docs"
    using Cons by (simp add: sum_list_addf)
  also have "sum_list (map (\<lambda>i. if i = shard_of_node n (fst d) then 1 else 0) [0..<n]) = (1 :: nat)"
    using s by (simp add: interv_sum_list_conv_sum_set_nat)
  finally show ?case by simp
qed

section \<open>Opening, inserting and searching\<close>

text \<open>A search of an engine whose shards hold the routed documents finds those that match.\<close>

abbreviation engine_score :: "UnifiedEngine \<Rightarrow> u32 list \<Rightarrow> u32 list \<Rightarrow> double" where
  "engine_score en \<equiv> \<lambda>tf dl. compute_bm25f_score tf dl (en_global_avgdl en) (en_field_weights en) (Fin 1) (en_k1 en) (en_b en)"

lemma search_inserted:
  assumes rel: "engine_rel K en (map (\<lambda>i. routed_store n docs i no_docs) [0..<n])" and n: "0 < n"
    and sizes: "\<forall>i < n. length (routed n i docs) \<le> MAX_RESULTS_PER_SHARD" "length docs \<le> max_results"
    and order: "distinct order" "set order = {..<n}" and q: "plain_text_query query" and loop: "has_loop \<or> loop_ok"
  obtains results en' where
    "engine_search_async qsort order True loop_ok has_loop en query max_results = Some (results, en', True)"
    "descending sr_bm25f_score results" "nodes_of results = matches (q_term_ids query) (engine_score en) docs"
proof -
  let ?sts = "map (\<lambda>i. routed_store n docs i no_docs) [0..<n]"
  let ?score = "doc_score (en_global_avgdl en) (en_field_weights en) (en_k1 en) (en_b en)"
  have small: "\<forall>st \<in> set ?sts. length (ds_docs st) \<le> 64" using sizes(1) by (auto simp: length_routed_store)
  have "sum_list (map (\<lambda>st. length (ds_docs st)) ?sts) = length docs"
    using routed_total [OF n, of docs] by (simp add: length_routed_store comp_def)
  then have total: "sum_list (map (\<lambda>st. length (ds_docs st)) ?sts) \<le> max_results" using sizes(2) by simp
  have order': "set order = {..<length ?sts}" using order(2) by simp
  obtain results en' where r: "engine_search_async qsort order True loop_ok has_loop en query max_results = Some (results, en', True)"
    "descending sr_bm25f_score results" "nodes_of results = (\<Union>st \<in> set ?sts. matching_nodes ?score (query_terms query) st)"
    using engine_text_search [OF rel small order(1) order' q total loop, of qsort] by blast
  have "matching_nodes ?score (query_terms query) (routed_store n docs i no_docs) =
      matches (q_term_ids query) (engine_score en) (routed n i docs)" for i
    using matching_nodes_inserts [of "engine_score en" "q_term_ids query" "routed n i docs"]
    by (simp add: routed_store_def query_terms_def doc_score_def [abs_def])
  moreover have "(\<Union>st \<in> set (map g [0..<m]). h st) = (\<Union>i \<in> {..<m}. h (g i))" for g m and h :: "doc_store \<Rightarrow> byte list set"
    by auto
  ultimately have "nodes_of results = (\<Union>i \<in> {..<n}. matches (q_term_ids query) (engine_score en) (routed n i docs))"
    unfolding r(3) by (simp only:)
  then show ?thesis using that r(1,2) unfolding matches_routed [OF n] by blast
qed

text \<open>Inserting into an engine opened on empty files.\<close>

lemma open_and_insert:
  assumes "\<forall>i < unat num. empty_files (of_nat i) base disk" "0 < unat num" "unat ram \<le> 2 ^ 20"
    and "\<forall>d \<in> set docs. op_ok (doc_op d)" "sum_list (map (\<lambda>d. op_pages (doc_op d)) docs) + 4 < 2 ^ 32"
    and "\<forall>i < unat num. length (routed (unat num) i docs) \<le> MAX_RESULTS_PER_SHARD"
  obtains en en' K where "engine_init base num ram disk = Some (0, en)" "new_parameters en"
    "engine_insert_all docs en = Some en'" "en' = en\<lparr>en_shards := en_shards en'\<rparr>"
    "engine_rel K en' (map (\<lambda>i. routed_store (unat num) docs i no_docs) [0..<unat num])"
    "K \<le> 3 + sum_list (map (\<lambda>d. op_pages (doc_op d)) docs)"
proof -
  let ?n = "unat num"
  obtain en where en: "engine_init base num ram disk = Some (0, en)" "engine_rel 3 en (replicate ?n no_docs)" "new_parameters en"
    by (rule engine_init_fresh [OF assms(1-3)])
  have bounds: "3 + sum_list (map (\<lambda>d. op_pages (doc_op d)) docs) + 1 < 2 ^ 32" using assms(5) by simp
  have sts: "map (\<lambda>i. routed_store ?n docs i (replicate ?n no_docs ! i)) [0..<?n] =
      map (\<lambda>i. routed_store ?n docs i no_docs) [0..<?n]" by simp
  show ?thesis
    using engine_insert_all_rel [OF en(2) assms(4) _ bounds] assms(2,6) en(1,3) that
    unfolding length_replicate sts by fastforce
qed


lemma documents_found:
  assumes "\<forall>i < unat num_shards. empty_files (of_nat i) base_path disk"
    and "0 < unat num_shards" "unat num_shards \<le> MAX_SHARDS" "unat max_ram_mb \<le> 2 ^ 20"
    and "\<forall>d \<in> set docs. op_ok (doc_op d)" "sum_list (map (\<lambda>d. op_pages (doc_op d)) docs) + 4 < 2 ^ 32"
    and "\<forall>i < unat num_shards. length (routed (unat num_shards) i docs) \<le> MAX_RESULTS_PER_SHARD" "length docs \<le> max_results"
    and "distinct order" "set order = {..<unat num_shards}" "plain_text_query query" "has_loop \<or> loop_ok"
  shows "\<exists>en en' results en''. engine_init base_path num_shards max_ram_mb disk = Some (0, en) \<and>
    engine_insert_all docs en = Some en' \<and>
    engine_search_async qsort order True loop_ok has_loop en' query max_results = Some (results, en'', True) \<and>
    descending sr_bm25f_score results \<and>
    sr_node_id ` set results = fst ` {d \<in> set docs. found_by (q_term_ids query) d}"
proof -
  obtain en en' K where en: "engine_init base_path num_shards max_ram_mb disk = Some (0, en)" "new_parameters en"
    "engine_insert_all docs en = Some en'" "en' = en\<lparr>en_shards := en_shards en'\<rparr>"
    "engine_rel K en' (map (\<lambda>i. routed_store (unat num_shards) docs i no_docs) [0..<unat num_shards])"
    by (rule open_and_insert [OF assms(1,2,4-7)])
  have new: "new_parameters en'" using en(2) by (subst en(4)) (simp add: new_parameters_def)
  obtain results en'' where
    "engine_search_async qsort order True loop_ok has_loop en' query max_results = Some (results, en'', True)"
    "descending sr_bm25f_score results" "nodes_of results = matches (q_term_ids query) (engine_score en') docs"
    by (rule search_inserted [OF en(5) assms(2,7,8,9,10,11,12)])
  then show ?thesis using en(1,3) matches_new_parameters [OF new] by (intro exI conjI) auto
qed

section \<open>Example documents\<close>

text \<open>Two documents, of which the second lacks term 7, and a query for that term.\<close>

definition sample_docs :: "engine_doc list" where
  "sample_docs =
     [(replicate 16 1, [1, 0, 0, 0], [5, 0, 0, 0], replicate EMBEDDING_DIM 0, [9, 7]),
      (replicate 16 2, [1, 0, 0, 0], [5, 0, 0, 0], replicate EMBEDDING_DIM 0, [9])]"

definition sample_query :: UnifiedQuery where
  "sample_query = \<lparr>q_search_term = ''pecorino'', q_term_ids = [7], q_is_phrase = False, q_query_embedding = [],
     q_use_text = True, q_use_vector = False, q_top_k = 10\<rparr>"

text \<open>An engine over given shards, with the parameters of a new one.\<close>

definition sample_engine :: "UnifiedShard list \<Rightarrow> UnifiedEngine" where
  "sample_engine shards =
     \<lparr>en_shards = shards, en_base_path = ''db'', en_global_total_docs = 0, en_global_avgdl = new_avgdl,
      en_field_weights = new_weights, en_k1 = new_k1, en_b = new_b\<rparr>"

lemma sample_query_plain: "plain_text_query sample_query"
  by (simp add: plain_text_query_def sample_query_def)

lemma sample_frequencies: "\<exists>i < 4. (0 :: u32) < [1, 0, 0, 0] ! i"
  by (rule exI [of _ 0]) simp

lemma sample_docs_ok: "\<forall>d \<in> set sample_docs. op_ok (doc_op d)"
  by (simp add: sample_docs_def)

lemma length_routed_le: "length (routed n i docs) \<le> length docs"
  by (simp add: routed_def)

lemma matching_nodes_set:
  "(\<Union>st \<in> set sts. matching_nodes f ts st) =
    {rc_node_id d | d st t. st \<in> set sts \<and> t \<in> set ts \<and> d \<in> set (live_docs_with t st) \<and> dlt (Fin 0) (f d)}"
  by (auto simp: matching_nodes_def hit_nodes_def)

section \<open>Properties\<close>

text \<open>C5: The asynchronous text search is complete and sound over all shards. For an engine whose
  shards hold at most 64 documents each (more would be cut by the bounded result arrays), with
  any deletions, and in whatever order the thread pool runs the work items, the search for a list
  of words returns, sorted by falling score, exactly the nodes of the documents that are not
  deleted, contain a query term and have a positive BM25F score; the documents stay as they
  are.\<close>

theorem text_search_finds_live_matches:
  assumes "engine_rel K en sts" "length sts \<le> MAX_SHARDS" "\<forall>st \<in> set sts. length (ds_docs st) \<le> MAX_RESULTS_PER_SHARD"
    and "distinct order" "set order = {..<length sts}" "plain_text_query query" "has_loop \<or> loop_ok"
    and "sum_list (map (\<lambda>st. length (ds_docs st)) sts) \<le> max_results"
  shows "\<exists>results en'. engine_search_async qsort order True loop_ok has_loop en query max_results = Some (results, en', True) \<and>
    engine_rel K en' sts \<and> descending sr_bm25f_score results \<and>
    sr_node_id ` set results = {rc_node_id d | d st t. st \<in> set sts \<and> t \<in> set (query_terms query) \<and>
      d \<in> set (live_docs_with t st) \<and>
      dlt (Fin 0) (compute_bm25f_score (rc_term_frequencies d) (rc_document_lengths d) (en_global_avgdl en)
        (en_field_weights en) (Fin 1) (en_k1 en) (en_b en))}"
proof -
  obtain results en' where r: "engine_search_async qsort order True loop_ok has_loop en query max_results = Some (results, en', True)"
    "engine_rel K en' sts" "descending sr_bm25f_score results"
    "nodes_of results = (\<Union>st \<in> set sts. matching_nodes
       (doc_score (en_global_avgdl en) (en_field_weights en) (en_k1 en) (en_b en)) (query_terms query) st)"
    using engine_text_search [OF assms(1,3-6) assms(8,7), of qsort] by blast
  show ?thesis
    by (intro exI conjI) (rule r(1), rule r(2), rule r(3), rule r(4) [unfolded matching_nodes_set doc_score_def])
qed

theorem text_search_finds_live_matches_witness:
  "\<exists>sh sh' results en'. shard_init 0 ''db'' 1024 empty_disk = Opened sh \<and>
    run_ops [sample_op, sample_op, DeleteDoc 0] sh = Some sh' \<and>
    engine_search_async (\<lambda>cmp xs. xs) [0] True True False (sample_engine [sh']) sample_query 10 = Some (results, en', True) \<and>
    sr_node_id ` set results = {replicate 16 1}"
proof -
  let ?ops = "[sample_op, sample_op, DeleteDoc 0]"
  define st where "st = fold spec_op ?ops no_docs"
  obtain sh P where sh: "shard_init 0 ''db'' 1024 empty_disk = Opened sh" "store_rel 3 P (\<lambda>_. []) no_docs sh"
    by (rule fresh_store_rel [OF empty_disk_files, of 1024]) auto
  obtain sh' N P' B where run: "run_ops ?ops sh = Some sh'" "store_rel N P' B st sh'"
    using run_ops_refines [OF sh(2), of ?ops] by (auto simp: op_count_def st_def simp del: fold_simps)
  have "us_shard_id sh' = 0" using number.run_ops_kept [OF run(1)] shard_init_number [OF sh(1)] by simp
  then have rel: "engine_rel N (sample_engine [sh']) [st]"
    using run(2) by (auto simp: engine_rel_def shards_numbered_def sample_engine_def)
  have size: "length (ds_docs st) = 2" using docs_fold_op [of ?ops no_docs] by (simp add: op_count_def st_def)
  have live: "live_docs_with 7 st = [sample_record 1]"
    by (simp add: st_def live_docs_with_def docs_with_def tombstoned_def tombstone_fits_def tombstone_slot_def sample_record_def)
  have small: "\<forall>st \<in> set [st]. length (ds_docs st) \<le> 64" "sum_list (map (\<lambda>st. length (ds_docs st)) [st]) \<le> 10"
    using size by simp_all
  have order: "distinct [0 :: nat]" "set [0] = {..<length [st]}" "False \<or> True" by auto
  obtain results en' where r: "engine_search_async (\<lambda>cmp xs. xs) [0] True True False (sample_engine [sh']) sample_query 10 =
      Some (results, en', True)"
    "sr_node_id ` set results = {rc_node_id d | d st' t. st' \<in> set [st] \<and> t \<in> set (query_terms sample_query) \<and>
      d \<in> set (live_docs_with t st') \<and>
      dlt (Fin 0) (compute_bm25f_score (rc_term_frequencies d) (rc_document_lengths d) (en_global_avgdl (sample_engine [sh']))
        (en_field_weights (sample_engine [sh'])) (Fin 1) (en_k1 (sample_engine [sh'])) (en_b (sample_engine [sh'])))}"
    using text_search_finds_live_matches [OF rel _ small(1) order(1,2) sample_query_plain order(3) small(2), of "\<lambda>cmp xs. xs"]
    by auto
  have "dlt (Fin 0) (compute_bm25f_score [1, 0, 0, 0] [5, 0, 0, 0] new_avgdl new_weights (Fin 1) new_k1 new_b)"
    unfolding new_score_positive by (rule sample_frequencies)
  then have "sr_node_id ` set results = {replicate 16 1}"
    unfolding r(2) by (auto simp: live query_terms_def sample_query_def sample_engine_def sample_record_def)
  then show ?thesis using sh(1) run(1) r(1) by blast
qed

text \<open>C3: Inserted documents are found. An engine opened on empty files accepts every document,
  each in the shard its node id hashes to; then, if no shard received more than 64 documents,
  a search for a list of words returns, sorted by falling score, exactly the nodes of the
  documents inserted with one of the words (or all, for no words) that have a term in some field:
  with the parameters of a new engine their computed score is positive, without over- or
  underflow, whatever their lengths. Evictions, tree splits and every order of the work items are covered. No
  I/O request and no allocation fails.\<close>

theorem engine_finds_inserted_documents:
  assumes "\<forall>i < unat num_shards. empty_files (of_nat i) base_path disk"
    and "0 < unat num_shards" "unat num_shards \<le> MAX_SHARDS" "unat max_ram_mb \<le> 2 ^ 20"
    and "\<forall>d \<in> set docs. op_ok (doc_op d)" "sum_list (map (\<lambda>d. op_pages (doc_op d)) docs) + 4 < 2 ^ 32"
    and "\<forall>i < unat num_shards. length (routed (unat num_shards) i docs) \<le> MAX_RESULTS_PER_SHARD" "length docs \<le> max_results"
    and "distinct order" "set order = {..<unat num_shards}" "plain_text_query query" "has_loop \<or> loop_ok"
  shows "\<exists>en en' results en''. engine_init base_path num_shards max_ram_mb disk = Some (0, en) \<and>
    engine_insert_all docs en = Some en' \<and>
    engine_search_async qsort order True loop_ok has_loop en' query max_results = Some (results, en'', True) \<and>
    descending sr_bm25f_score results \<and>
    sr_node_id ` set results = fst ` {d \<in> set docs. found_by (q_term_ids query) d}"
  by (rule documents_found [OF assms])

theorem engine_finds_inserted_documents_witness:
  "\<exists>en en' results en''. engine_init ''db'' 2 64 empty_disk = Some (0, en) \<and>
    engine_insert_all sample_docs en = Some en' \<and>
    engine_search_async (\<lambda>cmp xs. xs) [1, 0] True True False en' sample_query 10 = Some (results, en'', True) \<and>
    sr_node_id ` set results = {replicate 16 1}"
proof -
  have len: "\<forall>i < unat (2 :: u32). length (routed (unat (2 :: u32)) i sample_docs) \<le> 64"
    by (intro allI impI order_trans [OF length_routed_le]) (simp add: sample_docs_def)
  have order: "set [1, 0] = {..<unat (2 :: u32)}" by auto
  obtain en en' results en'' where s: "engine_init ''db'' 2 64 empty_disk = Some (0, en)" "engine_insert_all sample_docs en = Some en'"
    "engine_search_async (\<lambda>cmp xs. xs) [1, 0] True True False en' sample_query 10 = Some (results, en'', True)"
    "sr_node_id ` set results = fst ` {d \<in> set sample_docs. found_by [7] d}"
    using engine_finds_inserted_documents [of 2 "''db''" empty_disk 64 sample_docs 10 "[1, 0]" sample_query False True "\<lambda>cmp xs. xs"]
      empty_disk_files len order sample_query_plain sample_docs_ok
    by (auto simp: sample_query_def sample_docs_def)
  have "{d \<in> set sample_docs. found_by [7] d} =
      {(replicate 16 1, [1, 0, 0, 0], [5, 0, 0, 0], replicate EMBEDDING_DIM 0, [9, 7])}"
    using sample_frequencies by (auto simp: sample_docs_def)
  then have "sr_node_id ` set results = {replicate 16 1}" using s(4) by simp
  then show ?thesis using s(1-3) by blast
qed



end
