(* ===== verification/LexiconProperties.thy ===== *)
theory LexiconProperties
  imports Lexicon
begin

text \<open>
  The term dictionary counts the insertions of each term, and the tokenizer returns the
  alphanumeric words of its input in lower case.
\<close>

section \<open>The dictionary\<close>

abbreviation find_term :: "string \<Rightarrow> LexiconEntry list \<Rightarrow> LexiconEntry option" where
  "find_term t es \<equiv> find (\<lambda>e. le_term e = t) es"

text \<open>What a lookup can see of a bucket.\<close>

definition bucket_view :: "LexiconEntry list \<Rightarrow> string \<Rightarrow> (u32 \<times> u64) option" where
  "bucket_view es t = map_option (\<lambda>e. (le_term_id e, le_document_frequency e)) (find_term t es)"

lemma lookup_view: "lexicon_lookup dict t = bucket_view (lx_buckets dict (unat (lexicon_hash t))) t"
  by (simp add: lexicon_lookup_def bucket_view_def)

lemma bump_entry_none: "bump_entry t es = None \<longleftrightarrow> bucket_view es t = None"
  by (induction es) (auto simp: bucket_view_def)

lemma bump_entry_some:
  "bump_entry t es = Some (i, es') \<Longrightarrow>
    \<exists>n. bucket_view es t = Some (i, n) \<and> bucket_view es' = (bucket_view es)(t \<mapsto> (i, n + 1))"
proof (induction es arbitrary: es')
  case (Cons e es)
  show ?case
  proof (cases "le_term e = t")
    case True
    then show ?thesis using Cons.prems by (auto simp: bucket_view_def fun_eq_iff)
  next
    case False
    then obtain fs where fs: "bump_entry t es = Some (i, fs)" "es' = e # fs" using Cons.prems by auto
    obtain n where "bucket_view es t = Some (i, n)" "bucket_view fs = (bucket_view es)(t \<mapsto> (i, n + 1))"
      using Cons.IH [OF fs(1)] by blast
    then show ?thesis using False fs(2) by (auto simp: bucket_view_def fun_eq_iff)
  qed
qed simp

lemma bucket_view_Cons:
  "bucket_view (e # es) = (bucket_view es)(le_term e \<mapsto> (le_term_id e, le_document_frequency e))"
  by (auto simp: bucket_view_def fun_eq_iff)

lemma lexicon_insert_lookup:
  assumes "length t \<le> 255"
  shows "lexicon_lookup (snd (lexicon_insert True dict t)) =
    (lexicon_lookup dict)(t \<mapsto> (case lexicon_lookup dict t of None \<Rightarrow> (lexicon_term_hash32 t, 1) | Some (i, n) \<Rightarrow> (i, n + 1)))"
proof -
  let ?b = "unat (lexicon_hash t)"
  obtain es where es: "lx_buckets (snd (lexicon_insert True dict t)) = (lx_buckets dict)(?b := es)"
    and v: "bucket_view es = (bucket_view (lx_buckets dict ?b))
      (t \<mapsto> (case bucket_view (lx_buckets dict ?b) t of None \<Rightarrow> (lexicon_term_hash32 t, 1) | Some (i, n) \<Rightarrow> (i, n + 1)))"
  proof (cases "bump_entry t (lx_buckets dict ?b)")
    case None
    let ?e = "\<lparr>le_term = t, le_term_id = lexicon_term_hash32 t, le_document_frequency = 1\<rparr>"
    show ?thesis
      by (rule that [of "?e # lx_buckets dict ?b"])
        (use None assms bump_entry_none [of t "lx_buckets dict ?b"] in
          \<open>simp_all add: lexicon_insert_def bucket_view_Cons Let_def\<close>)
  next
    case (Some x)
    then obtain i es where b: "bump_entry t (lx_buckets dict ?b) = Some (i, es)" by (cases x) auto
    then show ?thesis
      using bump_entry_some [OF b] by (intro that [of es]) (auto simp: lexicon_insert_def)
  qed
  show ?thesis
  proof (rule ext)
    fix u
    show "lexicon_lookup (snd (lexicon_insert True dict t)) u = ((lexicon_lookup dict)(t \<mapsto>
        (case lexicon_lookup dict t of None \<Rightarrow> (lexicon_term_hash32 t, 1) | Some (i, n) \<Rightarrow> (i, n + 1)))) u"
      by (cases "unat (lexicon_hash u) = ?b") (auto simp: lookup_view es v)
  qed
qed

section \<open>The tokenizer\<close>

text \<open>Reference: the maximal runs of alphanumeric characters, in lower case.\<close>

function alnum_words :: "string \<Rightarrow> string list" where
  "alnum_words s =
     (case dropWhile (\<lambda>c. \<not> c_isalnum c) s of
        [] \<Rightarrow> []
      | c # cs \<Rightarrow> map c_tolower (takeWhile c_isalnum (c # cs)) # alnum_words (dropWhile c_isalnum cs))"
  by pat_completeness auto
termination
proof (relation "measure length", goal_cases)
  case (2 s c cs)
  have "length (dropWhile c_isalnum cs) \<le> length cs" by (rule length_dropWhile_le)
  also have "length cs < length (dropWhile (\<lambda>c. \<not> c_isalnum c) s)" using 2 by simp
  also have "\<dots> \<le> length s" by (rule length_dropWhile_le)
  finally show ?case by simp
qed simp

declare alnum_words.simps [simp del]

lemma alnum_words_step [simp]:
  "alnum_words [] = []"
  "\<not> c_isalnum c \<Longrightarrow> alnum_words (c # s) = alnum_words s"
  "c_isalnum c \<Longrightarrow> alnum_words (c # s) = map c_tolower (c # takeWhile c_isalnum s) # alnum_words (dropWhile c_isalnum s)"
  by (subst alnum_words.simps, simp)+

lemma tolower_nonzero: "c_isalnum c \<Longrightarrow> c_tolower c \<noteq> NUL"
proof -
  assume "c_isalnum c"
  then have "48 \<le> (of_char c :: nat)" by (auto simp: c_isalnum_def Let_def)
  moreover have "c_tolower c = char_of (of_char c + 32 :: nat) \<and> (of_char c :: nat) \<le> 90 \<or> c_tolower c = c"
    by (auto simp: c_tolower_def Let_def)
  moreover have "char_of n \<noteq> NUL" if "0 < n" "n < 256" for n :: nat
  proof
    assume "char_of n = NUL"
    then have "of_char (char_of n :: char) = (of_char NUL :: nat)" by simp
    then show False using that by simp
  qed
  ultimately show ?thesis by auto
qed

lemma normalize_nonzero: "normalize_char c \<noteq> NUL \<longleftrightarrow> c_isalnum c"
  using tolower_nonzero by (simp add: normalize_char_def)

text \<open>The runs of a buffer whose other characters are terminators.\<close>

function nul_runs :: "string \<Rightarrow> string list" where
  "nul_runs s =
     (case dropWhile (\<lambda>c. c = NUL) s of
        [] \<Rightarrow> []
      | c # cs \<Rightarrow> takeWhile (\<lambda>c. c \<noteq> NUL) (c # cs) # nul_runs (dropWhile (\<lambda>c. c \<noteq> NUL) cs))"
  by pat_completeness auto
termination
proof (relation "measure length", goal_cases)
  case (2 s c cs)
  have "length (dropWhile (\<lambda>c. c \<noteq> NUL) cs) \<le> length cs" by (rule length_dropWhile_le)
  also have "length cs < length (dropWhile (\<lambda>c. c = NUL) s)" using 2 by simp
  also have "\<dots> \<le> length s" by (rule length_dropWhile_le)
  finally show ?case by simp
qed simp

declare nul_runs.simps [simp del]

lemma nul_runs_step [simp]:
  "nul_runs [] = []"
  "nul_runs (NUL # s) = nul_runs s"
  "c \<noteq> NUL \<Longrightarrow> nul_runs (c # s) = (c # takeWhile (\<lambda>c. c \<noteq> NUL) s) # nul_runs (dropWhile (\<lambda>c. c \<noteq> NUL) s)"
  by (subst nul_runs.simps, simp)+

lemma token_scan_runs:
  "drop i buf = cs \<Longrightarrow>
    map (token_at buf) (token_scan cs i in_token cnt max_tokens) =
      take (max_tokens - cnt) (nul_runs (if in_token then dropWhile (\<lambda>c. c \<noteq> NUL) cs else cs))"
proof (induction cs i in_token cnt max_tokens rule: token_scan.induct)
  case (1 i in_token cnt max_tokens)
  then show ?case by simp
next
  case (2 c cs i in_token cnt max_tokens)
  have next': "drop (Suc i) buf = cs" using 2(4) by (metis drop_Suc list.sel(3) tl_drop)
  have tok: "token_at buf i = takeWhile (\<lambda>c. c \<noteq> NUL) (c # cs)" by (simp add: token_at_def 2(4))
  show ?case
  proof (cases "c = NUL")
    case True
    then show ?thesis using 2 next' by simp
  next
    case nz: False
    show ?thesis
    proof (cases in_token)
      case True
      then show ?thesis using nz 2 next' by simp
    next
      case False
      show ?thesis
      proof (cases "max_tokens \<le> cnt")
        case True
        then show ?thesis using nz False by simp
      next
        case room: False
        then have "max_tokens - cnt = Suc (max_tokens - Suc cnt)" by simp
        then show ?thesis using nz False room 2 next' tok by simp
      qed
    qed
  qed
qed

lemma nul_runs_normalized: "nul_runs (map normalize_char s @ [NUL]) = alnum_words s"
proof (induction s rule: alnum_words.induct)
  case (1 s)
  show ?case
  proof (cases "dropWhile (\<lambda>c. \<not> c_isalnum c) s")
    case Nil
    then have "\<forall>c \<in> set s. \<not> c_isalnum c" by (simp add: dropWhile_eq_Nil_conv)
    then have "nul_runs (map normalize_char s @ [NUL]) = []"
      by (induction s) (simp_all add: normalize_char_def)
    then show ?thesis by (subst alnum_words.simps) (simp add: Nil)
  next
    case (Cons c cs)
    then have c: "c_isalnum c" by (metis hd_dropWhile list.sel(1) list.discI)
    define us where "us = takeWhile (\<lambda>c. \<not> c_isalnum c) s"
    have s: "s = us @ c # cs" unfolding us_def using Cons takeWhile_dropWhile_id [of "\<lambda>c. \<not> c_isalnum c" s] by simp
    have us: "\<forall>c \<in> set us. \<not> c_isalnum c" by (auto simp: us_def dest: set_takeWhileD)
    have skip: "nul_runs (map normalize_char us @ r) = nul_runs r" for r
      using us by (induction us) (simp_all add: normalize_char_def)
    have skip': "alnum_words (us @ r) = alnum_words r" for r
      using us by (induction us) simp_all
    have tw: "takeWhile (\<lambda>c. c \<noteq> NUL) (map normalize_char t @ [NUL]) = map c_tolower (takeWhile c_isalnum t)"
      and dw: "dropWhile (\<lambda>c. c \<noteq> NUL) (map normalize_char t @ [NUL]) = map normalize_char (dropWhile c_isalnum t) @ [NUL]" for t
      by (induction t) (auto simp: normalize_char_def tolower_nonzero)
    have "normalize_char c \<noteq> NUL" using c normalize_nonzero by blast
    then show ?thesis
      using 1 [OF Cons] c by (simp add: s skip skip' tw dw) (simp add: normalize_char_def)
  qed
qed

lemma tokenize_words:
  assumes "0 < buf_size" "0 < max_tokens"
  obtains buf offsets where "lexicon_tokenize text buf_size max_tokens = Some (buf, offsets)" "length buf \<le> buf_size"
    "map (token_at buf) offsets = take (nat max_tokens) (alnum_words (take (buf_size - 1) text))"
proof -
  define buf where "buf = map normalize_char (take (buf_size - 1) text) @ [NUL]"
  have "lexicon_tokenize text buf_size max_tokens = Some (buf, token_scan buf 0 False 0 (nat max_tokens))"
    using assms by (simp add: lexicon_tokenize_def Let_def buf_def)
  moreover have "map (token_at buf) (token_scan buf 0 False 0 (nat max_tokens)) =
      take (nat max_tokens) (alnum_words (take (buf_size - 1) text))"
    using token_scan_runs [of 0 buf buf False 0 "nat max_tokens"] nul_runs_normalized [of "take (buf_size - 1) text"]
    by (simp add: buf_def)
  moreover have "length buf \<le> buf_size" using assms by (auto simp: buf_def min_def)
  ultimately show ?thesis using that by blast
qed

section \<open>Properties\<close>

text \<open>The dictionary after a sequence of insertions whose allocations succeed.\<close>

abbreviation lexicon_of :: "string list \<Rightarrow> Lexicon" where
  "lexicon_of ts \<equiv> fold (\<lambda>t dict. snd (lexicon_insert True dict t)) ts lexicon_init"

text \<open>C30: After any sequence of lexicon_insert calls with terms of at most 255 characters on a
  fresh dictionary, lexicon_lookup finds exactly the inserted terms; the id it returns is the
  term's FNV-1a hash and the frequency is the number of times the term was inserted, whatever
  other terms share its bucket.\<close>

theorem lexicon_counts_insertions:
  assumes "\<forall>t \<in> set ts. length t \<le> 255"
  shows "lexicon_lookup (lexicon_of ts) u =
    (if u \<in> set ts then Some (lexicon_term_hash32 u, of_nat (count_list ts u)) else None)"
  using assms
proof (induction ts arbitrary: u rule: rev_induct)
  case Nil
  then show ?case by (simp add: lexicon_lookup_def lexicon_init_def)
next
  case (snoc t ts)
  then have IH: "lexicon_lookup (lexicon_of ts) v =
      (if v \<in> set ts then Some (lexicon_term_hash32 v, of_nat (count_list ts v)) else None)" for v by simp
  have "lexicon_lookup (lexicon_of (ts @ [t])) = (lexicon_lookup (lexicon_of ts))(t \<mapsto>
      (case lexicon_lookup (lexicon_of ts) t of None \<Rightarrow> (lexicon_term_hash32 t, 1) | Some (i, n) \<Rightarrow> (i, n + 1)))"
    using snoc.prems by (simp add: lexicon_insert_lookup)
  then show ?case by (auto simp: IH count_list_0_iff)
qed

theorem lexicon_counts_insertions_witness:
  "lexicon_lookup (lexicon_of [''cat'', ''dog'', ''cat'']) ''cat'' = Some (lexicon_term_hash32 ''cat'', 2) \<and>
    lexicon_lookup (lexicon_of [''cat'', ''dog'', ''cat'']) ''cow'' = None"
  using lexicon_counts_insertions [of "[''cat'', ''dog'', ''cat'']" "''cat''"]
    lexicon_counts_insertions [of "[''cat'', ''dog'', ''cat'']" "''cow''"] by simp

text \<open>A term of more than 255 characters is stored cut to 255, so no lookup ever finds it
  again, however often it is inserted, and every insertion adds another entry.\<close>

theorem long_terms_are_never_found:
  assumes "255 < length u"
  shows "lexicon_lookup (lexicon_of ts) u = None"
proof -
  have short: "\<forall>e \<in> set (lx_buckets (lexicon_of ts) b). length (le_term e) \<le> 255" for b
  proof (induction ts arbitrary: b rule: rev_induct)
    case Nil
    then show ?case by (simp add: lexicon_init_def)
  next
    case (snoc t ts)
    have bump: "map le_term es' = map le_term es" if "bump_entry t es = Some (i, es')" for es es' i
      using that by (induction es arbitrary: es') (auto split: if_splits)
    let ?d = "lexicon_of ts" and ?b = "unat (lexicon_hash t)"
    show ?case
    proof (cases "bump_entry t (lx_buckets ?d ?b)")
      case None
      then show ?thesis using snoc by (auto simp: lexicon_insert_def Let_def)
    next
      case (Some x)
      obtain i es where x: "x = (i, es)" by (cases x)
      have "\<forall>w \<in> set (map le_term es). length w \<le> 255"
        unfolding bump [OF Some [unfolded x]] using snoc [of ?b] by simp
      then have "\<forall>e \<in> set es. length (le_term e) \<le> 255" by simp
      then show ?thesis using snoc Some x by (auto simp: lexicon_insert_def)
    qed
  qed
  show ?thesis
    using short [of "unat (lexicon_hash u)"] assms by (auto simp: lexicon_lookup_def find_None_iff)
qed

theorem long_terms_are_never_found_witness:
  "lexicon_lookup (lexicon_of [replicate 256 (CHR ''a'')]) (replicate 256 (CHR ''a'')) = None"
  by (rule long_terms_are_never_found) simp

text \<open>C31: lexicon_tokenize fails exactly for an empty buffer or a token bound below one; otherwise
  the strings at the offsets it returns are the alphanumeric words of the text (cut to the
  buffer's size less one) in lower case, in order and at most max_tokens of them, and the copy
  with its terminator fits the buffer.\<close>

theorem tokenizer_returns_words:
  "case lexicon_tokenize text buf_size max_tokens of
      None \<Rightarrow> buf_size = 0 \<or> max_tokens \<le> 0
    | Some (buf, offsets) \<Rightarrow> 0 < buf_size \<and> 0 < max_tokens \<and> length buf \<le> buf_size \<and>
        map (token_at buf) offsets = take (nat max_tokens) (alnum_words (take (buf_size - 1) text))"
proof (cases "buf_size = 0 \<or> max_tokens \<le> 0")
  case True
  then show ?thesis by (simp add: lexicon_tokenize_def)
next
  case False
  then have pos: "0 < buf_size" "0 < max_tokens" by simp_all
  show ?thesis by (rule tokenize_words [OF pos, of "text"]) (simp add: pos)
qed

end
