(* ===== verification/TableSearch.thy ===== *)
theory TableSearch
  imports VtabProperties EngineProperties LexiconProperties
begin

text \<open>
  The virtual table from the text of a document to the rows of a query: the dictionary turns
  words into their hashes, the bindings insert into the engine of the table, and a cursor reads
  the engine's results row by row.
\<close>

section \<open>Words and their identifiers\<close>

text \<open>The words of a text as the table sees it: of its first 4095 characters, at most \<open>n\<close>.\<close>

definition words_of :: "nat \<Rightarrow> string \<Rightarrow> string list" where
  "words_of n s = take n (alnum_words (take 4095 s))"

lemma tokens_of_words: "0 < n \<Longrightarrow> tokens_of s 4096 (int n) = words_of n s"
  by (rule tokenize_words [of 4096 "int n" s]) (simp_all add: tokens_of_def words_of_def)

lemma term_hash_nonzero: "lexicon_term_hash32 w \<noteq> 0"
  by (simp add: lexicon_term_hash32_def Let_def)

text \<open>Every entry of the dictionary carries the hash of the term it stores.\<close>

definition hashed_entries :: "Lexicon \<Rightarrow> bool" where
  "hashed_entries dict \<longleftrightarrow> (\<forall>b. \<forall>e \<in> set (lx_buckets dict b). le_term_id e = lexicon_term_hash32 (le_term e))"

lemma hashed_entries_init: "hashed_entries lexicon_init"
  by (simp add: hashed_entries_def lexicon_init_def)

lemma bump_entry_hashed:
  "bump_entry w es = Some (i, es') \<Longrightarrow> \<forall>e \<in> set es. le_term_id e = lexicon_term_hash32 (le_term e) \<Longrightarrow>
    i = lexicon_term_hash32 w \<and> (\<forall>e \<in> set es'. le_term_id e = lexicon_term_hash32 (le_term e))"
  by (induction es arbitrary: es') (auto split: if_splits)

lemma lexicon_insert_hashed:
  assumes "length w \<le> 255" "hashed_entries dict"
  shows "\<exists>dict'. lexicon_insert True dict w = (lexicon_term_hash32 w, dict') \<and> hashed_entries dict'"
proof (cases "bump_entry w (lx_buckets dict (unat (lexicon_hash w)))")
  case None
  then show ?thesis using assms by (auto simp: lexicon_insert_def Let_def hashed_entries_def)
next
  case (Some x)
  then obtain i es where b: "bump_entry w (lx_buckets dict (unat (lexicon_hash w))) = Some (i, es)" by (cases x) auto
  have "i = lexicon_term_hash32 w \<and> (\<forall>e \<in> set es. le_term_id e = lexicon_term_hash32 (le_term e))"
    by (rule bump_entry_hashed [OF b]) (use assms(2) in \<open>simp add: hashed_entries_def\<close>)
  then show ?thesis using b assms(2) by (auto simp: lexicon_insert_def hashed_entries_def)
qed

lemma insert_tokens_hashed:
  assumes "\<forall>w \<in> set ws. length w \<le> 255" "hashed_entries dict"
  shows "\<exists>dict'. insert_tokens True ws dict = (map lexicon_term_hash32 ws, dict') \<and> hashed_entries dict'"
  using assms
proof (induction ws arbitrary: dict)
  case (Cons w ws)
  obtain dict1 where d1: "lexicon_insert True dict w = (lexicon_term_hash32 w, dict1)" "hashed_entries dict1"
    using lexicon_insert_hashed [of w dict] Cons.prems by auto
  then show ?case using Cons.IH [OF _ d1(2)] Cons.prems(1) by auto
qed simp

section \<open>Inserting texts\<close>

text \<open>The arguments of \<open>python_insert_document\<close>, and a caller that stops at the first failure.\<close>

type_synonym table_doc = "byte list \<times> u32 list \<times> u32 list \<times> u32 list \<times> string"

fun table_insert_all :: "table_doc list \<Rightarrow> Globals \<Rightarrow> Globals option" where
  "table_insert_all [] g = Some g"
| "table_insert_all ((node_id, tf, dl, embedding, s) # docs) g =
     (case python_insert_document True node_id tf dl embedding (Some s) g of
        None \<Rightarrow> None
      | Some (res, g) \<Rightarrow> if res = 0 then table_insert_all docs g else None)"

fun doc_terms :: "table_doc \<Rightarrow> engine_doc" where
  "doc_terms (node_id, tf, dl, embedding, s) =
     (node_id, tf, dl, embedding, map lexicon_term_hash32 (words_of 1024 s))"

fun doc_words :: "table_doc \<Rightarrow> string set" where
  "doc_words (node_id, tf, dl, embedding, s) = set (words_of 1024 s)"

text \<open>The table \<open>h\<close> is the one the bindings insert into.\<close>

definition table_open :: "handle \<Rightarrow> UnifiedEngine \<Rightarrow> Globals \<Rightarrow> bool" where
  "table_open h en g \<longleftrightarrow> gl_engine g = Some h \<and> gl_heap g h = Some en \<and> hashed_entries (gl_lexicon g)"

lemma table_insert_all_engine:
  assumes "table_open h en g" "engine_insert_all (map doc_terms docs) en = Some en'"
    and "\<forall>d \<in> set docs. \<forall>w \<in> doc_words d. length w \<le> 255"
  shows "\<exists>g'. table_insert_all docs g = Some g' \<and> table_open h en' g' \<and> gl_has_loop g' = gl_has_loop g \<and>
    gl_active g' = gl_active g \<and> gl_disk g' = gl_disk g \<and> gl_lexicon_initialized g' = gl_lexicon_initialized g"
  using assms
proof (induction docs arbitrary: en g)
  case (Cons d docs)
  obtain node_id tf dl emb s where d: "d = (node_id, tf, dl, emb, s)" by (cases d)
  obtain dict where dict: "insert_tokens True (words_of 1024 s) (gl_lexicon g) = (map lexicon_term_hash32 (words_of 1024 s), dict)"
    "hashed_entries dict"
    using insert_tokens_hashed [of "words_of 1024 s" "gl_lexicon g"] Cons.prems d by (auto simp: table_open_def)
  obtain en1 where en1: "engine_insert_document en node_id tf dl emb (map lexicon_term_hash32 (words_of 1024 s)) = Some (0, en1)"
    "engine_insert_all (map doc_terms docs) en1 = Some en'"
    using Cons.prems(2) d by (auto split: option.splits if_splits)
  define g1 where "g1 = g\<lparr>gl_lexicon := dict, gl_heap := (gl_heap g)(h \<mapsto> en1)\<rparr>"
  have run: "python_insert_document True node_id tf dl emb (Some s) g = Some (0, g1)"
    using Cons.prems(1) dict(1) en1(1) tokens_of_words [of 1024 s]
    by (simp add: python_insert_document_def table_open_def g1_def)
  have open1: "table_open h en1 g1" using Cons.prems(1) dict(2) by (simp add: table_open_def g1_def)
  show ?case
    using Cons.IH [OF open1 en1(2)] Cons.prems(3) run d by (auto simp: g1_def)
qed simp

section \<open>Reading rows\<close>

text \<open>What a query does with the cursor: a row, then the next, until the end.\<close>

function read_rows :: "Cursor \<Rightarrow> column_value list" where
  "read_rows c = (if ftsEof c then [] else ftsColumn c 0 # read_rows (ftsNext c))"
  by auto
termination
  by (relation "measure (\<lambda>c. nat (int (length (cu_results c)) - cu_current_row c))") (auto simp: ftsEof_def ftsNext_def)

declare read_rows.simps [simp del]

lemma read_rows_from:
  "cu_current_row c = int k \<Longrightarrow>
    read_rows c = map (\<lambda>r. ColText (node_id_hex (sr_node_id r))) (drop k (cu_results c))"
proof (induction c arbitrary: k rule: read_rows.induct)
  case (1 c)
  show ?case
  proof (cases "k < length (cu_results c)")
    case False
    then show ?thesis using 1(2) by (subst read_rows.simps) (simp add: ftsEof_def)
  next
    case True
    then have "\<not> ftsEof c" using 1(2) by (simp add: ftsEof_def)
    then have "read_rows (ftsNext c) = map (\<lambda>r. ColText (node_id_hex (sr_node_id r))) (drop (Suc k) (cu_results c))"
      using 1(1) [of "Suc k"] 1(2) by (simp add: ftsNext_def)
    moreover have "drop k (cu_results c) = cu_results c ! k # drop (Suc k) (cu_results c)"
      using True by (simp add: Cons_nth_drop_Suc)
    ultimately show ?thesis using \<open>\<not> ftsEof c\<close> True 1(2)
      by (subst read_rows.simps) (simp add: ftsColumn_def)
  qed
qed

text \<open>One query: \<open>ftsOpen\<close>, \<open>ftsFilter\<close>, and the rows.\<close>

definition table_query ::
  "UnifiedSearchResult qsort \<Rightarrow> nat list \<Rightarrow> bool \<Rightarrow> handle \<Rightarrow> string \<Rightarrow> Globals \<Rightarrow> (column_value list \<times> Globals) option" where
  "table_query qsort order loop_ok h s g =
     (case ftsOpen True of
        (_, None) \<Rightarrow> None
      | (_, Some c) \<Rightarrow>
          map_option (\<lambda>(c, g). (read_rows c, g)) (ftsFilter qsort order True loop_ok h (Some s) c g))"

lemma table_query_results:
  assumes "table_open h en g" "\<forall>w \<in> set (words_of 64 s). length w \<le> 255"
    and "engine_search_async qsort order True loop_ok (gl_has_loop g) en
      (text_query s (map lexicon_term_hash32 (words_of 64 s))) 1024 = Some (results, en', has_loop)"
  obtains g' where "table_query qsort order loop_ok h s g = Some (map (\<lambda>r. ColText (node_id_hex (sr_node_id r))) results, g')"
    "table_open h en' g'" "gl_active g' = gl_active g" "gl_disk g' = gl_disk g" "gl_has_loop g' = has_loop"
proof -
  obtain dict where dict: "insert_tokens True (words_of 64 s) (gl_lexicon g) = (map lexicon_term_hash32 (words_of 64 s), dict)"
    "hashed_entries dict"
    using insert_tokens_hashed [of "words_of 64 s" "gl_lexicon g"] assms by (auto simp: table_open_def)
  define g1 where "g1 = g\<lparr>gl_lexicon := dict, gl_heap := (gl_heap g)(h \<mapsto> en'), gl_has_loop := has_loop\<rparr>"
  let ?c = "\<lparr>cu_results = results, cu_current_row = 0\<rparr>"
  have "ftsFilter qsort order True loop_ok h (Some s) \<lparr>cu_results = [], cu_current_row = 0\<rparr> g = Some (?c, g1)"
    using assms(1,3) dict(1) tokens_of_words [of 64 s] by (simp add: ftsFilter_def table_open_def g1_def)
  then have "table_query qsort order loop_ok h s g = Some (map (\<lambda>r. ColText (node_id_hex (sr_node_id r))) results, g1)"
    using read_rows_from [of ?c 0] by (simp add: table_query_def ftsOpen_def)
  then show ?thesis by (rule that) (use assms(1) dict(2) in \<open>auto simp: table_open_def g1_def\<close>)
qed

end
