(* ===== verification/PoolDurability.thy ===== *)
theory PoolDurability
  imports BufferPool
begin

text \<open>
  What the buffer pool promises to the rest of the engine, as properties of its operations:
  serving the current contents of a page, refusing when every frame is pinned, the
  log-before-data rule, and flushing every dirty page. \<open>buffer_pool_flush_all\<close> collects
  writes in batches and clears the dirty bits when a batch completes; \<open>flush_batches\<close>
  relates that to the loop that writes and clears one frame at a time.
\<close>

section \<open>Flushing every page\<close>

lemma mark_clean_simps [simp]:
  "mark_clean [] b = b"
  "mark_clean (us @ [i]) b =
     set_frame i ((bp_frames (mark_clean us b) ! i)\<lparr>fr_is_dirty := False\<rparr>) (mark_clean us b)"
  by (simp_all add: mark_clean_def)

lemma mark_clean_fields [simp]:
  "bp_pool_size (mark_clean us b) = bp_pool_size b" "bp_disk_fd (mark_clean us b) = bp_disk_fd b"
  "bp_file (mark_clean us b) = bp_file b" "bp_vfs_ctx (mark_clean us b) = bp_vfs_ctx b"
  "length (bp_frames (mark_clean us b)) = length (bp_frames b)"
  by (induction us rule: rev_induct) simp_all

lemma mark_clean_other: "i \<notin> set us \<Longrightarrow> bp_frames (mark_clean us b) ! i = bp_frames b ! i"
  by (induction us rule: rev_induct) auto

lemma mark_clean_commute:
  "mark_clean us (b\<lparr>bp_vfs_ctx := v, bp_file := d\<rparr>) = (mark_clean us b)\<lparr>bp_vfs_ctx := v, bp_file := d\<rparr>"
  by (induction us rule: rev_induct) (simp_all add: set_frame_def)

text \<open>The unbatched loop body.\<close>

definition write_clean :: "nat \<Rightarrow> BufferPoolManager \<Rightarrow> BufferPoolManager" where
  "write_clean i c =
     (let f = bp_frames c ! i in
      if fr_page_id f \<noteq> INVALID_PAGE_ID \<and> fr_is_dirty f then
        set_frame i (f\<lparr>fr_is_dirty := False\<rparr>)
          (c\<lparr>bp_file := write_page (bp_file c) (fr_page_id f) (fr_page_data f)\<rparr>)
      else c)"

lemma write_clean_law:
  assumes ok: "bp_ok N X c" and i: "i < unat (bp_pool_size c)"
  shows "bp_ok N X (write_clean i c) \<and> bp_same c (write_clean i c) \<and>
    bp_wal (write_clean i c) = bp_wal c \<and> \<not> fr_is_dirty (bp_frames (write_clean i c) ! i) \<and>
    (\<forall>j. \<not> fr_is_dirty (bp_frames c ! j) \<longrightarrow> \<not> fr_is_dirty (bp_frames (write_clean i c) ! j)) \<and>
    (\<forall>j. i < j \<longrightarrow> bp_frames (write_clean i c) ! j = bp_frames c ! j)"
proof (cases "fr_page_id (bp_frames c ! i) \<noteq> INVALID_PAGE_ID \<and> fr_is_dirty (bp_frames c ! i)")
  case True
  let ?f = "bp_frames c ! i"
  have len: "i < length (bp_frames c)" using ok i by (simp add: bp_ok_length)
  have w: "write_clean i c = set_frame i (?f\<lparr>fr_is_dirty := False\<rparr>)
      (c\<lparr>bp_file := write_page (bp_file c) (fr_page_id ?f) (fr_page_data ?f)\<rparr>)"
    using True by (simp add: write_clean_def Let_def)
  have find: "find_frame c (fr_page_id ?f) = Some i" using True i by (simp add: find_frame_iff [OF ok])
  have "bp_ok N X (write_clean i c)" "bp_same c (write_clean i c)"
    using bp_ok_write [OF ok find _ refl _ w] bp_same_write [OF ok find _ refl _ w] True by simp_all
  then show ?thesis using len by (simp add: w nth_list_update)
next
  case False
  moreover have "frame_ok N X (bp_file c) (bp_frames c ! i)" using ok i by (rule bp_ok_frame)
  ultimately have "\<not> fr_is_dirty (bp_frames c ! i)" by (auto simp: frame_ok_def split: if_splits)
  then show ?thesis using ok False by (auto simp: write_clean_def Let_def bp_same_def)
qed

lemma write_cleans_law:
  assumes "bp_ok N X c" "k \<le> unat (bp_pool_size c)"
  shows "bp_ok N X (fold write_clean [0..<k] c) \<and> bp_same c (fold write_clean [0..<k] c) \<and>
    bp_wal (fold write_clean [0..<k] c) = bp_wal c \<and>
    (\<forall>i < k. \<not> fr_is_dirty (bp_frames (fold write_clean [0..<k] c) ! i)) \<and>
    (\<forall>i \<ge> k. bp_frames (fold write_clean [0..<k] c) ! i = bp_frames c ! i)"
  using assms(2)
proof (induction k)
  case 0
  then show ?case using assms(1) by (simp add: bp_same_def)
next
  case (Suc k)
  let ?c = "fold write_clean [0..<k] c"
  have IH: "bp_ok N X ?c" "bp_same c ?c" "bp_wal ?c = bp_wal c" "\<forall>i < k. \<not> fr_is_dirty (bp_frames ?c ! i)"
    "\<forall>i \<ge> k. bp_frames ?c ! i = bp_frames c ! i" using Suc by simp_all
  then have "k < unat (bp_pool_size ?c)" using Suc.prems by (simp add: bp_same_def)
  note w = write_clean_law [OF IH(1) this]
  then show ?case using IH by (auto simp: less_Suc_eq bp_same_def)
qed

text \<open>The batch that is being collected after the frames below \<open>k\<close>.\<close>

definition batch_rel :: "nat \<Rightarrow> BufferPoolManager \<times> nat \<Rightarrow> BufferPoolManager \<Rightarrow> bool" where
  "batch_rel k bs c \<longleftrightarrow> (\<exists>us. snd bs = length us \<and> length us < 16 \<and> set us \<subseteq> {..<k} \<and>
     vc_batch (bp_vfs_ctx (fst bs)) = map (\<lambda>i. (i, 0)) us \<and>
     mark_clean us (fst bs) = c\<lparr>bp_vfs_ctx := bp_vfs_ctx (fst bs)\<rparr>)"

lemma submit_pending:
  "length us \<le> 32 \<Longrightarrow> vc_batch ctx = map (\<lambda>i. (i, 0)) us \<Longrightarrow> fts_vfs_batch_submit_and_wait ctx 32 = us"
  by (simp add: fts_vfs_batch_submit_and_wait_def filter_map comp_def)

lemma batch_step:
  assumes rel: "batch_rel k bs c" and ok: "bp_ok N X c" and k: "k < unat (bp_pool_size c)"
  shows "batch_rel (Suc k) (flush_all_step k bs) (write_clean k c)"
proof -
  obtain b s where bs: "bs = (b, s)" by (cases bs)
  obtain us where us: "s = length us" "length us < 16" "set us \<subseteq> {..<k}"
    "vc_batch (bp_vfs_ctx b) = map (\<lambda>i. (i, 0)) us" "mark_clean us b = c\<lparr>bp_vfs_ctx := bp_vfs_ctx b\<rparr>"
    using rel by (auto simp: batch_rel_def bs)
  let ?f = "bp_frames b ! k"
  have fr: "bp_frames c ! k = ?f" using us mark_clean_other [of k us b] by auto
  have fields: "bp_disk_fd c = bp_disk_fd b" "bp_file c = bp_file b"
    using us(5) mark_clean_fields(2,3) [of us b] by simp_all
  then have io: "0 \<le> bp_disk_fd b" "df_plan (bp_file b) = []" using ok by (simp_all add: bp_ok_def)
  show ?thesis
  proof (cases "fr_page_id ?f \<noteq> INVALID_PAGE_ID \<and> fr_is_dirty ?f")
    case True
    define ctx where "ctx = (bp_vfs_ctx b)\<lparr>vc_batch := map (\<lambda>i. (i, 0)) (us @ [k])\<rparr>"
    define b1 where "b1 = b\<lparr>bp_vfs_ctx := ctx, bp_file := write_page (bp_file b) (fr_page_id ?f) (fr_page_data ?f)\<rparr>"
    have add: "fts_vfs_batch_add_write (bp_vfs_ctx b) (bp_disk_fd b) (fr_page_data ?f) PAGE_SIZE
        (page_offset (fr_page_id ?f)) k (bp_file b) = (0, ctx, write_page (bp_file b) (fr_page_id ?f) (fr_page_data ?f))"
      using io us by (simp add: fts_vfs_batch_add_write_def pwrite_full write_page_def ctx_def)
    have m: "mark_clean (us @ [k]) b1 = (write_clean k c)\<lparr>bp_vfs_ctx := ctx\<rparr>"
      using True us(5) fr fields unfolding b1_def mark_clean_simps mark_clean_commute
      by (simp add: write_clean_def set_frame_def Let_def)
    have vb: "vc_batch ctx = map (\<lambda>i. (i, 0)) (us @ [k])" by (simp add: ctx_def)
    have step: "flush_all_step k bs =
        (if 16 \<le> Suc (length us) then
           ((mark_clean (us @ [k]) b1)\<lparr>bp_vfs_ctx := fts_vfs_batch_begin ctx\<rparr>, 0)
         else (b1, Suc (length us)))"
      using True io us submit_pending [OF _ vb]
      by (simp add: bs flush_all_step_def add Let_def b1_def)
    show ?thesis
    proof (cases "16 \<le> Suc (length us)")
      case True
      then show ?thesis unfolding step m batch_rel_def
        by (intro exI [of _ "[]"]) (simp add: fts_vfs_batch_begin_def)
    next
      case False
      have "bp_vfs_ctx b1 = ctx" by (simp add: b1_def)
      then show ?thesis unfolding step batch_rel_def using False us m vb
        by (intro exI [of _ "us @ [k]"]) (auto simp del: map_append mark_clean_simps)
    qed
  next
    case False
    have "flush_all_step k bs = bs" "write_clean k c = c"
      using False fr by (auto simp: bs flush_all_step_def write_clean_def Let_def)
    then show ?thesis using us unfolding batch_rel_def bs by (intro exI [of _ us]) auto
  qed
qed

lemma flush_batches:
  assumes ok: "bp_ok N X b" and start: "vc_batch (bp_vfs_ctx b) = []" and k: "k \<le> unat (bp_pool_size b)"
  shows "batch_rel k (fold flush_all_step [0..<k] (b, 0)) (fold write_clean [0..<k] b)"
  using k
proof (induction k)
  case 0
  then show ?case using start by (simp add: batch_rel_def)
next
  case (Suc k)
  have w: "bp_ok N X (fold write_clean [0..<k] b)" "bp_same b (fold write_clean [0..<k] b)"
    using write_cleans_law [OF ok, of k] Suc.prems by simp_all
  then show ?case using Suc by (auto intro!: batch_step simp: bp_same_def)
qed

lemma flush_all_law:
  assumes ok: "bp_ok N X b"
  defines "b' \<equiv> buffer_pool_flush_all b"
  shows "bp_ok N X b' \<and> bp_page b' = bp_page b \<and> bp_pins b' = bp_pins b \<and>
    (\<forall>i < unat (bp_pool_size b'). \<not> fr_is_dirty (bp_frames b' ! i))"
proof -
  let ?n = "unat (bp_pool_size b)"
  define b0 where "b0 = (if \<exists>i < ?n. fr_page_id (bp_frames b ! i) \<noteq> INVALID_PAGE_ID \<and> fr_is_dirty (bp_frames b ! i)
    then flush_wal b else b)"
  define b1 where "b1 = b0\<lparr>bp_vfs_ctx := fts_vfs_batch_begin (bp_vfs_ctx b0)\<rparr>"
  have eqs: "bp_frames b1 = bp_frames b" "bp_pool_size b1 = bp_pool_size b" "bp_file b1 = bp_file b"
    "bp_disk_fd b1 = bp_disk_fd b" "bp_clock_hand b1 = bp_clock_hand b"
    by (simp_all add: b1_def b0_def)
  have ok1: "bp_ok N X b1" using ok by (rule bp_ok_cong) (simp_all add: eqs bp_ok_hand [OF ok])
  have same1: "bp_page b1 = bp_page b" "bp_pins b1 = bp_pins b" using bp_view_cong [of b1 b] by (simp_all add: eqs)
  define c where "c = fold write_clean [0..<?n] b1"
  obtain b2 s where f: "fold flush_all_step [0..<?n] (b1, 0) = (b2, s)" by (cases "fold flush_all_step [0..<?n] (b1, 0)")
  have "vc_batch (bp_vfs_ctx b1) = []" by (simp add: b1_def fts_vfs_batch_begin_def)
  then have "batch_rel ?n (b2, s) c"
    using flush_batches [OF ok1, of ?n] f by (simp add: eqs c_def)
  then obtain us where us: "s = length us" "length us < 16" "vc_batch (bp_vfs_ctx b2) = map (\<lambda>i. (i, 0)) us"
    "mark_clean us b2 = c\<lparr>bp_vfs_ctx := bp_vfs_ctx b2\<rparr>"
    by (auto simp: batch_rel_def)
  have law: "bp_ok N X c" "bp_same b1 c" "\<forall>i < ?n. \<not> fr_is_dirty (bp_frames c ! i)"
    using write_cleans_law [OF ok1, of ?n] by (simp_all add: c_def eqs)
  have "b' = c\<lparr>bp_vfs_ctx := bp_vfs_ctx b2\<rparr>"
    using us submit_pending [of us "bp_vfs_ctx b2"]
    unfolding b'_def buffer_pool_flush_all_def Let_def b0_def [symmetric] b1_def [symmetric]
    by (cases us) (simp_all add: b0_def [symmetric] b1_def [symmetric] f)
  moreover have "bp_ok N X (c\<lparr>bp_vfs_ctx := v\<rparr>)" for v
    using law(1) by (rule bp_ok_cong) (simp_all add: bp_ok_hand [OF law(1)])
  ultimately show ?thesis using law same1 bp_view_cong [of b' c] by (simp add: bp_same_def eqs)
qed

lemma clean_page_on_disk:
  assumes ok: "bp_ok N {} b" and clean: "\<forall>i < unat (bp_pool_size b). \<not> fr_is_dirty (bp_frames b ! i)"
    and p: "unat pid < N"
  shows "on_file (bp_file b) pid \<and> disk_page (bp_file b) pid = bp_page b pid"
proof -
  have pid: "pid \<noteq> INVALID_PAGE_ID" using not_allocated_invalid [OF ok p] .
  show ?thesis
  proof (cases "find_frame b pid")
    case None
    then have "on_file (bp_file b) pid" using ok p by (auto simp: bp_ok_def bp_cached_def)
    then show ?thesis using None pid by (simp add: bp_page_def load_page_def)
  next
    case (Some i)
    then have i: "i < unat (bp_pool_size b)" "fr_page_id (bp_frames b ! i) = pid" using find_frame_sound by auto
    then show ?thesis using bp_ok_frame [OF ok i(1)] clean Some pid p
      by (simp add: frame_ok_def bp_page_def frame_page_def)
  qed
qed

section \<open>A concrete pool\<close>

text \<open>Four frames over a file of three pages, of which the second starts with a 9.\<close>

definition sample_disk :: datafile where
  "sample_disk = \<lparr>df_bytes = (\<lambda>a. if a = PAGE_SIZE then 9 else 0), df_size = 3 * PAGE_SIZE, df_plan = []\<rparr>"

definition sample_pool :: BufferPoolManager where
  "sample_pool = the (buffer_pool_init 5 None 4 sample_disk True)"

lemma sample_pool_st: "bp_st 3 {} [] (load_page sample_disk) sample_pool"
  using init_st [of 5 sample_disk 3 4 None] by (auto simp: sample_pool_def sample_disk_def)

lemma sample_pool_ok: "bp_ok 3 {} sample_pool" "bp_page sample_pool = load_page sample_disk" "bp_pins sample_pool q = 0"
  using sample_pool_st by (simp_all add: bp_st_def)

lemma sample_page_one: "load_page sample_disk 1 0 = 9"
  by (simp add: load_page_def on_file_def disk_page_def page_offset_def sample_disk_def)

text \<open>One dirty frame over a data file whose next request fails, with a log of two bytes.\<close>

definition failing_pool :: BufferPoolManager where
  "failing_pool =
     \<lparr>bp_frames = [\<lparr>fr_page_id = 1, fr_pin_count = 0, fr_is_dirty = True, fr_page_lsn = 0, fr_page_data = (\<lambda>_. 3)\<rparr>],
      bp_pool_size = 1, bp_clock_hand = 0, bp_disk_fd = 5,
      bp_wal = Some \<lparr>wal_fd = 6, wal_filepath = ''w'', wal_current_lsn = 0, wal_file = [1, 2], wal_synced = 0,
        wal_plan = []\<rparr>,
      bp_vfs_ctx = \<lparr>vc_batch = [], vc_initialized = True\<rparr>, bp_file = sample_disk\<lparr>df_plan := [IO_error]\<rparr>\<rparr>"

lemma failing_pool:
  "find_frame failing_pool 1 = Some 0" "bp_disk_fd failing_pool = 5" "df_plan (bp_file failing_pool) = [IO_error]"
  "fr_is_dirty (bp_frames failing_pool ! 0)" "length (bp_frames failing_pool) = 1"
  "bp_wal failing_pool = Some \<lparr>wal_fd = 6, wal_filepath = ''w'', wal_current_lsn = 0, wal_file = [1, 2],
    wal_synced = 0, wal_plan = []\<rparr>"
  by (simp_all add: failing_pool_def find_frame_def)

text \<open>The same with a data file that works and a log that cannot be synced.\<close>

definition unsynced_pool :: BufferPoolManager where
  "unsynced_pool = failing_pool\<lparr>bp_file := sample_disk,
     bp_frames := [\<lparr>fr_page_id = 1, fr_pin_count = 0, fr_is_dirty = True, fr_page_lsn = 0,
       fr_page_data = (\<lambda>a. if a < PAGE_SIZE then 3 else 0)\<rparr>],
     bp_wal := Some \<lparr>wal_fd = 6, wal_filepath = ''w'', wal_current_lsn = 0, wal_file = [1, 2], wal_synced = 0,
       wal_plan = [IO_error]\<rparr>\<rparr>"

lemma unsynced_pool:
  "bp_ok 3 {} unsynced_pool"
  "bp_wal unsynced_pool = Some \<lparr>wal_fd = 6, wal_filepath = ''w'', wal_current_lsn = 0, wal_file = [1, 2],
    wal_synced = 0, wal_plan = [IO_error]\<rparr>"
  "find_frame unsynced_pool 1 = Some 0" "fr_is_dirty (bp_frames unsynced_pool ! 0)"
  "fr_page_data (bp_frames unsynced_pool ! 0) 7 = 3"
  by (auto simp: unsynced_pool_def failing_pool_def bp_ok_def pages_distinct_def frame_ok_def page_wf_def find_frame_def
      sample_disk_def on_file_def page_offset_def)

section \<open>Properties\<close>

text \<open>C11: Whatever page below id 0xFFFFFFFF is asked for, and as long as no I/O request fails,
  buffer_pool_fetch_page either fails, and does so exactly when
  the page is not cached and every frame is pinned, leaving all page contents and pins as they
  were; or returns a frame that holds the page's current contents (the cached copy, dirty or
  not, else the page on disk, else a fresh row page), pinned once more, while no page's contents
  change, even of the dirty page it evicts, and no pinned page moves. The pool invariant is kept
  in both cases.\<close>

theorem fetch_serves_current_page:
  assumes "bp_ok N X b" "pid \<noteq> INVALID_PAGE_ID" "bp_pins b pid + 1 < 2 ^ 32"
  shows "case buffer_pool_fetch_page b pid of
      (None, b') \<Rightarrow> \<not> bp_cached b pid \<and> (\<forall>i < unat (bp_pool_size b). \<not> evictable (bp_frames b ! i)) \<and>
        bp_ok N X b' \<and> bp_page b' = bp_page b \<and> bp_pins b' = bp_pins b
    | (Some i, b') \<Rightarrow> (bp_cached b pid \<or> (\<exists>i < unat (bp_pool_size b). evictable (bp_frames b ! i))) \<and>
        bp_ok N X b' \<and> frame_page b' i = bp_page b pid \<and> bp_page b' = bp_page b \<and>
        bp_pins b' = (bp_pins b)(pid := bp_pins b pid + 1) \<and>
        (\<forall>q. 0 < bp_pins b q \<longrightarrow> find_frame b' q = find_frame b q)"
proof (cases "bp_available b pid")
  case True
  obtain i b' where f: "buffer_pool_fetch_page b pid = (Some i, b')" "bp_ok N X b'"
    "find_frame b' pid = Some i" "bp_page b' = bp_page b"
    "bp_pins b' = (bp_pins b)(pid := bp_pins b pid + 1)"
    "\<And>q. 0 < bp_pins b q \<Longrightarrow> find_frame b' q = find_frame b q"
    using fetch_law [OF assms(1,2) True assms(3)] by blast
  have "frame_page b' i = bp_page b' pid" using f(3) assms(2) by (simp add: bp_page_def)
  then show ?thesis using f True by (simp add: bp_available_def)
next
  case False
  obtain b' where "buffer_pool_fetch_page b pid = (None, b')" "bp_ok N X b'" "bp_same b b'"
    using fetch_none [OF assms(1,2) False] .
  then show ?thesis using False by (simp add: bp_available_def bp_same_def)
qed

theorem fetch_serves_current_page_witness:
  "\<exists>i b'. buffer_pool_fetch_page sample_pool 1 = (Some i, b') \<and> frame_page b' i 0 = 9 \<and> bp_pins b' 1 = 1"
proof -
  have "bp_available sample_pool 1"
    unfolding bp_available_def
    by (intro disjI2 exI [of _ 0]) (simp add: sample_pool_def buffer_pool_init_def evictable_def empty_frame_def)
  then show ?thesis
    using fetch_serves_current_page [OF sample_pool_ok(1), of 1]
    by (auto simp: sample_pool_ok sample_page_one bp_available_def split: prod.splits option.splits)
qed

text \<open>C16: buffer_pool_flush_page obeys the log-before-data rule at every point where it can be
  interrupted: in any state between its system calls in which the data file has changed, the
  whole log has been synced, also when the page write then fails. The frame's contents never
  change, and its dirty bit is cleared exactly when the write request was accepted. The sync
  itself succeeds here; failed_sync_does_not_stop_write shows what happens when it does not.\<close>

theorem flush_page_syncs_log_first:
  assumes "bp_wal b = Some w" "0 \<le> wal_fd w" "wal_plan w = []" "find_frame b pid = Some i" "pid \<noteq> INVALID_PAGE_ID"
    and "fr_is_dirty (bp_frames b ! i)" "0 \<le> bp_disk_fd b" "i < length (bp_frames b)"
  shows "case flush_page_states b pid of (r, states) \<Rightarrow>
    buffer_pool_flush_page b pid = (r, last states) \<and>
    (\<forall>c \<in> set states. bp_file c \<noteq> bp_file b \<longrightarrow> bp_wal c = Some (w\<lparr>wal_synced := length (wal_file w)\<rparr>)) \<and>
    (\<forall>c \<in> set states. fr_page_data (bp_frames c ! i) = fr_page_data (bp_frames b ! i)) \<and>
    (r = 0 \<longleftrightarrow> \<not> fr_is_dirty (bp_frames (last states) ! i)) \<and>
    bp_wal (last states) = Some (w\<lparr>wal_synced := length (wal_file w)\<rparr>)"
  using assms
  by (auto simp: buffer_pool_flush_page_def flush_page_states_def Let_def flush_wal_def wal_flush_def os_fdatasync_def
      next_outcome_def split: prod.splits)

theorem flush_page_syncs_log_first_witness:
  "case flush_page_states failing_pool 1 of (r, states) \<Rightarrow>
    r = - 1 \<and> length states = 3 \<and> map_option wal_synced (bp_wal (last states)) = Some 2 \<and> fr_is_dirty (bp_frames (last states) ! 0)"
proof -
  have "fst (flush_page_states failing_pool 1) = - 1 \<and> length (snd (flush_page_states failing_pool 1)) = 3"
    using failing_pool by (simp add: flush_page_states_def Let_def fts_vfs_write_sync_def os_pwrite_def
        next_outcome_def transferred_def split: prod.split)
  then show ?thesis
    using flush_page_syncs_log_first [of failing_pool _ 1 0] failing_pool by (auto split: prod.splits)
qed

text \<open>C17: The rule fails when the sync does. buffer_pool_flush_page ignores what wal_flush returns: if
  fdatasync fails, the page is written and marked clean all the same, and the data file then
  holds a change whose log records need not be on disk.\<close>

theorem failed_sync_does_not_stop_write:
  assumes "bp_ok N X b" "bp_wal b = Some w" "0 \<le> wal_fd w" "wal_plan w = IO_error # plan"
    and "find_frame b pid = Some i" "pid \<noteq> INVALID_PAGE_ID" "fr_is_dirty (bp_frames b ! i)"
  shows "\<exists>b'. buffer_pool_flush_page b pid = (0, b') \<and> \<not> fr_is_dirty (bp_frames b' ! i) \<and>
    disk_page (bp_file b') pid = fr_page_data (bp_frames b ! i) \<and>
    bp_wal b' = Some (w\<lparr>wal_plan := plan\<rparr>)"
proof -
  have i: "i < unat (bp_pool_size b)" "fr_page_id (bp_frames b ! i) = pid" using find_frame_sound [OF assms(5)] by auto
  then have wf: "page_wf (fr_page_data (bp_frames b ! i))" using bp_ok_frame [OF assms(1)] by (auto simp: frame_ok_def)
  have len: "i < length (bp_frames b)" using i bp_ok_length [OF assms(1)] by simp
  have io: "0 \<le> bp_disk_fd b" "df_plan (bp_file b) = []" using assms(1) by (simp_all add: bp_ok_def)
  show ?thesis
    using assms(2-7) io len
    by (simp add: buffer_pool_flush_page_eq Let_def flush_wal_def wal_flush_def os_fdatasync_def next_outcome_def
        fts_vfs_write_sync_def pwrite_full write_page_def [symmetric] disk_page_write [OF wf])
qed

theorem failed_sync_does_not_stop_write_witness:
  "\<exists>b'. buffer_pool_flush_page unsynced_pool 1 = (0, b') \<and> disk_page (bp_file b') 1 7 = 3 \<and>
    map_option wal_synced (bp_wal b') = Some 0"
  using failed_sync_does_not_stop_write [OF unsynced_pool(1,2), of "[]" 1 0] unsynced_pool(3-) by auto

text \<open>C12: After buffer_pool_flush_all on a pool in which no page is being modified and no I/O
  request fails, no frame is dirty and the data file holds the current contents of every allocated page; page contents and
  pins are unchanged and the invariant is kept, through any number of 16-request batches.\<close>

theorem flush_all_makes_pages_durable:
  assumes "bp_ok N {} b"
  shows "(let b' = buffer_pool_flush_all b in
    bp_ok N {} b' \<and> bp_page b' = bp_page b \<and> bp_pins b' = bp_pins b \<and>
    (\<forall>i < unat (bp_pool_size b'). \<not> fr_is_dirty (bp_frames b' ! i)) \<and>
    (\<forall>pid. unat pid < N \<longrightarrow> on_file (bp_file b') pid \<and> disk_page (bp_file b') pid = bp_page b pid))"
  unfolding Let_def using flush_all_law [OF assms] clean_page_on_disk [of N "buffer_pool_flush_all b"]
  by metis

theorem flush_all_makes_pages_durable_witness:
  "disk_page (bp_file (buffer_pool_flush_all sample_pool)) 1 0 = 9"
  using flush_all_makes_pages_durable [OF sample_pool_ok(1)]
  by (simp add: Let_def sample_pool_ok sample_page_one)

end
