(* ===== verification/ShardRestart.thy ===== *)
theory ShardRestart
  imports ShardStore PoolDurability
begin

text \<open>
  Closing a shard and opening it again. The identity of a shard and the number format of its
  statistics survive every operation, also a failing one; the flush at closing makes the file
  the pool's contents, \<open>shard_init\<close> finds the B-tree root, the statistics and an active data
  page on it, and the reopened shard holds the same documents.
\<close>

section \<open>What no operation changes\<close>

lemma opened_as_fields [simp]:
  "opened_as i d (with_bpm sh b) = opened_as i d sh"
  "opened_as i d (with_next_page sh n) = opened_as i d sh"
  "opened_as i d (sh\<lparr>us_store := s\<rparr>) = opened_as i d sh"
  "opened_as i d (sh\<lparr>us_active_data_page_id := q\<rparr>) = opened_as i d sh"
  "opened_as i d (sh\<lparr>us_next_doc_id := n\<rparr>) = opened_as i d sh"
  "opened_as i d (sh\<lparr>us_total_docs := n\<rparr>) = opened_as i d sh"
  by (simp_all add: opened_as_def stats_wf_def with_bpm_def with_next_page_def)

interpretation identity: untouched_field "opened_as i d" for i d
  by unfold_locales simp_all

interpretation sums: untouched_field us_sum_dl
  by unfold_locales simp_all

lemma count_document_opened: "opened_as i d sh \<Longrightarrow> opened_as i d (count_document dl sh)"
  by (auto simp: opened_as_def stats_wf_def count_document_def Let_def binary64_ops simp del: is_binary64.simps)

lemma insert_opened:
  assumes "shard_insert_document sh node_id tf dl emb ts = Some (r, sh')" "opened_as i d sh"
  shows "opened_as i d sh'"
  using assms unfolding shard_insert_document_def Let_def
  by (auto split: option.splits prod.splits simp: count_document_opened
      dest!: identity.store_record_kept [of _ _ _ _ i d] identity.add_kept [of _ _ _ _ _ _ _ _ i d]
        identity.adds_kept [of _ _ _ _ _ _ _ i d])

text \<open>A successful insertion adds the document's lengths to the sums.\<close>

lemma insert_sums:
  assumes "shard_insert_document sh node_id tf dl emb ts = Some (0, sh')"
  shows "us_sum_dl sh' = map (\<lambda>i. dadd (us_sum_dl sh ! i) (d_of_nat (unat (dl ! i)))) [0..<4]"
  using assms unfolding shard_insert_document_def Let_def
  by (auto split: option.splits prod.splits simp: count_document_def Let_def sums.field_pool
      dest!: sums.store_record_kept sums.add_kept sums.adds_kept)

lemma run_op_opened: "run_op op sh = Some sh' \<Longrightarrow> opened_as i d sh \<Longrightarrow> opened_as i d sh'"
  by (cases op) (auto simp: identity.delete_kept identity.search_kept intro: insert_opened)

section \<open>The file after closing\<close>

lemma page_beyond:
  assumes ok: "bp_ok N {} b" and q: "N \<le> unat q"
  shows "bp_page b q = row_page q"
proof -
  have on_disk: "load_page (bp_file b) q = row_page q"
    using ok q by (auto simp: bp_ok_def load_page_def on_file_def page_offset_def)
  show ?thesis
  proof (cases "q = INVALID_PAGE_ID \<or> find_frame b q = None")
    case True
    then show ?thesis using on_disk by (auto simp: bp_page_def)
  next
    case False
    then obtain i where i: "find_frame b q = Some i" "q \<noteq> INVALID_PAGE_ID" by auto
    then have "i < unat (bp_pool_size b)" "fr_page_id (bp_frames b ! i) = q" using find_frame_sound by auto
    then show ?thesis using bp_ok_frame [OF ok, of i] i q by (simp add: frame_ok_def bp_page_def frame_page_def)
  qed
qed

text \<open>The flushed file has exactly the allocated pages, and loading a page from it yields what the
  pool held.\<close>

lemma flushed_file:
  assumes st: "bp_st N {} [] P b" and N: "0 < N"
  defines "d \<equiv> bp_file (buffer_pool_flush_all b)"
  shows "df_size d = N * PAGE_SIZE" "load_page d = P" "df_plan d = []"
proof -
  let ?b = "buffer_pool_flush_all b"
  have ok: "bp_ok N {} b" and P: "bp_page b = P" using st by (simp_all add: bp_st_def)
  have law: "bp_ok N {} ?b" "bp_page ?b = P" "\<forall>i < unat (bp_pool_size ?b). \<not> fr_is_dirty (bp_frames ?b ! i)"
    using flush_all_law [OF ok] P by simp_all
  note disk = clean_page_on_disk [OF law(1,3)]
  show "df_plan d = []" using law(1) by (simp add: d_def bp_ok_def)
  have small: "N < 2 ^ 32" and upper: "df_size d \<le> N * PAGE_SIZE" using law(1) by (simp_all add: d_def bp_ok_def)
  have "unat (of_nat (N - 1) :: u32) = N - 1" using small by (simp add: unat_of_nat)
  then have "on_file d (of_nat (N - 1))" using disk [of "of_nat (N - 1)"] N by (simp add: d_def)
  moreover have "N * PAGE_SIZE = (N - 1) * PAGE_SIZE + PAGE_SIZE" using N by (cases N) simp_all
  ultimately show size: "df_size d = N * PAGE_SIZE"
    using upper \<open>unat (of_nat (N - 1) :: u32) = N - 1\<close> by (simp add: on_file_def page_offset_def)
  show "load_page d = P"
  proof
    fix q
    show "load_page d q = P q"
    proof (cases "unat q < N")
      case True
      then show ?thesis using disk [of q] law(2) by (simp add: load_page_def d_def)
    next
      case False
      then have "\<not> on_file d q" by (simp add: on_file_def page_offset_def size)
      then show ?thesis using page_beyond [OF law(1), of q] False law(2) by (simp add: load_page_def)
    qed
  qed
qed

section \<open>The root and the active page\<close>

lemma btree_init_leaf:
  assumes st: "bp_st N {} [] P b" and r: "unat r < N" and leaf: "hdr_page_type (P r) = 4"
  shows "bp_st N {} [] P (btree_init r b)"
proof -
  obtain f b1 where f: "buffer_pool_fetch_page b r = (Some f, b1)" "bp_st N {} [r] P b1" "find_frame b1 r = Some f"
    using pool.fetch_st [OF st _ allocated_not_invalid [OF st r]] by auto
  have fr: "frame_page b1 f = P r" using pool.frame_st [OF f(2) _ f(3)] by simp
  have "bp_st N {} [] P (buffer_pool_unpin_page b1 r (fr_is_dirty (bp_frames b1 ! f)) HINT_NORMAL)"
  proof (cases "fr_is_dirty (bp_frames b1 ! f)")
    case True
    then show ?thesis using pool.unpin_dirty_st [OF f(2), of r HINT_NORMAL] r by simp
  next
    case False
    then show ?thesis using pool.unpin_clean_st [OF f(2), of r HINT_NORMAL] by simp
  qed
  then show ?thesis using f(1) fr leaf by (simp add: btree_init_def Let_def)
qed

lemma find_active:
  assumes "bp_st N {} [] P (us_bpm sh)" "k < N" "\<exists>q. 2 \<le> unat q \<and> unat q \<le> k \<and> hdr_page_type (P q) = 7"
  shows "\<exists>b q. find_active_page k k sh = (with_bpm sh b)\<lparr>us_active_data_page_id := q\<rparr> \<and> bp_st N {} [] P b \<and>
    2 \<le> unat q \<and> unat q \<le> k \<and> hdr_page_type (P q) = 7 \<and>
    (\<forall>q'. unat q < unat q' \<and> unat q' \<le> k \<longrightarrow> hdr_page_type (P q') \<noteq> 7)"
  using assms
proof (induction k arbitrary: sh)
  case (Suc k)
  let ?pid = "of_nat (Suc k) :: u32"
  have small: "N < 2 ^ 32" using Suc.prems(1) by (simp add: bp_st_def bp_ok_def)
  have pid: "unat ?pid = Suc k" using small Suc.prems(2) by (simp only: unat_of_nat) simp
  then have pidN: "unat ?pid < N" using Suc.prems(2) by simp
  have k: "2 \<le> Suc k" using Suc.prems(3) by auto
  obtain f b1 where f: "buffer_pool_fetch_page (us_bpm sh) ?pid = (Some f, b1)" "bp_st N {} [?pid] P b1" "find_frame b1 ?pid = Some f"
    using pool.fetch_st [OF Suc.prems(1) _ allocated_not_invalid [OF Suc.prems(1) pidN]] by auto
  have fr: "frame_page b1 f = P ?pid" using pool.frame_st [OF f(2) _ f(3)] by simp
  let ?b = "buffer_pool_unpin_page b1 ?pid False HINT_NORMAL"
  have st: "bp_st N {} [] P ?b" using pool.unpin_clean_st [OF f(2), of ?pid HINT_NORMAL] by simp
  have step: "find_active_page (Suc k) (Suc k) sh =
      (if hdr_page_type (P ?pid) = 7 then (with_bpm sh ?b)\<lparr>us_active_data_page_id := ?pid\<rparr>
       else find_active_page k k (with_bpm sh ?b))"
    using k f(1) fr by (simp add: Let_def)
  have upto: "unat q \<le> Suc k \<longleftrightarrow> unat q \<le> k \<or> q = ?pid" for q :: u32
    using pid by (auto simp: le_Suc_eq word_unat_eq_iff simp del: of_nat_Suc)
  show ?case
  proof (cases "hdr_page_type (P ?pid) = 7")
    case True
    then show ?thesis using step st pid k
      by (intro exI [of _ ?b] exI [of _ ?pid]) (auto simp del: find_active_page.simps of_nat_Suc)
  next
    case False
    have ex: "\<exists>q. 2 \<le> unat q \<and> unat q \<le> k \<and> hdr_page_type (P q) = 7"
      using Suc.prems(3) False unfolding upto by blast
    have st': "bp_st N {} [] P (us_bpm (with_bpm sh ?b))" using st by simp
    have kN: "k < N" using Suc.prems(2) by simp
    obtain b q where "find_active_page k k (with_bpm sh ?b) = (with_bpm (with_bpm sh ?b) b)\<lparr>us_active_data_page_id := q\<rparr>"
      "bp_st N {} [] P b" "2 \<le> unat q" "unat q \<le> k" "hdr_page_type (P q) = 7"
      "\<forall>q'. unat q < unat q' \<and> unat q' \<le> k \<longrightarrow> hdr_page_type (P q') \<noteq> 7"
      using Suc.IH [OF st' kN ex] by blast
    then show ?thesis using False unfolding upto step by (intro exI [of _ b] exI [of _ q]) (auto simp: with_bpm_def)
  qed
qed auto

section \<open>Which pages pass for data pages\<close>

text \<open>The page type overlays the low half of the first posting's data page id.\<close>

lemma low_half: "get_u16 m a = ucast (get_u32 m a)"
proof -
  have "peek 4 m a = peek 2 m a + 65536 * peek 2 m (a + 2)"
  proof -
    have "(4 :: nat) = Suc (Suc (Suc (Suc 0)))" "(2 :: nat) = Suc (Suc 0)" by simp_all
    then show ?thesis by (simp only: peek.simps) (simp del: One_nat_def)
  qed
  moreover have "x mod 2 ^ 32 mod 2 ^ 16 = x mod 2 ^ 16" for x :: nat by (rule mod_mod_cancel) simp
  ultimately have "peek 4 m a mod 2 ^ 32 mod 2 ^ 16 = peek 2 m a mod 2 ^ 16" by simp
  then have "unat (get_u16 m a) = unat (ucast (get_u32 m a) :: u16)"
    by (simp add: get_u16_def get_u32_def unat_of_nat unsigned_ucast_eq take_bit_eq_mod)
  then show ?thesis by (simp only: word_unat_eq_iff)
qed

lemma posting_page_type:
  assumes "posting_page p nx ps"
  shows "hdr_page_type p = ucast (ip_data_page_id (hd ps))"
proof -
  have n: "0 < unat (ix_posting_count p)" and ps: "ps = page_postings p"
    using posting_page_count(1) [OF assms] assms by (simp_all add: posting_page_def)
  have "hd ps = used_positions (posting_at p 0)"
    using n unfolding ps page_postings_def by (simp add: hd_map hd_upt)
  then have "ip_data_page_id (hd ps) = get_u32 p 16" by (simp add: used_positions_def posting_at_def)
  then show ?thesis by (simp add: low_half)
qed

lemma index_page_type:
  assumes inv: "shard_inv N P B G D sh" and g: "g \<in> G" and ty: "hdr_page_type (P g) = 7"
  shows "\<exists>q \<in> D. (ucast q :: u16) = 7"
proof -
  obtain M F I where rep: "index_rep N P M F I sh" "B = (\<lambda>t. map snd (I t))" "G = index_pages F I"
    using inv by (auto simp: shard_inv_def index_inv_def)
  have leaf: "hdr_page_type (P q) = 4" if "q \<in> F" for q
  proof -
    obtain L where L: "btree_rep N P (us_btree_root sh) L (us_store sh)" "F = chain_pages L"
      using rep(1) by (auto simp: index_rep_def btree_inv_def)
    have "chain P r L \<Longrightarrow> q \<in> chain_pages L \<Longrightarrow> hdr_page_type (P q) = 4" for r L
      by (induction P r L rule: chain.induct) (auto simp: leaf_types)
    then show ?thesis using L that by (auto simp: btree_rep_def)
  qed
  obtain t where t: "g \<in> fst ` set (I t)" using g leaf [of g] ty by (auto simp: rep(3) in_index_pages)
  obtain ps where ps: "(g, ps) \<in> set (I t)" using t by auto
  have "posting_chain P h L \<Longrightarrow> (g, ps) \<in> set L \<Longrightarrow> \<exists>nx. posting_page (P g) nx ps" for h L
    by (induction P h L rule: posting_chain.induct) auto
  then obtain nx where pg: "posting_page (P g) nx ps"
    using ps index_rep_term(1) [OF rep(1), of t] index_rep_term(2) [OF rep(1), of t]
    by (cases "M (ucast t)") fastforce+
  have ne: "ps \<noteq> []" using pg by (simp add: posting_page_def)
  then have "posting_key (hd ps) \<in> set (block_keys (B t))"
    using ps by (auto simp: block_keys_def rep(2) intro!: bexI [of _ ps] image_eqI [of _ _ "hd ps"])
  then have "posting_ok P D (us_next_doc_id sh) (posting_key (hd ps))" using inv by (auto simp: shard_inv_def)
  then show ?thesis
    using posting_page_type [OF pg] ty by (intro bexI [of _ "ip_data_page_id (hd ps)"]) (auto simp: posting_ok_def posting_key_def)
qed

section \<open>Closing and opening\<close>

text \<open>The open calls succeed and the two requests on the metadata file are served.\<close>

definition working_files :: "u32 \<Rightarrow> string \<Rightarrow> Disk \<Rightarrow> bool" where
  "working_files shard_id base_path disk \<longleftrightarrow>
     (let path = shard_path base_path shard_id in
      0 \<le> dk_data_fd disk (path ''.dat'') \<and> 0 \<le> dk_wal_fd disk (path ''.wal'') \<and>
      0 \<le> dk_meta_fd disk (path ''.meta'') \<and> dk_calloc disk \<and>
      next_outcome (dk_meta_plan disk (path ''.meta'')) = IO_full \<and>
      next_outcome (tl (dk_meta_plan disk (path ''.meta''))) = IO_full)"

text \<open>A restart: \<open>shard_close_with_path\<close>, then \<open>shard_init\<close> on what it left.\<close>

definition restart_shard :: "u32 \<Rightarrow> UnifiedShard \<Rightarrow> Disk \<Rightarrow> shard_open" where
  "restart_shard pool_size sh disk =
     shard_init (us_shard_id sh) (us_directory sh) pool_size
       (snd (shard_close_with_path (Some (us_directory sh)) sh disk))"

lemma closed_disk:
  assumes opened: "opened_as i d sh" and files: "working_files i d disk"
  defines "path \<equiv> shard_path d i"
  obtains disk' bs where "shard_close_with_path (Some d) sh disk = (fst (shard_close_with_path (Some d) sh disk), disk')"
    "dk_data disk' (path ''.dat'') = (bp_file (buffer_pool_flush_all (us_bpm sh)))\<lparr>df_plan := []\<rparr>"
    "dk_meta disk' (path ''.meta'') = Some bs"
    "\<And>sh'. shard_meta_load sh' (Some bs) = (0, (with_next_page sh' (us_next_page_id sh))
       \<lparr>us_total_docs := us_total_docs sh, us_next_doc_id := us_next_doc_id sh,
        us_avgdl := us_avgdl sh, us_sum_dl := us_sum_dl sh\<rparr>)"
    "0 \<le> dk_data_fd disk' (path ''.dat'')" "0 \<le> dk_wal_fd disk' (path ''.wal'')" "dk_calloc disk'"
proof -
  have o: "us_shard_id sh = i" "us_directory sh = d" "us_is_initialized sh" "stats_wf sh"
    using opened by (simp_all add: opened_as_def)
  have f: "0 \<le> dk_meta_fd disk (path ''.meta'')" "next_outcome (dk_meta_plan disk (path ''.meta'')) = IO_full"
    "next_outcome (tl (dk_meta_plan disk (path ''.meta''))) = IO_full" "0 \<le> dk_data_fd disk (path ''.dat'')"
    "0 \<le> dk_wal_fd disk (path ''.wal'')" "dk_calloc disk"
    using files by (simp_all add: working_files_def Let_def path_def)
  obtain bs where bs: "snd (shard_meta_save sh (dk_meta_fd disk (path ''.meta'')) (dk_meta_plan disk (path ''.meta''))
      (dk_meta disk (path ''.meta''))) = Some bs"
    "\<And>sh'. shard_meta_load sh' (Some bs) = (0, (with_next_page sh' (us_next_page_id sh))
       \<lparr>us_total_docs := us_total_docs sh, us_next_doc_id := us_next_doc_id sh,
        us_avgdl := us_avgdl sh, us_sum_dl := us_sum_dl sh\<rparr>)"
    using meta_saved [OF o(4) f(1-3), of "dk_meta disk (path ''.meta'')"] by (metis snd_conv)
  let ?b = "buffer_pool_flush_all (us_bpm sh)"
  let ?disk = "release_files sh ?b (disk\<lparr>dk_meta := (dk_meta disk)(path ''.meta'' := Some bs)\<rparr>)"
  have "snd (shard_close_with_path (Some d) sh disk) = ?disk"
    using o bs(1) by (simp add: shard_close_with_path_def Let_def path_def)
  moreover have "dk_data ?disk (path ''.dat'') = (bp_file ?b)\<lparr>df_plan := []\<rparr>" "dk_meta ?disk (path ''.meta'') = Some bs"
    "dk_data_fd ?disk = dk_data_fd disk" "dk_wal_fd ?disk = dk_wal_fd disk" "dk_calloc ?disk = dk_calloc disk"
    using o by (simp_all add: release_files_def Let_def path_def split: option.split)
  ultimately show ?thesis
    using that [of ?disk bs] bs(2) f by (metis prod.collapse)
qed

lemma wal_init_opens: "0 \<le> fd \<Longrightarrow> fst (wal_init path content fd plan) = 0"
  by (simp add: wal_init_def Let_def)

text \<open>The first page is the root leaf, and the data pages are those with the type number seven.\<close>

lemma root_page:
  assumes inv: "shard_inv N P B G D sh" and root: "us_btree_root sh = 0"
  shows "3 \<le> N" "hdr_page_type (P 0) = 4" "0 \<in> G"
proof -
  obtain M F I where rep: "index_rep N P M F I sh" "G = index_pages F I"
    using inv by (auto simp: shard_inv_def index_inv_def)
  show "3 \<le> N" using rep(1) by (simp add: index_rep_def)
  obtain L where "chain P 0 L" "L \<noteq> []" "F = chain_pages L"
    using rep(1) root by (auto simp: index_rep_def btree_inv_def btree_rep_def)
  then show "hdr_page_type (P 0) = 4" "0 \<in> G"
    by (cases L; auto simp: leaf_types rep(2) in_index_pages)+
qed

lemma type_7_pages:
  assumes inv: "shard_inv N P B G D sh" and root: "us_btree_root sh = 0" and tomb: "us_tombstone_page_id sh = 1"
    and types: "\<forall>q \<in> D. (ucast q :: u16) \<noteq> 7"
  shows "q \<in> D \<longleftrightarrow> hdr_page_type (P q) = 7 \<and> 2 \<le> unat q \<and> unat q < N"
proof
  assume q: "q \<in> D"
  then have "unat q < N" "q \<notin> G" "data_page (P q)" "1 \<notin> D" using inv tomb by (auto simp: shard_inv_def)
  moreover from this have "q \<noteq> 0" "q \<noteq> 1" using q root_page(3) [OF inv root] by auto
  then have "unat q \<noteq> 0" "unat q \<noteq> 1" by (auto simp: word_unat_eq_iff)
  ultimately show "hdr_page_type (P q) = 7 \<and> 2 \<le> unat q \<and> unat q < N" by (simp add: data_page_def)
next
  assume q: "hdr_page_type (P q) = 7 \<and> 2 \<le> unat q \<and> unat q < N"
  then have "q \<in> G \<union> D \<union> {1}" using inv tomb by (auto simp: shard_inv_def)
  moreover have "q \<notin> G" using index_page_type [OF inv] q types by blast
  ultimately show "q \<in> D" using q by auto
qed

text \<open>
  What the file, the log and the metadata record of a closed shard make \<open>shard_init\<close> build,
  before it looks for the active page.
\<close>

definition reopened :: "UnifiedShard \<Rightarrow> BufferPoolManager \<Rightarrow> UnifiedShard" where
  "reopened sh b = sh\<lparr>us_store := \<lparr>ps_bpm = b, ps_next_page_id = us_next_page_id sh\<rparr>,
     us_btree_root := 0, us_active_data_page_id := 2, us_tombstone_page_id := 1, us_is_initialized := False\<rparr>"

text \<open>The metadata record restores the counters and statistics of the shard that was saved.\<close>

definition restores :: "byte list \<Rightarrow> UnifiedShard \<Rightarrow> bool" where
  "restores bs sh \<longleftrightarrow> (\<forall>sh'. shard_meta_load sh' (Some bs) = (0, (with_next_page sh' (us_next_page_id sh))
     \<lparr>us_total_docs := us_total_docs sh, us_next_doc_id := us_next_doc_id sh,
      us_avgdl := us_avgdl sh, us_sum_dl := us_sum_dl sh\<rparr>))"

lemma init_reads_files:
  fixes i d
  defines "path \<equiv> shard_path d i"
  assumes df: "dk_data disk (path ''.dat'') = df" "df_size df = N * PAGE_SIZE" "df_plan df = []" "3 \<le> N" "N < 2 ^ 32"
    and root: "hdr_page_type (load_page df 0) = 4"
    and meta: "dk_meta disk (path ''.meta'') = Some bs" "restores bs sh" "us_shard_id sh = i" "us_directory sh = d"
    and fds: "0 \<le> dk_data_fd disk (path ''.dat'')" "0 \<le> dk_wal_fd disk (path ''.wal'')" "dk_calloc disk"
    and n: "4 \<le> unat n" "unat n < 2 ^ 31"
  obtains b where "bp_st N {} [] (load_page df) b" "bp_st N {} [] (load_page df) (btree_init 0 b)"
    "\<And>q. q \<noteq> INVALID_PAGE_ID \<Longrightarrow> \<not> bp_cached b q"
    "shard_init i d n disk = (let last = unat (us_next_page_id sh - 1) in
      Opened ((find_active_page last last (reopened sh (btree_init 0 b)))\<lparr>us_is_initialized := True\<rparr>))"
proof -
  define wal where "wal = snd (wal_init (path ''.wal'') (dk_wal disk (path ''.wal'')) (dk_wal_fd disk (path ''.wal''))
    (dk_wal_plan disk (path ''.wal'')))"
  have w: "wal_init (path ''.wal'') (dk_wal disk (path ''.wal'')) (dk_wal_fd disk (path ''.wal''))
      (dk_wal_plan disk (path ''.wal'')) = (0, wal)"
    using wal_init_opens [OF fds(2)] by (simp add: wal_def prod_eq_iff)
  obtain b where b: "buffer_pool_init (dk_data_fd disk (path ''.dat'')) (Some wal) n df True = Some b"
    "bp_st N {} [] (load_page df) b"
    using init_st [OF fds(1) df(3,2,5) n, of "Some wal"] by auto
  have size: "bp_file b = df" using b(1) by (auto simp: buffer_pool_init_def)
  have stb: "bp_st N {} [] (load_page df) (btree_init 0 b)"
    by (rule btree_init_leaf [OF b(2) _ root]) (use df(4) in simp)
  let ?sh1 = "reopened sh (btree_init 0 b)"
  have sh1: "?sh1 = \<lparr>us_shard_id = i, us_store = \<lparr>ps_bpm = btree_init 0 b, ps_next_page_id = us_next_page_id sh\<rparr>,
    us_btree_root = 0, us_total_docs = us_total_docs sh, us_avgdl = us_avgdl sh, us_sum_dl = us_sum_dl sh,
    us_active_data_page_id = 2, us_next_doc_id = us_next_doc_id sh, us_tombstone_page_id = 1,
    us_is_initialized = False, us_directory = d\<rparr>"
    using meta(3,4) by (cases sh) (simp add: reopened_def)
  have "shard_init i d n disk = (let last = unat (us_next_page_id sh - 1) in
      Opened ((find_active_page last last ?sh1)\<lparr>us_is_initialized := True\<rparr>))"
    using meta(1) meta(2) [unfolded restores_def, rule_format] fds(1,3) w b(1) df(1,2,4) size
    unfolding shard_init_def Let_def path_def by (simp add: sh1 with_next_page_def)
  then show ?thesis using that [OF b(2) stb init_not_cached [OF b(1)]] by simp
qed

lemma restart_reads_files:
  assumes inv: "shard_inv N P B G D sh" and opened: "opened_as i d sh" and files: "working_files i d disk"
    and n: "4 \<le> unat n" "unat n < 2 ^ 31"
  obtains b where "bp_st N {} [] P b"
    "restart_shard n sh disk =
      Opened ((find_active_page (N - 1) (N - 1) (reopened sh b))\<lparr>us_is_initialized := True\<rparr>)"
proof -
  let ?path = "shard_path d i"
  have o: "us_shard_id sh = i" "us_directory sh = d" "us_btree_root sh = 0"
    using opened by (simp_all add: opened_as_def)
  have st: "bp_st N {} [] P (us_bpm sh)" and next_id: "unat (us_next_page_id sh) = N"
    using shard_inv_st [OF inv] shard_inv_next [OF inv] .
  note root = root_page [OF inv o(3)]
  obtain disk' bs where disk: "snd (shard_close_with_path (Some d) sh disk) = disk'"
    "dk_data disk' (?path ''.dat'') = (bp_file (buffer_pool_flush_all (us_bpm sh)))\<lparr>df_plan := []\<rparr>"
    "dk_meta disk' (?path ''.meta'') = Some bs" "restores bs sh"
    "0 \<le> dk_data_fd disk' (?path ''.dat'')" "0 \<le> dk_wal_fd disk' (?path ''.wal'')" "dk_calloc disk'"
    unfolding restores_def by (rule closed_disk [OF opened files]) (metis snd_conv)
  define df where "df = bp_file (buffer_pool_flush_all (us_bpm sh))"
  have df: "df_size df = N * PAGE_SIZE" "load_page df = P" "df_plan df = []" "dk_data disk' (?path ''.dat'') = df"
    using flushed_file [OF st] root(1) disk(2) by (simp_all add: df_def)
  have N32: "N < 2 ^ 32" using st by (simp add: bp_st_def bp_ok_def)
  have leaf: "hdr_page_type (load_page df 0) = 4" using root(2) df(2) by simp
  have last: "unat (us_next_page_id sh - 1) = N - 1" using next_id root(1) by (simp add: unat_sub word_le_nat_alt)
  obtain b where "bp_st N {} [] (load_page df) (btree_init 0 b)" "shard_init i d n disk' =
      (let last = unat (us_next_page_id sh - 1) in
        Opened ((find_active_page last last (reopened sh (btree_init 0 b)))\<lparr>us_is_initialized := True\<rparr>))"
    by (rule init_reads_files [OF df(4,1,3) root(1) N32 leaf disk(3,4) o(1,2) disk(5-7) n])
  then show ?thesis using that disk(1) o(1,2) by (simp add: restart_shard_def last df(2) Let_def)
qed

lemma restart_inv:
  assumes inv: "shard_inv N P B G D sh" and opened: "opened_as i d sh" and files: "working_files i d disk"
    and n: "4 \<le> unat n" "unat n < 2 ^ 31" and types: "\<forall>q \<in> D. (ucast q :: u16) \<noteq> 7"
  obtains sh' where "restart_shard n sh disk = Opened sh'" "shard_inv N P B G D sh'" "opened_as i d sh'"
    "us_next_doc_id sh' = us_next_doc_id sh" "us_total_docs sh' = us_total_docs sh"
    "us_avgdl sh' = us_avgdl sh" "us_sum_dl sh' = us_sum_dl sh"
    "\<forall>q \<in> D. unat q \<le> unat (us_active_data_page_id sh')"
proof -
  have o: "us_btree_root sh = 0" "us_tombstone_page_id sh = 1" using opened by (simp_all add: opened_as_def)
  have less: "N - 1 < N" using root_page(1) [OF inv o(1)] by simp
  note D = type_7_pages [OF inv o types]
  obtain b where b: "bp_st N {} [] P b" "restart_shard n sh disk =
      Opened ((find_active_page (N - 1) (N - 1) (reopened sh b))\<lparr>us_is_initialized := True\<rparr>)"
    by (rule restart_reads_files [OF inv opened files n])
  let ?sh1 = "reopened sh b"
  have st1: "bp_st N {} [] P (us_bpm ?sh1)" using b(1) by (simp add: reopened_def)
  have "us_active_data_page_id sh \<in> D" using inv by (simp add: shard_inv_def)
  then have ex: "\<exists>q. 2 \<le> unat q \<and> unat q \<le> N - 1 \<and> hdr_page_type (P q) = 7" using D less by force
  obtain b2 a where a: "find_active_page (N - 1) (N - 1) ?sh1 = (with_bpm ?sh1 b2)\<lparr>us_active_data_page_id := a\<rparr>"
    "bp_st N {} [] P b2" "2 \<le> unat a" "unat a \<le> N - 1" "hdr_page_type (P a) = 7"
    "\<forall>q'. unat a < unat q' \<and> unat q' \<le> N - 1 \<longrightarrow> hdr_page_type (P q') \<noteq> 7"
    using find_active [OF st1 less ex] by blast
  have aD: "a \<in> D" using D a(3-5) less by auto
  define sh' where "sh' = ((with_bpm ?sh1 b2)\<lparr>us_active_data_page_id := a\<rparr>)\<lparr>us_is_initialized := True\<rparr>"
  have f: "us_tombstone_page_id sh' = us_tombstone_page_id sh" "us_active_data_page_id sh' = a"
    "us_next_doc_id sh' = us_next_doc_id sh" "us_btree_root sh' = us_btree_root sh"
    "us_store sh' = (us_store sh)\<lparr>ps_next_page_id := us_next_page_id sh, ps_bpm := b2\<rparr>"
    using o by (simp_all add: sh'_def reopened_def with_bpm_def)
  have idx: "index_inv N P B G sh" using inv by (simp add: shard_inv_def)
  have "index_inv N P B G sh'"
    by (rule index_inv_frame [OF idx a(2) order_refl shard_inv_next [OF inv] _ f(4,5)]) simp
  then have inv': "shard_inv N P B G D sh'" using inv aD unfolding shard_inv_def f by blast
  show ?thesis
  proof (rule that [OF _ inv'])
    show "restart_shard n sh disk = Opened sh'" unfolding b(2) a(1) sh'_def ..
    show "opened_as i d sh'" using opened by (simp add: opened_as_def stats_wf_def sh'_def reopened_def with_bpm_def)
    show "\<forall>q \<in> D. unat q \<le> unat (us_active_data_page_id sh')"
    proof
      fix q assume "q \<in> D"
      then show "unat q \<le> unat (us_active_data_page_id sh')" using a(6) D [of q] less f(2) by (metis Suc_pred' leD not_less_eq not_le zero_less_diff less_imp_diff_less gr0I not_less0)
    qed
  qed (simp_all add: sh'_def reopened_def with_bpm_def)
qed

lemma restart_keeps_documents:
  assumes "shard_inv N P B G D sh" "opened_as shard_id base_path sh" "working_files shard_id base_path disk"
    and "4 \<le> unat n" "unat n < 2 ^ 31" "\<forall>q \<in> D. (ucast q :: u16) \<noteq> page_type_code PAGE_TYPE_VECTOR_DATA"
  shows "\<exists>sh'. restart_shard n sh disk = Opened sh' \<and> shard_inv N P B G D sh' \<and> opened_as shard_id base_path sh' \<and>
    us_next_doc_id sh' = us_next_doc_id sh \<and> us_total_docs sh' = us_total_docs sh \<and>
    us_avgdl sh' = us_avgdl sh \<and> us_sum_dl sh' = us_sum_dl sh \<and>
    (\<forall>q \<in> D. unat q \<le> unat (us_active_data_page_id sh')) \<and>
    (\<forall>st. store_rel N P B st sh \<longrightarrow> store_rel N P B st sh')"
proof -
  have types: "\<forall>q \<in> D. (ucast q :: u16) \<noteq> 7" using assms(6) by simp
  obtain sh' where sh': "restart_shard n sh disk = Opened sh'" "shard_inv N P B G D sh'" "opened_as shard_id base_path sh'"
    "us_next_doc_id sh' = us_next_doc_id sh" "us_total_docs sh' = us_total_docs sh"
    "us_avgdl sh' = us_avgdl sh" "us_sum_dl sh' = us_sum_dl sh" "\<forall>q \<in> D. unat q \<le> unat (us_active_data_page_id sh')"
    by (rule restart_inv [OF assms(1-5) types])
  have "tombstones_of P sh' = tombstones_of P sh" using sh'(3) assms(2) by (simp add: opened_as_def)
  then have "store_rel N P B st sh'" if "store_rel N P B st sh" for st
    using that sh'(2,4,5) by (auto simp: store_rel_def)
  then show ?thesis using sh' by blast
qed

end
