(* ===== verification/EngineRestart.thy ===== *)
theory EngineRestart
  imports EngineStore ShardRestart
begin

text \<open>
  Closing a whole engine and opening it again: the shards' files are apart, so that every shard
  is restored from its own; the statistics of all documents are recomputed from the restored
  sums, and the average lengths they give are zero or in a range of positive numbers.
\<close>

section \<open>The files of a shard\<close>

lemma decimal_digits_one: "n < 10 \<Longrightarrow> decimal_digits (Suc k) n = [char_of (48 + n)]"
  by simp

lemma decimal_digits_two:
  "10 \<le> n \<Longrightarrow> n < 100 \<Longrightarrow> decimal_digits (Suc (Suc k)) n = [char_of (48 + n div 10), char_of (48 + n mod 10)]"
  by (simp add: div_less_iff_less_mult)

lemma char_of_digit: "(m :: nat) < 10 \<Longrightarrow> n < 10 \<Longrightarrow> char_of (48 + m) = (char_of (48 + n) :: char) \<longleftrightarrow> m = n"
proof
  assume "m < 10" "n < 10" "char_of (48 + m) = (char_of (48 + n) :: char)"
  then have "of_char (char_of (48 + m) :: char) = (of_char (char_of (48 + n) :: char) :: nat)" by metis
  then show "m = n" using \<open>m < 10\<close> \<open>n < 10\<close> by simp
qed simp

lemma decimal_digits_inj:
  assumes "m < 100" "n < 100" "decimal_digits 10 m = decimal_digits 10 n"
  shows "m = n"
proof -
  have ten': "decimal_digits 10 = decimal_digits (Suc (Suc 8))" by (rule arg_cong [where f = decimal_digits]) simp
  have ten: "decimal_digits 10 k = (if k < 10 then [char_of (48 + k)] else [char_of (48 + k div 10), char_of (48 + k mod 10)])"
    if "k < 100" for k
    using decimal_digits_one [of k "Suc 8"] decimal_digits_two [of k 8] that unfolding ten'
    by (simp del: decimal_digits.simps)
  have "m div 10 < 10" "n div 10 < 10" using assms(1,2) by (simp_all add: div_less_iff_less_mult)
  then have "if m < 10 then m = n else m div 10 = n div 10 \<and> m mod 10 = n mod 10"
    using assms(3) unfolding ten [OF assms(1)] ten [OF assms(2)]
    by (cases "m < 10"; cases "n < 10") (auto simp: char_of_digit)
  then show ?thesis by (metis div_mult_mod_eq)
qed

lemma shard_path_inj:
  assumes "length d \<le> 255" "length ext \<le> 5" "unat i < 16" "unat j < 16" "i \<noteq> j"
  shows "shard_path d i ext \<noteq> shard_path d j ext"
proof
  assume eq: "shard_path d i ext = shard_path d j ext"
  have len: "length (decimal_digits k n) \<le> k" for k n
    by (induction k n rule: decimal_digits.induct) auto
  have "shard_path d k ext = d @ ''/shard_'' @ decimal_digits 10 (unat k) @ ext" for k
    using assms(1,2) len [of 10 "unat k"] by (simp add: shard_path_def)
  then have "decimal_digits 10 (unat i) = decimal_digits 10 (unat j)" using eq by simp
  then show False using decimal_digits_inj [of "unat i" "unat j"] assms(3-5) by (simp add: word_unat_eq_iff)
qed

text \<open>Two disks that agree on everything opening and closing a shard looks at.\<close>

definition same_files :: "u32 \<Rightarrow> string \<Rightarrow> Disk \<Rightarrow> Disk \<Rightarrow> bool" where
  "same_files i d disk disk' \<longleftrightarrow>
     (let dat = shard_path d i ''.dat''; wal = shard_path d i ''.wal''; meta = shard_path d i ''.meta'' in
      dk_data disk' dat = dk_data disk dat \<and> dk_data_fd disk' dat = dk_data_fd disk dat \<and>
      dk_wal disk' wal = dk_wal disk wal \<and> dk_wal_fd disk' wal = dk_wal_fd disk wal \<and>
      dk_wal_plan disk' wal = dk_wal_plan disk wal \<and> dk_meta disk' meta = dk_meta disk meta \<and>
      dk_meta_fd disk' meta = dk_meta_fd disk meta \<and> dk_meta_plan disk' meta = dk_meta_plan disk meta \<and>
      dk_calloc disk' = dk_calloc disk)"

lemma same_files_refl [simp]: "same_files i d disk disk"
  by (simp add: same_files_def)

lemma same_files_trans: "same_files i d disk disk1 \<Longrightarrow> same_files i d disk1 disk2 \<Longrightarrow> same_files i d disk disk2"
  by (simp add: same_files_def Let_def)

lemma shard_init_same: "same_files i d disk disk' \<Longrightarrow> shard_init i d n disk' = shard_init i d n disk"
  unfolding same_files_def Let_def by (simp only: shard_init_def Let_def)

lemma working_files_same: "same_files i d disk disk' \<Longrightarrow> working_files i d disk' = working_files i d disk"
  by (simp add: same_files_def working_files_def Let_def)

lemma close_other_files:
  assumes sh: "us_shard_id sh = j" "us_directory sh = d"
    and d: "length d \<le> 255" "unat i < 16" "unat j < 16" "i \<noteq> j"
  shows "same_files i d disk (snd (shard_close_with_path (Some d) sh disk))"
  using shard_path_inj [OF d(1) _ d(2-4), of "''.dat''"] shard_path_inj [OF d(1) _ d(2-4), of "''.wal''"]
    shard_path_inj [OF d(1) _ d(2-4), of "''.meta''"]
  by (simp add: same_files_def shard_close_with_path_def release_files_def sh Let_def split: option.split)

section \<open>Closing all shards\<close>

definition close_all :: "string \<Rightarrow> UnifiedShard list \<Rightarrow> Disk \<Rightarrow> Disk" where
  "close_all d shs disk = fold (\<lambda>sh disk. snd (shard_close_with_path (Some d) sh disk)) shs disk"

lemma engine_close_disk: "snd (engine_close en disk) = close_all (en_base_path en) (en_shards en) disk"
proof -
  have "snd (fold (\<lambda>sh (shs, disk). let (sh, disk) = shard_close_with_path (Some d) sh disk in (shs @ [sh], disk)) shs (acc, disk)) =
      close_all d shs disk" for d shs acc
    by (induction shs arbitrary: acc disk) (simp_all add: close_all_def Let_def split: prod.split)
  then show ?thesis by (simp add: engine_close_def split_beta)
qed

text \<open>The shards numbered from \<open>k\<close> under a directory.\<close>

definition numbered :: "nat \<Rightarrow> string \<Rightarrow> UnifiedShard list \<Rightarrow> bool" where
  "numbered k d shs \<longleftrightarrow> length d \<le> 255 \<and> k + length shs \<le> 16 \<and>
     (\<forall>j < length shs. us_shard_id (shs ! j) = of_nat (k + j) \<and> us_directory (shs ! j) = d)"

lemma shard_number: "i < 16 \<Longrightarrow> unat (of_nat i :: u32) = i"
  by (simp add: unat_of_nat)

lemma shard_number_inj: "i < 16 \<Longrightarrow> j < 16 \<Longrightarrow> (of_nat i :: u32) = of_nat j \<longleftrightarrow> i = j"
  by (metis shard_number)

lemma numbered_Cons:
  assumes "numbered k d (sh # shs)"
  shows "us_shard_id sh = of_nat k" "us_directory sh = d" "numbered (Suc k) d shs" "length d \<le> 255" "k < 16"
proof -
  have n: "us_shard_id ((sh # shs) ! j) = of_nat (k + j) \<and> us_directory ((sh # shs) ! j) = d" if "j < Suc (length shs)" for j
    using that assms by (simp add: numbered_def)
  show "us_shard_id sh = of_nat k" "us_directory sh = d" using n [of 0] by simp_all
  have "us_shard_id (shs ! j) = of_nat (Suc k + j) \<and> us_directory (shs ! j) = d" if "j < length shs" for j
    using n [of "Suc j"] that by simp
  then show "numbered (Suc k) d shs" using assms by (simp add: numbered_def)
  show "length d \<le> 255" "k < 16" using assms by (simp_all add: numbered_def)
qed

lemma close_all_other:
  assumes "numbered k d shs" "i < k"
  shows "same_files (of_nat i) d disk (close_all d shs disk)"
  using assms
proof (induction shs arbitrary: k disk)
  case (Cons sh shs)
  note n = numbered_Cons [OF Cons.prems(1)]
  have "same_files (of_nat i) d disk (snd (shard_close_with_path (Some d) sh disk))"
    by (rule close_other_files [OF n(1,2,4)]) (use n(5) Cons.prems(2) shard_number shard_number_inj in simp_all)
  moreover have "same_files (of_nat i) d (snd (shard_close_with_path (Some d) sh disk))
      (close_all d shs (snd (shard_close_with_path (Some d) sh disk)))"
    by (rule Cons.IH [OF n(3)]) (use Cons.prems(2) in simp)
  ultimately show ?case using same_files_trans by (simp add: close_all_def)
qed (simp add: close_all_def)

text \<open>Each shard's files are what its own closing made of them.\<close>

lemma close_all_files:
  assumes "numbered k d shs" "j < length shs"
  shows "\<exists>disk1. same_files (of_nat (k + j)) d disk disk1 \<and>
    same_files (of_nat (k + j)) d (snd (shard_close_with_path (Some d) (shs ! j) disk1)) (close_all d shs disk)"
  using assms
proof (induction shs arbitrary: k j disk)
  case (Cons sh shs)
  note n = numbered_Cons [OF Cons.prems(1)]
  let ?disk = "snd (shard_close_with_path (Some d) sh disk)"
  show ?case
  proof (cases j)
    case 0
    then show ?thesis using close_all_other [OF n(3), of k ?disk]
      by (intro exI [of _ disk]) (simp add: close_all_def)
  next
    case (Suc i)
    then obtain disk1 where d1: "same_files (of_nat (Suc k + i)) d ?disk disk1"
      "same_files (of_nat (Suc k + i)) d (snd (shard_close_with_path (Some d) (shs ! i) disk1)) (close_all d shs ?disk)"
      using Cons.IH [OF n(3), of i ?disk] Cons.prems(2) by auto
    have kj: "k + j < 16" "k + j \<noteq> k" using Cons.prems Suc by (simp_all add: numbered_def)
    have "same_files (of_nat (k + j)) d disk ?disk"
      by (rule close_other_files [OF n(1,2,4)])
        (use n(5) kj shard_number shard_number_inj [of "k + j" k] in \<open>simp_all del: of_nat_add\<close>)
    moreover have "Suc k + i = k + j" using Suc by simp
    ultimately have "same_files (of_nat (k + j)) d disk disk1" "same_files (of_nat (k + j)) d
        (snd (shard_close_with_path (Some d) ((sh # shs) ! j) disk1)) (close_all d (sh # shs) disk)"
      using d1 Suc same_files_trans by (auto simp: close_all_def)
    then show ?thesis by blast
  qed
qed simp

section \<open>Opening all shards\<close>

lemma open_shards_opened:
  assumes "\<forall>j < k. shard_init (i + of_nat j) base n disk = Opened (f j)"
  shows "open_shards k i base n disk = Some (True, map f [0..<k])"
  using assms
proof (induction k arbitrary: i f)
  case (Suc k)
  have "shard_init (i + 1 + of_nat j) base n disk = Opened (f (Suc j))" if "j < k" for j
    using Suc.prems [rule_format, of "Suc j"] that by (simp add: algebra_simps)
  then have "open_shards k (i + 1) base n disk = Some (True, map (f \<circ> Suc) [0..<k])"
    using Suc.IH [of "i + 1" "f \<circ> Suc"] by simp
  moreover have "shard_init i base n disk = Opened (f 0)" using Suc.prems [rule_format, of 0] by simp
  moreover have "map f [0..<Suc k] = f 0 # map (f \<circ> Suc) [0..<k]"
    by (simp add: upt_conv_Cons map_Suc_upt [symmetric] del: upt_Suc)
  ultimately show ?case by simp
qed simp

lemma open_shards_each:
  assumes "open_shards k i base n disk = Some (True, shs)" "j < k"
  shows "shard_init (i + of_nat j) base n disk = Opened (shs ! j) \<and> length shs = k"
  using assms
proof (induction k arbitrary: i j shs)
  case (Suc k)
  then obtain sh shs1 where sh: "shard_init i base n disk = Opened sh" "open_shards k (i + 1) base n disk = Some (True, shs1)"
    "shs = sh # shs1"
    by (auto split: shard_open.splits)
  have len: "length shs1 = k"
    using Suc.IH [OF sh(2), of 0] sh(2) by (cases k) auto
  show ?case
  proof (cases j)
    case (Suc m)
    then show ?thesis using Suc.IH [OF sh(2), of m] Suc.prems(2) sh(3) len by (simp add: algebra_simps)
  qed (use sh len in simp)
qed simp

section \<open>The sums of the document lengths\<close>

fun doc_lengths :: "engine_doc \<Rightarrow> u32 list" where
  "doc_lengths (node_id, tf, dl, embedding, terms) = dl"

definition sum_dl :: "engine_doc list \<Rightarrow> nat \<Rightarrow> double" where
  "sum_dl docs f = fold (\<lambda>d s. dadd s (d_of_nat (unat (doc_lengths d ! f)))) docs (Fin 0)"

lemma sum_dl_none: "sum_dl [] = (\<lambda>_. Fin 0)"
  by (simp add: sum_dl_def fun_eq_iff)

text \<open>What an engine keeps of shard \<open>i\<close>: its identity, and the sums over the documents it got.\<close>

definition shard_kept :: "nat \<Rightarrow> string \<Rightarrow> engine_doc list \<Rightarrow> UnifiedShard \<Rightarrow> bool" where
  "shard_kept i d docs sh \<longleftrightarrow> opened_as (of_nat i) d sh \<and> us_sum_dl sh = map (sum_dl docs) [0..<4]"

lemma shard_kept_insert:
  assumes "shard_insert_document sh node tf dl emb ts = Some (0, sh')" "shard_kept i d docs sh"
  shows "shard_kept i d (docs @ [(node, tf, dl, emb, ts)]) sh'"
  using insert_opened [OF assms(1)] insert_sums [OF assms(1)] assms(2) by (simp add: shard_kept_def sum_dl_def)

definition shards_kept :: "string \<Rightarrow> (nat \<Rightarrow> engine_doc list) \<Rightarrow> UnifiedEngine \<Rightarrow> bool" where
  "shards_kept d docs en \<longleftrightarrow> (\<forall>i < length (en_shards en). shard_kept i d (docs i) (en_shards en ! i))"

lemma engine_insert_kept:
  assumes "engine_insert_all new en = Some en'" "shards_kept d docs en" "0 < length (en_shards en)"
  shows "shards_kept d (\<lambda>i. docs i @ routed (length (en_shards en)) i new) en' \<and>
    length (en_shards en') = length (en_shards en) \<and> en_base_path en' = en_base_path en"
  using assms
proof (induction new arbitrary: en docs)
  case (Cons x new)
  obtain node tf dl emb ts where x: "x = (node, tf, dl, emb, ts)" by (cases x)
  let ?n = "length (en_shards en)"
  let ?i = "shard_of_node ?n node"
  have i: "?i < ?n" by (rule shard_of_node_less [OF Cons.prems(3)])
  obtain sh where ins: "shard_insert_document (en_shards en ! ?i) node tf dl emb ts = Some (0, sh)"
    "engine_insert_all new (en\<lparr>en_shards := (en_shards en)[?i := sh]\<rparr>) = Some en'"
    using Cons.prems(1) x by (auto simp: engine_insert_document_def Let_def split: option.splits if_splits)
  have "shards_kept d (\<lambda>j. docs j @ routed ?n j [x]) (en\<lparr>en_shards := (en_shards en)[?i := sh]\<rparr>)"
    using shard_kept_insert [OF ins(1), of ?i d "docs ?i"] Cons.prems(2) i x
    by (auto simp: shards_kept_def nth_list_update routed_def)
  moreover have "(\<lambda>j. (docs j @ routed ?n j [x]) @ routed ?n j new) = (\<lambda>j. docs j @ routed ?n j (x # new))"
    by (auto simp: routed_def fun_eq_iff)
  ultimately show ?case using Cons.IH [OF ins(2)] Cons.prems(3) by fastforce
qed (simp add: routed_def)

lemma shard_init_sums:
  assumes "empty_files i d disk" "shard_init i d n disk = Opened sh"
  shows "us_sum_dl sh = replicate 4 (Fin 0)"
proof -
  have "dk_meta disk (shard_path d i ''.meta'') = None" using assms(1) by (simp add: empty_files_def Let_def)
  then show ?thesis using assms(2)
    by (auto simp: shard_init_def Let_def shard_meta_load_def sums.find_active_kept
        split: prod.splits if_splits option.splits)
qed

lemma engine_init_kept:
  assumes init: "engine_init d num ram disk = Some (0, en)" and num: "unat num \<le> 16" "0 < unat num"
    and ram: "unat ram \<le> 2 ^ 20" and files: "\<forall>i < unat num. empty_files (of_nat i) d disk"
  shows "shards_kept d (\<lambda>_. []) en" "en_base_path en = take 255 d" "length (en_shards en) = unat num"
proof -
  let ?n = "frames_per_shard ram num"
  obtain shs where shs: "open_shards (unat num) 0 d ?n disk = Some (True, shs)" "en_shards en = shs" "en_base_path en = take 255 d"
    using init by (auto simp: engine_init_def engine_recompute_global_stats_def Let_def split: if_splits option.splits prod.splits)
  have each: "shard_init (of_nat i) d ?n disk = Opened (shs ! i)" "length shs = unat num" if "i < unat num" for i
    using open_shards_each [OF shs(1) that] by simp_all
  show "length (en_shards en) = unat num" using each(2) num(2) shs(2) by blast
  show "en_base_path en = take 255 d" by (rule shs(3))
  have n: "4 \<le> unat ?n" "unat ?n < 2 ^ 31" using frames_per_shard_bounds [OF ram num(2)] by simp_all
  have "shard_kept i d [] (shs ! i)" if i: "i < unat num" for i
  proof -
    have e: "empty_files (of_nat i) d disk" using files i by blast
    obtain sh P where "shard_init (of_nat i) d ?n disk = Opened sh" "opened_as (of_nat i) d sh"
      by (rule shard_init_fresh [OF e n])
    moreover have "us_sum_dl (shs ! i) = replicate 4 (Fin 0)" by (rule shard_init_sums [OF e each(1) [OF i]])
    ultimately show ?thesis using each(1) [OF i] by (simp add: shard_kept_def sum_dl_none map_replicate_const)
  qed
  then show "shards_kept d (\<lambda>_. []) en" using each(2) num(2) shs(2) by (simp add: shards_kept_def)
qed

text \<open>A sum of at most \<open>n\<close> lengths: zero, or positive and below a power of two.\<close>

definition sum_range :: "nat \<Rightarrow> bool \<Rightarrow> double \<Rightarrow> bool" where
  "sum_range n p x \<longleftrightarrow> (if p then between 0 (32 + int n) x else x = Fin 0)"

lemma sum_range_up_to: "sum_range n p x \<Longrightarrow> up_to (32 + int n) x"
  using between_up_to by (auto simp: sum_range_def up_to_def split: if_splits)

lemma sum_range_weaken: "sum_range m p x \<Longrightarrow> m \<le> n \<Longrightarrow> sum_range n p x"
  by (auto simp: sum_range_def elim: between_weaken split: if_splits)

lemma sum_range_add:
  assumes a: "sum_range m p a" and b: "sum_range n q b" and n: "m \<le> 900" "n \<le> 900"
  shows "sum_range (max m n + 1) (p \<or> q) (dadd a b)"
proof -
  have max: "max (32 + int m) (32 + int n) + 1 = 32 + int (max m n + 1)" "max (32 + int n) (32 + int m) + 1 = 32 + int (max m n + 1)"
    by auto
  consider "p" | "q" | "\<not> p" "\<not> q" by blast
  then show ?thesis
  proof cases
    case 1
    then have "between 0 (32 + int m) a" using a by (simp add: sum_range_def)
    from between_dadd(1) [OF this sum_range_up_to [OF b]] show ?thesis
      using 1 n unfolding max by (simp add: sum_range_def)
  next
    case 2
    then have "between 0 (32 + int n) b" using b by (simp add: sum_range_def)
    from between_dadd(2) [OF this sum_range_up_to [OF a]] show ?thesis
      using 2 n unfolding max by (simp add: sum_range_def)
  qed (use a b in \<open>simp add: sum_range_def\<close>)
qed

lemma sum_range_length: "sum_range 0 (0 < v) (d_of_nat (unat (v :: u32)))"
  using between_u32 [of v] by (cases "v = 0") (auto simp: sum_range_def d_of_nat_def word_gt_0)

lemma sum_dl_range:
  "length docs \<le> 800 \<Longrightarrow> sum_range (length docs) (\<exists>d \<in> set docs. 0 < doc_lengths d ! f) (sum_dl docs f)"
proof (induction docs rule: rev_induct)
  case Nil
  then show ?case by (simp add: sum_dl_def sum_range_def)
next
  case (snoc d docs)
  then have IH: "sum_range (length docs) (\<exists>d \<in> set docs. 0 < doc_lengths d ! f) (sum_dl docs f)" by simp
  have "sum_dl (docs @ [d]) f = dadd (sum_dl docs f) (d_of_nat (unat (doc_lengths d ! f)))" by (simp add: sum_dl_def)
  then show ?case
    using sum_range_add [OF IH sum_range_length [of "doc_lengths d ! f"]] snoc.prems by (simp add: disj_commute)
qed

lemma shards_sum_range:
  assumes "\<forall>i < length shs. sum_range 64 (p i) (us_sum_dl (shs ! i) ! f)" "length shs \<le> 16"
  shows "sum_range (64 + length shs) (\<exists>i < length shs. p i) (fold (\<lambda>sh s. dadd s (us_sum_dl sh ! f)) shs (Fin 0))"
  using assms
proof (induction shs rule: rev_induct)
  case Nil
  then show ?case by (simp add: sum_range_def)
next
  case (snoc sh shs)
  have "sum_range 64 (p i) (us_sum_dl (shs ! i) ! f)" if "i < length shs" for i
    using snoc.prems(1) [rule_format, of i] that by (simp add: nth_append)
  then have IH: "sum_range (64 + length shs) (\<exists>i < length shs. p i) (fold (\<lambda>sh s. dadd s (us_sum_dl sh ! f)) shs (Fin 0))"
    using snoc by simp
  have last: "sum_range 64 (p (length shs)) (us_sum_dl sh ! f)" using snoc.prems(1) [rule_format, of "length shs"] by simp
  have "(\<exists>i < length (shs @ [sh]). p i) \<longleftrightarrow> (\<exists>i < length shs. p i) \<or> p (length shs)" by (auto simp: less_Suc_eq)
  then show ?case using sum_range_add [OF IH last] snoc.prems(2) by simp
qed

lemma total_of_shards:
  assumes "\<forall>i < length shs. us_total_docs (shs ! i) = of_nat (m i)" "\<forall>i < length shs. m i \<le> 64"
  shows "fold (\<lambda>sh t. t + ucast (us_total_docs sh)) shs (0 :: u64) = of_nat (sum m {..<length shs})"
  using assms
proof (induction shs rule: rev_induct)
  case (snoc sh shs)
  have "us_total_docs (shs ! i) = of_nat (m i)" "m i \<le> 64" if "i < length shs" for i
    using snoc.prems(1) [rule_format, of i] snoc.prems(2) that by (simp_all add: nth_append)
  then have IH: "fold (\<lambda>sh t. t + ucast (us_total_docs sh)) shs (0 :: u64) = of_nat (sum m {..<length shs})" using snoc by simp
  have "us_total_docs sh = of_nat (m (length shs))" "m (length shs) \<le> 64" using snoc.prems by (auto dest: spec [of _ "length shs"])
  then have "(ucast (us_total_docs sh) :: u64) = of_nat (m (length shs))"
    by (simp add: word_unat_eq_iff unsigned_ucast_eq take_bit_nat_eq_self unat_of_nat)
  then show ?case using IH by simp
qed simp

text \<open>An average over at least one document: positive exactly when some document has a length.\<close>

lemma average_range:
  assumes s: "sum_range 80 p s" and n: "0 < n" "n \<le> 2 ^ 20"
  shows "(ddiv s (d_of_nat n) = Fin 0 \<or> between (- 34) 114 (ddiv s (d_of_nat n))) \<and> (dlt (Fin 0) (ddiv s (d_of_nat n)) \<longleftrightarrow> p)"
proof -
  have u: "unat (of_nat n :: u32) = n" using n(2) by (simp add: unat_of_nat)
  then have "0 < (of_nat n :: u32)" using n(1) by (simp add: word_less_nat_alt)
  then have d: "between 0 32 (d_of_nat n)" using between_u32 [of "of_nat n"] u by simp
  show ?thesis
  proof (cases p)
    case True
    then have "between (- 32) 112 (ddiv s (d_of_nat n))" using between_ddiv [OF _ d, of 0 112 s] s by (simp add: sum_range_def)
    then show ?thesis using True between_positive between_weaken [of "- 32" 112 _ "- 34" 114] by simp
  next
    case False
    then have "ddiv s (d_of_nat n) = Fin 0" using s d by (auto simp: sum_range_def between_def)
    then show ?thesis using False by simp
  qed
qed

section \<open>Closing and opening\<close>

text \<open>No page whose id ends in 7 passes for a data page.\<close>

definition no_lookalike_page :: "UnifiedShard \<Rightarrow> bool" where
  "no_lookalike_page sh \<longleftrightarrow>
     (\<forall>q. unat q < unat (us_next_page_id sh) \<and> (ucast q :: u16) = page_type_code PAGE_TYPE_VECTOR_DATA \<longrightarrow>
       hdr_page_type (bp_page (us_bpm sh) q) \<noteq> page_type_code PAGE_TYPE_VECTOR_DATA)"

lemma restart_store:
  assumes rel: "store_rel N P B st sh" and kept: "shard_kept i d docs sh" and files: "working_files (of_nat i) d disk"
    and n: "4 \<le> unat n" "unat n < 2 ^ 31" and look: "no_lookalike_page sh"
  obtains sh' where "restart_shard n sh disk = Opened sh'" "store_rel N P B st sh'" "shard_kept i d docs sh'"
proof -
  obtain G D where inv: "shard_inv N P B G D sh" using rel by (auto simp: store_rel_def)
  have opened: "opened_as (of_nat i) d sh" using kept by (simp add: shard_kept_def)
  have pages: "bp_page (us_bpm sh) = P" "unat (us_next_page_id sh) = N"
    using shard_inv_st [OF inv] shard_inv_next [OF inv] by (simp_all add: bp_st_def)
  have "(ucast q :: u16) \<noteq> page_type_code PAGE_TYPE_VECTOR_DATA" if "q \<in> D" for q
  proof -
    have "unat q < N" "hdr_page_type (P q) = 7" using inv that by (auto simp: shard_inv_def data_page_def)
    then show ?thesis using look by (auto simp: no_lookalike_page_def pages)
  qed
  then obtain sh' where "restart_shard n sh disk = Opened sh'" "opened_as (of_nat i) d sh'" "us_sum_dl sh' = us_sum_dl sh"
    "store_rel N P B st sh \<longrightarrow> store_rel N P B st sh'"
    using restart_keeps_documents [OF inv opened files n] by blast
  then show ?thesis using that rel kept by (simp add: shard_kept_def)
qed

lemma reopened_shard:
  assumes rel: "engine_rel K en sts" and kept: "shards_kept d docs en" and base: "length d \<le> 255"
    and num: "length sts \<le> 16" and files: "\<forall>i < length sts. working_files (of_nat i) d disk"
    and n: "4 \<le> unat n" "unat n < 2 ^ 31" and look: "\<forall>sh \<in> set (en_shards en). no_lookalike_page sh" and i: "i < length sts"
  shows "\<exists>sh. shard_init (of_nat i) d n (close_all d (en_shards en) disk) = Opened sh \<and>
    (\<exists>N P B. store_rel N P B (sts ! i) sh \<and> N \<le> K) \<and> shard_kept i d (docs i) sh"
proof -
  have len: "length (en_shards en) = length sts" by (rule engine_rel_length [OF rel])
  let ?sh = "en_shards en ! i"
  have k: "shard_kept j d (docs j) (en_shards en ! j)" if "j < length sts" for j
    using kept that len by (simp add: shards_kept_def)
  have id: "us_shard_id ?sh = of_nat i" "us_directory ?sh = d" using k [OF i] by (simp_all add: shard_kept_def opened_as_def)
  have "numbered 0 d (en_shards en)" using k base num len by (simp add: numbered_def shard_kept_def opened_as_def)
  then obtain disk1 where d1: "same_files (of_nat i) d disk disk1"
    "same_files (of_nat i) d (snd (shard_close_with_path (Some d) ?sh disk1)) (close_all d (en_shards en) disk)"
    using close_all_files [of 0 d "en_shards en" i disk] i len by auto
  have "working_files (of_nat i) d disk1" using files i working_files_same [OF d1(1)] by blast
  moreover obtain N P B where st: "store_rel N P B (sts ! i) ?sh" "N \<le> K" using engine_rel_shard [OF rel i] by blast
  moreover have "no_lookalike_page ?sh" using look i len by simp
  ultimately obtain sh where "restart_shard n ?sh disk1 = Opened sh" "store_rel N P B (sts ! i) sh" "shard_kept i d (docs i) sh"
    using restart_store [OF _ k [OF i] _ n] by metis
  then show ?thesis using shard_init_same [OF d1(2)] st(2) by (auto simp: restart_shard_def id)
qed

lemma engine_restart:
  assumes rel: "engine_rel K en sts" and kept: "shards_kept d docs en" and base: "en_base_path en = d" "length d \<le> 255"
    and num: "unat num = length sts" "0 < length sts" "length sts \<le> 16" and ram: "unat ram \<le> 2 ^ 20"
    and files: "\<forall>i < length sts. working_files (of_nat i) d disk" and look: "\<forall>sh \<in> set (en_shards en). no_lookalike_page sh"
    and sizes: "\<forall>i < length sts. length (ds_docs (sts ! i)) = length (docs i) \<and> length (docs i) \<le> 64"
    and some: "\<exists>i < length sts. docs i \<noteq> []"
  obtains en' where "engine_init d num ram (snd (engine_close en disk)) = Some (0, en')" "engine_rel K en' sts"
    "en_field_weights en' = new_weights" "en_k1 en' = new_k1" "en_b en' = new_b" "averages_in_range (en_global_avgdl en')"
    "\<forall>f < 4. dlt (Fin 0) (en_global_avgdl en' ! f) \<longleftrightarrow> (\<exists>i < length sts. \<exists>x \<in> set (docs i). 0 < doc_lengths x ! f)"
proof -
  let ?n = "frames_per_shard ram num" and ?m = "length sts"
  have num0: "0 < unat num" using num by simp
  then have nz: "num \<noteq> 0" by auto
  have n: "4 \<le> unat ?n" "unat ?n < 2 ^ 31" using frames_per_shard_bounds [OF ram num0] by simp_all
  define disk' where "disk' = snd (engine_close en disk)"
  have disk': "disk' = close_all d (en_shards en) disk" by (simp add: disk'_def engine_close_disk base(1))
  obtain f where f: "\<And>i. i < ?m \<Longrightarrow> shard_init (of_nat i) d ?n disk' = Opened (f i) \<and>
      (\<exists>N P B. store_rel N P B (sts ! i) (f i) \<and> N \<le> K) \<and> shard_kept i d (docs i) (f i)"
    using reopened_shard [OF rel kept base(2) num(3) files n look] unfolding disk' by metis
  define shs where "shs = map f [0..<?m]"
  have opened: "open_shards ?m 0 d ?n disk' = Some (True, shs)"
    unfolding shs_def by (rule open_shards_opened) (use f in simp)
  have shs: "length shs = ?m" "shs ! i = f i" if "i < ?m" for i using that by (simp_all add: shs_def)
  have len: "length shs = ?m" by (simp add: shs_def)
  define t where "t = sum (\<lambda>i. length (docs i)) {..<?m}"
  have total: "fold (\<lambda>sh t. t + ucast (us_total_docs sh)) shs (0 :: u64) = of_nat t"
    using total_of_shards [of shs "\<lambda>i. length (docs i)"] f sizes len by (force simp: shs store_rel_def t_def)
  have "t \<le> sum (\<lambda>i. 64) {..<?m}" unfolding t_def by (rule sum_mono) (use sizes in auto)
  then have small: "t \<le> 2 ^ 20" using num(3) by simp
  obtain i where "i < ?m" "docs i \<noteq> []" using some by blast
  then have pos: "0 < t" by (auto simp: t_def sum_pos2 [of _ i])
  have u: "unat (of_nat t :: u64) = t" using small by (simp add: unat_of_nat)
  have ne: "(0 :: u64) < of_nat t" using pos u by (simp add: word_less_nat_alt)
  define s where "s = (\<lambda>f. fold (\<lambda>sh s. dadd s (us_sum_dl sh ! f)) shs (Fin 0))"
  have sums: "sum_range 80 (\<exists>i < ?m. \<exists>x \<in> set (docs i). 0 < doc_lengths x ! f') (s f')" if "f' < 4" for f'
  proof -
    have "sum_range 64 (\<exists>x \<in> set (docs i). 0 < doc_lengths x ! f') (us_sum_dl (shs ! i) ! f')" if "i < length shs" for i
    proof -
      have "length (docs i) \<le> 64" "us_sum_dl (shs ! i) ! f' = sum_dl (docs i) f'"
        using sizes that f [of i] len \<open>f' < 4\<close> by (simp_all add: shs shard_kept_def)
      then show ?thesis using sum_range_weaken [OF sum_dl_range] by simp
    qed
    then show ?thesis
      using shards_sum_range [of shs "\<lambda>i. \<exists>x \<in> set (docs i). 0 < doc_lengths x ! f'" f'] num(3) len
      by (auto simp: s_def intro: sum_range_weaken)
  qed
  let ?avg = "map (\<lambda>f. ddiv (s f) (d_of_nat t)) [0..<4]"
  note avg = average_range [OF sums pos small]
  obtain en' where en': "engine_init d num ram disk' = Some (0, en')" "en_shards en' = shs" "en_global_avgdl en' = ?avg"
    "en_field_weights en' = new_weights" "en_k1 en' = new_k1" "en_b en' = new_b"
    using opened nz ne u total
    by (auto simp: engine_init_def engine_recompute_global_stats_def Let_def num(1) s_def [symmetric])
  have rel': "engine_rel K en' sts"
    using f len engine_init_numbered [OF en'(1)] by (auto simp: engine_rel_def en'(2) list_all2_conv_all_nth shs)
  show ?thesis
    by (rule that [OF en'(1) [unfolded disk'_def] rel' en'(4-6)])
      (use avg in \<open>auto simp: averages_in_range_def en'(3)\<close>)
qed

end
