(* ===== verification/RestartProperties.thy ===== *)
theory RestartProperties
  imports ShardRestart ShardProperties
begin

text \<open>
  The properties of a restart: the statistics a shard keeps of its insertions, what a closed
  and reopened shard answers, and the page that makes \<open>shard_init\<close> choose a wrong active page.
\<close>

section \<open>Examples\<close>

lemma empty_disk_works: "working_files i base empty_disk"
  by (simp add: working_files_def empty_disk_def Let_def next_outcome_def)

lemma fresh_shard_opened:
  obtains sh P where "shard_init 0 ''db'' 1024 empty_disk = Opened sh" "shard_inv 3 P (\<lambda>_. []) {0} {2} sh"
    "us_next_doc_id sh = 0" "opened_as 0 ''db'' sh"
  by (rule shard_init_fresh [OF empty_disk_files, of 1024 0 "''db''"]) auto



section \<open>Statistics\<close>

text \<open>The total length of a field over stored documents, and the statistics that describe them.\<close>

definition total_length :: "nat \<Rightarrow> (UnifiedDocRecord \<times> u32 list) list \<Rightarrow> nat" where
  "total_length f docs = sum_list (map (\<lambda>(r, ts). unat (rc_document_lengths r ! f)) docs)"

definition describes :: "(UnifiedDocRecord \<times> u32 list) list \<Rightarrow> UnifiedShard \<Rightarrow> bool" where
  "describes docs sh \<longleftrightarrow>
     us_sum_dl sh = map (\<lambda>f. Fin (real (total_length f docs))) [0..<4] \<and>
     us_avgdl sh = (if docs = [] then replicate 4 (Fin 10)
       else map (\<lambda>f. to_double (real (total_length f docs) / real (length docs))) [0..<4])"

interpretation statistics: untouched_field "\<lambda>sh. (us_total_docs sh, us_sum_dl sh, us_avgdl sh)"
  by unfold_locales simp_all

lemma describes_statistics:
  "(us_total_docs sh', us_sum_dl sh', us_avgdl sh') = (us_total_docs sh, us_sum_dl sh, us_avgdl sh) \<Longrightarrow>
    describes docs sh' = describes docs sh"
  by (simp add: describes_def)

lemma total_length_bound: "total_length f docs \<le> length docs * 2 ^ 32"
proof (induction docs)
  case (Cons d docs)
  have "unat (rc_document_lengths (fst d) ! f) \<le> 2 ^ 32" using unat_u32_less by (simp add: less_imp_le)
  then show ?case using Cons by (simp add: total_length_def case_prod_unfold)
qed (simp add: total_length_def)

lemma insert_statistics:
  assumes "shard_insert_document sh node_id tf dl emb ts = Some (r, sh')"
  shows "(us_total_docs sh', us_sum_dl sh', us_avgdl sh') =
    (if r = 0 then (us_total_docs (count_document dl sh), us_sum_dl (count_document dl sh), us_avgdl (count_document dl sh))
     else (us_total_docs sh, us_sum_dl sh, us_avgdl sh))"
  using assms unfolding shard_insert_document_def Let_def
  by (auto split: option.splits prod.splits simp: count_document_def Let_def with_bpm_def
      dest!: statistics.store_record_kept statistics.add_kept statistics.adds_kept)

text \<open>Summing up to a million lengths is exact.\<close>

lemma count_document_describes:
  assumes "describes docs sh" "us_total_docs sh = of_nat (length docs)" "length docs < max_possible_postings"
    and "rc_document_lengths d = dl"
  shows "describes (docs @ [(d, ts)]) (count_document dl sh)"
proof -
  have total: "total_length f (docs @ [(d, ts)]) = total_length f docs + unat (dl ! f)" for f
    using assms(4) by (simp add: total_length_def)
  have "total_length f (docs @ [(d, ts)]) \<le> 2 ^ 53" for f
    using total_length_bound [of f "docs @ [(d, ts)]"] assms(3) by simp
  then have "to_double (real (total_length f (docs @ [(d, ts)]))) = Fin (real (total_length f (docs @ [(d, ts)])))" for f
    using d_of_nat_exact [of "total_length f (docs @ [(d, ts)])"] by (simp add: d_of_nat_def)
  then have add: "dadd (Fin (real (total_length f docs))) (d_of_nat (unat (dl ! f))) = Fin (real (total_length f (docs @ [(d, ts)])))" for f
    by (simp add: d_of_u32 total)
  have "unat (of_nat (length docs) + 1 :: u32) = length docs + 1"
    using assms(3) by (simp add: unat_word_ariths unat_of_nat)
  then have "d_of_nat (unat (us_total_docs sh + 1)) = Fin (real (length docs + 1))"
    using d_of_nat_exact [of "length docs + 1"] assms(2,3) by simp
  then show ?thesis using assms(1) add by (simp add: describes_def count_document_def Let_def)
qed

lemma run_op_describes:
  assumes rel: "store_rel N P B st sh" "store_rel N' P' B' (spec_op op st) sh'" and run: "run_op op sh = Some sh'"
    and stats: "describes (ds_docs st) sh" and docs: "length (ds_docs (spec_op op st)) \<le> max_possible_postings"
  shows "describes (ds_docs (spec_op op st)) sh'"
proof (cases op)
  case (InsertDoc node_id tf dl emb ts)
  then obtain r where r: "shard_insert_document sh node_id tf dl emb ts = Some (r, sh')" using run by auto
  have n: "us_total_docs sh = of_nat (length (ds_docs st))" "us_total_docs sh' = us_total_docs sh + 1"
    using rel InsertDoc by (simp_all add: store_rel_def)
  have "r = 0" using insert_statistics [OF r] n(2) by (auto split: if_splits)
  then have "describes docs sh' = describes docs (count_document dl sh)" for docs
    using insert_statistics [OF r] by (simp add: describes_def)
  then show ?thesis using count_document_describes [OF stats n(1)] docs InsertDoc by simp
next
  case (DeleteDoc d)
  then show ?thesis using run stats describes_statistics [OF statistics.delete_kept [of sh d]] by auto
next
  case (SearchTerm t idf avgdl weights k1 b m)
  then show ?thesis using run stats describes_statistics [OF statistics.search_kept] by auto
qed

lemma run_ops_describe:
  assumes "store_rel N P B st sh" "describes (ds_docs st) sh"
    and "\<forall>op \<in> set ops. op_ok op" "N + sum_list (map op_pages ops) + 1 < 2 ^ 32"
    and "length (ds_docs st) + op_count ops \<le> max_possible_postings"
  shows "\<exists>sh' N' P' B'. run_ops ops sh = Some sh' \<and> store_rel N' P' B' (fold spec_op ops st) sh' \<and>
    describes (ds_docs (fold spec_op ops st)) sh'"
  using assms
proof (induction ops arbitrary: N P B st sh)
  case (Cons op ops)
  have 1: "op_ok op" "N + op_pages op + 1 < 2 ^ 32" "length (ds_docs st) \<le> max_possible_postings"
    using Cons.prems(3-5) by simp_all
  obtain sh1 N1 P1 B1 where s: "run_op op sh = Some sh1" "store_rel N1 P1 B1 (spec_op op st) sh1" "N1 \<le> N + op_pages op"
    using run_op_refines [OF Cons.prems(1) 1] by blast
  have count: "length (ds_docs (spec_op op st)) + op_count ops = length (ds_docs st) + op_count (op # ops)"
    using docs_fold_op [of "op # ops" st] docs_fold_op [of ops "spec_op op st"] by simp
  have "describes (ds_docs (spec_op op st)) sh1"
    using run_op_describes [OF Cons.prems(1) s(2,1) Cons.prems(2)] count Cons.prems(5) by simp
  moreover have "N1 + sum_list (map op_pages ops) + 1 < 2 ^ 32" using Cons.prems(4) s(3) by simp
  ultimately show ?case using Cons.IH [OF s(2)] Cons.prems(3,5) s(1) count by simp
qed auto

lemma new_shard_described:
  assumes "empty_files i d disk" "shard_init i d n disk = Opened sh"
  shows "describes (ds_docs no_docs) sh"
proof -
  have "dk_meta disk (shard_path d i ''.meta'') = None" using assms(1) by (simp add: empty_files_def Let_def)
  then have "(us_total_docs sh, us_sum_dl sh, us_avgdl sh) = (0, replicate 4 (Fin 0), replicate 4 (Fin 10))"
    using assms(2)
    by (auto simp: shard_init_def Let_def shard_meta_load_def statistics.find_active_kept [simplified]
        split: prod.splits if_splits option.splits)
  then show ?thesis by (simp add: describes_def total_length_def map_replicate_const)
qed

section \<open>Properties\<close>

text \<open>C15: The statistics of a shard are those of its insertions. After any sequence of insertions,
  deletions and indexed searches on a shard opened on empty files, the document counter and the
  next id are the number of insertions, each summed length is the exact sum of that field over the
  inserted documents (floating-point addition loses nothing below a million documents), and
  each average is the correctly rounded quotient of the two. Deletions and searches change none
  of them: a deleted document stays in the averages. No I/O request of the files fails.\<close>

theorem shard_statistics_describe_insertions:
  assumes "empty_files shard_id base_path disk" "4 \<le> unat n" "unat n < 2 ^ 31"
    and "\<forall>op \<in> set ops. op_ok op" "sum_list (map op_pages ops) + 4 < 2 ^ 32" "op_count ops \<le> max_possible_postings"
  defines "docs \<equiv> ds_docs (fold spec_op ops no_docs)"
  shows "\<exists>sh sh'. shard_init shard_id base_path n disk = Opened sh \<and> run_ops ops sh = Some sh' \<and>
    us_total_docs sh' = of_nat (op_count ops) \<and> us_next_doc_id sh' = of_nat (op_count ops) \<and> length docs = op_count ops \<and>
    us_sum_dl sh' = map (\<lambda>f. Fin (real (total_length f docs))) [0..<4] \<and>
    us_avgdl sh' = (if op_count ops = 0 then replicate 4 (Fin 10)
      else map (\<lambda>f. to_double (real (total_length f docs) / real (op_count ops))) [0..<4])"
proof -
  obtain sh P where sh: "shard_init shard_id base_path n disk = Opened sh" "store_rel 3 P (\<lambda>_. []) no_docs sh"
    by (rule fresh_store_rel [OF assms(1-3)])
  have bounds: "3 + sum_list (map op_pages ops) + 1 < 2 ^ 32" "length (ds_docs no_docs) + op_count ops \<le> max_possible_postings"
    using assms(5,6) by simp_all
  obtain sh' N P' B where run: "run_ops ops sh = Some sh'" "store_rel N P' B (fold spec_op ops no_docs) sh'"
    "describes docs sh'"
    using run_ops_describe [OF sh(2) new_shard_described [OF assms(1) sh(1)] assms(4) bounds] unfolding docs_def by blast
  have count: "length docs = op_count ops" using docs_fold_op [of ops no_docs] by (simp add: docs_def)
  then show ?thesis using sh(1) run unfolding docs_def by (auto simp: describes_def store_rel_def)
qed

theorem shard_statistics_describe_insertions_witness:
  "\<exists>sh sh'. shard_init 0 ''db'' 1024 empty_disk = Opened sh \<and> run_ops [sample_op, DeleteDoc 0, sample_op] sh = Some sh' \<and>
    us_total_docs sh' = 2 \<and> us_sum_dl sh' ! 0 = Fin 10 \<and> us_avgdl sh' ! 0 = to_double 5"
  using shard_statistics_describe_insertions [OF empty_disk_files, of 1024 "[sample_op, DeleteDoc 0, sample_op]" 0 "''db''"]
  by (auto simp: op_count_def total_length_def)

text \<open>C6: A shard that is closed and opened again holds the same documents. The flush leaves the
  file with exactly the pool's pages, the statistics and counters are read back bit for bit,
  the root of the B-tree is recognised, and the backward search settles on the last data page.
  The conditions are that no data page has an id whose low half is 7, the code of a data page, and
  that no I/O request fails.\<close>

theorem restarted_shard_keeps_documents:
  assumes "shard_inv N P B G D sh" "opened_as shard_id base_path sh" "working_files shard_id base_path disk"
    and "4 \<le> unat n" "unat n < 2 ^ 31" "\<forall>q \<in> D. (ucast q :: u16) \<noteq> page_type_code PAGE_TYPE_VECTOR_DATA"
  shows "\<exists>sh'. restart_shard n sh disk = Opened sh' \<and> shard_inv N P B G D sh' \<and> opened_as shard_id base_path sh' \<and>
    us_next_doc_id sh' = us_next_doc_id sh \<and> us_total_docs sh' = us_total_docs sh \<and>
    us_avgdl sh' = us_avgdl sh \<and> us_sum_dl sh' = us_sum_dl sh \<and>
    (\<forall>q \<in> D. unat q \<le> unat (us_active_data_page_id sh')) \<and>
    (\<forall>st. store_rel N P B st sh \<longrightarrow> store_rel N P B st sh')"
  by (rule restart_keeps_documents [OF assms])

theorem restarted_shard_keeps_documents_witness:
  "\<exists>sh sh1 sh2 results sh3. shard_init 0 ''db'' 1024 empty_disk = Opened sh \<and>
    run_op (InsertDoc (replicate 16 1) [1, 0, 0, 0] [5, 0, 0, 0] (replicate EMBEDDING_DIM 0) []) sh = Some sh1 \<and>
    restart_shard 1024 sh1 empty_disk = Opened sh2 \<and> us_total_docs sh2 = 1 \<and>
    shard_search_bm25f_indexed True sh2 0 (Fin 1) (replicate 4 (Fin 10)) (replicate 4 (Fin 1)) (Fin 1) (Fin 1) 5 = Some (results, sh3) \<and>
    scores_docs results (consider_bm25f (Fin 1) (replicate 4 (Fin 10)) (replicate 4 (Fin 1)) (Fin 1) (Fin 1) 5) [sample_record 0]"
proof -
  let ?op = "InsertDoc (replicate 16 1) [1, 0, 0, 0] [5, 0, 0, 0] (replicate EMBEDDING_DIM 0) []"
  obtain sh P where fresh: "shard_init 0 ''db'' 1024 empty_disk = Opened sh" "store_rel 3 P (\<lambda>_. []) no_docs sh"
    by (rule fresh_store_rel [OF empty_disk_files, of 1024]) auto
  have opened: "opened_as 0 ''db'' sh" using fresh_shard_opened fresh(1) by (metis shard_open.inject)
  obtain sh1 N1 P1 B1 where s1: "run_op ?op sh = Some sh1" "store_rel N1 P1 B1 (spec_op ?op no_docs) sh1" "N1 \<le> 6"
    using run_op_refines [OF fresh(2), of ?op] by auto
  have live: "live_docs_with 0 (spec_op ?op no_docs) = [sample_record 0]"
    by (simp add: live_docs_with_def docs_with_def tombstoned_def sample_record_def)
  obtain G D where inv: "shard_inv N1 P1 B1 G D sh1" using s1(2) by (auto simp: store_rel_def)
  have opened1: "opened_as 0 ''db'' sh1" by (rule run_op_opened [OF s1(1) opened])
  have types: "(ucast q :: u16) \<noteq> page_type_code PAGE_TYPE_VECTOR_DATA" if "q \<in> D" for q
  proof
    assume "(ucast q :: u16) = page_type_code PAGE_TYPE_VECTOR_DATA"
    then have "unat (ucast q :: u16) = 7" by simp
    moreover have "unat q \<le> 5" using that inv s1(3) by (fastforce simp: shard_inv_def)
    ultimately show False by (simp add: unsigned_ucast_eq take_bit_nat_eq_self)
  qed
  obtain sh2 where s2: "restart_shard 1024 sh1 empty_disk = Opened sh2" "store_rel N1 P1 B1 (spec_op ?op no_docs) sh2"
    using restarted_shard_keeps_documents [OF inv opened1 empty_disk_works, of 1024] types s1(2) by auto
  obtain results sh3 where
    "shard_search_bm25f_indexed True sh2 0 (Fin 1) (replicate 4 (Fin 10)) (replicate 4 (Fin 1)) (Fin 1) (Fin 1) 5 = Some (results, sh3)"
    "scores_docs results (consider_bm25f (Fin 1) (replicate 4 (Fin 10)) (replicate 4 (Fin 1)) (Fin 1) (Fin 1) 5) [sample_record 0]"
    using search_refines [OF s2(2), of 0 "Fin 1" "replicate 4 (Fin 10)" "replicate 4 (Fin 1)" "Fin 1" "Fin 1" 5] live by auto
  moreover have "us_total_docs sh2 = 1" using s2(2) by (simp add: store_rel_def)
  ultimately show ?thesis using fresh(1) s1(1) s2(1) by blast
qed



end
