(* ===== verification/TableProperties.thy ===== *)
theory TableProperties
  imports TableSearch EngineRestart RestartProperties
begin

text \<open>
  The virtual table end to end: connecting on empty files, inserting texts through the bindings,
  querying, and the same in a new process after the table was disconnected.
\<close>

section \<open>Documents and queries\<close>

fun doc_ok :: "table_doc \<Rightarrow> bool" where
  "doc_ok (node_id, tf, dl, embedding, s) \<longleftrightarrow>
     length node_id = 16 \<and> length tf = 4 \<and> length dl = 4 \<and> length embedding = EMBEDDING_DIM"

fun doc_node :: "table_doc \<Rightarrow> byte list" where "doc_node (node_id, tf, dl, embedding, s) = node_id"
fun doc_freqs :: "table_doc \<Rightarrow> u32 list" where "doc_freqs (node_id, tf, dl, embedding, s) = tf"
fun doc_lens :: "table_doc \<Rightarrow> u32 list" where "doc_lens (node_id, tf, dl, embedding, s) = dl"

text \<open>The documents that share a word with the query; a query without words takes all.\<close>

definition sharing_word :: "string \<Rightarrow> table_doc list \<Rightarrow> table_doc set" where
  "sharing_word s docs = {d \<in> set docs. words_of 64 s = [] \<or> doc_words d \<inter> set (words_of 64 s) \<noteq> {}}"

text \<open>No word of the texts or the query is longer than the dictionary stores or has the hash of another.\<close>

definition words_apart :: "string \<Rightarrow> table_doc list \<Rightarrow> bool" where
  "words_apart s docs \<longleftrightarrow>
     (let W = set (words_of 64 s) \<union> (\<Union>d \<in> set docs. doc_words d) in
      (\<forall>w \<in> W. length w \<le> 255) \<and> inj_on lexicon_term_hash32 W)"

text \<open>The shards of a table: four, of which none gets more than 64 documents.\<close>

definition shards_fit :: "table_doc list \<Rightarrow> bool" where
  "shards_fit docs \<longleftrightarrow>
     (\<forall>i < 4. length (filter (\<lambda>d. shard_of_node 4 (doc_node d) = i) docs) \<le> MAX_RESULTS_PER_SHARD)"

lemma fst_doc_terms: "fst (doc_terms d) = doc_node d"
  by (cases d) simp

lemma op_ok_doc: "doc_ok d \<Longrightarrow> op_ok (doc_op (doc_terms d))"
  by (cases d) simp

lemma routed_terms: "length (routed 4 i (map doc_terms docs)) =
    length (filter (\<lambda>d. shard_of_node 4 (doc_node d) = i) docs)"
  by (simp add: routed_def filter_map comp_def fst_doc_terms)

lemma shards_fit_length:
  assumes "shards_fit docs"
  shows "length docs \<le> 256"
proof -
  have "length docs = sum_list (map (\<lambda>i. length (routed 4 i (map doc_terms docs))) [0..<4])"
    using routed_total [of 4 "map doc_terms docs"] by simp
  also have "\<dots> \<le> sum_list (map (\<lambda>i. 64) [0..<4])"
    by (rule sum_list_mono) (use assms in \<open>simp add: routed_terms shards_fit_def\<close>)
  finally show ?thesis by (simp add: eval_nat_numeral)
qed

lemma op_pages_docs:
  "sum_list (map (\<lambda>d. op_pages (doc_op d)) (map doc_terms docs)) \<le> 2051 * length docs"
proof (induction docs)
  case (Cons d docs)
  have "op_pages (doc_op (doc_terms d)) \<le> 2051" by (cases d) (simp add: words_of_def)
  then show ?case using Cons by simp
qed simp

lemma shares_terms:
  assumes "words_apart s docs" "d \<in> set docs"
  shows "(map lexicon_term_hash32 (words_of 64 s) = [] \<or> 0 \<in> set (map lexicon_term_hash32 (words_of 64 s)) \<or>
      set (snd (snd (snd (snd (doc_terms d))))) \<inter> set (map lexicon_term_hash32 (words_of 64 s)) \<noteq> {}) \<longleftrightarrow>
    d \<in> sharing_word s docs"
proof -
  let ?W = "set (words_of 64 s) \<union> (\<Union>d \<in> set docs. doc_words d)"
  have inj: "inj_on lexicon_term_hash32 ?W" using assms(1) by (simp add: words_apart_def Let_def)
  have "set (snd (snd (snd (snd (doc_terms d))))) = lexicon_term_hash32 ` doc_words d" by (cases d) simp
  moreover have "lexicon_term_hash32 ` doc_words d \<inter> lexicon_term_hash32 ` set (words_of 64 s) =
      lexicon_term_hash32 ` (doc_words d \<inter> set (words_of 64 s))"
    by (rule inj_on_image_Int [OF inj, symmetric]) (use assms(2) in auto)
  moreover have "0 \<notin> lexicon_term_hash32 ` set (words_of 64 s)" using term_hash_nonzero by (metis imageE)
  ultimately show ?thesis using assms(2) by (auto simp: sharing_word_def)
qed

lemma matches_texts:
  assumes "words_apart s docs"
  shows "matches (map lexicon_term_hash32 (words_of 64 s)) score (map doc_terms docs) =
    doc_node ` {d \<in> sharing_word s docs. dlt (Fin 0) (score (doc_freqs d) (doc_lens d))}"
proof -
  let ?ts = "map lexicon_term_hash32 (words_of 64 s)"
  have "doc_matches ?ts score (doc_terms d) \<longleftrightarrow>
      d \<in> sharing_word s docs \<and> dlt (Fin 0) (score (doc_freqs d) (doc_lens d))" if "d \<in> set docs" for d
    using shares_terms [OF assms that] by (cases d) simp
  moreover have "sharing_word s docs \<subseteq> set docs" by (auto simp: sharing_word_def)
  ultimately have "{d \<in> set docs. doc_matches ?ts score (doc_terms d)} =
      {d \<in> sharing_word s docs. dlt (Fin 0) (score (doc_freqs d) (doc_lens d))}" by blast
  moreover have "{x \<in> set (map doc_terms docs). doc_matches ?ts score x} =
      doc_terms ` {d \<in> set docs. doc_matches ?ts score (doc_terms d)}" by (simp only: set_map) blast
  ultimately have "{x \<in> set (map doc_terms docs). doc_matches ?ts score x} =
      doc_terms ` {d \<in> sharing_word s docs. dlt (Fin 0) (score (doc_freqs d) (doc_lens d))}" by (simp only:)
  then show ?thesis by (simp add: matches_def image_image fst_doc_terms)
qed

section \<open>Connecting and disconnecting\<close>

text \<open>What SQLite and the allocator answer when a table can be created.\<close>

definition env_ready :: "Env \<Rightarrow> handle \<Rightarrow> bool" where
  "env_ready ev h \<longleftrightarrow> ev_declare ev = SQLITE_OK \<and> ev_malloc_vtab ev \<and> ev_malloc_engine ev = Some h \<and> ev_loop_ok ev"

definition only_table :: "handle \<Rightarrow> Globals \<Rightarrow> bool" where
  "only_table h g \<longleftrightarrow> gl_active g = (replicate MAX_ACTIVE_ENGINES None)[0 := Some (h, 1)]"

lemma connect_new:
  assumes ev: "env_ready ev h" and init: "engine_init (table_path argv) 4 (table_ram_mb argv) disk = Some (rc, en)"
  obtains g where "ftsConnect ev argv (globals_init disk) = Some (SQLITE_OK, Some h, g)" "table_open h en g"
    "gl_has_loop g" "gl_disk g = disk" "only_table h g"
proof -
  let ?g = "globals_init disk"
  have "find_engine ?g (table_path argv) = None"
    by (simp add: find_engine_def find_slot_None globals_init_def)
  moreover have "free_slot (?g\<lparr>gl_heap := m, gl_engine := e\<rparr>) = Some 0" for m e
    by (simp add: free_slot_def find_slot_Some globals_init_def)
  ultimately show ?thesis using ev init that
    by (simp add: ftsConnect_def env_ready_def Let_def finish_connect_def async_search_init_def table_open_def
        only_table_def hashed_entries_init globals_init_def)
qed

lemma disconnect_closes:
  assumes "only_table h g" "table_open h en g"
  shows "gl_disk (ftsDisconnect (Some h) g) = snd (engine_close en (gl_disk g))"
proof -
  have "slot_of g h = Some 0" using assms(1) by (simp add: slot_of_def find_slot_Some only_table_def)
  then show ?thesis using assms
    by (auto simp: ftsDisconnect_def only_table_def close_engine_def table_open_def Let_def split: prod.split)
qed

lemma table_insert:
  assumes ev: "env_ready ev h" and files: "\<forall>i < 4. empty_files (of_nat i) (table_path argv) disk"
    and ram: "unat (table_ram_mb argv) \<le> 2 ^ 20" and ok: "\<forall>d \<in> set docs. doc_ok d" and fit: "shards_fit docs"
    and short: "\<forall>d \<in> set docs. \<forall>w \<in> doc_words d. length w \<le> 255"
  obtains en en' g g' K where "engine_init (table_path argv) 4 (table_ram_mb argv) disk = Some (0, en)" "new_parameters en'"
    "engine_insert_all (map doc_terms docs) en = Some en'"
    "engine_rel K en' (map (\<lambda>i. routed_store 4 (map doc_terms docs) i no_docs) [0..<4])"
    "ftsConnect ev argv (globals_init disk) = Some (SQLITE_OK, Some h, g)" "table_insert_all docs g = Some g'"
    "table_open h en' g'" "gl_has_loop g'" "gl_disk g' = disk" "only_table h g'"
    "K \<le> 3 + sum_list (map (\<lambda>d. op_pages (doc_op d)) (map doc_terms docs))"
proof -
  have four: "unat (4 :: u32) = 4" by simp
  have ops: "\<forall>d \<in> set (map doc_terms docs). op_ok (doc_op d)" using ok op_ok_doc by auto
  have pages: "sum_list (map (\<lambda>d. op_pages (doc_op d)) (map doc_terms docs)) + 4 < 2 ^ 32"
    using op_pages_docs [of docs] shards_fit_length [OF fit] by simp
  have sizes: "\<forall>i < 4. length (routed 4 i (map doc_terms docs)) \<le> 64"
    using fit by (simp add: routed_terms shards_fit_def)
  obtain en en' K where en: "engine_init (table_path argv) 4 (table_ram_mb argv) disk = Some (0, en)" "new_parameters en"
    "engine_insert_all (map doc_terms docs) en = Some en'" "en' = en\<lparr>en_shards := en_shards en'\<rparr>"
    "engine_rel K en' (map (\<lambda>i. routed_store 4 (map doc_terms docs) i no_docs) [0..<4])"
    "K \<le> 3 + sum_list (map (\<lambda>d. op_pages (doc_op d)) (map doc_terms docs))"
    using open_and_insert [of 4 "table_path argv" disk "table_ram_mb argv" "map doc_terms docs"] files ram ops pages sizes
    unfolding four by (metis zero_less_numeral)
  have new: "new_parameters en'" using en(2) by (subst en(4)) (simp add: new_parameters_def)
  obtain g where g: "ftsConnect ev argv (globals_init disk) = Some (SQLITE_OK, Some h, g)" "table_open h en g"
    "gl_has_loop g" "gl_disk g = disk" "only_table h g"
    by (rule connect_new [OF ev en(1)])
  obtain g' where "table_insert_all docs g = Some g'" "table_open h en' g'" "gl_has_loop g' = gl_has_loop g"
    "gl_active g' = gl_active g" "gl_disk g' = gl_disk g"
    using table_insert_all_engine [OF g(2) en(3) short] by blast
  then show ?thesis using that [OF en(1) new en(3,5) g(1)] g en(6) by (simp add: only_table_def)
qed

text \<open>A query over the shards of the routed documents, for the scores its engine computes.\<close>

lemma query_rows:
  assumes tab: "table_open h en g" "gl_has_loop g"
    and rel: "engine_rel K en (map (\<lambda>i. routed_store 4 (map doc_terms docs) i no_docs) [0..<4])"
    and fit: "shards_fit docs" and apart: "words_apart s docs" and q: "\<not> is_phrase_query s"
    and order: "distinct order" "set order = {..<4}"
  obtains rows g' where "table_query qsort order loop_ok h s g = Some (rows, g')"
    "set rows = {ColText (node_id_hex (doc_node d)) | d. d \<in> sharing_word s docs \<and>
      dlt (Fin 0) (engine_score en (doc_freqs d) (doc_lens d))}"
proof -
  let ?q = "text_query s (map lexicon_term_hash32 (words_of 64 s))"
  have sizes: "\<forall>i < 4. length (routed 4 i (map doc_terms docs)) \<le> 64" "length (map doc_terms docs) \<le> 1024"
    using fit shards_fit_length [OF fit] by (simp_all add: routed_terms shards_fit_def)
  have plain: "plain_text_query ?q" using q by (simp add: plain_text_query_def text_query_def)
  obtain results en' where r: "engine_search_async qsort order True loop_ok (gl_has_loop g) en ?q 1024 = Some (results, en', True)"
    "nodes_of results = matches (q_term_ids ?q) (engine_score en) (map doc_terms docs)"
    by (rule search_inserted [OF rel _ sizes order plain]) (use tab(2) in auto)
  have short: "\<forall>w \<in> set (words_of 64 s). length w \<le> 255" using apart by (simp add: words_apart_def Let_def)
  obtain g' where g': "table_query qsort order loop_ok h s g = Some (map (\<lambda>r. ColText (node_id_hex (sr_node_id r))) results, g')"
    by (rule table_query_results [OF tab(1) short r(1)])
  have "set (map (\<lambda>r. ColText (node_id_hex (sr_node_id r))) results) = (\<lambda>n. ColText (node_id_hex n)) ` nodes_of results"
    by auto
  also have "nodes_of results = doc_node ` {d \<in> sharing_word s docs. dlt (Fin 0) (engine_score en (doc_freqs d) (doc_lens d))}"
    using r(2) matches_texts [OF apart] by (simp add: text_query_def)
  also have "(\<lambda>n. ColText (node_id_hex n)) ` \<dots> = {ColText (node_id_hex (doc_node d)) | d. d \<in> sharing_word s docs \<and>
      dlt (Fin 0) (engine_score en (doc_freqs d) (doc_lens d))}" by blast
  finally show ?thesis by (rule that [OF g'])
qed

section \<open>Examples\<close>

definition sample_texts :: "table_doc list" where
  "sample_texts =
     [(replicate 16 1, [1, 0, 0, 0], [5, 0, 0, 0], replicate EMBEDDING_DIM 0, ''Fresh cheese''),
      (replicate 16 2, [1, 0, 0, 0], [5, 0, 0, 0], replicate EMBEDDING_DIM 0, ''Old wine'')]"

definition sample_plain :: "table_doc list" where
  "sample_plain = [(replicate 16 1, [1, 0, 0, 0], [5, 0, 0, 0], replicate EMBEDDING_DIM 0, ''...'')]"

lemma sample_words:
  "words_of 1024 ''Fresh cheese'' = [''fresh'', ''cheese'']" "words_of 1024 ''Old wine'' = [''old'', ''wine'']"
  "words_of 64 ''cheese'' = [''cheese'']" "words_of 1024 ''...'' = []" "words_of 64 ''...'' = []"
  by code_simp+

lemma sample_hashes: "distinct (map lexicon_term_hash32 [''cheese'', ''fresh'', ''old'', ''wine''])"
  by code_simp

lemma sample_words_apart: "words_apart ''cheese'' sample_texts"
proof -
  have "inj_on lexicon_term_hash32 (set [''cheese'', ''fresh'', ''old'', ''wine''])"
    using sample_hashes by (simp only: distinct_map)
  then show ?thesis by (simp add: words_apart_def sample_texts_def sample_words insert_commute)
qed

lemma collect_image: "{g d | d. d \<in> A \<and> Q d} = g ` {d \<in> A. Q d}"
  by blast

lemma few_fit: "length docs \<le> 64 \<Longrightarrow> shards_fit docs"
  by (auto simp: shards_fit_def intro: order_trans [OF length_filter_le])

lemma sample_env_ready: "env_ready sample_env 7"
  by (simp add: env_ready_def sample_env_def)

lemma sample_ram: "table_ram_mb sample_argv = 1024"
  by (simp add: table_ram_mb_def)

lemma few_pages_no_lookalike:
  assumes "store_rel N P B st sh" "N \<le> 7"
  shows "no_lookalike_page sh"
proof -
  obtain G D where "shard_inv N P B G D sh" using assms(1) by (auto simp: store_rel_def)
  then have "unat (us_next_page_id sh) \<le> 7" using shard_inv_next assms(2) by metis
  moreover have "(ucast q :: u16) \<noteq> 7" if "unat q < 7" for q :: u32
  proof
    assume "(ucast q :: u16) = 7"
    then have "unat (ucast q :: u16) = 7" by simp
    then show False using that by (simp add: unsigned_ucast_eq take_bit_nat_eq_self)
  qed
  ultimately show ?thesis by (auto simp: no_lookalike_page_def)
qed

section \<open>Properties\<close>

text \<open>C1: The virtual table end to end. Connecting on empty files opens the table; inserting texts
  through the bindings succeeds for every text; a query then returns the node ids of exactly the
  documents that share a word with it and have a term in some field, whatever the order in which
  the shards answer. The words are those of the tokenizer, and are assumed to have different
  hashes and to fit the dictionary; a shard gets at most as many documents as its result array
  holds. No I/O request and no allocation fails.\<close>

theorem table_query_finds_texts:
  assumes "env_ready ev h" "\<forall>i < 4. empty_files (of_nat i) (table_path argv) disk" "unat (table_ram_mb argv) \<le> 2 ^ 20"
    and "\<forall>d \<in> set docs. doc_ok d" "shards_fit docs" "words_apart s docs" "\<not> is_phrase_query s"
    and "distinct order" "set order = {..<4}"
  shows "\<exists>g g' rows g''. ftsConnect ev argv (globals_init disk) = Some (SQLITE_OK, Some h, g) \<and>
    table_insert_all docs g = Some g' \<and> table_query qsort order loop_ok h s g' = Some (rows, g'') \<and>
    set rows = {ColText (node_id_hex (doc_node d)) | d. d \<in> sharing_word s docs \<and> (\<exists>f < 4. 0 < doc_freqs d ! f)}"
proof -
  have short: "\<forall>d \<in> set docs. \<forall>w \<in> doc_words d. length w \<le> 255" using assms(6) by (auto simp: words_apart_def Let_def)
  obtain en' g g' K where t: "new_parameters en'" "ftsConnect ev argv (globals_init disk) = Some (SQLITE_OK, Some h, g)"
    "table_insert_all docs g = Some g'" "table_open h en' g'" "gl_has_loop g'"
    "engine_rel K en' (map (\<lambda>i. routed_store 4 (map doc_terms docs) i no_docs) [0..<4])"
    using table_insert [OF assms(1-5) short] by metis
  obtain rows g'' where "table_query qsort order loop_ok h s g' = Some (rows, g'')"
    "set rows = {ColText (node_id_hex (doc_node d)) | d. d \<in> sharing_word s docs \<and>
      dlt (Fin 0) (engine_score en' (doc_freqs d) (doc_lens d))}"
    by (rule query_rows [OF t(4-6) assms(5-9)])
  moreover have "dlt (Fin 0) (engine_score en' tf dl) \<longleftrightarrow> (\<exists>f < 4. 0 < tf ! f)" for tf dl
    using t(1) new_score_positive by (simp add: new_parameters_def)
  ultimately show ?thesis using t(2,3) by simp
qed

theorem table_query_finds_texts_witness:
  "\<exists>g g' rows g''. ftsConnect sample_env sample_argv (globals_init empty_disk) = Some (SQLITE_OK, Some 7, g) \<and>
    table_insert_all sample_texts g = Some g' \<and>
    table_query (\<lambda>cmp xs. xs) [3, 1, 0, 2] False 7 ''cheese'' g' = Some (rows, g'') \<and>
    set rows = {ColText ''01010101010101010101010101010101''}"
proof -
  have ok: "\<forall>d \<in> set sample_texts. doc_ok d" by (simp add: sample_texts_def)
  have fit: "shards_fit sample_texts" by (rule few_fit) (simp add: sample_texts_def)
  have q: "\<not> is_phrase_query ''cheese''" by (simp add: is_phrase_query_def)
  have order: "set [3, 1, 0, 2] = {..<(4 :: nat)}" by auto
  have hex: "node_id_hex (replicate 16 1) = ''01010101010101010101010101010101''" by code_simp
  have "{d \<in> sharing_word ''cheese'' sample_texts. \<exists>f < 4. 0 < doc_freqs d ! f} = {hd sample_texts}"
    using sample_frequencies by (auto simp: sharing_word_def sample_texts_def sample_words)
  then have "(\<lambda>d. ColText (node_id_hex (doc_node d))) ` {d \<in> sharing_word ''cheese'' sample_texts. \<exists>f < 4. 0 < doc_freqs d ! f} =
      {ColText (node_id_hex (doc_node (hd sample_texts)))}" by simp
  also have "\<dots> = {ColText ''01010101010101010101010101010101''}" by (simp add: sample_texts_def hex)
  finally have rows: "{ColText (node_id_hex (doc_node d)) | d. d \<in> sharing_word ''cheese'' sample_texts \<and> (\<exists>f < 4. 0 < doc_freqs d ! f)} =
      {ColText ''01010101010101010101010101010101''}" by (simp only: collect_image)
  show ?thesis
    unfolding rows [symmetric]
    using table_query_finds_texts [OF sample_env_ready _ _ ok fit sample_words_apart q _ order,
        of sample_argv empty_disk "\<lambda>cmp xs. xs" False] empty_disk_files sample_ram by simp
qed

text \<open>C2: Documents of the virtual table survive a restart. After the table was disconnected,
  connecting in a new process to the files left behind opens it again, and a query returns the
  same documents, except those whose terms all lie in fields that are empty in every document: a
  new table scores these with a default average length, a reopened one with the stored zero. The
  path has at most 255 characters, no posting page looks like a data page to the search for the
  active page, and no I/O request fails.\<close>

theorem table_documents_survive_restart:
  assumes "env_ready ev h" "\<forall>i < 4. empty_files (of_nat i) (table_path argv) disk" "unat (table_ram_mb argv) \<le> 2 ^ 20"
    and "\<forall>d \<in> set docs. doc_ok d" "shards_fit docs" "words_apart s docs" "\<not> is_phrase_query s"
    and "distinct order" "set order = {..<4}" "docs \<noteq> []"
    and "env_ready ev' h'" "\<forall>i < 4. working_files (of_nat i) (table_path argv) disk" "length (table_path argv) \<le> 255"
    and "ftsConnect ev argv (globals_init disk) = Some (SQLITE_OK, Some h, g)" "table_insert_all docs g = Some g'"
    and "\<forall>en. gl_heap g' h = Some en \<longrightarrow> (\<forall>sh \<in> set (en_shards en). no_lookalike_page sh)"
  shows "\<exists>g1 rows g2. ftsConnect ev' argv (globals_init (gl_disk (ftsDisconnect (Some h) g'))) = Some (SQLITE_OK, Some h', g1) \<and>
    table_query qsort order loop_ok h' s g1 = Some (rows, g2) \<and>
    set rows = {ColText (node_id_hex (doc_node d)) | d. d \<in> sharing_word s docs \<and>
      (\<exists>f < 4. 0 < doc_freqs d ! f \<and> (\<exists>d' \<in> set docs. 0 < doc_lens d' ! f))}"
proof -
  let ?d = "table_path argv" and ?sts = "map (\<lambda>i. routed_store 4 (map doc_terms docs) i no_docs) [0..<4]"
  let ?docs = "\<lambda>i. routed 4 i (map doc_terms docs)"
  have short: "\<forall>d \<in> set docs. \<forall>w \<in> doc_words d. length w \<le> 255" using assms(6) by (auto simp: words_apart_def Let_def)
  obtain en en' g0 g0' K where t: "engine_init ?d 4 (table_ram_mb argv) disk = Some (0, en)"
    "engine_insert_all (map doc_terms docs) en = Some en'" "engine_rel K en' ?sts"
    "table_open h en' g0'" "gl_disk g0' = disk" "only_table h g0'"
    and g0: "ftsConnect ev argv (globals_init disk) = Some (SQLITE_OK, Some h, g0)" "table_insert_all docs g0 = Some g0'"
    by (rule table_insert [OF assms(1-5) short])
  have "g0 = g" using g0(1) assms(14) by simp
  then have "g0' = g'" using g0(2) assms(15) by simp
  note t = t [unfolded this]
  have four: "unat (4 :: u32) = 4" by simp
  note k0 = engine_init_kept [OF t(1), unfolded four, OF _ _ assms(3,2)]
  have kept: "shards_kept ?d ?docs en'" "en_base_path en' = ?d"
    using engine_insert_kept [OF t(2) k0(1)] k0(2,3) assms(13) by simp_all
  have look: "\<forall>sh \<in> set (en_shards en'). no_lookalike_page sh" using assms(16) t(4) by (simp add: table_open_def)
  have sizes: "\<forall>i < length ?sts. length (ds_docs (?sts ! i)) = length (?docs i) \<and> length (?docs i) \<le> 64"
    using assms(5) by (simp add: length_routed_store routed_terms shards_fit_def)
  have files: "\<forall>i < length ?sts. working_files (of_nat i) ?d disk" using assms(12) by simp
  obtain d where "d \<in> set docs" using assms(10) by (meson ex_in_conv set_empty)
  then have some: "\<exists>i < length ?sts. ?docs i \<noteq> []"
    using shard_of_node_less [of 4 "doc_node d"]
    by (intro exI [of _ "shard_of_node 4 (doc_node d)"]) (auto simp: routed_def filter_empty_conv fst_doc_terms)
  have len: "unat (4 :: u32) = length ?sts" "0 < length ?sts" "length ?sts \<le> 16" by simp_all
  obtain en2 where en2: "engine_init ?d 4 (table_ram_mb argv) (snd (engine_close en' disk)) = Some (0, en2)" "engine_rel K en2 ?sts"
    "en_field_weights en2 = new_weights" "en_k1 en2 = new_k1" "en_b en2 = new_b" "averages_in_range (en_global_avgdl en2)"
    "\<forall>f < 4. dlt (Fin 0) (en_global_avgdl en2 ! f) \<longleftrightarrow> (\<exists>i < length ?sts. \<exists>x \<in> set (?docs i). 0 < doc_lengths x ! f)"
    by (rule engine_restart [OF t(3) kept assms(13) len assms(3) files look sizes some])
  have lens: "doc_lengths (doc_terms d) = doc_lens d" for d by (cases d) simp
  have avg: "dlt (Fin 0) (en_global_avgdl en2 ! f) \<longleftrightarrow> (\<exists>d \<in> set docs. 0 < doc_lens d ! f)" if "f < 4" for f
  proof -
    have "(\<Union>i < 4. set (?docs i)) = doc_terms ` set docs"
      using shard_of_node_less [of 4] by (auto simp: routed_def)
    then have "(\<exists>i < 4. \<exists>x \<in> set (?docs i). 0 < doc_lengths x ! f) \<longleftrightarrow> (\<exists>x \<in> doc_terms ` set docs. 0 < doc_lengths x ! f)"
      by blast
    then show ?thesis using en2(7) that by (simp add: lens)
  qed
  have disk: "gl_disk (ftsDisconnect (Some h) g') = snd (engine_close en' disk)"
    using disconnect_closes [OF t(6,4)] t(5) by simp
  obtain g1 where g1: "ftsConnect ev' argv (globals_init (snd (engine_close en' disk))) = Some (SQLITE_OK, Some h', g1)"
    "table_open h' en2 g1" "gl_has_loop g1"
    by (rule connect_new [OF assms(11) en2(1)])
  obtain rows g2 where "table_query qsort order loop_ok h' s g1 = Some (rows, g2)"
    "set rows = {ColText (node_id_hex (doc_node d)) | d. d \<in> sharing_word s docs \<and>
      dlt (Fin 0) (engine_score en2 (doc_freqs d) (doc_lens d))}"
    by (rule query_rows [OF g1(2,3) en2(2) assms(5-9)])
  moreover have "dlt (Fin 0) (engine_score en2 tf dl) \<longleftrightarrow> (\<exists>f < 4. 0 < tf ! f \<and> (\<exists>d' \<in> set docs. 0 < doc_lens d' ! f))" for tf dl
    unfolding en2(3-5) score_positive [OF en2(6)] using avg by (auto simp: field_counts_def)
  ultimately show ?thesis using g1(1) disk by simp
qed

theorem table_documents_survive_restart_witness:
  "\<exists>g g' g1 rows g2. ftsConnect sample_env sample_argv (globals_init empty_disk) = Some (SQLITE_OK, Some 7, g) \<and>
    table_insert_all sample_plain g = Some g' \<and>
    ftsConnect sample_env sample_argv (globals_init (gl_disk (ftsDisconnect (Some 7) g'))) = Some (SQLITE_OK, Some 7, g1) \<and>
    table_query (\<lambda>cmp xs. xs) [3, 1, 0, 2] False 7 ''...'' g1 = Some (rows, g2) \<and>
    set rows = {ColText ''01010101010101010101010101010101''}"
proof -
  have ok: "\<forall>d \<in> set sample_plain. doc_ok d" by (simp add: sample_plain_def)
  have fit: "shards_fit sample_plain" by (rule few_fit) (simp add: sample_plain_def)
  have apart: "words_apart ''...'' sample_plain" by (simp add: words_apart_def sample_plain_def sample_words)
  have short: "\<forall>d \<in> set sample_plain. \<forall>w \<in> doc_words d. length w \<le> 255" by (simp add: sample_plain_def sample_words)
  have q: "\<not> is_phrase_query ''...''" by (simp add: is_phrase_query_def)
  have order: "set [3, 1, 0, 2] = {..<(4 :: nat)}" by auto
  have files: "\<forall>i < 4. empty_files (of_nat i) (table_path sample_argv) empty_disk" using empty_disk_files by simp
  have ram: "unat (table_ram_mb sample_argv) \<le> 2 ^ 20" by (simp add: sample_ram)
  obtain en' g g' K where t: "engine_rel K en' (map (\<lambda>i. routed_store 4 (map doc_terms sample_plain) i no_docs) [0..<4])"
    "ftsConnect sample_env sample_argv (globals_init empty_disk) = Some (SQLITE_OK, Some 7, g)"
    "table_insert_all sample_plain g = Some g'" "table_open 7 en' g'"
    "K \<le> 3 + sum_list (map (\<lambda>d. op_pages (doc_op d)) (map doc_terms sample_plain))"
    by (rule table_insert [OF sample_env_ready files ram ok fit short])
  have "K \<le> 7" using t(5) by (simp add: sample_plain_def sample_words)
  then have look: "\<forall>en. gl_heap g' 7 = Some en \<longrightarrow> (\<forall>sh \<in> set (en_shards en). no_lookalike_page sh)"
    using engine_rel_shard [OF t(1)] engine_rel_length [OF t(1)] t(4) few_pages_no_lookalike
    by (fastforce simp: table_open_def in_set_conv_nth)
  have hex: "node_id_hex (replicate 16 1) = ''01010101010101010101010101010101''" by code_simp
  have "{d \<in> sharing_word ''...'' sample_plain. \<exists>f < 4. 0 < doc_freqs d ! f \<and> (\<exists>d' \<in> set sample_plain. 0 < doc_lens d' ! f)} =
      {hd sample_plain}"
    by (auto simp: sharing_word_def sample_plain_def sample_words intro!: exI [of _ 0])
  then have "(\<lambda>d. ColText (node_id_hex (doc_node d))) ` {d \<in> sharing_word ''...'' sample_plain.
      \<exists>f < 4. 0 < doc_freqs d ! f \<and> (\<exists>d' \<in> set sample_plain. 0 < doc_lens d' ! f)} =
      {ColText (node_id_hex (doc_node (hd sample_plain)))}" by simp
  also have "\<dots> = {ColText ''01010101010101010101010101010101''}" by (simp add: sample_plain_def hex)
  finally have rows: "{ColText (node_id_hex (doc_node d)) | d. d \<in> sharing_word ''...'' sample_plain \<and>
      (\<exists>f < 4. 0 < doc_freqs d ! f \<and> (\<exists>d' \<in> set sample_plain. 0 < doc_lens d' ! f))} =
      {ColText ''01010101010101010101010101010101''}" by (simp only: collect_image)
  have dist: "distinct [3, 1, 0, 2 :: nat]" "sample_plain \<noteq> []" "length (table_path sample_argv) \<le> 255"
    by (simp_all add: sample_plain_def sample_path)
  have works: "\<forall>i < 4. working_files (of_nat i) (table_path sample_argv) empty_disk" using empty_disk_works by blast
  have "\<exists>g1 rows g2. ftsConnect sample_env sample_argv (globals_init (gl_disk (ftsDisconnect (Some 7) g'))) = Some (SQLITE_OK, Some 7, g1) \<and>
      table_query (\<lambda>cmp xs. xs) [3, 1, 0, 2] False 7 ''...'' g1 = Some (rows, g2) \<and>
      set rows = {ColText ''01010101010101010101010101010101''}"
    unfolding rows [symmetric]
    by (rule table_documents_survive_restart [OF sample_env_ready files ram ok fit apart q dist(1) order dist(2)
        sample_env_ready works dist(3) t(2,3) look])
  then show ?thesis by (elim exE conjE, intro exI conjI) (rule t(2), rule t(3))
qed

end
