(* ===== verification/CrashProperties.thy ===== *)
theory CrashProperties
  imports ShardRestart ShardProperties
begin

text \<open>
  Opening a shard after a crash. The metadata record is the one of the last clean shutdown, so
  the page counter it restores can lie inside the file; the next page to be allocated is then
  a page in use.
\<close>

section \<open>Pages that are not cached\<close>

lemma fetch_uncached:
  assumes st: "bp_st N X ps P b" and len: "length ps < 4" and pid: "pid \<noteq> INVALID_PAGE_ID"
    and fetch: "buffer_pool_fetch_page b pid = (r, b')" and q: "q \<noteq> INVALID_PAGE_ID" "q \<noteq> pid" "\<not> bp_cached b q"
  shows "\<not> bp_cached b' q"
proof -
  have ok: "bp_ok N X b" using st by (simp add: bp_st_def)
  have "bp_available b pid"
    using available_count [OF ok bp_st_room [OF st len]] by (simp add: bp_available_def)
  then show ?thesis using fetch_caches [OF ok pid _ fetch q(1)] q by blast
qed

lemma unpin_clean_uncached:
  "bp_st N X ps P b \<Longrightarrow> pid \<in> set ps \<Longrightarrow> pid \<notin> X \<Longrightarrow>
    bp_cached (buffer_pool_unpin_page b pid False h) q = bp_cached b q"
  using bp_st_unpin_clean [of N X ps P b pid h] by (simp add: bp_cached_def)

lemma btree_init_uncached:
  assumes st: "bp_st N {} [] P b" and r: "unat r < N" and leaf: "hdr_page_type (P r) = 4"
    and q: "q \<noteq> INVALID_PAGE_ID" "q \<noteq> r" "\<not> bp_cached b q"
  shows "\<not> bp_cached (btree_init r b) q"
proof -
  have inv: "r \<noteq> INVALID_PAGE_ID" by (rule allocated_not_invalid [OF st r])
  obtain f b1 where f: "buffer_pool_fetch_page b r = (Some f, b1)" "bp_st N {} [r] P b1" "find_frame b1 r = Some f"
    using pool.fetch_st [OF st _ inv] by auto
  have fr: "frame_page b1 f = P r" using pool.frame_st [OF f(2) _ f(3)] by simp
  have b1: "\<not> bp_cached b1 q" by (rule fetch_uncached [OF st _ inv f(1) q]) simp
  have "find_frame (buffer_pool_unpin_page b1 r d HINT_NORMAL) = find_frame b1" for d
    using pool.unpin_dirty_st [OF f(2), of r HINT_NORMAL] pool.unpin_clean_st [OF f(2), of r HINT_NORMAL] r
    by (cases d) simp_all
  then show ?thesis using b1 f(1) fr leaf by (simp add: btree_init_def bp_cached_def Let_def)
qed

lemma find_active_uncached:
  assumes "bp_st N {} [] P (us_bpm sh)" "k < N" "k < unat q" "q \<noteq> INVALID_PAGE_ID" "\<not> bp_cached (us_bpm sh) q"
  shows "\<not> bp_cached (us_bpm (find_active_page k k sh)) q"
  using assms
proof (induction k arbitrary: sh)
  case (Suc k)
  let ?pid = "of_nat (Suc k) :: u32"
  have small: "N < 2 ^ 32" using Suc.prems(1) by (simp add: bp_st_def bp_ok_def)
  have pid: "unat ?pid = Suc k" using small Suc.prems(2) by (simp only: unat_of_nat) simp
  have pidN: "unat ?pid < N" using pid Suc.prems(2) by simp
  have inv: "?pid \<noteq> INVALID_PAGE_ID" by (rule allocated_not_invalid [OF Suc.prems(1) pidN])
  have qp: "q \<noteq> ?pid" using pid Suc.prems(3) by auto
  obtain f b1 where f: "buffer_pool_fetch_page (us_bpm sh) ?pid = (Some f, b1)" "bp_st N {} [?pid] P b1" "find_frame b1 ?pid = Some f"
    using pool.fetch_st [OF Suc.prems(1) _ inv] by auto
  let ?b = "buffer_pool_unpin_page b1 ?pid False HINT_NORMAL"
  have st: "bp_st N {} [] P ?b" using pool.unpin_clean_st [OF f(2), of ?pid HINT_NORMAL] by simp
  have "\<not> bp_cached b1 q" by (rule fetch_uncached [OF Suc.prems(1) _ inv f(1) Suc.prems(4) qp Suc.prems(5)]) simp
  then have b: "\<not> bp_cached ?b q" using unpin_clean_uncached [OF f(2), of ?pid] by simp
  have IH: "\<not> bp_cached (us_bpm (find_active_page k k (with_bpm sh ?b))) q"
    by (rule Suc.IH) (use st b Suc.prems in simp_all)
  show ?case
    using Suc.prems(5) f(1) b IH by (simp add: Let_def del: of_nat_Suc)
qed simp

section \<open>Allocating a page that is in use\<close>

lemma zero_used_page:
  assumes st: "bp_st N {} [] P b" and pid: "unat pid < N" and free: "\<not> bp_cached b pid"
  obtains b' where "bp_write_zero b pid = (int PAGE_SIZE, b')" "bp_st N {} [] (P(pid := (\<lambda>_. 0))) b'"
proof -
  have ok: "bp_ok N {} b" and P: "bp_page b = P" using st by (simp_all add: bp_st_def)
  have N: "N < 2 ^ 32" using ok by (simp add: bp_ok_def)
  let ?b = "b\<lparr>bp_file := write_page (bp_file b) pid (\<lambda>_. 0)\<rparr>"
  have free': "pid \<in> {} \<or> \<not> bp_cached b pid" using free by simp
  note w = bp_ok_write_file [OF ok pid disjI1 [OF refl] N free' page_wf_zero refl]
  have none: "find_frame ?b pid = None" using free w(4) by (simp add: bp_cached_def)
  have "bp_page ?b pid = (\<lambda>_. 0)"
    using none by (simp add: bp_page_def load_page_def on_file_write disk_page_write [OF page_wf_zero])
  then have "bp_page ?b = P(pid := (\<lambda>_. 0))" using w(2) P by (auto simp: fun_eq_iff)
  then have "bp_st N {} [] (P(pid := (\<lambda>_. 0))) ?b" using w(1,3) st by (simp add: bp_st_def)
  then show ?thesis using that [of ?b] bp_write_zero_eq [OF ok, of pid] by simp
qed

lemma alloc_used_page:
  assumes st: "bp_st N {} [] P (us_bpm sh)" and pid: "unat (us_next_page_id sh) < N"
    and free: "\<not> bp_cached (us_bpm sh) (us_next_page_id sh)"
  obtains p sh' where "alloc_posting_page t nx doc dp ds pos sh = (Some (us_next_page_id sh), sh')"
    "posting_page p nx [first_posting doc dp ds pos]" "bp_page (us_bpm sh') = P(us_next_page_id sh := p)"
proof -
  let ?m = "us_next_page_id sh"
  obtain b where b: "bp_write_zero (us_bpm sh) ?m = (int PAGE_SIZE, b)" "bp_st N {} [] (P(?m := (\<lambda>_. 0))) b"
    by (rule zero_used_page [OF st pid free])
  have inv: "?m \<noteq> INVALID_PAGE_ID" by (rule allocated_not_invalid [OF st pid])
  obtain f c where f: "buffer_pool_fetch_page b ?m = (Some f, c)" "bp_st N {} [?m] (P(?m := (\<lambda>_. 0))) c" "find_frame c ?m = Some f"
    using pool.fetch_st [OF b(2) _ inv] by auto
  have fr: "frame_page c f = (\<lambda>_. 0)" using pool.frame_st [OF f(2) _ f(3)] by simp
  let ?p = "new_posting_page (\<lambda>_. 0) t nx doc dp ds pos"
  note pg = new_page_postings [OF page_wf_zero, of t nx doc dp ds pos]
  have "bp_st N {?m} [?m] (P(?m := ?p)) (set_frame_page f ?p c)"
    using pool.update_st [OF f(2) _ f(3) pg(2)] by simp
  then have "bp_page (set_frame_page f ?p c) = P(?m := ?p)" by (simp add: bp_st_def)
  moreover have "alloc_posting_page t nx doc dp ds pos sh =
      (Some ?m, with_bpm (with_next_page sh (?m + 1)) (set_frame_page f ?p c))"
    using b(1) f(1) fr by (simp add: alloc_posting_page_def Let_def)
  ultimately show ?thesis using that pg(1) by simp
qed

section \<open>Opening after a crash\<close>

text \<open>A data file of \<open>N\<close> pages beside the metadata record that the shard \<open>saved\<close> wrote earlier.\<close>

definition crashed_files :: "u32 \<Rightarrow> string \<Rightarrow> nat \<Rightarrow> UnifiedShard \<Rightarrow> Disk \<Rightarrow> bool" where
  "crashed_files i d N saved disk \<longleftrightarrow>
     (let path = shard_path d i; df = dk_data disk (path ''.dat'') in
      df_size df = N * PAGE_SIZE \<and> df_plan df = [] \<and> 3 \<le> N \<and> N < 2 ^ 32 \<and>
      hdr_page_type (load_page df 0) = page_type_code PAGE_TYPE_BTREE_LEAF \<and>
      hdr_page_type (load_page df 2) = page_type_code PAGE_TYPE_VECTOR_DATA \<and>
      dk_meta disk (path ''.meta'') = snd (shard_meta_save saved 3 [] None) \<and>
      0 \<le> dk_data_fd disk (path ''.dat'') \<and> 0 \<le> dk_wal_fd disk (path ''.wal'') \<and> dk_calloc disk)"

text \<open>The example: four pages on the file, saved when there were three.\<close>

definition grown_file :: datafile where
  "grown_file = \<lparr>df_bytes = (\<lambda>a. if a = 16 then 4 else if a = 2 * PAGE_SIZE + 16 then 7 else 0),
     df_size = 4 * PAGE_SIZE, df_plan = []\<rparr>"

definition saved_shard :: UnifiedShard where
  "saved_shard = \<lparr>us_shard_id = 0, us_store = \<lparr>ps_bpm = sample_pool, ps_next_page_id = 3\<rparr>, us_btree_root = 0,
     us_total_docs = 0, us_avgdl = replicate 4 (Fin 10), us_sum_dl = replicate 4 (Fin 0), us_active_data_page_id = 2,
     us_next_doc_id = 0, us_tombstone_page_id = 1, us_is_initialized = True, us_directory = ''db''\<rparr>"

definition crashed_disk :: Disk where
  "crashed_disk = empty_disk\<lparr>dk_data := (\<lambda>_. grown_file), dk_meta := (\<lambda>_. snd (shard_meta_save saved_shard 3 [] None))\<rparr>"

lemma peek_two: "peek 2 m a = peek (Suc (Suc 0)) m a"
  by (simp only: numeral_2_eq_2)

lemma grown_file_types: "hdr_page_type (load_page grown_file 0) = 4" "hdr_page_type (load_page grown_file 2) = 7"
proof -
  have "load_page grown_file 0 16 = 4" "load_page grown_file 0 17 = 0"
    "load_page grown_file 2 16 = 7" "load_page grown_file 2 17 = 0"
    by (simp_all add: load_page_def on_file_def disk_page_def page_offset_def grown_file_def)
  then show "hdr_page_type (load_page grown_file 0) = 4" "hdr_page_type (load_page grown_file 2) = 7"
    by (simp_all add: get_u16_def peek_two)
qed

lemma crashed_example: "crashed_files 0 ''db'' 4 saved_shard crashed_disk"
  using grown_file_types by (simp add: crashed_files_def crashed_disk_def empty_disk_def grown_file_def)

lemma saved_example: "opened_as 0 ''db'' saved_shard"
  by (simp add: opened_as_def stats_wf_def saved_shard_def)

lemma opens_after_crash:
  assumes "crashed_files shard_id base_path N saved disk" "opened_as shard_id base_path saved"
    and "3 \<le> unat (us_next_page_id saved)" "unat (us_next_page_id saved) < N" "4 \<le> unat n" "unat n < 2 ^ 31"
  obtains sh where "shard_init shard_id base_path n disk = Opened sh" "us_next_page_id sh = us_next_page_id saved"
    "bp_st N {} [] (load_page (dk_data disk (shard_path base_path shard_id ''.dat''))) (us_bpm sh)"
    "\<not> bp_cached (us_bpm sh) (us_next_page_id saved)"
proof -
  let ?path = "shard_path base_path shard_id" and ?m = "us_next_page_id saved"
  define df where "df = dk_data disk (?path ''.dat'')"
  have c: "df_size df = N * PAGE_SIZE" "df_plan df = []" "3 \<le> N" "N < 2 ^ 32" "hdr_page_type (load_page df 0) = 4"
    "hdr_page_type (load_page df 2) = 7" "dk_meta disk (?path ''.meta'') = snd (shard_meta_save saved 3 [] None)"
    "0 \<le> dk_data_fd disk (?path ''.dat'')" "0 \<le> dk_wal_fd disk (?path ''.wal'')" "dk_calloc disk"
    using assms(1) by (simp_all add: crashed_files_def Let_def df_def)
  have o: "stats_wf saved" "us_shard_id saved = shard_id" "us_directory saved = base_path" using assms(2) by (simp_all add: opened_as_def)
  have "\<exists>bs. dk_meta disk (?path ''.meta'') = Some bs \<and> restores bs saved"
    using meta_saved [OF o(1), of 3 "[]" None] by (auto simp: c(7) next_outcome_def restores_def)
  then obtain bs where bs: "dk_meta disk (?path ''.meta'') = Some bs" "restores bs saved" by blast
  let ?last = "unat (?m - 1)"
  obtain b where b: "bp_st N {} [] (load_page df) b" "bp_st N {} [] (load_page df) (btree_init 0 b)"
    "\<forall>q. q \<noteq> INVALID_PAGE_ID \<longrightarrow> \<not> bp_cached b q"
    "shard_init shard_id base_path n disk = (let last = ?last in
      Opened ((find_active_page last last (reopened saved (btree_init 0 b)))\<lparr>us_is_initialized := True\<rparr>))"
  proof (rule init_reads_files [OF df_def [symmetric] c(1-5) bs o(2,3) c(8-10) assms(5,6)])
    fix b
    assume "bp_st N {} [] (load_page df) b" "bp_st N {} [] (load_page df) (btree_init 0 b)"
      "\<And>q. q \<noteq> INVALID_PAGE_ID \<Longrightarrow> \<not> bp_cached b q"
      "shard_init shard_id base_path n disk = (let last = ?last in
        Opened ((find_active_page last last (reopened saved (btree_init 0 b)))\<lparr>us_is_initialized := True\<rparr>))"
    then show thesis by (intro that) blast+
  qed
  let ?sh1 = "reopened saved (btree_init 0 b)"
  have st1: "bp_st N {} [] (load_page df) (us_bpm ?sh1)" using b(2) by (simp add: reopened_def)
  have last: "?last < unat ?m" "2 \<le> ?last" "?last < N" using assms(3,4) by (simp_all add: unat_sub word_le_nat_alt)
  have inv: "?m \<noteq> INVALID_PAGE_ID" "?m \<noteq> 0" using allocated_not_invalid [OF b(1) assms(4)] assms(3) by auto
  have "\<exists>q. 2 \<le> unat q \<and> unat q \<le> ?last \<and> hdr_page_type (load_page df q) = 7"
    using c(6) last by (intro exI [of _ 2]) simp
  then obtain b2 a where a: "find_active_page ?last ?last ?sh1 = (with_bpm ?sh1 b2)\<lparr>us_active_data_page_id := a\<rparr>"
    "bp_st N {} [] (load_page df) b2"
    using find_active [OF st1 last(3)] by blast
  have "\<not> bp_cached (btree_init 0 b) ?m"
    by (rule btree_init_uncached [OF b(1) _ c(5) inv _]) (use c(3) b(3) inv(1) in simp_all)
  then have "\<not> bp_cached (us_bpm ?sh1) ?m" by (simp add: reopened_def)
  then have free: "\<not> bp_cached b2 ?m"
    using find_active_uncached [OF st1 last(3,1) inv(1)] by (simp add: a(1) with_bpm_def)
  define sh where "sh = ((with_bpm ?sh1 b2)\<lparr>us_active_data_page_id := a\<rparr>)\<lparr>us_is_initialized := True\<rparr>"
  have f: "us_bpm sh = b2" "us_next_page_id sh = ?m" by (simp_all add: sh_def reopened_def with_bpm_def)
  have "shard_init shard_id base_path n disk = Opened sh" using b(4) by (simp add: a(1) sh_def Let_def)
  then show ?thesis by (rule that) (use a(2) free f in \<open>simp_all add: df_def\<close>)
qed

section \<open>Properties\<close>

text \<open>C40: After a crash the shard overwrites its own pages. The metadata record on disk is the one of
  the last clean shutdown; shard_init takes the page counter from it although the file has grown
  since, so the first posting page to be allocated replaces a page in use, while all pages were
  readable when the shard was opened. No I/O request fails.\<close>

theorem stale_counter_reuses_pages:
  assumes "crashed_files shard_id base_path N saved disk" "opened_as shard_id base_path saved"
    and "3 \<le> unat (us_next_page_id saved)" "unat (us_next_page_id saved) < N" "4 \<le> unat n" "unat n < 2 ^ 31"
  shows "\<exists>sh p sh'. shard_init shard_id base_path n disk = Opened sh \<and>
    us_next_page_id sh = us_next_page_id saved \<and>
    bp_page (us_bpm sh) = load_page (dk_data disk (shard_path base_path shard_id ''.dat'')) \<and>
    alloc_posting_page t nx doc dp ds pos sh = (Some (us_next_page_id saved), sh') \<and>
    bp_page (us_bpm sh') = (bp_page (us_bpm sh))(us_next_page_id saved := p) \<and>
    posting_page p nx [first_posting doc dp ds pos]"
proof -
  let ?m = "us_next_page_id saved" and ?P = "load_page (dk_data disk (shard_path base_path shard_id ''.dat''))"
  obtain sh where sh: "shard_init shard_id base_path n disk = Opened sh" "us_next_page_id sh = ?m"
    "bp_st N {} [] ?P (us_bpm sh)" "\<not> bp_cached (us_bpm sh) ?m"
    by (rule opens_after_crash [OF assms])
  obtain p sh' where "alloc_posting_page t nx doc dp ds pos sh = (Some ?m, sh')"
    "posting_page p nx [first_posting doc dp ds pos]" "bp_page (us_bpm sh') = ?P(?m := p)"
    by (rule alloc_used_page [of N ?P sh t nx doc dp ds pos]) (use sh assms(4) in simp_all)
  moreover have "bp_page (us_bpm sh) = ?P" using sh(3) by (simp add: bp_st_def)
  ultimately show ?thesis using sh(1,2) by metis
qed

theorem stale_counter_reuses_pages_witness:
  "\<exists>sh p sh'. shard_init 0 ''db'' 1024 crashed_disk = Opened sh \<and>
    hdr_page_type (bp_page (us_bpm sh) 2) = 7 \<and>
    alloc_posting_page 5 INVALID_PAGE_ID 0 2 0 0 sh = (Some 3, sh') \<and>
    bp_page (us_bpm sh') = (load_page grown_file)(3 := p) \<and>
    posting_page p INVALID_PAGE_ID [first_posting 0 2 0 0]"
proof -
  have m: "us_next_page_id saved_shard = 3" by (simp add: saved_shard_def)
  have "dk_data crashed_disk (shard_path ''db'' 0 ''.dat'') = grown_file" by (simp add: crashed_disk_def)
  then show ?thesis
    using stale_counter_reuses_pages [OF crashed_example saved_example, of 1024 5 INVALID_PAGE_ID 0 2 0 0] grown_file_types(2)
    by (auto simp: m)
qed

end
