(* ===== verification/PhraseProperties.thy ===== *)
theory PhraseProperties
  imports InvertedIndex
begin

text \<open>
  The phrase search of the inverted index: its merge of the terms' posting lists with one
  cursor per term agrees with the declarative meaning of a phrase when the lists ascend in the
  document id, as those of a term with one page of postings do.
\<close>

section \<open>What a phrase match is\<close>

text \<open>Some occurrence of the first term is followed, in the same document, by the other terms at
  the next positions.\<close>

definition follows :: "InvertedPosting \<Rightarrow> u32 \<Rightarrow> InvertedPosting list list \<Rightarrow> bool" where
  "follows post0 start pss \<longleftrightarrow>
     (\<forall>k < length pss. \<exists>post \<in> set (pss ! k).
        ip_doc_id post = ip_doc_id post0 \<and> has_position post (start + of_nat (Suc k)))"

definition phrase_match :: "InvertedPosting list list \<Rightarrow> InvertedPosting \<Rightarrow> bool" where
  "phrase_match pss post0 \<longleftrightarrow>
     (\<exists>i < unat (ip_pos_count post0). follows post0 (ip_positions post0 ! i) pss)"

abbreviation ascending :: "InvertedPosting list \<Rightarrow> bool" where
  "ascending ps \<equiv> sorted_wrt (<) (map ip_doc_id ps)"

section \<open>Cursors\<close>

text \<open>A cursor has only passed documents below the target.\<close>

definition cursor_ok :: "u32 \<Rightarrow> InvertedPosting list \<times> nat \<Rightarrow> bool" where
  "cursor_ok target x \<longleftrightarrow> ascending (fst x) \<and> snd x \<le> length (fst x) \<and>
     (\<forall>j < snd x. ip_doc_id (fst x ! j) < target)"

lemma cursor_ok_mono: "cursor_ok t x \<Longrightarrow> t \<le> t' \<Longrightarrow> cursor_ok t' x"
  unfolding cursor_ok_def by (meson less_le_trans)

lemma cursor_ok_start: "ascending ps \<Longrightarrow> cursor_ok t (ps, 0)"
  by (simp add: cursor_ok_def)

lemma ascending_unique:
  "ascending ps \<Longrightarrow> i < length ps \<Longrightarrow> j < length ps \<Longrightarrow> ip_doc_id (ps ! i) = ip_doc_id (ps ! j) \<Longrightarrow> i = j"
  by (metis length_map less_irrefl linorder_neqE_nat nth_map sorted_wrt_iff_nth_less)

lemma advance_cursor_ok:
  assumes "cursor_ok target (ps, c)"
  shows "cursor_ok target (ps, advance_cursor ps target c) \<and>
    (advance_cursor ps target c < length ps \<longrightarrow> target \<le> ip_doc_id (ps ! advance_cursor ps target c))"
  using assms
proof (induction ps target c rule: advance_cursor.induct)
  case (1 ps target c)
  show ?case
  proof (cases "c < length ps \<and> ip_doc_id (ps ! c) < target")
    case True
    then have "cursor_ok target (ps, Suc c)" using 1(2) by (auto simp: cursor_ok_def less_Suc_eq)
    then show ?thesis using 1(1) True by (subst (1 2 3) advance_cursor.simps) simp
  next
    case False
    then show ?thesis using 1(2) by (subst (1 2 3) advance_cursor.simps) auto
  qed
qed

text \<open>The advanced cursor stands on the document if the list has it.\<close>

lemma advance_cursor_hits:
  assumes ok: "cursor_ok target (ps, c)"
  shows "advance_cursor ps target c < length ps \<and> ip_doc_id (ps ! advance_cursor ps target c) = target
    \<longleftrightarrow> (\<exists>post \<in> set ps. ip_doc_id post = target)"
proof
  assume "\<exists>post \<in> set ps. ip_doc_id post = target"
  then obtain j where j: "j < length ps" "ip_doc_id (ps ! j) = target" by (metis in_set_conv_nth)
  define c' where "c' = advance_cursor ps target c"
  have c': "cursor_ok target (ps, c')" "c' < length ps \<longrightarrow> target \<le> ip_doc_id (ps ! c')"
    using advance_cursor_ok [OF ok] by (simp_all add: c'_def)
  then have "\<not> j < c'" using j by (auto simp: cursor_ok_def)
  then have "c' \<le> j" by simp
  moreover have "\<not> c' < j"
  proof
    assume "c' < j"
    then have "ip_doc_id (ps ! c') < ip_doc_id (ps ! j)"
      using ok j(1) unfolding cursor_ok_def sorted_wrt_iff_nth_less by simp
    then show False using c'(2) j \<open>c' < j\<close> by simp
  qed
  ultimately show "advance_cursor ps target c < length ps \<and> ip_doc_id (ps ! advance_cursor ps target c) = target"
    using j by (simp flip: c'_def)
qed (metis nth_mem)

lemma match_doc_ok:
  assumes "match_doc target others = (ok, others')" "\<forall>x \<in> set others. cursor_ok target x"
  shows "map fst others' = map fst others \<and> (\<forall>x \<in> set others'. cursor_ok target x) \<and>
    (ok \<longleftrightarrow> (\<forall>x \<in> set others. \<exists>post \<in> set (fst x). ip_doc_id post = target)) \<and>
    (ok \<longrightarrow> (\<forall>x \<in> set others'. snd x < length (fst x) \<and> ip_doc_id (fst x ! snd x) = target))"
  using assms
proof (induction target others arbitrary: ok others' rule: match_doc.induct)
  case (2 target ps c rest)
  define c' where "c' = advance_cursor ps target c"
  have c': "cursor_ok target (ps, c')" using advance_cursor_ok 2(3) by (simp add: c'_def)
  then have le: "c' \<le> length ps" by (simp add: cursor_ok_def)
  have hit: "c' < length ps \<and> ip_doc_id (ps ! c') = target \<longleftrightarrow> (\<exists>post \<in> set ps. ip_doc_id post = target)"
    using advance_cursor_hits 2(3) by (simp add: c'_def)
  show ?case
  proof (cases "c' = length ps \<or> ip_doc_id (ps ! c') \<noteq> target")
    case True
    then have "ok = False" "others' = (ps, c') # rest"
      using 2(2) by (simp_all add: c'_def [symmetric])
    then show ?thesis using 2(3) True c' hit by auto
  next
    case False
    obtain ok1 rest' where m: "match_doc target rest = (ok1, rest')" by fastforce
    then have *: "ok = ok1" "others' = (ps, c') # rest'"
      using 2(2) False by (simp_all add: c'_def [symmetric])
    have "map fst rest' = map fst rest \<and> (\<forall>x \<in> set rest'. cursor_ok target x) \<and>
        (ok1 \<longleftrightarrow> (\<forall>x \<in> set rest. \<exists>post \<in> set (fst x). ip_doc_id post = target)) \<and>
        (ok1 \<longrightarrow> (\<forall>x \<in> set rest'. snd x < length (fst x) \<and> ip_doc_id (fst x ! snd x) = target))"
      using 2(1) [OF refl _ m] False 2(3) by (simp add: c'_def)
    then show ?thesis using * False c' hit le by auto
  qed
qed auto

text \<open>On matched cursors the position test is the declarative one.\<close>

lemma phrase_at_follows:
  assumes "\<forall>x \<in> set others. cursor_ok target x"
    and "\<forall>x \<in> set others. snd x < length (fst x) \<and> ip_doc_id (fst x ! snd x) = target"
    and "ip_doc_id post0 = target"
  shows "phrase_at start others \<longleftrightarrow> follows post0 start (map fst others)"
proof -
  have "has_position (fst (others ! k) ! snd (others ! k)) pos \<longleftrightarrow>
      (\<exists>post \<in> set (fst (others ! k)). ip_doc_id post = target \<and> has_position post pos)"
    if k: "k < length others" for k pos
  proof
    assume "\<exists>post \<in> set (fst (others ! k)). ip_doc_id post = target \<and> has_position post pos"
    then obtain j where j: "j < length (fst (others ! k))" "ip_doc_id (fst (others ! k) ! j) = target"
      "has_position (fst (others ! k) ! j) pos" by (auto simp: in_set_conv_nth)
    have "others ! k \<in> set others" using k by simp
    then have "ascending (fst (others ! k))" "snd (others ! k) < length (fst (others ! k))"
      "ip_doc_id (fst (others ! k) ! snd (others ! k)) = target"
      using assms(1, 2) by (simp_all add: cursor_ok_def)
    then have "j = snd (others ! k)" by (intro ascending_unique [OF _ j(1)]) (simp_all add: j(2))
    then show "has_position (fst (others ! k) ! snd (others ! k)) pos" using j by simp
  next
    assume pos: "has_position (fst (others ! k) ! snd (others ! k)) pos"
    have "others ! k \<in> set others" using k by simp
    then have "snd (others ! k) < length (fst (others ! k))" "ip_doc_id (fst (others ! k) ! snd (others ! k)) = target"
      using assms(2) by simp_all
    then show "\<exists>post \<in> set (fst (others ! k)). ip_doc_id post = target \<and> has_position post pos"
      using pos by (intro bexI [of _ "fst (others ! k) ! snd (others ! k)"]) simp_all
  qed
  then show ?thesis using assms(3) by (simp add: phrase_at_def follows_def)
qed

lemma phrase_loop_filter:
  assumes "\<forall>x \<in> set others. \<forall>post \<in> set posts. cursor_ok (ip_doc_id post) x" "ascending posts"
  shows "phrase_loop visit posts others st =
    fold (visit_posting visit) (filter (phrase_match (map fst others)) posts) st"
  using assms
proof (induction posts arbitrary: others st)
  case (Cons post0 posts)
  obtain ok others' where m: "match_doc (ip_doc_id post0) others = (ok, others')" by fastforce
  have ok: "\<forall>x \<in> set others. cursor_ok (ip_doc_id post0) x" using Cons.prems(1) by simp
  note md = match_doc_ok [OF m ok]
  have "ok \<and> position_match post0 others' \<longleftrightarrow> phrase_match (map fst others) post0"
  proof (cases ok)
    case True
    then have "phrase_at start others' \<longleftrightarrow> follows post0 start (map fst others)" for start
      using phrase_at_follows [of others' "ip_doc_id post0" post0 start] md by simp
    then show ?thesis using True by (simp add: position_match_def phrase_match_def)
  next
    case False
    then have "\<not> (\<forall>x \<in> set others. \<exists>post \<in> set (fst x). ip_doc_id post = ip_doc_id post0)"
      using md by simp
    then obtain x where "x \<in> set others" "\<forall>post \<in> set (fst x). ip_doc_id post \<noteq> ip_doc_id post0"
      by blast
    then have "\<not> follows post0 start (map fst others)" for start
      by (metis follows_def in_set_conv_nth length_map nth_map)
    then show ?thesis using False by (simp add: phrase_match_def)
  qed
  moreover have "\<forall>x \<in> set others'. \<forall>post \<in> set posts. cursor_ok (ip_doc_id post) x"
  proof (intro ballI)
    fix x post
    assume "x \<in> set others'" "post \<in> set posts"
    then have "cursor_ok (ip_doc_id post0) x" "ip_doc_id post0 \<le> ip_doc_id post"
      using md Cons.prems(2) by (auto intro: less_imp_le)
    then show "cursor_ok (ip_doc_id post) x" by (rule cursor_ok_mono)
  qed
  then have "phrase_loop visit posts others' st' =
      fold (visit_posting visit) (filter (phrase_match (map fst others)) posts) st'" for st'
    using Cons.IH [of others'] Cons.prems(2) md by simp
  ultimately show ?case using m by (simp add: Let_def)
qed simp

section \<open>Properties\<close>

text \<open>C20: On posting lists that ascend in the document id, the merge loop of the phrase search visits
  exactly the postings of the first term whose document contains the phrase (some occurrence of
  the first term followed by the other terms at the next positions), each once and in order.\<close>

theorem phrase_merge_finds_phrases:
  assumes "ascending posts" "\<forall>ps \<in> set pss. ascending ps"
  shows "phrase_loop visit posts (map (\<lambda>ps. (ps, 0)) pss) st =
    fold (visit_posting visit) (filter (phrase_match pss) posts) st"
proof -
  have "map (fst \<circ> (\<lambda>ps. (ps, 0 :: nat))) pss = pss" by (simp add: comp_def)
  then show ?thesis
    using phrase_loop_filter [of "map (\<lambda>ps. (ps, 0)) pss" posts] assms
    by (simp add: cursor_ok_start)
qed

text \<open>A posting with one position.\<close>

definition sample_posting :: "u32 \<Rightarrow> u32 \<Rightarrow> InvertedPosting" where
  "sample_posting d pos = \<lparr>ip_doc_id = d, ip_data_page_id = 2, ip_data_slot_id = 0, ip_pos_count = 1,
     ip_positions = pos # replicate 7 0\<rparr>"

lemma sample_match:
  "phrase_match [[sample_posting a p, sample_posting b q]] (sample_posting d r) \<longleftrightarrow>
    a = d \<and> p = r + 1 \<or> b = d \<and> q = r + 1"
  by (auto simp: phrase_match_def follows_def has_position_def sample_posting_def)

lemma phrase_merge_finds_phrases_witness:
  "\<forall>visit st. phrase_loop visit [sample_posting 1 4, sample_posting 2 9]
      [([sample_posting 1 6, sample_posting 2 10], 0)] st = visit_posting visit (sample_posting 2 9) st"
  using phrase_merge_finds_phrases [of "[sample_posting 1 4, sample_posting 2 9]"
      "[[sample_posting 1 6, sample_posting 2 10]]"]
  by (simp add: sample_match) (simp add: sample_posting_def)

end
