(* ===== verification/PhraseIndex.thy ===== *)
theory PhraseIndex
  imports PhraseProperties ShardProperties
begin

text \<open>
  The phrase search over the real index. The posting lists come from a chain of pages, newest
  first; the cursors of the merge only move forward. Once the postings of the newest page are
  read, the cursor of the second term stands beyond every older document, so that the search
  finds documents of that page only.
\<close>

section \<open>The merge after the newest page\<close>

lemma stuck_cursor:
  assumes "c < length ps" "\<forall>post \<in> set posts. ip_doc_id post < ip_doc_id (ps ! c)"
  shows "phrase_loop visit posts ((ps, c) # rest) st = st"
  using assms
proof (induction posts)
  case (Cons post posts)
  then have "ip_doc_id post < ip_doc_id (ps ! c)" by simp
  moreover from this have "advance_cursor ps (ip_doc_id post) c = c" by (subst advance_cursor.simps) auto
  ultimately show ?case using Cons by (auto simp: Let_def)
qed simp

lemma advance_cursor_stops:
  "c \<le> m \<Longrightarrow> m < length ps \<Longrightarrow> target \<le> ip_doc_id (ps ! m) \<Longrightarrow>
    advance_cursor ps target c \<le> m \<and> target \<le> ip_doc_id (ps ! advance_cursor ps target c)"
proof (induction ps target c rule: advance_cursor.induct)
  case (1 ps target c)
  show ?case
  proof (cases "c < length ps \<and> ip_doc_id (ps ! c) < target")
    case True
    then have "c \<noteq> m" using 1(4) by auto
    then show ?thesis using 1 True by (subst (1 2) advance_cursor.simps) simp
  next
    case False
    then show ?thesis using 1(2,3) by (subst (1 2) advance_cursor.simps) auto
  qed
qed

lemma phrase_loop_newest:
  assumes visit: "\<And>post st. length (fst (visit_posting visit post st)) \<le> length (fst st) + 1"
    and "c \<le> m" "m < length ps" "\<forall>post \<in> set newest. T \<le> ip_doc_id post \<and> ip_doc_id post \<le> ip_doc_id (ps ! m)"
    and "\<forall>post \<in> set older. ip_doc_id post < T" "newest \<noteq> [] \<or> T \<le> ip_doc_id (ps ! c)"
  shows "length (fst (phrase_loop visit (newest @ older) ((ps, c) # rest) st)) \<le> length (fst st) + length newest"
  using assms(2-)
proof (induction newest arbitrary: c rest st)
  case Nil
  then have "\<forall>post \<in> set older. ip_doc_id post < ip_doc_id (ps ! c)" by force
  then show ?case using stuck_cursor [of c ps older visit rest st] Nil by simp
next
  case (Cons post newest)
  define c' where "c' = advance_cursor ps (ip_doc_id post) c"
  have c': "c' \<le> m" "ip_doc_id post \<le> ip_doc_id (ps ! c')"
    using advance_cursor_stops [of c m ps "ip_doc_id post"] Cons.prems by (simp_all add: c'_def)
  have "\<exists>ok rest'. match_doc (ip_doc_id post) ((ps, c) # rest) = (ok, (ps, c') # rest')"
    by (cases "c' = length ps \<or> ip_doc_id (ps ! c') \<noteq> ip_doc_id post"; cases "match_doc (ip_doc_id post) rest")
      (auto simp: c'_def Let_def)
  then obtain ok rest' where match: "match_doc (ip_doc_id post) ((ps, c) # rest) = (ok, (ps, c') # rest')" by blast
  define st' where "st' = (if ok \<and> position_match post ((ps, c') # rest') then visit_posting visit post st else st)"
  have step: "phrase_loop visit ((post # newest) @ older) ((ps, c) # rest) st =
      phrase_loop visit (newest @ older) ((ps, c') # rest') st'"
    by (simp only: append_Cons phrase_loop.simps match Let_def prod.case st'_def)
  have "T \<le> ip_doc_id (ps ! c')" using Cons.prems(3) c'(2) by force
  then have "length (fst (phrase_loop visit (newest @ older) ((ps, c') # rest') st')) \<le> length (fst st') + length newest"
    using Cons.IH [of c' rest' st'] Cons.prems c'(1) by simp
  also have "length (fst st') \<le> length (fst st) + 1" using visit [of post st] by (simp add: st'_def)
  finally show ?case unfolding step by simp
qed

section \<open>The number of results\<close>

lemma length_consider: "length (consider_bm25f idf avgdl weights k1 b m r results) \<le> length results + 1"
  by (simp add: consider_bm25f_def collect_top_def Let_def)

lemma length_visit:
  "length (fst (visit_posting (consider_bm25f idf avgdl weights k1 b m) post st)) \<le> length (fst st) + 1"
  by (cases st)
    (auto simp: visit_posting_def Let_def length_consider [simplified] split: prod.split option.split)

lemma length_exchange: "length (exchange_sort key g xs) = length xs"
proof -
  have pass: "length (exchange_pass key i xs) = length xs" for i xs
  proof -
    have "length (fold (\<lambda>j xs. if dlt (key (xs ! i)) (key (xs ! j)) then swap_at i j xs else xs) js xs) = length xs" for js
      by (induction js arbitrary: xs) (simp_all add: swap_at_def)
    then show ?thesis by (simp add: exchange_pass_def)
  qed
  have "length (fold (\<lambda>i xs. let xs = exchange_pass key i xs in xs[i := g i (xs ! i)]) is xs) = length xs" for "is"
    by (induction "is" arbitrary: xs) (simp_all add: pass Let_def)
  then show ?thesis by (simp add: exchange_sort_def)
qed

section \<open>The posting lists\<close>

lemma block_size:
  assumes "index_inv N P B G sh" "ps \<in> set (B t)"
  shows "length ps \<le> MAX_POSTINGS_PER_PAGE"
proof -
  obtain M F I where rep: "index_rep N P M F I sh" "B = (\<lambda>t. map snd (I t))"
    using assms(1) by (auto simp: index_inv_def)
  have "posting_chain P h L \<Longrightarrow> ps \<in> set (map snd L) \<Longrightarrow> length ps \<le> 92" for h L
    by (induction P h L rule: posting_chain.induct) (auto simp: posting_page_count)
  then show ?thesis using index_rep_term(1,2) [OF rep(1), of t] assms(2)
    by (cases "M (ucast t)") (auto simp: rep(2))
qed

text \<open>When every document has the term, its postings name every document in order.\<close>

lemma posting_docs:
  assumes rel: "store_rel N P B st sh" and all: "docs_with t st = map fst (ds_docs st)"
    and ids: "map rc_doc_id (map fst (ds_docs st)) = map of_nat [0..<n]"
  shows "map ip_doc_id (concat (rev (B t))) = map of_nat [0..<n]"
proof -
  obtain G D where inv: "shard_inv N P B G D sh" using rel by (auto simp: store_rel_def)
  have keys: "map (key_record P) (block_keys (B t)) = map Some (docs_with t st)" using rel by (simp add: store_rel_def)
  have "map_option rc_doc_id (key_record P k) = Some (fst k)" if "k \<in> set (block_keys (B t))" for k
  proof -
    have "posting_ok P D (us_next_doc_id sh) k" using that inv unfolding shard_inv_def by blast
    then show ?thesis by (cases k) (auto simp: posting_ok_def key_record_def)
  qed
  then have "map Some (map fst (block_keys (B t))) = map (map_option rc_doc_id) (map (key_record P) (block_keys (B t)))"
    unfolding map_map by (intro map_cong [OF refl]) (metis comp_apply)
  also have "\<dots> = map Some (map of_nat [0..<n])" using arg_cong [OF ids, of "map Some"] unfolding keys all by (simp add: comp_def)
  finally have "map fst (block_keys (B t)) = map of_nat [0..<n]" by (metis list.inj_map inj_Some injD)
  then show ?thesis by (simp add: block_keys_def posting_key_def comp_def)
qed

text \<open>The newest block holds the last documents, all others come before.\<close>

lemma newest_block:
  assumes ids: "map ip_doc_id (concat (rev (newest # older))) = map (of_nat :: nat \<Rightarrow> u32) [0..<n]" and n: "n < 2 ^ 32"
    and ne: "newest \<noteq> []"
  defines "T \<equiv> of_nat (n - length newest) :: u32"
  shows "\<forall>post \<in> set newest. T \<le> ip_doc_id post \<and> ip_doc_id post \<le> of_nat (n - 1)"
    "\<forall>post \<in> set (concat older). ip_doc_id post < T" "ip_doc_id (last newest) = of_nat (n - 1)"
proof -
  let ?old = "concat (rev older)"
  have eq: "map ip_doc_id ?old @ map ip_doc_id newest = map of_nat [0..<n]" using ids by simp
  have len: "length ?old + length newest = n" using arg_cong [OF eq, of length] by simp
  have new: "map ip_doc_id newest = map of_nat [length ?old..<n]"
    using arg_cong [OF eq, of "drop (length ?old)"] by (simp add: drop_map)
  have old: "map ip_doc_id ?old = map of_nat [0..<length ?old]"
    using arg_cong [OF eq, of "take (length ?old)"] len by (simp add: take_map)
  have T: "n - length newest = length ?old" using len by simp
  have le: "(of_nat i :: u32) \<le> of_nat j" if "i \<le> j" "j < 2 ^ 32" for i j using that by (simp add: word_le_nat_alt unat_of_nat)
  have less: "(of_nat i :: u32) < of_nat j" if "i < j" "j < 2 ^ 32" for i j using that by (simp add: word_less_nat_alt unat_of_nat)
  show "\<forall>post \<in> set newest. T \<le> ip_doc_id post \<and> ip_doc_id post \<le> of_nat (n - 1)"
  proof
    fix post assume "post \<in> set newest"
    then have "ip_doc_id post \<in> set (map ip_doc_id newest)" by simp
    then obtain i where "length ?old \<le> i" "i < n" "ip_doc_id post = of_nat i" unfolding new by auto
    moreover have "i \<le> n - 1" "n - 1 < 2 ^ 32" "i < 2 ^ 32" using \<open>i < n\<close> n by simp_all
    ultimately show "T \<le> ip_doc_id post \<and> ip_doc_id post \<le> of_nat (n - 1)" unfolding T_def T by (metis le)
  qed
  show "\<forall>post \<in> set (concat older). ip_doc_id post < T"
  proof
    fix post assume "post \<in> set (concat older)"
    then have "ip_doc_id post \<in> set (map ip_doc_id ?old)" by auto
    then obtain i where "i < length ?old" "ip_doc_id post = of_nat i" unfolding old by auto
    then show "ip_doc_id post < T" using less n len by (simp add: T_def T)
  qed
  have "length ?old < n" using len ne by (cases newest) auto
  then have "[length ?old..<n] \<noteq> []" "last [length ?old..<n] = n - 1" by simp_all
  then have "last (map of_nat [length ?old..<n]) = (of_nat (n - 1) :: u32)"
    using last_map [of "[length ?old..<n]" "of_nat :: nat \<Rightarrow> u32"] by simp
  moreover have "ip_doc_id (last newest) = last (map ip_doc_id newest)" using ne by (simp add: last_map)
  ultimately show "ip_doc_id (last newest) = of_nat (n - 1)" unfolding new by simp
qed


text \<open>The merge of two such lists visits the newest block of the first only.\<close>

lemma merge_visits_newest:
  assumes a: "map ip_doc_id (concat (rev ba)) = map of_nat [0..<n]" and b: "map ip_doc_id (concat (rev bb)) = map of_nat [0..<n]"
    and n: "n < 2 ^ 32" and filled: "[] \<notin> set bb" "[] \<notin> set ba" and size: "\<forall>ps \<in> set ba. length ps \<le> k"
    and la: "map ip_doc_id pa = map ip_doc_id (concat ba)" and lb: "map ip_doc_id pb = map ip_doc_id (concat bb)"
  shows "length (fst (phrase_loop (consider_bm25f idf avgdl weights k1 c m) pa ((pb, 0) # rest) ([], sh))) \<le> k"
proof (cases ba)
  case Nil
  then show ?thesis using la by simp
next
  case (Cons na oa)
  let ?visit = "consider_bm25f idf avgdl weights k1 c m"
  have ne: "na \<noteq> []" "length na \<le> k" using filled(2) size Cons by auto
  have n0: "0 < n" using arg_cong [OF a, of length] ne(1) Cons by (cases na) auto
  obtain nb ob where bb: "bb = nb # ob" using arg_cong [OF b, of length] n0 by (cases bb) auto
  have nb: "nb \<noteq> []" using filled(1) bb by auto
  note new_a = newest_block [OF a [unfolded Cons] n ne(1)] and new_b = newest_block [OF b [unfolded bb] n nb]
  let ?k = "length na" and ?m = "length nb - 1"
  have split: "map ip_doc_id (take ?k pa) = map ip_doc_id na" "map ip_doc_id (drop ?k pa) = map ip_doc_id (concat oa)"
    using la by (simp_all add: Cons take_map [symmetric] drop_map [symmetric])
  have set: "ip_doc_id ` set (take ?k pa) = ip_doc_id ` set na" "ip_doc_id ` set (drop ?k pa) = ip_doc_id ` set (concat oa)"
    using arg_cong [OF split(1), of set] arg_cong [OF split(2), of set] by simp_all
  have i: "?m < length nb" "length nb \<le> length pb" using nb arg_cong [OF lb, of length] bb by simp_all
  then have "ip_doc_id (pb ! ?m) = map ip_doc_id pb ! ?m" by simp
  also have "\<dots> = ip_doc_id (nb ! ?m)" using i(1) unfolding lb bb by (simp add: nth_append)
  finally have at: "ip_doc_id (pb ! ?m) = of_nat (n - 1)" using new_b(3) nb by (simp add: last_conv_nth)
  have "length (fst (phrase_loop ?visit (take ?k pa @ drop ?k pa) ((pb, 0) # rest) ([], sh)))
      \<le> length (fst ([] :: UnifiedSearchResult list, sh)) + length (take ?k pa)"
  proof (rule phrase_loop_newest [where m = ?m and T = "of_nat (n - ?k)"])
    show "length (fst (visit_posting ?visit post st)) \<le> length (fst st) + 1" for post st by (rule length_visit)
    show "?m < length pb" using i by simp
    show "\<forall>post \<in> set (take ?k pa). of_nat (n - ?k) \<le> ip_doc_id post \<and> ip_doc_id post \<le> ip_doc_id (pb ! ?m)"
      using new_a(1) set(1) unfolding at by (metis (no_types, lifting) imageE imageI)
    show "\<forall>post \<in> set (drop ?k pa). ip_doc_id post < of_nat (n - ?k)"
      using new_a(2) set(2) by (metis (no_types, lifting) imageE imageI)
    show "take ?k pa \<noteq> [] \<or> of_nat (n - ?k) \<le> ip_doc_id (pb ! 0)"
      using arg_cong [OF split(1), of length] ne(1) by (cases na) auto
  qed simp
  then show ?thesis using ne(2) by simp
qed

lemma all_postings_index:
  assumes "index_inv N P B G sh"
  shows "\<exists>r sh'. get_all_postings ts sh = Some (r, sh') \<and>
    (\<forall>pss. r = Some pss \<longrightarrow> list_all2 (\<lambda>t ps. map used_positions ps = take max_possible_postings (concat (B t))) ts pss)"
  using assms
proof (induction ts arbitrary: sh)
  case (Cons t ts)
  have inv: "index_inv N P B G sh \<and> sh = sh\<lparr>us_store := us_store sh\<rparr>" using Cons.prems by simp
  obtain out sh1 where g: "inverted_index_get_postings sh t max_possible_postings = Some (out, sh1)"
    "map used_positions out = take max_possible_postings (concat (B t))" "index_inv N P B G sh1"
    using index.get_inv [OF inv, where t = t and m = max_possible_postings] by blast
  obtain r sh2 where r: "get_all_postings ts sh1 = Some (r, sh2)"
    "\<forall>pss. r = Some pss \<longrightarrow> list_all2 (\<lambda>t ps. map used_positions ps = take max_possible_postings (concat (B t))) ts pss"
    using Cons.IH [OF g(3)] by blast
  show ?case using g(1,2) r by (cases out; cases r) auto
qed simp

text \<open>All results come from the newest page of the first term.\<close>

lemma phrase_search_bound:
  assumes rel: "store_rel N P B st sh" and n: "length (ds_docs st) = n" "n \<le> max_possible_postings"
    and ids: "map rc_doc_id (map fst (ds_docs st)) = map of_nat [0..<n]"
    and all: "docs_with a st = map fst (ds_docs st)" "docs_with b st = map fst (ds_docs st)"
  shows "\<exists>results sh'. shard_search_phrase_indexed True sh (a # b # ts) idf avgdl weights k1 bb m = Some (results, sh') \<and>
    length results \<le> MAX_POSTINGS_PER_PAGE"
proof -
  obtain G D where inv: "shard_inv N P B G D sh" using rel by (auto simp: store_rel_def)
  then have idx: "index_inv N P B G sh" by (simp add: shard_inv_def)
  let ?visit = "consider_bm25f idf avgdl weights k1 bb m"
  obtain r sh1 where r: "get_all_postings (a # b # ts) sh = Some (r, sh1)"
    "\<forall>pss. r = Some pss \<longrightarrow> list_all2 (\<lambda>t ps. map used_positions ps = take max_possible_postings (concat (B t))) (a # b # ts) pss"
    using all_postings_index [OF idx] by blast
  have search: "shard_search_phrase_indexed True sh (a # b # ts) idf avgdl weights k1 bb m =
      (case r of None \<Rightarrow> Some ([], sh1)
       | Some pss \<Rightarrow> let (results, sh) = phrase_loop ?visit (hd pss) (map (\<lambda>ps. (ps, 0)) (tl pss)) ([], sh1)
           in Some (exchange_sort sr_bm25f_score no_stamp results, sh))"
    unfolding shard_search_phrase_indexed_def using r(1) by (cases r) (simp_all del: get_all_postings.simps)
  show ?thesis
  proof (cases r)
    case None
    then show ?thesis using search by simp
  next
    case (Some pss)
    obtain pa pb rest where pss: "pss = pa # pb # rest" "map used_positions pa = take max_possible_postings (concat (B a))"
      "map used_positions pb = take max_possible_postings (concat (B b))"
      using r(2) Some by (auto simp: list_all2_Cons1)
    have docs: "map ip_doc_id (concat (rev (B t))) = map of_nat [0..<n]" if "docs_with t st = map fst (ds_docs st)" for t
      by (rule posting_docs [OF rel that ids])
    have listed: "map ip_doc_id ps = map ip_doc_id (concat (B t))"
      if "docs_with t st = map fst (ds_docs st)" "map used_positions ps = take max_possible_postings (concat (B t))" for t ps
    proof -
      have "length (concat (rev (B t))) = n" using arg_cong [OF docs [OF that(1)], of length] by simp
      then have "length (concat (B t)) = n" by (simp add: length_concat rev_map [symmetric] sum_list_rev)
      then have eq: "map used_positions ps = concat (B t)" using that(2) n(2) by simp
      have "map ip_doc_id ps = map ip_doc_id (map used_positions ps)" by (simp add: used_positions_def)
      then show ?thesis unfolding eq .
    qed
    note la = listed [OF all(1) pss(2)] and lb = listed [OF all(2) pss(3)]
    have filled: "[] \<notin> set (B t)" "\<forall>ps \<in> set (B t). length ps \<le> 92" for t
      using index_inv_filled [OF idx] block_size [OF idx] by blast+
    have "length (fst (phrase_loop ?visit pa (map (\<lambda>ps. (ps, 0)) (pb # rest)) ([], sh1))) \<le> 92"
      using merge_visits_newest [OF docs [OF all(1)] docs [OF all(2)] _ filled(1) filled(1,2)
          listed [OF all(1) pss(2)] listed [OF all(2) pss(3)]] n(2) by simp
    then show ?thesis using search Some pss(1)
      by (cases "phrase_loop ?visit pa (map (\<lambda>ps. (ps, 0)) (pb # rest)) ([], sh1)") (simp add: length_exchange)
  qed
qed

section \<open>Properties\<close>

text \<open>Documents that all begin with the same terms.\<close>

definition inserts_phrase :: "u32 list \<Rightarrow> shard_op \<Rightarrow> bool" where
  "inserts_phrase phrase op \<longleftrightarrow> (\<exists>node_id tf dl emb more. op = InsertDoc node_id tf dl emb (phrase @ more))"

lemma inserted_phrases:
  assumes "\<forall>op \<in> set ops. inserts_phrase phrase op"
  defines "st \<equiv> fold spec_op ops no_docs"
  shows "length (ds_docs st) = length ops" "map rc_doc_id (map fst (ds_docs st)) = map of_nat [0..<length ops]"
    "t \<in> set phrase \<Longrightarrow> docs_with t st = map fst (ds_docs st)" "ds_deleted st = []"
  using assms(1) unfolding st_def
  by (induction ops rule: rev_induct) (auto simp: inserts_phrase_def docs_with_def)

text \<open>C39: The phrase search loses documents once a term has more than one page of postings. When
  any number of documents, up to a million, that all begin with the same phrase are inserted into
  a shard opened on empty files, every one of them is indexed under its terms and live, and the
  search for one term scores them all. But the search for the phrase returns at most 92 results, the
  postings of one page: the list of each term starts with its newest page, the merge takes it for
  ascending, and after the newest page the cursor of the second term has passed all older documents.\<close>

theorem phrase_search_misses_older_pages:
  assumes "empty_files shard_id base_path disk" "4 \<le> unat n" "unat n < 2 ^ 31"
    and "\<forall>op \<in> set ops. op_ok op \<and> inserts_phrase (a # b # ts) op"
    and "sum_list (map op_pages ops) + 4 < 2 ^ 32" "length ops \<le> max_possible_postings"
  shows "\<exists>sh sh' docs. shard_init shard_id base_path n disk = Opened sh \<and> run_ops ops sh = Some sh' \<and> length docs = length ops \<and>
    (\<forall>idf avgdl weights k1 bb m. \<exists>results sh''.
       shard_search_bm25f_indexed True sh' a idf avgdl weights k1 bb m = Some (results, sh'') \<and>
       scores_docs results (consider_bm25f idf avgdl weights k1 bb m) docs) \<and>
    (\<forall>idf avgdl weights k1 bb m. \<exists>results sh''.
       shard_search_phrase_indexed True sh' (a # b # ts) idf avgdl weights k1 bb m = Some (results, sh'') \<and>
       length results \<le> MAX_POSTINGS_PER_PAGE)"
proof -
  define st where "st = fold spec_op ops no_docs"
  have phrase: "\<forall>op \<in> set ops. inserts_phrase (a # b # ts) op" using assms(4) by blast
  note docs = inserted_phrases [OF phrase, folded st_def]
  have count: "op_count ops \<le> length ops" by (simp add: op_count_def)
  obtain sh P where sh: "shard_init shard_id base_path n disk = Opened sh" "store_rel 3 P (\<lambda>_. []) no_docs sh"
    by (rule fresh_store_rel [OF assms(1-3)])
  obtain sh' N P' B where run: "run_ops ops sh = Some sh'" "store_rel N P' B st sh'"
    using run_ops_refines [OF sh(2), of ops] assms(4-6) count by (auto simp: st_def)
  have live: "live_docs_with a st = map fst (ds_docs st)"
    using docs(3) [of a] docs(4) by (simp add: live_docs_with_def tombstoned_def)
  have "\<exists>results sh''. shard_search_bm25f_indexed True sh' a idf avgdl weights k1 bb m = Some (results, sh'') \<and>
      scores_docs results (consider_bm25f idf avgdl weights k1 bb m) (map fst (ds_docs st))" for idf avgdl weights k1 bb m
    using search_refines [OF run(2)] docs(1) assms(6) unfolding live [symmetric] by metis
  moreover have "\<exists>results sh''. shard_search_phrase_indexed True sh' (a # b # ts) idf avgdl weights k1 bb m = Some (results, sh'') \<and>
      length results \<le> 92" for idf avgdl weights k1 bb m
    using docs by (intro phrase_search_bound [OF run(2) docs(1) assms(6)]) simp_all
  ultimately show ?thesis using sh(1) run(1) docs(1) by (metis length_map)
qed

theorem phrase_search_misses_older_pages_witness:
  "\<exists>sh sh' docs results sh''. shard_init 0 ''db'' 1024 empty_disk = Opened sh \<and> length docs = 1000 \<and>
    run_ops (replicate 1000 (InsertDoc (replicate 16 1) [1, 0, 0, 0] [5, 0, 0, 0] (replicate EMBEDDING_DIM 0) [9, 7])) sh = Some sh' \<and>
    scores_docs results (consider_bm25f (Fin 1) (replicate 4 (Fin 10)) (replicate 4 (Fin 1)) (Fin 1) (Fin 1) 1000) docs \<and>
    (\<exists>found sh3. shard_search_phrase_indexed True sh' [9, 7] (Fin 1) (replicate 4 (Fin 10)) (replicate 4 (Fin 1)) (Fin 1) (Fin 1) 1000 =
       Some (found, sh3) \<and> length found \<le> 92)"
proof -
  let ?op = "InsertDoc (replicate 16 1) [1, 0, 0, 0] [5, 0, 0, 0] (replicate EMBEDDING_DIM 0) [9, 7]"
  have ops: "\<forall>op \<in> set (replicate 1000 ?op). op_ok op \<and> inserts_phrase [9, 7] op" by (simp add: inserts_phrase_def)
  have pages: "sum_list (map op_pages (replicate 1000 ?op)) + 4 < 2 ^ 32" by (simp add: sum_list_replicate)
  show ?thesis
    using phrase_search_misses_older_pages [OF empty_disk_files _ _ ops pages, of 1024 0 "''db''"] by fastforce
qed

end
