(* ===== verification/Catalog.thy ===== *)
theory Catalog
  imports SlottedPage CDouble
begin

text \<open>
  \<open>catalog.c\<close>, \<open>catalog.h\<close>, \<open>tabular_worker.c\<close> and \<open>main_tabular.c\<close>: the table schema and
  the shard map used for pruning, the filter and aggregation of one page, and the
  demonstration query over four shards. A fixed-size name field is the C string in it.
\<close>

section \<open>Catalog\<close>

abbreviation (input) MAX_NAME_LEN :: nat where "MAX_NAME_LEN \<equiv> 64"
abbreviation (input) MAX_COLUMNS :: nat where "MAX_COLUMNS \<equiv> 16"
abbreviation (input) MAX_CATALOG_SHARDS :: nat where "MAX_CATALOG_SHARDS \<equiv> 16"

datatype DataType = TYPE_INT32 | TYPE_FLOAT64 | TYPE_VARCHAR

record ColumnDescriptor =
  cd_name :: string
  cd_type :: DataType
  cd_offset :: u32
  cd_length :: u32

record TableSchema =
  ts_table_name :: string
  ts_columns :: "ColumnDescriptor list"
  ts_tuple_size :: u32

record ShardMapEntry =
  se_shard_id :: u32
  se_filepath :: string
  se_min_key :: "32 word"
  se_max_key :: "32 word"
  se_row_count :: u64

record Catalog =
  ct_schema :: TableSchema
  ct_shards :: "ShardMapEntry list"

definition catalog_init_table :: "string \<Rightarrow> Catalog" where
  "catalog_init_table table_name =
     \<lparr>ct_schema = \<lparr>ts_table_name = take (MAX_NAME_LEN - 1) table_name, ts_columns = [], ts_tuple_size = 0\<rparr>,
      ct_shards = []\<rparr>"

definition catalog_add_column :: "Catalog \<Rightarrow> string \<Rightarrow> DataType \<Rightarrow> u32 \<Rightarrow> Catalog" where
  "catalog_add_column cat col_name ty len =
     (let s = ct_schema cat in
      if MAX_COLUMNS \<le> length (ts_columns s) then cat
      else cat\<lparr>ct_schema := s\<lparr>
        ts_columns := ts_columns s @ [\<lparr>cd_name = take (MAX_NAME_LEN - 1) col_name, cd_type = ty,
                                       cd_offset = ts_tuple_size s, cd_length = len\<rparr>],
        ts_tuple_size := ts_tuple_size s + len\<rparr>\<rparr>)"

definition catalog_add_shard ::
  "Catalog \<Rightarrow> u32 \<Rightarrow> string \<Rightarrow> 32 word \<Rightarrow> 32 word \<Rightarrow> u64 \<Rightarrow> Catalog" where
  "catalog_add_shard cat shard_id filepath min_k max_k rows =
     (if MAX_CATALOG_SHARDS \<le> length (ct_shards cat) then cat
      else cat\<lparr>ct_shards := ct_shards cat @
        [\<lparr>se_shard_id = shard_id, se_filepath = take 255 filepath, se_min_key = min_k,
          se_max_key = max_k, se_row_count = rows\<rparr>]\<rparr>)"

text \<open>Keys are signed.\<close>

definition catalog_should_scan_shard :: "ShardMapEntry \<Rightarrow> 32 word \<Rightarrow> 32 word \<Rightarrow> bool" where
  "catalog_should_scan_shard shard query_min_key query_max_key =
     (if sint (se_max_key shard) < sint query_min_key \<or> sint query_max_key < sint (se_min_key shard)
      then False else True)"

section \<open>Aggregating a page\<close>

record PartialAggregate =
  pa_matching_rows :: u64
  pa_aggregated_sum :: double

definition d_of_int32 :: "32 word \<Rightarrow> double" where
  "d_of_int32 w = Fin (of_int (sint w))"

definition column_value :: "page \<Rightarrow> nat \<Rightarrow> ColumnDescriptor \<Rightarrow> double" where
  "column_value p tuple_off col =
     (let a = tuple_off + unat (cd_offset col) in
      case cd_type col of
        TYPE_INT32 \<Rightarrow> d_of_int32 (get_u32 p a)
      | TYPE_FLOAT64 \<Rightarrow> dbl_of_bits (get_u64 p a)
      | TYPE_VARCHAR \<Rightarrow> Fin 0)"

definition aggregate_row ::
  "page \<Rightarrow> ColumnDescriptor \<Rightarrow> double \<Rightarrow> ColumnDescriptor \<Rightarrow> nat \<Rightarrow> PartialAggregate \<Rightarrow> PartialAggregate" where
  "aggregate_row p filter_col min_val_filter agg_col i agg =
     (case slotted_page_get_tuple p (of_nat i) of
        None \<Rightarrow> agg
      | Some (off, len) \<Rightarrow>
          if dlt min_val_filter (column_value p off filter_col) then
            agg\<lparr>pa_matching_rows := pa_matching_rows agg + 1,
                pa_aggregated_sum := dadd (pa_aggregated_sum agg) (column_value p off agg_col)\<rparr>
          else agg)"

definition process_tabular_page ::
  "page \<Rightarrow> TableSchema \<Rightarrow> nat \<Rightarrow> double \<Rightarrow> nat \<Rightarrow> PartialAggregate" where
  "process_tabular_page p schema filter_col_idx min_val_filter agg_col_idx =
     fold (aggregate_row p (ts_columns schema ! filter_col_idx) min_val_filter (ts_columns schema ! agg_col_idx))
       [0..<unat (hdr_slot_count p)] \<lparr>pa_matching_rows = 0, pa_aggregated_sum = Fin 0\<rparr>"

section \<open>The demonstration query\<close>

text \<open>The shard page of \<open>main_tabular.c\<close>: five rows of key, complexity and score.\<close>

definition metric_tuple :: "u32 \<Rightarrow> u32 \<Rightarrow> double \<Rightarrow> byte list" where
  "metric_tuple key complexity score =
     bytes_at (put_u64 (put_u32 (put_u32 (\<lambda>_. 0) 0 key) 4 complexity) 8 (bits_of_dbl score)) 0 16"

definition tabular_shard_page :: "nat \<Rightarrow> page" where
  "tabular_shard_page i =
     fold (\<lambda>r p. snd (slotted_page_insert_tuple p
              (metric_tuple (of_nat (i * 100 + r * 20)) (of_nat (if r mod 2 = 0 then 15 + r else 5 + r))
                 (Fin (255 / 10 * of_nat (r + 1)))) 16))
       [0..<5] (slotted_page_init (\<lambda>_. 0) (of_nat i) PAGE_TYPE_ROW)"

definition tabular_catalog :: "Catalog" where
  "tabular_catalog =
     (let cat = catalog_init_table ''code_metrics'';
          cat = catalog_add_column cat ''id'' TYPE_INT32 4;
          cat = catalog_add_column cat ''complexity'' TYPE_INT32 4;
          cat = catalog_add_column cat ''score'' TYPE_FLOAT64 8
      in fold (\<lambda>i cat. catalog_add_shard cat (of_nat i)
                (''/dev/shm/tab_shard_'' @ [char_of (48 + i)] @ ''.dat'')
                (of_nat (i * 100)) (of_nat ((i + 1) * 100 - 1)) 5) [0..<4] cat)"

text \<open>The completion callback adds a shard's partial aggregate to the global totals; a read
  that failed or hit the end of the file adds nothing.\<close>

definition on_tabular_page_read :: "int \<Rightarrow> page \<Rightarrow> TableSchema \<Rightarrow> PartialAggregate \<Rightarrow> PartialAggregate" where
  "on_tabular_page_read result p schema totals =
     (if result \<le> 0 then totals
      else let partial = process_tabular_page p schema 1 (Fin 10) 2
        in \<lparr>pa_matching_rows = pa_matching_rows totals + pa_matching_rows partial,
            pa_aggregated_sum = dadd (pa_aggregated_sum totals) (pa_aggregated_sum partial)\<rparr>)"

text \<open>The planner keeps the shards whose key range meets the query's; \<open>order\<close> is the order in
  which the event loop delivers their reads.\<close>

definition planned_shards :: "Catalog \<Rightarrow> 32 word \<Rightarrow> 32 word \<Rightarrow> nat list" where
  "planned_shards cat lo hi =
     filter (\<lambda>i. catalog_should_scan_shard (ct_shards cat ! i) lo hi) [0..<length (ct_shards cat)]"

definition tabular_query :: "(nat \<Rightarrow> int \<times> page) \<Rightarrow> nat list \<Rightarrow> PartialAggregate" where
  "tabular_query read order =
     fold (\<lambda>i totals. on_tabular_page_read (fst (read i)) (snd (read i)) (ct_schema tabular_catalog) totals)
       order \<lparr>pa_matching_rows = 0, pa_aggregated_sum = Fin 0\<rparr>"

text \<open>The whole program: the query's range keys 120 to 250, the number of shards read and the
  number pruned, and the totals once every dispatched read has completed. \<open>order\<close> permutes the
  dispatched shards.\<close>

definition tabular_main :: "(nat list \<Rightarrow> nat list) \<Rightarrow> nat \<times> nat \<times> PartialAggregate" where
  "tabular_main order =
     (let shards = planned_shards tabular_catalog 120 250
      in (length shards, length (ct_shards tabular_catalog) - length shards,
          tabular_query (\<lambda>i. (int PAGE_SIZE, tabular_shard_page i)) (order shards)))"

end
