(* ===== verification/CatalogProperties.thy ===== *)
theory CatalogProperties
  imports Catalog
begin

text \<open>
  The catalog and the tabular query: the layout of a schema built column by column, what
  pruning keeps, the aggregation of a page as a filtered count and sum over its tuples, and
  the result of the demonstration query.
\<close>

section \<open>Schema layout\<close>

abbreviation add_columns :: "(string \<times> DataType \<times> u32) list \<Rightarrow> Catalog \<Rightarrow> Catalog" where
  "add_columns cols cat \<equiv> fold (\<lambda>(n, ty, l) cat. catalog_add_column cat n ty l) cols cat"

definition column_at :: "(string \<times> DataType \<times> u32) list \<Rightarrow> nat \<Rightarrow> ColumnDescriptor" where
  "column_at cols i = (case cols ! i of (n, ty, l) \<Rightarrow>
     \<lparr>cd_name = take 63 n, cd_type = ty, cd_offset = sum_list (map (snd \<circ> snd) (take i cols)), cd_length = l\<rparr>)"

definition schema_of :: "string \<Rightarrow> (string \<times> DataType \<times> u32) list \<Rightarrow> TableSchema" where
  "schema_of table_name cols =
     \<lparr>ts_table_name = take 63 table_name, ts_columns = map (column_at cols) [0..<length cols],
      ts_tuple_size = sum_list (map (snd \<circ> snd) cols)\<rparr>"

lemma column_at_snoc: "i < length cols \<Longrightarrow> column_at (cols @ [c]) i = column_at cols i"
  by (simp add: column_at_def nth_append)

lemma add_columns_schema:
  "ct_schema (add_columns cols (catalog_init_table table_name)) = schema_of table_name (take MAX_COLUMNS cols)"
proof (induction cols rule: rev_induct)
  case Nil
  then show ?case by (simp add: catalog_init_table_def schema_of_def)
next
  case (snoc c cols)
  obtain n ty l where c: "c = (n, ty, l)" by (cases c)
  show ?case
  proof (cases "MAX_COLUMNS \<le> length cols")
    case True
    then show ?thesis using snoc by (simp add: c catalog_add_column_def schema_of_def Let_def)
  next
    case False
    have "map (column_at (cols @ [c])) [0..<length cols] = map (column_at cols) [0..<length cols]"
      by (simp add: column_at_snoc)
    then show ?thesis using snoc False
      by (simp add: c catalog_add_column_def schema_of_def Let_def) (simp add: column_at_def nth_append)
  qed
qed

section \<open>Tuples as rows\<close>

text \<open>A column read from the tuple alone, and whether it lies inside the tuple.\<close>

definition row_value :: "ColumnDescriptor \<Rightarrow> byte list \<Rightarrow> double" where
  "row_value col t = column_value (blit (\<lambda>_. 0) 0 t) 0 col"

definition column_fits :: "ColumnDescriptor \<Rightarrow> byte list \<Rightarrow> bool" where
  "column_fits col t \<longleftrightarrow>
     unat (cd_offset col) + (case cd_type col of TYPE_INT32 \<Rightarrow> 4 | TYPE_FLOAT64 \<Rightarrow> 8 | TYPE_VARCHAR \<Rightarrow> 0) \<le> length t"

lemma column_value_row:
  assumes "column_fits col t" "bytes_at p off (length t) = t"
  shows "column_value p off col = row_value col t"
proof -
  have "get_u32 p (off + k) = get_u32 (blit (\<lambda>_. 0) 0 t) k" if "k + 4 \<le> length t" for k
    using get_blit_copy(3) [of 0 k "length t" "\<lambda>_. 0" p off] that assms(2) by simp
  moreover have "get_u64 p (off + k) = get_u64 (blit (\<lambda>_. 0) 0 t) k" if "k + 8 \<le> length t" for k
    using get_blit_copy(4) [of 0 k "length t" "\<lambda>_. 0" p off] that assms(2) by simp
  ultimately show ?thesis using assms(1)
    by (simp add: column_value_def row_value_def column_fits_def Let_def split: DataType.splits)
qed

definition aggregate_of :: "ColumnDescriptor \<Rightarrow> double \<Rightarrow> ColumnDescriptor \<Rightarrow> byte list list \<Rightarrow> PartialAggregate" where
  "aggregate_of filter_col min_val agg_col tuples =
     (let rows = filter (\<lambda>t. dlt min_val (row_value filter_col t)) tuples
      in \<lparr>pa_matching_rows = of_nat (length rows),
          pa_aggregated_sum = foldl dadd (Fin 0) (map (row_value agg_col) rows)\<rparr>)"

lemma aggregate_row_tuple:
  assumes ok: "slotted_ok p" and i: "i < length (tuples_of p)"
    and fits: "column_fits fc (tuples_of p ! i)" "column_fits ac (tuples_of p ! i)"
  shows "aggregate_row p fc mv ac i agg =
    (if dlt mv (row_value fc (tuples_of p ! i))
     then agg\<lparr>pa_matching_rows := pa_matching_rows agg + 1,
              pa_aggregated_sum := dadd (pa_aggregated_sum agg) (row_value ac (tuples_of p ! i))\<rparr>
     else agg)"
proof -
  have "unat (of_nat i :: u16) = i" using i unat_u16_less [of "hdr_slot_count p"] by (simp add: unat_of_nat)
  then have "of_nat i < hdr_slot_count p" using i by (simp add: word_less_nat_alt)
  then obtain off len where t: "slotted_page_get_tuple p (of_nat i) = Some (off, len)"
    "bytes_at p off (unat len) = tuples_of p ! i"
    using get_tuple_ok [OF ok, of "of_nat i"] \<open>unat _ = i\<close> by auto
  then have "length (tuples_of p ! i) = unat len" by (metis length_bytes_at)
  then have "column_value p off fc = row_value fc (tuples_of p ! i)"
    "column_value p off ac = row_value ac (tuples_of p ! i)"
    using column_value_row [OF fits(1)] column_value_row [OF fits(2)] t(2) by simp_all
  then show ?thesis by (simp add: aggregate_row_def t(1))
qed

lemma aggregate_rows:
  assumes "slotted_ok p" "n \<le> length (tuples_of p)"
    and "\<forall>t \<in> set (tuples_of p). column_fits fc t \<and> column_fits ac t"
  shows "fold (aggregate_row p fc mv ac) [0..<n] \<lparr>pa_matching_rows = 0, pa_aggregated_sum = Fin 0\<rparr> =
    aggregate_of fc mv ac (take n (tuples_of p))"
  using assms(2)
proof (induction n)
  case (Suc n)
  then have "n < length (tuples_of p)" by simp
  then have "column_fits fc (tuples_of p ! n)" "column_fits ac (tuples_of p ! n)"
    using assms(3) nth_mem by blast+
  then show ?case
    using Suc aggregate_row_tuple [OF assms(1) \<open>n < _\<close>]
    by (simp add: take_Suc_conv_app_nth aggregate_of_def Let_def)
qed (simp add: aggregate_of_def)

section \<open>The demonstration's pages\<close>

abbreviation demo_tuple :: "nat \<Rightarrow> nat \<Rightarrow> byte list" where
  "demo_tuple i r \<equiv> metric_tuple (of_nat (i * 100 + r * 20)) (of_nat (if r mod 2 = 0 then 15 + r else 5 + r))
     (Fin (255 / 10 * of_nat (r + 1)))"

lemma length_metric_tuple [simp]: "length (metric_tuple k c s) = 16"
  by (simp add: metric_tuple_def)

text \<open>Filling a page with tuples of one length.\<close>

lemma insert_all_tuples:
  assumes "slotted_ok p" "\<forall>t \<in> set ts. length t = unat len" "length ts * (4 + unat len) \<le> free_space p"
  shows "slotted_ok (fold (\<lambda>t p. snd (slotted_page_insert_tuple p t len)) ts p) \<and>
    tuples_of (fold (\<lambda>t p. snd (slotted_page_insert_tuple p t len)) ts p) = tuples_of p @ ts"
  using assms
proof (induction ts arbitrary: p)
  case (Cons t ts)
  then obtain p' where "slotted_page_insert_tuple p t len = (True, p')" "slotted_ok p'"
    "tuples_of p' = tuples_of p @ [t]" "free_space p' = free_space p - (4 + unat len)"
    using insert_ok [of p len t] by auto
  then show ?case using Cons.IH [of p'] Cons.prems by simp
qed simp

lemma tabular_shard_page_ok:
  "slotted_ok (tabular_shard_page i)" "tuples_of (tabular_shard_page i) = map (demo_tuple i) [0..<5]"
proof -
  have "tabular_shard_page i = fold (\<lambda>t p. snd (slotted_page_insert_tuple p t 16)) (map (demo_tuple i) [0..<5])
      (slotted_page_init (\<lambda>_. 0) (of_nat i) PAGE_TYPE_ROW)"
    by (simp only: tabular_shard_page_def fold_map comp_def)
  then show "slotted_ok (tabular_shard_page i)" "tuples_of (tabular_shard_page i) = map (demo_tuple i) [0..<5]"
    using insert_all_tuples [of "slotted_page_init (\<lambda>_. 0) (of_nat i) PAGE_TYPE_ROW" "map (demo_tuple i) [0..<5]" 16]
    by (auto simp: init_slotted_ok free_space_def)
qed

lemma metric_tuple_columns:
  "row_value (column_at [(''id'', TYPE_INT32, 4), (''complexity'', TYPE_INT32, 4), (''score'', TYPE_FLOAT64, 8)] 1)
     (metric_tuple k c s) = d_of_int32 c"
  by (simp add: row_value_def column_value_def column_at_def metric_tuple_def get_blit_copy)

section \<open>Properties\<close>

text \<open>The layout of a schema: the columns added to a fresh table (the first sixteen of them) lie
  one after the other, each at the sum of the lengths before it, and the tuple size is the sum
  of all lengths, modulo the 32-bit width.\<close>

theorem schema_columns_are_contiguous:
  "ct_schema (fold (\<lambda>(n, ty, l) cat. catalog_add_column cat n ty l) cols (catalog_init_table table_name)) =
    schema_of table_name (take MAX_COLUMNS cols)"
  by (rule add_columns_schema)

text \<open>C32: Shard pruning is exact: for a query with a non-empty signed key range, over shards with
  non-empty key ranges, the planner dispatches reads to exactly the shards whose range shares a
  key with the query's, in the order of the shard map; no shard that can hold a matching key is
  pruned.\<close>

theorem pruning_keeps_intersecting_shards:
  assumes "\<forall>shard \<in> set (ct_shards cat). sint (se_min_key shard) \<le> sint (se_max_key shard)"
    and "sint lo \<le> sint hi"
  shows "planned_shards cat lo hi =
    filter (\<lambda>i. \<exists>k. sint lo \<le> k \<and> k \<le> sint hi \<and>
        sint (se_min_key (ct_shards cat ! i)) \<le> k \<and> k \<le> sint (se_max_key (ct_shards cat ! i)))
      [0..<length (ct_shards cat)]"
proof -
  have "catalog_should_scan_shard shard lo hi \<longleftrightarrow>
      (\<exists>k. sint lo \<le> k \<and> k \<le> sint hi \<and> sint (se_min_key shard) \<le> k \<and> k \<le> sint (se_max_key shard))"
    if "shard \<in> set (ct_shards cat)" for shard
  proof
    assume "catalog_should_scan_shard shard lo hi"
    then show "\<exists>k. sint lo \<le> k \<and> k \<le> sint hi \<and> sint (se_min_key shard) \<le> k \<and> k \<le> sint (se_max_key shard)"
      using assms that by (intro exI [of _ "max (sint lo) (sint (se_min_key shard))"])
        (auto simp: catalog_should_scan_shard_def split: if_splits)
  qed (auto simp: catalog_should_scan_shard_def)
  then show ?thesis unfolding planned_shards_def by (intro filter_cong) auto
qed

lemma upt_small: "[0..<3] = [0, 1, 2 :: nat]" "[0..<4] = [0, 1, 2, 3 :: nat]" "[0..<5] = [0, 1, 2, 3, 4 :: nat]"
  by (simp_all add: upt_conv_Cons)

lemma ct_shards_add_shards:
  "length (ct_shards cat) + length is \<le> MAX_CATALOG_SHARDS \<Longrightarrow>
   ct_shards (fold (\<lambda>i cat. catalog_add_shard cat (f i) (g i) (h i) (k i) (l i)) is cat) = ct_shards cat @
     map (\<lambda>i. \<lparr>se_shard_id = f i, se_filepath = take 255 (g i), se_min_key = h i, se_max_key = k i, se_row_count = l i\<rparr>) is"
  by (induction "is" arbitrary: cat) (simp_all add: catalog_add_shard_def)

lemma tabular_catalog_shards:
  "map (\<lambda>s. (sint (se_min_key s), sint (se_max_key s))) (ct_shards tabular_catalog) =
    [(0, 99), (100, 199), (200, 299), (300, 399)]"
  "length (ct_shards tabular_catalog) = 4"
proof -
  have empty: "ct_shards (catalog_add_column (catalog_add_column (catalog_add_column (catalog_init_table a) b c d) e f g) h i j) = []"
    for a b c d e f g h i j by (simp add: catalog_add_column_def catalog_init_table_def Let_def)
  show "map (\<lambda>s. (sint (se_min_key s), sint (se_max_key s))) (ct_shards tabular_catalog) =
      [(0, 99), (100, 199), (200, 299), (300, 399)]" "length (ct_shards tabular_catalog) = 4"
    unfolding tabular_catalog_def Let_def
    by (subst ct_shards_add_shards; simp add: empty upt_small)+
qed

lemma tabular_catalog_nonempty:
  "\<forall>shard \<in> set (ct_shards tabular_catalog). sint (se_min_key shard) \<le> sint (se_max_key shard)"
proof -
  have "\<forall>x \<in> set (map (\<lambda>s. (sint (se_min_key s), sint (se_max_key s))) (ct_shards tabular_catalog)). fst x \<le> snd x"
    unfolding tabular_catalog_shards by simp
  then show ?thesis by simp
qed

lemma pruning_keeps_intersecting_shards_witness:
  "planned_shards tabular_catalog 120 250 = filter (\<lambda>i. \<exists>k. 120 \<le> k \<and> k \<le> 250 \<and>
      sint (se_min_key (ct_shards tabular_catalog ! i)) \<le> k \<and> k \<le> sint (se_max_key (ct_shards tabular_catalog ! i)))
    [0..<4]"
  using pruning_keeps_intersecting_shards [OF tabular_catalog_nonempty, of 120 250]
  by (simp add: tabular_catalog_shards(2))

text \<open>C33: process_tabular_page on a well-formed page whose tuples have room for both columns
  equals the declarative aggregate: it counts the tuples whose filter column exceeds the bound
  and sums the aggregate column over exactly those, in slot order.\<close>

theorem page_aggregate_is_filtered_sum:
  assumes "slotted_ok p"
    and "\<forall>t \<in> set (tuples_of p). column_fits (ts_columns schema ! i) t \<and> column_fits (ts_columns schema ! j) t"
  shows "process_tabular_page p schema i min_val j =
    (let rows = filter (\<lambda>t. dlt min_val (row_value (ts_columns schema ! i) t)) (tuples_of p)
     in \<lparr>pa_matching_rows = of_nat (length rows),
         pa_aggregated_sum = foldl dadd (Fin 0) (map (row_value (ts_columns schema ! j)) rows)\<rparr>)"
  using aggregate_rows [OF assms(1) order_refl assms(2)]
  by (simp add: process_tabular_page_def aggregate_of_def)

abbreviation demo_columns :: "(string \<times> DataType \<times> u32) list" where
  "demo_columns \<equiv> [(''id'', TYPE_INT32, 4), (''complexity'', TYPE_INT32, 4), (''score'', TYPE_FLOAT64, 8)]"

lemma ct_schema_add_shards:
  "ct_schema (fold (\<lambda>i cat. catalog_add_shard cat (f i) (g i) (h i) (k i) (l i)) is cat) = ct_schema cat"
  by (induction "is" arbitrary: cat) (simp_all add: catalog_add_shard_def)

lemma tabular_catalog_columns:
  "ts_columns (ct_schema tabular_catalog) = map (column_at demo_columns) [0..<3]"
proof -
  have "ct_schema tabular_catalog = ct_schema (add_columns demo_columns (catalog_init_table ''code_metrics''))"
    unfolding tabular_catalog_def Let_def ct_schema_add_shards by simp
  then show ?thesis unfolding add_columns_schema by (simp add: schema_of_def upt_small numeral_2_eq_2)
qed

lemma demo_columns_fit:
  "\<forall>t \<in> set (tuples_of (tabular_shard_page s)).
     column_fits (ts_columns (ct_schema tabular_catalog) ! 1) t \<and> column_fits (ts_columns (ct_schema tabular_catalog) ! 2) t"
  by (auto simp: tabular_catalog_columns tabular_shard_page_ok column_fits_def column_at_def)

lemma demo_matching_rows:
  "pa_matching_rows (aggregate_of (column_at demo_columns 1) (Fin 10) ac (tuples_of (tabular_shard_page s))) = 3"
  by (simp add: aggregate_of_def Let_def tabular_shard_page_ok filter_map comp_def metric_tuple_columns [unfolded One_nat_def]
      d_of_int32_def
      upt_small)

lemma page_aggregate_is_filtered_sum_witness:
  "pa_matching_rows (process_tabular_page (tabular_shard_page 1) (ct_schema tabular_catalog) 1 (Fin 10) 2) = 3"
  using page_aggregate_is_filtered_sum [OF tabular_shard_page_ok(1) demo_columns_fit, of 1 "Fin 10"]
    demo_matching_rows [of "column_at demo_columns 2" 1]
  by (simp add: aggregate_of_def Let_def tabular_catalog_columns numeral_2_eq_2)

text \<open>The demonstration query prints WHERE id BETWEEN 120 AND 250 AND complexity > 10, but
  applies the key range to whole shards only: whatever the order of the two reads, it counts 6
  rows, of which 2 have a key outside the range (only 4 rows of all shards satisfy the printed
  condition).\<close>

lemma demo_query_counts_rows_outside_range:
  "(let count = (\<lambda>order. pa_matching_rows (snd (snd (tabular_main order))))
    in count (\<lambda>shards. shards) = 6 \<and> count rev = 6) \<and>
   length (filter (\<lambda>t. 120 \<le> sint (get_u32 (blit (\<lambda>_. 0) 0 t) 0) \<and> sint (get_u32 (blit (\<lambda>_. 0) 0 t) 0) \<le> 250 \<and>
        10 < sint (get_u32 (blit (\<lambda>_. 0) 0 t) 4))
      (concat (map (\<lambda>i. tuples_of (tabular_shard_page i)) [0..<4]))) = 4"
proof -
  have rows: "pa_matching_rows (process_tabular_page (tabular_shard_page s) (ct_schema tabular_catalog) 1 (Fin 10) 2) = 3" for s
    using aggregate_rows [OF tabular_shard_page_ok(1) order_refl demo_columns_fit, of s "Fin 10"]
      demo_matching_rows [of "column_at demo_columns 2" s]
    by (simp add: process_tabular_page_def tabular_catalog_columns numeral_2_eq_2)
  have keys: "sint (se_min_key (ct_shards tabular_catalog ! i)) = [0, 100, 200, 300] ! i"
    "sint (se_max_key (ct_shards tabular_catalog ! i)) = [99, 199, 299, 399] ! i" if "i < 4" for i
    using arg_cong [OF tabular_catalog_shards(1), of "\<lambda>xs. fst (xs ! i)"]
      arg_cong [OF tabular_catalog_shards(1), of "\<lambda>xs. snd (xs ! i)"] that tabular_catalog_shards(2)
    by (auto simp: less_Suc_eq numeral_eq_Suc)
  have plan: "planned_shards tabular_catalog 120 250 = [1, 2]"
    by (simp add: planned_shards_def tabular_catalog_shards(2) upt_small catalog_should_scan_shard_def keys)
  have "pa_matching_rows (fold (\<lambda>i totals. on_tabular_page_read 4096 (tabular_shard_page i) (ct_schema tabular_catalog) totals)
      is a) = pa_matching_rows a + 3 * of_nat (length is)" for "is" a
    by (induction "is" arbitrary: a) (simp_all add: on_tabular_page_read_def Let_def rows [unfolded One_nat_def] distrib_left)
  then have "(let count = (\<lambda>order. pa_matching_rows (snd (snd (tabular_main order))))
    in count (\<lambda>shards. shards) = 6 \<and> count rev = 6)"
    by (simp add: tabular_main_def tabular_query_def plan Let_def)
  moreover have "get_u32 (blit (\<lambda>_. 0) 0 (metric_tuple k c s)) 0 = k" "get_u32 (blit (\<lambda>_. 0) 0 (metric_tuple k c s)) 4 = c"
    for k c s by (simp_all add: metric_tuple_def get_blit_copy)
  then have "length (filter (\<lambda>t. 120 \<le> sint (get_u32 (blit (\<lambda>_. 0) 0 t) 0) \<and> sint (get_u32 (blit (\<lambda>_. 0) 0 t) 0) \<le> 250 \<and>
        10 < sint (get_u32 (blit (\<lambda>_. 0) 0 t) 4))
      (concat (map (\<lambda>i. tuples_of (tabular_shard_page i)) [0..<4]))) = 4"
    by (simp add: tabular_shard_page_ok upt_small)
  ultimately show ?thesis by blast
qed

end
