(* ===== verification/PostingWorker.thy ===== *)
theory PostingWorker
  imports Ranking Lexicon
begin

text \<open>
  \<open>shard_worker.c\<close>, \<open>uv_loop.c\<close>, \<open>fts_types.h\<close> and the proof of concept in \<open>main.c\<close>: binary
  posting lists in shard files, read through libuv and scored. Printing is replaced by the
  list of the printed values. libuv delivers each queued read once; the order and the
  outcomes are arguments.
\<close>

section \<open>Posting lists\<close>

abbreviation (input) sizeof_Posting :: nat where "sizeof_Posting \<equiv> 48"

record Posting =
  po_node_id :: "byte list"
  po_term_frequencies :: "u32 list"
  po_document_lengths :: "u32 list"

definition words_at :: "mem \<Rightarrow> nat \<Rightarrow> nat \<Rightarrow> u32 list" where
  "words_at m a n = map (\<lambda>i. get_u32 m (a + 4 * i)) [0..<n]"

definition put_words :: "mem \<Rightarrow> nat \<Rightarrow> u32 list \<Rightarrow> mem" where
  "put_words m a ws = fold (\<lambda>i m. put_u32 m (a + 4 * i) (ws ! i)) [0..<length ws] m"

definition posting_record_at :: "mem \<Rightarrow> nat \<Rightarrow> Posting" where
  "posting_record_at m i =
     (let a = 8 + sizeof_Posting * i in
      \<lparr>po_node_id = bytes_at m a 16, po_term_frequencies = words_at m (a + 16) 4,
       po_document_lengths = words_at m (a + 32) 4\<rparr>)"

section \<open>Scoring a buffer\<close>

text \<open>One line of output per posting: node id, score, term frequencies. A buffer shorter than
  the list says is processed all the same, past the bytes that were read.\<close>

type_synonym printed = "byte list \<times> double \<times> u32 list"

definition process_shard_buffer ::
  "mem \<Rightarrow> nat \<Rightarrow> double \<Rightarrow> double list \<Rightarrow> double list \<Rightarrow> double \<Rightarrow> double \<Rightarrow> printed list" where
  "process_shard_buffer buffer bytes_read idf avgdl weights k1 b =
     (if bytes_read < 8 then []
      else map (\<lambda>i. let p = posting_record_at buffer i in
                  (po_node_id p,
                   compute_bm25f_score (po_term_frequencies p) (po_document_lengths p) avgdl weights idf k1 b,
                   po_term_frequencies p))
             [0..<unat (get_u32 buffer 4)])"

section \<open>The event loop\<close>

definition fts_init_uv :: "bool \<Rightarrow> int" where
  "fts_init_uv default_loop = (if \<not> default_loop then - 1 else 0)"

datatype loop_event = ReadFailed int | ReadEof nat | ReadScored nat "printed list"

record ShardReadContext =
  rx_shard_idx :: nat
  rx_buffer :: mem
  rx_idf :: double
  rx_avgdl :: "double list"
  rx_weights :: "double list"
  rx_k1 :: double
  rx_b :: double

definition on_read_cb :: "ShardReadContext \<Rightarrow> int \<Rightarrow> loop_event" where
  "on_read_cb ctx result =
     (if result < 0 then ReadFailed (int (rx_shard_idx ctx))
      else if result = 0 then ReadEof (rx_shard_idx ctx)
      else ReadScored (rx_shard_idx ctx)
             (process_shard_buffer (rx_buffer ctx) (nat result) (rx_idf ctx) (rx_avgdl ctx) (rx_weights ctx)
                (rx_k1 ctx) (rx_b ctx)))"

text \<open>The contexts queued for the shards; \<open>read\<close> is the outcome of a shard's read: the result
  code and the buffer as it is afterwards.\<close>

definition scatter_query_to_shards_uv ::
  "nat \<Rightarrow> double \<Rightarrow> double list \<Rightarrow> double list \<Rightarrow> double \<Rightarrow> double \<Rightarrow> (mem \<Rightarrow> ShardReadContext) list" where
  "scatter_query_to_shards_uv num_shards idf avgdl weights k1 b =
     map (\<lambda>i buf. \<lparr>rx_shard_idx = i, rx_buffer = buf, rx_idf = idf,
            rx_avgdl = map (\<lambda>j. avgdl ! j) [0..<4], rx_weights = map (\<lambda>j. weights ! j) [0..<4],
            rx_k1 = k1, rx_b = b\<rparr>) [0..<num_shards]"

definition gather_shard_results_uv ::
  "(mem \<Rightarrow> ShardReadContext) list \<Rightarrow> (nat \<Rightarrow> int \<times> mem) \<Rightarrow> nat list \<Rightarrow> loop_event list" where
  "gather_shard_results_uv queued read order =
     map (\<lambda>i. on_read_cb ((queued ! i) (snd (read i))) (fst (read i))) order"

section \<open>The proof of concept\<close>

definition mock_posting :: "nat \<Rightarrow> nat \<Rightarrow> Posting" where
  "mock_posting i p_idx =
     \<lparr>po_node_id = [of_nat (i + 1), of_nat (p_idx + 1)] @ replicate 14 0,
      po_term_frequencies = map (\<lambda>f. of_nat ((p_idx + 1) * (4 - f) + i)) [0..<4],
      po_document_lengths = map (\<lambda>f. of_nat (10 + p_idx * 10 + f * 20)) [0..<4]\<rparr>"

definition put_posting_record :: "mem \<Rightarrow> nat \<Rightarrow> Posting \<Rightarrow> mem" where
  "put_posting_record m i p =
     (let a = 8 + sizeof_Posting * i;
          m = blit m a (po_node_id p);
          m = put_words m (a + 16) (po_term_frequencies p)
      in put_words m (a + 32) (po_document_lengths p))"

text \<open>The file written for shard \<open>i\<close>: the header and two postings.\<close>

definition mock_shard_file :: "nat \<Rightarrow> mem" where
  "mock_shard_file i =
     fold (\<lambda>p_idx m. put_posting_record m p_idx (mock_posting i p_idx)) [0..<2]
       (put_u32 (put_u32 (\<lambda>_. 0) 0 42) 4 2)"

definition poc_main :: "nat list \<Rightarrow> loop_event list" where
  "poc_main order =
     (let idf = compute_idf 10000 250;
          queued = scatter_query_to_shards_uv 4 idf [Fin 20, Fin 50, Fin 120, Fin 500]
                     [Fin 10, Fin 5, Fin 2, Fin 1] (to_double (12 / 10)) (Fin (3 / 4))
      in gather_shard_results_uv queued (\<lambda>i. (104, mock_shard_file i)) order)"

end
