(* ===== verification/Shm.thy ===== *)
theory Shm
  imports Prelude
begin

text \<open>
  \<open>shm_manager.c\<close> and \<open>shm_manager.h\<close>: creating, attaching and releasing a named shared
  memory object. The state of the process is its open descriptors and mappings; each system
  call's result is given by \<open>Sys\<close>.
\<close>

record Sys =
  sy_shm_fd :: int        \<comment> \<open>what \<open>shm_open\<close> returns\<close>
  sy_truncate_ok :: bool  \<comment> \<open>whether \<open>ftruncate\<close> succeeds\<close>
  sy_map :: "nat option"  \<comment> \<open>the address \<open>mmap\<close> returns, or its failure\<close>

record Process =
  pr_fds :: "int set"
  pr_maps :: "(nat \<times> nat) set"
  pr_objects :: "string set"

record SharedMemoryBuffer =
  shm_name :: string
  shm_fd :: int
  shm_size :: nat
  shm_mapped_addr :: "nat option"
  shm_map_failed :: bool

definition shm_open_result :: "string \<Rightarrow> bool \<Rightarrow> Sys \<Rightarrow> Process \<Rightarrow> int \<times> Process" where
  "shm_open_result name create sys pr =
     (if sy_shm_fd sys < 0 \<or> (\<not> create \<and> name \<notin> pr_objects pr) then (- 1, pr)
      else (sy_shm_fd sys, pr\<lparr>pr_fds := insert (sy_shm_fd sys) (pr_fds pr),
                             pr_objects := insert name (pr_objects pr)\<rparr>))"

definition close_fd :: "int \<Rightarrow> Process \<Rightarrow> Process" where
  "close_fd fd pr = pr\<lparr>pr_fds := pr_fds pr - {fd}\<rparr>"

definition shm_map :: "SharedMemoryBuffer \<Rightarrow> nat \<Rightarrow> Sys \<Rightarrow> Process \<Rightarrow> int \<times> SharedMemoryBuffer \<times> Process" where
  "shm_map shm bytes sys pr =
     (case sy_map sys of
        None \<Rightarrow> (- 1, shm\<lparr>shm_map_failed := True\<rparr>, close_fd (shm_fd shm) pr)
      | Some addr \<Rightarrow>
          (0, shm\<lparr>shm_mapped_addr := Some addr\<rparr>, pr\<lparr>pr_maps := insert (addr, bytes) (pr_maps pr)\<rparr>))"

definition shm_manager_create ::
  "string \<Rightarrow> nat \<Rightarrow> Sys \<Rightarrow> Process \<Rightarrow> int \<times> SharedMemoryBuffer \<times> Process" where
  "shm_manager_create name bytes sys pr =
     (let (fd, pr) = shm_open_result name True sys pr;
          shm = \<lparr>shm_name = take 63 name, shm_fd = fd, shm_size = bytes,
                 shm_mapped_addr = None, shm_map_failed = False\<rparr>
      in if fd < 0 then (- 1, shm, pr)
         else if \<not> sy_truncate_ok sys then (- 1, shm, close_fd fd pr)
         else shm_map shm bytes sys pr)"

definition shm_manager_attach ::
  "string \<Rightarrow> nat \<Rightarrow> Sys \<Rightarrow> Process \<Rightarrow> int \<times> SharedMemoryBuffer \<times> Process" where
  "shm_manager_attach name bytes sys pr =
     (let (fd, pr) = shm_open_result name False sys pr;
          shm = \<lparr>shm_name = take 63 name, shm_fd = fd, shm_size = bytes,
                 shm_mapped_addr = None, shm_map_failed = False\<rparr>
      in if fd < 0 then (- 1, shm, pr) else shm_map shm bytes sys pr)"

definition shm_manager_detach :: "SharedMemoryBuffer \<Rightarrow> Process \<Rightarrow> SharedMemoryBuffer \<times> Process" where
  "shm_manager_detach shm pr =
     (let (shm, pr) =
            (case shm_mapped_addr shm of
               Some addr \<Rightarrow> (shm\<lparr>shm_mapped_addr := None\<rparr>, pr\<lparr>pr_maps := pr_maps pr - {(addr, shm_size shm)}\<rparr>)
             | None \<Rightarrow> (shm, pr))
      in if 0 \<le> shm_fd shm then (shm\<lparr>shm_fd := - 1\<rparr>, close_fd (shm_fd shm) pr) else (shm, pr))"

definition shm_manager_unlink :: "string \<Rightarrow> Process \<Rightarrow> Process" where
  "shm_manager_unlink name pr = pr\<lparr>pr_objects := pr_objects pr - {name}\<rparr>"

end
