(* ===== verification/Demos.thy ===== *)
theory Demos
  imports UnifiedShard Shm
begin

text \<open>
  The two demonstration programs \<open>main_wal_bp.c\<close> and \<open>main_phase2_3.c\<close>, as compositions of
  the modelled operations. Both call \<open>buffer_pool_init\<close> with three arguments and
  \<open>main_wal_bp.c\<close> prints \<open>BUFFER_POOL_SIZE\<close>; the header has four parameters and no such macro,
  so the pool size is an argument here. What the programs print is their result.
\<close>

section \<open>main_wal_bp.c\<close>

definition demo_row :: "u32 \<Rightarrow> u32 \<Rightarrow> byte list" where
  "demo_row page_id txn_id =
     map of_char (take 63 (''Row Data for Page '' @ decimal_digits 10 (unat page_id) @ '' (Txn '' @
       decimal_digits 10 (unat txn_id) @ '')'')) @ [0]"

text \<open>One round of the workload: log the mutation first, then change the page in its frame. The
  log object is the one the pool points to.\<close>

definition demo_modify_page ::
  "u32 \<Rightarrow> u32 \<Rightarrow> BufferPoolManager \<times> (u32 \<times> u64 \<times> u32) list \<Rightarrow> BufferPoolManager \<times> (u32 \<times> u64 \<times> u32) list" where
  "demo_modify_page txn_id page_id = (\<lambda>(b, printed).
     case buffer_pool_fetch_page b page_id of
       (None, b) \<Rightarrow> (b, printed)
     | (Some f, b) \<Rightarrow>
         let tuple = demo_row page_id txn_id;
             (lsn, w) = wal_append_record (the (bp_wal b)) txn_id WAL_REC_INSERT page_id 0 (Some tuple)
                          (of_nat (length tuple));
             b = b\<lparr>bp_wal := Some w\<rparr>;
             fr = (bp_frames b ! f)\<lparr>fr_page_lsn := lsn\<rparr>;
             (_, p) = slotted_page_insert_tuple (fr_page_data fr) tuple (of_nat (length tuple));
             b = set_frame f (fr\<lparr>fr_page_data := p\<rparr>) b;
             b = buffer_pool_unpin_page b page_id True HINT_NORMAL
         in (b, printed @ [(page_id, lsn, fr_pin_count (bp_frames b ! f))]))"

definition recovery_apply_callback ::
  "WALHeader \<Rightarrow> byte list option \<Rightarrow> WALHeader list \<Rightarrow> WALHeader list" where
  "recovery_apply_callback hdr payload printed = printed @ [hdr]"

text \<open>\<open>None\<close> is \<open>EXIT_FAILURE\<close>, and the exit of \<open>buffer_pool_init\<close> when its allocation fails.\<close>

definition wal_bp_main ::
  "u32 \<Rightarrow> bool \<Rightarrow> byte list \<Rightarrow> int \<Rightarrow> io_outcome list \<Rightarrow> int \<Rightarrow> datafile \<Rightarrow> Sys \<Rightarrow> Process \<Rightarrow> mem \<Rightarrow>
    ((u32 \<times> u64 \<times> u32) list \<times> int \<times> WALHeader list \<times> BufferPoolManager \<times> Process) option" where
  "wal_bp_main pool_size calloc_ok contents fd plan disk_fd d sys pr junk =
     (let (res, wal) = wal_init ''/dev/shm/wal_bp_journal.wal'' contents fd plan in
      if res < 0 then None
      else let (_, shm, pr) = shm_manager_create ''/c_db_buffer_shm'' (PAGE_SIZE * 4) sys pr in
        case buffer_pool_init disk_fd (Some wal) pool_size d calloc_ok of
          None \<Rightarrow> None
        | Some b \<Rightarrow>
            let txn_id = 101;
                (b, printed) = fold (demo_modify_page txn_id) (map of_nat [0..<10]) (b, []);
                (_, w) = wal_append_record (the (bp_wal b)) txn_id WAL_REC_COMMIT 0 0 None 0;
                b = buffer_pool_flush_all (b\<lparr>bp_wal := Some (snd (wal_flush w))\<rparr>);
                (replayed, redo, w) = wal_replay_recovery junk (Some recovery_apply_callback) (the (bp_wal b)) [];
                b = b\<lparr>bp_wal := Some (wal_close w)\<rparr>;
                (_, pr) = shm_manager_detach shm (close_fd disk_fd pr)
            in Some (printed, replayed, redo, b, shm_manager_unlink ''/c_db_buffer_shm'' pr))"

section \<open>main_phase2_3.c\<close>

fun demo_inserts :: "nat list \<Rightarrow> u32 \<Rightarrow> PageStore \<Rightarrow> PageStore option" where
  "demo_inserts [] txn_id s = Some s"
| "demo_inserts (i # is) txn_id s =
     (case btree_insert 0 (of_nat (i * 10)) (of_nat (i mod 100)) (of_nat (i mod 50)) txn_id s of
        None \<Rightarrow> None
      | Some (_, s) \<Rightarrow> demo_inserts is txn_id s)"

text \<open>The result: the search's answer, the quantised length read back, and the deletion states of
  documents 42 and 43. The outer \<open>None\<close> is the failure exit, the inner one a B-tree loop that
  does not return.\<close>

definition phase2_3_main ::
  "u32 \<Rightarrow> bool \<Rightarrow> int \<Rightarrow> int \<Rightarrow> io_outcome list \<Rightarrow> io_outcome list \<Rightarrow> page \<Rightarrow> page \<Rightarrow>
    ((u32 \<times> u16) option \<times> u8 \<times> bool \<times> bool \<times> BufferPoolManager) option option" where
  "phase2_3_main pool_size calloc_ok disk_fd wal_fd0 wal_plan0 disk_plan junk1 junk2 =
     (if disk_fd < 0 then None
      else let (res, wal) = wal_init ''/dev/shm/test_phase2_3.wal'' [] wal_fd0 wal_plan0 in
        if res \<noteq> 0 then None
        else case buffer_pool_init disk_fd (Some wal) pool_size
               \<lparr>df_bytes = (\<lambda>_. 0), df_size = 0, df_plan = disk_plan\<rparr> calloc_ok of
            None \<Rightarrow> None
          | Some b \<Rightarrow>
              case demo_inserts [1..<301] 101 \<lparr>ps_bpm = btree_init 0 b, ps_next_page_id = 1\<rparr> of
                None \<Rightarrow> Some None
              | Some s \<Rightarrow>
                  case btree_search 0 1500 (ps_bpm s) of
                    None \<Rightarrow> Some None
                  | Some (found, b) \<Rightarrow>
                      let length_map_page = fts_length_map_init junk1 10;
                          length_map_page = fts_length_map_set length_map_page 42 0 (quantize_field_length 1520);
                          retrieved = fts_length_map_get length_map_page 42 0;
                          tombstone_page = fts_tombstone_mark_deleted (fts_tombstone_init junk2 11) 42;
                          b = buffer_pool_flush_all b;
                          b = b\<lparr>bp_wal := map_option wal_close (bp_wal b)\<rparr>
                      in Some (Some (found, retrieved, fts_tombstone_is_deleted tombstone_page 42,
                           fts_tombstone_is_deleted tombstone_page 43, b)))"

end
