(* ===== verification/BTreeProperties.thy ===== *)
theory BTreeProperties
  imports BTree PoolDurability
begin

text \<open>
  The properties of the B-tree that the shard rests on: a sequence of insertions into a fresh
  tree is a map, one insertion refines the insertion into a sorted chain of leaves (splitting
  a full leaf), an update changes one value, and no operation touches a page outside the tree.
\<close>

section \<open>A concrete tree\<close>

text \<open>The fresh tree with root page 0 in the three-page pool of \<open>PoolDurability\<close>.\<close>

definition sample_tree :: PageStore where
  "sample_tree = \<lparr>ps_bpm = btree_init 0 sample_pool, ps_next_page_id = 3\<rparr>"

lemma sample_root: "hdr_page_type (load_page sample_disk 0) = 0"
proof -
  have "peek 2 (load_page sample_disk 0) 16 = 0"
    by (simp add: numeral_2_eq_2 load_page_def on_file_def disk_page_def page_offset_def sample_disk_def)
  then show ?thesis by (simp add: get_u16_def)
qed

lemma sample_tree_inv: "\<exists>P. btree_inv 3 P 0 Map.empty {0} sample_tree"
  using btree_init_inv [OF sample_pool_st, of 0 3] by (auto simp: sample_tree_def sample_root)

section \<open>Properties\<close>

text \<open>C7: On a pool whose root page is not yet a tree node, btree_init makes an empty tree: after
  it any sequence of btree_insert calls with distinct keys (the page ids permitting) succeeds,
  and btree_search then returns, for every key, exactly what was inserted under it and nothing
  for the others. All loops return, and splits of full leaves are covered. Here and in the other
  properties of the tree no I/O request of its pool fails.\<close>

theorem fresh_tree_is_a_map:
  assumes "bp_st N {} [] P b" "unat r < N" "unat next = N"
    and "hdr_page_type (P r) \<noteq> page_type_code PAGE_TYPE_BTREE_LEAF"
      "hdr_page_type (P r) \<noteq> page_type_code PAGE_TYPE_BTREE_INTERNAL"
    and "distinct (map fst es)" "N + length es < 2 ^ 32"
  shows "\<exists>s'. run_inserts (\<lambda>k p t. btree_insert r k p t txn) es \<lparr>ps_bpm = btree_init r b, ps_next_page_id = next\<rparr> = Some s' \<and>
    (\<forall>k. \<exists>b'. btree_search r k (ps_bpm s') = Some (map_of es k, b'))"
proof -
  obtain p where "btree_inv N (P(r := p)) r Map.empty {r} \<lparr>ps_bpm = btree_init r b, ps_next_page_id = next\<rparr>"
    using btree_init_inv [OF assms(1-3)] assms(4,5) by auto
  then show ?thesis
    using tree.search_after_inserts [of N "P(r := p)" r Map.empty "{r}" _ es] assms(6,7)
    by (fastforce simp: tree_search_def)
qed

theorem fresh_tree_is_a_map_witness:
  "\<exists>s' b1 b2. run_inserts (\<lambda>k p t. btree_insert 0 k p t 1) [(9, 7, 2), (4, 8, 0)]
      \<lparr>ps_bpm = btree_init 0 sample_pool, ps_next_page_id = 3\<rparr> = Some s' \<and>
    btree_search 0 4 (ps_bpm s') = Some (Some (8, 0), b1) \<and> btree_search 0 5 (ps_bpm s') = Some (None, b2)"
proof -
  obtain s' where s': "run_inserts (\<lambda>k p t. btree_insert 0 k p t 1) [(9, 7, 2), (4, 8, 0)]
      \<lparr>ps_bpm = btree_init 0 sample_pool, ps_next_page_id = 3\<rparr> = Some s'"
    "\<forall>k. \<exists>b'. btree_search 0 k (ps_bpm s') = Some (map_of [(9, 7, 2), (4, 8, 0)] k, b')"
    using fresh_tree_is_a_map [OF sample_pool_st, of 0 3 "[(9, 7, 2), (4, 8, 0)]" 1] by (auto simp: sample_root)
  then show ?thesis using s'(2) [THEN spec, of 4] s'(2) [THEN spec, of 5] by auto
qed

text \<open>C8: One btree_insert refines insertion into the sorted list of all leaf entries: on a tree
  whose chained leaves are sorted it returns true and puts the new entry at a position where
  everything before it has a smaller or equal key and everything after it a greater or equal
  one, loses and duplicates nothing, keeps the chain sorted, allocates the page next_page_id
  exactly when the target leaf holds 250 entries, and changes no page outside the chain.\<close>

theorem btree_insert_refines_sorted_insert:
  assumes "btree_rep N P r L s" "chain_sorted L" "N + 1 < 2 ^ 32"
  shows "\<exists>s' P' L' xs ys. btree_insert r key pid slot txn s = Some (True, s') \<and>
    btree_rep (if chain_splits key L then N + 1 else N) P' r L' s' \<and> chain_sorted L' \<and>
    chain_entries L = xs @ ys \<and> chain_entries L' = xs @ (key, pid, slot) # ys \<and>
    (\<forall>x \<in> set xs. fst x \<le> key) \<and> (\<forall>y \<in> set ys. key \<le> fst y) \<and>
    chain_pages L' = chain_pages L \<union> (if chain_splits key L then {ps_next_page_id s} else {}) \<and>
    (\<forall>q. q \<notin> chain_pages L' \<longrightarrow> P' q = P q)"
proof -
  let ?e = "(key, pid, slot)" and ?L = "chain_insert (ps_next_page_id s) (key, pid, slot) L"
  have ne: "L \<noteq> []" using assms(1) by (simp add: btree_rep_def)
  obtain xs ys where xy: "chain_entries L = xs @ ys" "chain_entries ?L = xs @ ?e # ys"
    "\<forall>x \<in> set xs. fst x \<le> key" "\<forall>y \<in> set ys. key \<le> fst y"
    using chain_insert_position [OF assms(2) ne, of "ps_next_page_id s" ?e] by auto
  have sorted: "chain_sorted ?L" by (rule chain_insert_sorted [OF assms(2) ne])
  have pages: "chain_pages ?L = chain_pages L \<union> (if chain_splits key L then {ps_next_page_id s} else {})"
  proof (cases "chain_splits key L")
    case True
    then show ?thesis using chain_insert_pages(2) [of ?e L "ps_next_page_id s"] by simp
  next
    case False
    have "chain_pages ?L = set (map fst ?L)" by (rule list.set_map [symmetric])
    also have "\<dots> = set (map fst L)"
      by (rule arg_cong [where f = set], rule chain_insert_pages(1)) (simp add: False)
    finally show ?thesis using False by simp
  qed
  have "\<exists>s' P'. btree_insert r key pid slot txn s = Some (True, s') \<and>
    btree_rep (if chain_splits key L then N + 1 else N) P' r ?L s' \<and> (\<forall>q. q \<notin> chain_pages ?L \<longrightarrow> P' q = P q)"
  proof (cases "chain_splits key L")
    case True
    show ?thesis
      using insert_refines_split [OF assms(1) True assms(3), of pid slot txn] True
      unfolding pages if_P [OF True] Un_iff singleton_iff by metis
  next
    case False
    show ?thesis
      using insert_refines_plain [OF assms(1) False, of pid slot txn "ps_next_page_id s"]
      unfolding pages if_not_P [OF False] Un_empty_right .
  qed
  then show ?thesis using xy sorted pages by blast
qed

theorem btree_insert_refines_sorted_insert_witness:
  "\<exists>s' N' P' L'. btree_insert 0 4 8 0 1 sample_tree = Some (True, s') \<and> btree_rep N' P' 0 L' s' \<and>
    chain_entries L' = [(4, 8, 0)]"
proof -
  obtain P L where L: "btree_rep 3 P 0 L sample_tree" "chain_sorted L" "Map.empty = map_of (chain_entries L)"
    using sample_tree_inv by (auto simp: btree_inv_def)
  then have "chain_entries L = []" by (metis map_of_eq_empty_iff)
  then show ?thesis using btree_insert_refines_sorted_insert [OF L(1,2), of 4 8 0 1] by fastforce
qed

text \<open>C25: btree_update returns true exactly when the key is in the tree; then it changes the page
  and slot stored for that key and for no other, and otherwise the map is unchanged. It returns
  on every tree, allocates nothing and changes no page outside the tree.\<close>

theorem btree_update_changes_one_value:
  assumes "btree_inv N P r M F s"
  shows "\<exists>b' P'. btree_update r key pid slot (ps_bpm s) = Some (M key \<noteq> None, b') \<and>
    btree_inv N P' r (if M key = None then M else M(key \<mapsto> (pid, slot))) F (s\<lparr>ps_bpm := b'\<rparr>) \<and>
    (\<forall>q. q \<notin> F \<longrightarrow> P' q = P q)"
  by (rule btree_update_map [OF assms])

theorem btree_update_changes_one_value_witness:
  "\<exists>b'. btree_update 0 5 7 1 (ps_bpm sample_tree) = Some (False, b')"
  using sample_tree_inv btree_update_changes_one_value [of 3 _ 0 Map.empty "{0}" sample_tree 5 7 1] by auto

text \<open>C26: btree_search returns on every well-formed tree, answers with the map's value and leaves
  the tree, its pages and all pin counts as they were.\<close>

theorem btree_search_answers_map:
  assumes "btree_inv N P r M F s"
  shows "\<exists>b'. btree_search r key (ps_bpm s) = Some (M key, b') \<and> btree_inv N P r M F (s\<lparr>ps_bpm := b'\<rparr>) \<and>
    bp_pins b' = bp_pins (ps_bpm s) \<and> bp_page b' = bp_page (ps_bpm s)"
proof -
  obtain b' where b': "btree_search r key (ps_bpm s) = Some (M key, b')" "btree_inv N P r M F (s\<lparr>ps_bpm := b'\<rparr>)"
    using btree_search_map [OF assms] by blast
  then show ?thesis using btree_inv_st [OF assms] btree_inv_st [OF b'(2)] by (simp add: bp_st_def)
qed

theorem btree_search_answers_map_witness:
  "\<exists>b'. btree_search 0 5 (ps_bpm sample_tree) = Some (None, b') \<and> bp_page b' = bp_page (ps_bpm sample_tree)"
  using sample_tree_inv btree_search_answers_map [of 3 _ 0 Map.empty "{0}" sample_tree 5] by auto

end
