(* ===== verification/CsvReader.thy ===== *)
theory CsvReader
  imports Prelude
begin

text \<open>
  The reader of \<open>sqlite_vtab_example_csv.c\<close>: buffered input from a file or a string, and one
  field of RFC 4180 text at a time. The file in the repository ends in the middle of the
  forward declarations, so the virtual table's methods do not exist in it. Characters are
  the \<open>int\<close> values of \<open>csv_getc\<close>; a byte stored through \<open>(char)\<close> is kept as a byte.
  \<open>p->z\<close> with \<open>p->n\<close> is the list of the first \<open>n\<close> bytes.
\<close>

section \<open>State\<close>

datatype csv_error = OutOfMemory | CannotOpen string | Unescaped nat | Unterminated nat

text \<open>\<open>csv_in\<close> is what the input stream has not delivered yet, if a stream is open;
  \<open>csv_alloc\<close> tells for each later allocation whether it succeeds (all do when the list is
  used up). \<open>csv_zAlloc = 0\<close> is the null \<open>p->z\<close>.\<close>

record CsvReader =
  csv_in :: "byte list option"
  csv_z :: "byte list"
  csv_nAlloc :: nat
  csv_nLine :: nat
  csv_bNotFirst :: bool
  csv_cTerm :: int
  csv_iIn :: nat
  csv_zIn :: "byte list"
  csv_zErr :: "csv_error option"
  csv_alloc :: "bool list"

abbreviation (input) CSV_INBUFSZ :: nat where "CSV_INBUFSZ \<equiv> 1024"
abbreviation (input) EOF :: int where "EOF \<equiv> - 1"
abbreviation (input) QUOTE :: int where "QUOTE \<equiv> 34"
abbreviation (input) COMMA :: int where "COMMA \<equiv> 44"
abbreviation (input) NEWLINE :: int where "NEWLINE \<equiv> 10"
abbreviation (input) RETURN :: int where "RETURN \<equiv> 13"

section \<open>Operations\<close>

text \<open>\<open>iIn\<close> is not initialised by the code: it keeps its value.\<close>

definition csv_reader_init :: "CsvReader \<Rightarrow> CsvReader" where
  "csv_reader_init p = p\<lparr>csv_in := None, csv_z := [], csv_nAlloc := 0, csv_nLine := 0,
     csv_bNotFirst := False, csv_zIn := [], csv_zErr := None\<rparr>"

definition csv_reader_reset :: "CsvReader \<Rightarrow> CsvReader" where
  "csv_reader_reset p = csv_reader_init p"

definition csv_errmsg :: "csv_error \<Rightarrow> CsvReader \<Rightarrow> CsvReader" where
  "csv_errmsg e p = p\<lparr>csv_zErr := Some e\<rparr>"

definition take_alloc :: "CsvReader \<Rightarrow> bool \<times> CsvReader" where
  "take_alloc p = (csv_alloc p = [] \<or> hd (csv_alloc p), p\<lparr>csv_alloc := tl (csv_alloc p)\<rparr>)"

text \<open>\<open>file_system\<close> gives the contents of the files that can be opened. Data in memory ends at its
  first NUL: \<open>nIn\<close> is \<open>strlen(zData)\<close>.\<close>

definition csv_reader_open ::
  "(string \<rightharpoonup> byte list) \<Rightarrow> string option \<Rightarrow> byte list \<Rightarrow> CsvReader \<Rightarrow> nat \<times> CsvReader" where
  "csv_reader_open file_system zFilename zData p =
     (case zFilename of
        Some path \<Rightarrow>
          (let (ok, p) = take_alloc p in
           if \<not> ok then (1, csv_errmsg OutOfMemory p)
           else case file_system path of
               None \<Rightarrow> (1, csv_errmsg (CannotOpen path) (csv_reader_reset p))
             | Some contents \<Rightarrow> (0, p\<lparr>csv_in := Some contents\<rparr>))
      | None \<Rightarrow> (0, p\<lparr>csv_zIn := takeWhile (\<lambda>b. b \<noteq> 0) zData\<rparr>))"

text \<open>The first byte of a refilled buffer is returned as a \<open>char\<close>, which is signed on the
  platforms the Makefile targets; the others are returned as \<open>unsigned char\<close>.\<close>

definition csv_getc_refill :: "byte list \<Rightarrow> CsvReader \<Rightarrow> int \<times> CsvReader" where
  "csv_getc_refill stream p =
     (case take CSV_INBUFSZ stream of
        [] \<Rightarrow> (EOF, p)
      | c # cs \<Rightarrow> (sint c, p\<lparr>csv_in := Some (drop CSV_INBUFSZ stream), csv_zIn := c # cs, csv_iIn := 1\<rparr>))"

definition csv_getc :: "CsvReader \<Rightarrow> int \<times> CsvReader" where
  "csv_getc p =
     (if length (csv_zIn p) \<le> csv_iIn p then
        (case csv_in p of Some stream \<Rightarrow> csv_getc_refill stream p | None \<Rightarrow> (EOF, p))
      else (uint (csv_zIn p ! csv_iIn p), p\<lparr>csv_iIn := csv_iIn p + 1\<rparr>))"

definition csv_resize_and_append :: "CsvReader \<Rightarrow> byte \<Rightarrow> bool \<times> CsvReader" where
  "csv_resize_and_append p c =
     (let nNew = csv_nAlloc p * 2 + 100; (ok, p) = take_alloc p in
      if ok then (False, p\<lparr>csv_nAlloc := nNew, csv_z := csv_z p @ [c]\<rparr>)
      else (True, csv_errmsg OutOfMemory p))"

text \<open>\<open>n >= nAlloc - 1\<close> is a comparison of signed 64-bit numbers.\<close>

definition csv_append :: "CsvReader \<Rightarrow> byte \<Rightarrow> bool \<times> CsvReader" where
  "csv_append p c =
     (if csv_nAlloc p \<le> length (csv_z p) + 1 then csv_resize_and_append p c
      else (False, p\<lparr>csv_z := csv_z p @ [c]\<rparr>))"

section \<open>Reading one field\<close>

text \<open>Bytes the reader can still deliver.\<close>

definition csv_left :: "CsvReader \<Rightarrow> nat" where
  "csv_left p = (length (csv_zIn p) - csv_iIn p) + (case csv_in p of Some s \<Rightarrow> length s | None \<Rightarrow> 0)"

lemma csv_getc_left: "csv_getc p = (c, p') \<Longrightarrow> c = EOF \<or> csv_left p' < csv_left p"
  by (cases "csv_in p")
    (auto simp: csv_getc_def csv_getc_refill_def csv_left_def split: if_splits list.splits
      dest!: arg_cong [where f = length])

lemma take_alloc_left [simp]: "csv_left (snd (take_alloc p)) = csv_left p"
  by (simp add: take_alloc_def csv_left_def)

lemma csv_append_left: "csv_append p c = (e, p') \<Longrightarrow> csv_left p' = csv_left p"
  by (auto simp: csv_append_def csv_resize_and_append_def take_alloc_def csv_errmsg_def csv_left_def Let_def
      split: if_splits)

text \<open>\<open>None\<close> is the early \<open>return 0\<close> of a failed allocation.\<close>

definition drop_to_quote :: "byte list \<Rightarrow> byte list" where
  "drop_to_quote z = rev (tl (dropWhile (\<lambda>b. b \<noteq> 34) (rev z)))"

function csv_quoted :: "int \<Rightarrow> int \<Rightarrow> nat \<Rightarrow> CsvReader \<Rightarrow> bool \<times> CsvReader" where
  "csv_quoted pc ppc startLine p =
     (let (c, p1) = csv_getc p;
          special = (c \<le> QUOTE \<or> pc = QUOTE);
          p2 = (if special \<and> c = NEWLINE then p1\<lparr>csv_nLine := csv_nLine p1 + 1\<rparr> else p1)
      in if special \<and> c = QUOTE \<and> pc = QUOTE then csv_quoted 0 ppc startLine p2
         else if special \<and> (c = COMMA \<and> pc = QUOTE \<or> c = NEWLINE \<and> pc = QUOTE \<or>
                 c = NEWLINE \<and> pc = RETURN \<and> ppc = QUOTE \<or> c = EOF \<and> pc = QUOTE) then
           (True, p2\<lparr>csv_z := drop_to_quote (csv_z p2), csv_cTerm := c\<rparr>)
         else if special \<and> pc = QUOTE \<and> c \<noteq> RETURN then
           (True, csv_errmsg (Unescaped (csv_nLine p2)) p2)
         else if special \<and> c = EOF then
           (True, (csv_errmsg (Unterminated startLine) p2)\<lparr>csv_cTerm := c\<rparr>)
         else
           (let (oom, p3) = csv_append p2 (of_int c) in
            if oom then (False, p3) else csv_quoted c pc startLine p3))"
  by pat_completeness auto
termination
proof (relation "measure (\<lambda>(pc, ppc, l, p). csv_left p)", goal_cases)
  case 1
  then show ?case by simp
next
  case (2 pc ppc l p x c p1 special p2)
  then have "csv_left p1 < csv_left p" by (metis csv_getc_left one_neq_neg_numeral neg_one_neq_numeral)
  moreover have "csv_left p2 = csv_left p1" using 2 by (simp add: csv_left_def)
  ultimately show ?case by simp
next
  case (3 pc ppc l p x c p1 special p2 y oom p3)
  then have "c \<noteq> EOF" by auto
  then have "csv_left p1 < csv_left p" using 3 csv_getc_left by metis
  moreover have "csv_left p2 = csv_left p1" using 3 by (simp add: csv_left_def)
  moreover have "csv_left p3 = csv_left p2" using 3 csv_append_left by metis
  ultimately show ?case by simp
qed

function csv_unquoted :: "int \<Rightarrow> CsvReader \<Rightarrow> bool \<times> int \<times> CsvReader" where
  "csv_unquoted c p =
     (if COMMA < c \<or> (c \<noteq> EOF \<and> c \<noteq> COMMA \<and> c \<noteq> NEWLINE) then
        (let (oom, p1) = csv_append p (of_int c) in
         if oom then (False, c, p1) else let (c', p2) = csv_getc p1 in csv_unquoted c' p2)
      else (True, c, p))"
  by pat_completeness auto
termination
proof (relation "measure (\<lambda>(c, p). if c = EOF then 0 else Suc (csv_left p))", goal_cases)
  case 1
  then show ?case by simp
next
  case (2 c p x oom p1 y c' p2)
  have "c \<noteq> EOF" using 2 by auto
  moreover have "csv_append p (of_int c) = (oom, p1)" "csv_getc p1 = (c', p2)" using 2 by simp_all
  then have "csv_left p1 = csv_left p" "c' = EOF \<or> csv_left p2 < csv_left p1"
    using csv_append_left csv_getc_left by blast+
  ultimately show ?case by auto
qed

declare csv_quoted.simps [simp del] csv_unquoted.simps [simp del]

definition csv_finish :: "CsvReader \<Rightarrow> byte list option \<times> CsvReader" where
  "csv_finish p = (if csv_nAlloc p = 0 then None else Some (csv_z p), p\<lparr>csv_bNotFirst := True\<rparr>)"

definition csv_read_unquoted :: "int \<Rightarrow> CsvReader \<Rightarrow> byte list option \<times> CsvReader" where
  "csv_read_unquoted c p =
     (let (ok, c, p) = csv_unquoted c p in
      if \<not> ok then (None, p)
      else let p = (if c = NEWLINE then
              let p = p\<lparr>csv_nLine := csv_nLine p + 1\<rparr>
              in if csv_z p \<noteq> [] \<and> last (csv_z p) = 13 then p\<lparr>csv_z := butlast (csv_z p)\<rparr> else p
            else p)
        in csv_finish (p\<lparr>csv_cTerm := c\<rparr>))"

function csv_read_one_field :: "CsvReader \<Rightarrow> byte list option \<times> CsvReader" where
  "csv_read_one_field p =
     (let (c, p1) = csv_getc (p\<lparr>csv_z := []\<rparr>) in
      if c = EOF then (None, p1\<lparr>csv_cTerm := EOF\<rparr>)
      else if c = QUOTE then
        (let (ok, p2) = csv_quoted 0 0 (csv_nLine p1) p1
         in if ok then csv_finish p2 else (None, p2))
      else if (of_int c :: byte) = 0xEF \<and> \<not> csv_bNotFirst p then
        (let (_, p2) = csv_append p1 (of_int c); (c, p3) = csv_getc p2 in
         if (of_int c :: byte) = 0xBB then
           (let (_, p4) = csv_append p3 (of_int c); (c, p5) = csv_getc p4 in
            if (of_int c :: byte) = 0xBF then csv_read_one_field (p5\<lparr>csv_bNotFirst := True, csv_z := []\<rparr>)
            else csv_read_unquoted c p5)
         else csv_read_unquoted c p3)
      else csv_read_unquoted c p1)"
  by pat_completeness auto
termination
  by (relation "measure (\<lambda>p. if csv_bNotFirst p then 0 else 1)") auto

declare csv_read_one_field.simps [simp del]

section \<open>The remaining input\<close>

text \<open>A byte 0xFF at the start of a buffer is taken for the end of the file.\<close>

definition buffers_readable :: "byte list \<Rightarrow> bool" where
  "buffers_readable s \<longleftrightarrow> (\<forall>k. k * CSV_INBUFSZ < length s \<longrightarrow> s ! (k * CSV_INBUFSZ) \<noteq> 0xFF)"

lemma buffers_readable_drop: "buffers_readable s \<Longrightarrow> buffers_readable (drop CSV_INBUFSZ s)"
  unfolding buffers_readable_def by (intro allI impI) (drule_tac x = "Suc k" in spec, simp add: add.commute)

text \<open>A reader of a file or of a string, positioned before the bytes \<open>s\<close>: those left in the buffer
  and those the stream has not delivered yet. All its allocations succeed.\<close>

definition csv_at :: "byte list \<Rightarrow> CsvReader \<Rightarrow> bool" where
  "csv_at s p \<longleftrightarrow> csv_alloc p = [] \<and>
     drop (csv_iIn p) (csv_zIn p) @ (case csv_in p of None \<Rightarrow> [] | Some stream \<Rightarrow> stream) = s \<and>
     (\<forall>stream. csv_in p = Some stream \<longrightarrow> buffers_readable stream)"

text \<open>How a byte is delivered: as an unsigned or, first in a buffer, as a signed character.\<close>

definition read_as :: "int \<Rightarrow> byte \<Rightarrow> bool" where
  "read_as c b \<longleftrightarrow> (c = uint b \<or> c = sint b) \<and> c \<noteq> EOF"

lemma uint_chars:
  "uint (b :: byte) = 34 \<longleftrightarrow> b = 34" "uint b = 44 \<longleftrightarrow> b = 44" "uint b = 10 \<longleftrightarrow> b = 10"
  "uint b = 13 \<longleftrightarrow> b = 13" "uint b \<noteq> - 1" "(word_of_int (uint b) :: byte) = b"
  by (simp_all add: word_uint_eq_iff) (use uint_ge_0 [of b] in linarith)

lemma sint_same_iff: "(b :: byte) = c \<longleftrightarrow> sint b = sint c"
  by (rule word_eq_iff_signed)

lemma sint_chars:
  "sint (b :: byte) = 34 \<longleftrightarrow> b = 34" "sint b = 44 \<longleftrightarrow> b = 44" "sint b = 10 \<longleftrightarrow> b = 10"
  "sint b = 13 \<longleftrightarrow> b = 13" "sint b = - 1 \<longleftrightarrow> b = 0xFF" "(word_of_int (sint b) :: byte) = b"
  by (simp_all add: sint_same_iff)

lemma read_as_chars:
  assumes "read_as c b"
  shows "c = 34 \<longleftrightarrow> b = 34" "c = 44 \<longleftrightarrow> b = 44" "c = 10 \<longleftrightarrow> b = 10" "c = 13 \<longleftrightarrow> b = 13" "c \<noteq> - 1"
    "(word_of_int c :: byte) = b"
  using assms by (auto simp: read_as_def uint_chars sint_chars)

lemma csv_getc_at:
  assumes at: "csv_at (b # s) p"
  shows "\<exists>c p'. csv_getc p = (c, p') \<and> read_as c b \<and> csv_at s p' \<and> csv_z p' = csv_z p \<and>
    csv_nAlloc p' = csv_nAlloc p \<and> csv_nLine p' = csv_nLine p \<and> csv_bNotFirst p' = csv_bNotFirst p"
proof (cases "csv_iIn p < length (csv_zIn p)")
  case True
  have "csv_zIn p ! csv_iIn p = b" "drop (Suc (csv_iIn p)) (csv_zIn p) @ (case csv_in p of None \<Rightarrow> [] | Some st \<Rightarrow> st) = s"
    using at Cons_nth_drop_Suc [OF True] unfolding csv_at_def by (metis append_Cons list.inject)+
  then show ?thesis using at True
    by (intro exI [of _ "uint b"] exI [of _ "p\<lparr>csv_iIn := csv_iIn p + 1\<rparr>"])
      (auto simp: csv_getc_def csv_at_def read_as_def uint_chars)
next
  case False
  then obtain st where st: "csv_in p = Some st" "st = b # s" "buffers_readable st"
    using at by (auto simp: csv_at_def split: option.splits)
  have "b \<noteq> 0xFF" using st(2,3) unfolding buffers_readable_def by (auto dest: spec [of _ 0])
  moreover have "take (CSV_INBUFSZ - 1) s @ drop CSV_INBUFSZ st = s" using st(2) by (simp add: drop_Cons')
  ultimately show ?thesis
    using False st at buffers_readable_drop [OF st(3)]
    by (auto simp: csv_getc_def csv_getc_refill_def csv_at_def read_as_def sint_chars take_Cons')
qed

text \<open>The significant characters are delivered as themselves.\<close>

lemma csv_getc_char:
  assumes at: "csv_at (b # s) p" and b: "b \<in> {34, 44, 10}"
  shows "\<exists>p'. csv_getc p = (uint b, p') \<and> csv_at s p' \<and> csv_z p' = csv_z p \<and> csv_nAlloc p' = csv_nAlloc p"
  using csv_getc_at [OF at] b by (auto simp: read_as_chars)

lemma csv_getc_end: "csv_at [] p \<Longrightarrow> csv_getc p = (EOF, p)"
  by (auto simp: csv_at_def csv_getc_def csv_getc_refill_def split: option.splits)

lemma csv_append_at:
  assumes "csv_at s p"
  shows "\<exists>p'. csv_append p c = (False, p') \<and> csv_at s p' \<and> csv_z p' = csv_z p @ [c] \<and>
    0 < csv_nAlloc p' \<and> csv_nLine p' = csv_nLine p \<and> csv_bNotFirst p' = csv_bNotFirst p"
proof (cases "csv_nAlloc p \<le> length (csv_z p) + 1")
  case True
  then have "csv_append p c = (False, p\<lparr>csv_alloc := [], csv_nAlloc := csv_nAlloc p * 2 + 100, csv_z := csv_z p @ [c]\<rparr>)"
    using assms by (simp add: csv_append_def csv_resize_and_append_def take_alloc_def csv_at_def Let_def)
  then show ?thesis using assms by (simp add: csv_at_def)
next
  case False
  then have "csv_append p c = (False, p\<lparr>csv_z := csv_z p @ [c]\<rparr>)" by (simp add: csv_append_def)
  then show ?thesis using assms False by (simp add: csv_at_def)
qed

section \<open>Quoted and plain fields\<close>

definition csv_escape :: "byte list \<Rightarrow> byte list" where
  "csv_escape s = concat (map (\<lambda>b. if b = 34 then [34, 34] else [b]) s)"

definition csv_quote :: "byte list \<Rightarrow> byte list" where
  "csv_quote s = 34 # csv_escape s @ [34]"

text \<open>What may follow a field, and the character \<open>p->cTerm\<close> stands for it.\<close>

definition field_end :: "byte list \<Rightarrow> bool" where
  "field_end s \<longleftrightarrow> s = [] \<or> hd s = 44 \<or> hd s = 10"

definition end_char :: "byte list \<Rightarrow> int" where
  "end_char s = (case s of [] \<Rightarrow> EOF | b # _ \<Rightarrow> uint b)"

text \<open>One step of the quoted loop.\<close>

lemma quoted_plain:
  assumes at: "csv_at (b # s) p" and b: "b \<noteq> 34" and pc: "pc \<noteq> QUOTE" "\<not> (pc = RETURN \<and> ppc = QUOTE)"
  obtains c p' where "csv_quoted pc ppc l p = csv_quoted c pc l p'" "c \<noteq> QUOTE" "csv_at s p'" "csv_z p' = csv_z p @ [b]"
    "0 < csv_nAlloc p'"
proof -
  obtain c p1 where g: "csv_getc p = (c, p1)" "read_as c b" "csv_at s p1" "csv_z p1 = csv_z p"
    using csv_getc_at [OF at] by blast
  define p2 where "p2 = (if c = NEWLINE then p1\<lparr>csv_nLine := csv_nLine p1 + 1\<rparr> else p1)"
  have p2: "csv_at s p2" "csv_z p2 = csv_z p" using g by (simp_all add: p2_def csv_at_def)
  obtain p3 where a: "csv_append p2 b = (False, p3)" "csv_at s p3" "csv_z p3 = csv_z p2 @ [b]" "0 < csv_nAlloc p3"
    using csv_append_at [OF p2(1), of b] by blast
  have app: "csv_append (if c = NEWLINE then p1\<lparr>csv_nLine := csv_nLine p1 + 1\<rparr> else p1) b = (False, p3)"
    using a(1) by (simp only: p2_def)
  have c: "c \<noteq> QUOTE" "c \<noteq> EOF" "(word_of_int c :: byte) = b" using b read_as_chars [OF g(2)] by simp_all
  then have "csv_quoted pc ppc l p = csv_quoted c pc l p3"
    using pc app by (subst csv_quoted.simps) (cases "c = NEWLINE"; cases "c \<le> QUOTE"; auto simp: g)
  then show ?thesis using that a p2 c by simp
qed

lemma quoted_pair:
  assumes at: "csv_at (34 # 34 # s) p" and pc: "pc \<noteq> QUOTE"
  obtains p' where "csv_quoted pc ppc l p = csv_quoted 0 pc l p'" "csv_at s p'" "csv_z p' = csv_z p @ [34]"
    "0 < csv_nAlloc p'"
proof -
  obtain p1 where g: "csv_getc p = (QUOTE, p1)" "csv_at (34 # s) p1" "csv_z p1 = csv_z p"
    using csv_getc_char [OF at] by auto
  obtain p2 where a: "csv_append p1 34 = (False, p2)" "csv_at (34 # s) p2" "csv_z p2 = csv_z p @ [34]" "0 < csv_nAlloc p2"
    using csv_append_at [OF g(2), of 34] g by auto
  obtain p3 where g2: "csv_getc p2 = (QUOTE, p3)" "csv_at s p3" "csv_z p3 = csv_z p2" "csv_nAlloc p3 = csv_nAlloc p2"
    using csv_getc_char [OF a(2)] by auto
  have "csv_quoted pc ppc l p = csv_quoted QUOTE pc l p2"
    using pc by (subst csv_quoted.simps) (simp add: g a)
  also have "\<dots> = csv_quoted 0 pc l p3"
    by (subst csv_quoted.simps) (simp add: g2)
  finally show ?thesis using that g2 a by simp
qed

lemma quoted_close:
  assumes at: "csv_at (34 # s) p" and pc: "pc \<noteq> QUOTE" and s: "field_end s"
  obtains p' where "csv_quoted pc ppc l p = (True, p')" "csv_at (tl s) p'" "csv_z p' = csv_z p"
    "0 < csv_nAlloc p'" "csv_cTerm p' = end_char s"
proof -
  obtain p1 where g: "csv_getc p = (QUOTE, p1)" "csv_at s p1" "csv_z p1 = csv_z p"
    using csv_getc_char [OF at] by auto
  obtain p2 where a: "csv_append p1 34 = (False, p2)" "csv_at s p2" "csv_z p2 = csv_z p @ [34]" "0 < csv_nAlloc p2"
    using csv_append_at [OF g(2), of 34] g by auto
  have first: "csv_quoted pc ppc l p = csv_quoted QUOTE pc l p2"
    using pc by (subst csv_quoted.simps) (simp add: g a)
  have z: "drop_to_quote (csv_z p @ [34]) = csv_z p" by (simp add: drop_to_quote_def)
  obtain p3 where g2: "csv_getc p2 = (end_char s, p3)" "csv_at (tl s) p3" "csv_z p3 = csv_z p2" "csv_nAlloc p3 = csv_nAlloc p2"
  proof (cases s)
    case Nil
    then show ?thesis using that [of p2] a csv_getc_end [of p2] by (simp add: end_char_def)
  next
    case (Cons b t)
    then show ?thesis using that csv_getc_char [of b t p2] a s by (auto simp: end_char_def field_end_def)
  qed
  define p4 where "p4 = (if end_char s = NEWLINE then p3\<lparr>csv_nLine := csv_nLine p3 + 1\<rparr> else p3)
    \<lparr>csv_z := csv_z p, csv_cTerm := end_char s\<rparr>"
  consider "end_char s = COMMA" | "end_char s = NEWLINE" | "end_char s = EOF"
    using s by (cases s) (auto simp: field_end_def end_char_def uint_chars)
  then have "csv_quoted QUOTE pc l p2 = (True, p4)"
    by cases (subst csv_quoted.simps, simp add: g2 a z p4_def)+
  then show ?thesis using that [of p4] first g2 a by (auto simp: p4_def csv_at_def)
qed

lemma quoted_text:
  "csv_at (csv_escape s @ 34 # rest) p \<Longrightarrow> pc \<noteq> QUOTE \<Longrightarrow> \<not> (pc = RETURN \<and> ppc = QUOTE) \<Longrightarrow> field_end rest \<Longrightarrow>
    \<exists>p'. csv_quoted pc ppc l p = (True, p') \<and> csv_at (tl rest) p' \<and> csv_z p' = csv_z p @ s \<and>
      0 < csv_nAlloc p' \<and> csv_cTerm p' = end_char rest"
proof (induction s arbitrary: pc ppc p)
  case Nil
  then show ?case using quoted_close [of rest p pc ppc l] by (auto simp: csv_escape_def)
next
  case (Cons b s)
  show ?case
  proof (cases "b = 34")
    case True
    then have at: "csv_at (34 # 34 # csv_escape s @ 34 # rest) p" using Cons.prems by (simp add: csv_escape_def)
    obtain p' where q: "csv_quoted pc ppc l p = csv_quoted 0 pc l p'" "csv_at (csv_escape s @ 34 # rest) p'"
      "csv_z p' = csv_z p @ [34]"
      using quoted_pair [OF at Cons.prems(2), of ppc l] by blast
    then show ?thesis using Cons.IH [OF q(2), of 0 pc] Cons.prems True by auto
  next
    case False
    then have at: "csv_at (b # csv_escape s @ 34 # rest) p" using Cons.prems by (simp add: csv_escape_def)
    obtain c p' where q: "csv_quoted pc ppc l p = csv_quoted c pc l p'" "c \<noteq> QUOTE" "csv_at (csv_escape s @ 34 # rest) p'"
      "csv_z p' = csv_z p @ [b]"
      using quoted_plain [OF at False Cons.prems(2,3), of l] by blast
    then show ?thesis using Cons.IH [OF q(3,2), of pc] Cons.prems by auto
  qed
qed

lemma unquoted_text:
  "csv_at (s @ rest) p \<Longrightarrow> \<forall>b \<in> set s. b \<noteq> 44 \<and> b \<noteq> 10 \<Longrightarrow> field_end rest \<Longrightarrow> csv_getc p = (c, p1) \<Longrightarrow>
    \<exists>p'. csv_unquoted c p1 = (True, end_char rest, p') \<and> csv_at (tl rest) p' \<and> csv_z p' = csv_z p @ s \<and>
      (s \<noteq> [] \<or> 0 < csv_nAlloc p \<longrightarrow> 0 < csv_nAlloc p')"
proof (induction s arbitrary: p c p1)
  case Nil
  show ?case
  proof (cases rest)
    case Nil': Nil
    then have "c = EOF" "p1 = p" using Nil csv_getc_end [of p] by auto
    then show ?thesis using Nil Nil' by (subst csv_unquoted.simps) (simp add: end_char_def)
  next
    case (Cons b t)
    then have b: "b = 44 \<or> b = 10" using Nil(3) by (auto simp: field_end_def)
    then have "c = uint b" "csv_at t p1" "csv_z p1 = csv_z p" "csv_nAlloc p1 = csv_nAlloc p"
      using Nil Cons csv_getc_char [of b t p] by auto
    then show ?thesis using Cons b by (subst csv_unquoted.simps) (auto simp: end_char_def)
  qed
next
  case (Cons b s)
  have g: "read_as c b" "csv_at (s @ rest) p1" "csv_z p1 = csv_z p"
    using Cons.prems csv_getc_at [of b "s @ rest" p] by auto
  obtain p2 where a: "csv_append p1 b = (False, p2)" "csv_at (s @ rest) p2" "csv_z p2 = csv_z p1 @ [b]" "0 < csv_nAlloc p2"
    using csv_append_at [OF g(2), of b] by blast
  obtain c' p3 where n: "csv_getc p2 = (c', p3)" by fastforce
  have "c \<noteq> 44 \<and> c \<noteq> 10 \<and> c \<noteq> - 1" using Cons.prems(2) read_as_chars [OF g(1)] by simp
  then have "csv_unquoted c p1 = csv_unquoted c' p3"
    by (subst csv_unquoted.simps) (simp add: read_as_chars [OF g(1)] a n)
  then show ?case using Cons.IH [OF a(2) _ Cons.prems(3) n] Cons.prems(2) a g by auto
qed

lemma csv_at_start: "csv_at s p \<Longrightarrow> csv_at s (p\<lparr>csv_z := []\<rparr>)"
  by (simp add: csv_at_def)

text \<open>A reader over a string, before its first character.\<close>

definition csv_over :: "byte list \<Rightarrow> CsvReader" where
  "csv_over s = snd (csv_reader_open Map.empty None s (csv_reader_init \<lparr>csv_in = None, csv_z = [], csv_nAlloc = 0,
     csv_nLine = 0, csv_bNotFirst = False, csv_cTerm = 0, csv_iIn = 0, csv_zIn = [], csv_zErr = None,
     csv_alloc = []\<rparr>))"

lemma csv_over_at: "0 \<notin> set s \<Longrightarrow> csv_at s (csv_over s)"
  by (auto simp: csv_over_def csv_reader_open_def csv_reader_init_def csv_at_def intro!: takeWhile_eq_all_conv [THEN iffD2])

text \<open>A row of quoted fields, and reading as many fields.\<close>

fun csv_row :: "byte list list \<Rightarrow> byte list" where
  "csv_row [] = []"
| "csv_row [f] = csv_quote f"
| "csv_row (f # fs) = csv_quote f @ 44 # csv_row fs"

fun read_fields :: "nat \<Rightarrow> CsvReader \<Rightarrow> byte list option list \<times> CsvReader" where
  "read_fields 0 p = ([], p)"
| "read_fields (Suc n) p =
     (let (z, p) = csv_read_one_field p; (zs, p) = read_fields n p in (z # zs, p))"

lemma quoted_field:
  assumes "csv_at (csv_quote s @ rest) p" "field_end rest"
  shows "\<exists>p'. csv_read_one_field p = (Some s, p') \<and> csv_cTerm p' = end_char rest \<and> csv_at (tl rest) p'"
proof -
  have at: "csv_at (34 # csv_escape s @ 34 # rest) (p\<lparr>csv_z := []\<rparr>)"
    using csv_at_start [OF assms(1)] by (simp add: csv_quote_def)
  obtain p1 where g: "csv_getc (p\<lparr>csv_z := []\<rparr>) = (QUOTE, p1)" "csv_at (csv_escape s @ 34 # rest) p1" "csv_z p1 = []"
    using csv_getc_char [OF at] by auto
  obtain p2 where "csv_quoted 0 0 (csv_nLine p1) p1 = (True, p2)" "csv_at (tl rest) p2" "csv_z p2 = s"
    "0 < csv_nAlloc p2" "csv_cTerm p2 = end_char rest"
    using quoted_text [OF g(2) _ _ assms(2), of 0 0 "csv_nLine p1"] g(3) by auto
  then show ?thesis
    by (subst csv_read_one_field.simps) (simp add: g csv_finish_def csv_at_def)
qed

lemma quoted_row:
  assumes "csv_at (csv_row cols @ rest) p" "field_end rest" "cols \<noteq> []"
  shows "\<exists>p'. read_fields (length cols) p = (map Some cols, p') \<and> csv_cTerm p' = end_char rest \<and> csv_at (tl rest) p'"
  using assms
proof (induction cols arbitrary: p rule: csv_row.induct)
  case (2 f)
  then show ?case using quoted_field [of f rest p] by auto
next
  case (3 f g fs)
  have at: "csv_at (csv_quote f @ 44 # csv_row (g # fs) @ rest) p" using 3(2) by simp
  obtain p1 where p1: "csv_read_one_field p = (Some f, p1)" "csv_at (csv_row (g # fs) @ rest) p1"
    using quoted_field [OF at] by (auto simp: field_end_def)
  then show ?case using 3(1) [OF p1(2) 3(3)] by auto
qed simp

text \<open>The text a reader is opened on: a file, or a string up to its NUL.\<close>

definition csv_source :: "(string \<rightharpoonup> byte list) \<Rightarrow> string option \<Rightarrow> byte list \<Rightarrow> byte list" where
  "csv_source file_system zFilename zData =
     (case zFilename of Some path \<Rightarrow> the (file_system path) | None \<Rightarrow> takeWhile (\<lambda>b. b \<noteq> 0) zData)"

lemma csv_open_at:
  assumes "csv_reader_open file_system zFilename zData (csv_reader_init p0) = (0, p)" "csv_alloc p = []"
    and "if zFilename = None then csv_iIn p0 = 0 else buffers_readable (csv_source file_system zFilename zData)"
  shows "csv_at (csv_source file_system zFilename zData) p"
  using assms
  by (auto simp: csv_reader_open_def csv_reader_init_def csv_source_def csv_at_def take_alloc_def csv_errmsg_def
      csv_reader_reset_def split: option.splits if_splits)

section \<open>Properties\<close>

text \<open>C34: Round trip of quoting, from csv_reader_open on. The source is a file or a string that
  begins with a row of quoted fields (quotes doubled, one at each end, commas between them)
  followed by a comma, a newline or its end. Reading as many fields as the row has returns exactly
  their bytes, with embedded commas, line breaks and quotes, through any number of 1024-byte
  buffers, and stops right behind the row with its terminator recorded. A file must not have a
  byte 0xFF where a buffer begins, since csv_getc_refill takes it for the end of the file; a
  string ends at its first NUL, and its reader must start at index 0, which the code leaves to
  its caller. Allocations succeed.\<close>

theorem csv_quoted_row_round_trip:
  assumes "csv_reader_open file_system zFilename zData (csv_reader_init p0) = (0, p)" "csv_alloc p = []"
    and "csv_source file_system zFilename zData = csv_row cols @ rest" "cols \<noteq> []" "field_end rest"
    and "if zFilename = None then csv_iIn p0 = 0 else buffers_readable (csv_source file_system zFilename zData)"
  shows "\<exists>p'. read_fields (length cols) p = (map Some cols, p') \<and> csv_cTerm p' = end_char rest \<and> csv_at (tl rest) p'"
  by (rule quoted_row [OF _ assms(5,4)]) (use csv_open_at [OF assms(1,2,6)] assms(3) in simp)

theorem csv_quoted_row_round_trip_witness:
  "\<exists>p'. read_fields 2 (snd (csv_reader_open [''t.csv'' \<mapsto> 34 # replicate 1500 97 @ [34, 44, 34, 34, 34, 10, 34, 10, 98]]
      (Some ''t.csv'') [] (csv_over []))) = ([Some (replicate 1500 97), Some [34, 10]], p') \<and>
    csv_cTerm p' = NEWLINE \<and> csv_at [98] p'"
proof -
  let ?text = "34 # replicate 1500 97 @ [34, 44, 34, 34, 34, 10, 34, 10, 98] :: byte list"
  let ?fs = "[''t.csv'' \<mapsto> ?text]" and ?p = "csv_over []"
  have esc: "csv_escape (replicate n 97) = replicate n 97" for n by (induction n) (simp_all add: csv_escape_def)
  have src: "csv_source ?fs (Some ''t.csv'') [] = csv_row [replicate 1500 97, [34, 10]] @ [10, 98]"
    by (simp add: csv_source_def csv_quote_def esc) (simp add: csv_escape_def)
  have "\<forall>b \<in> set ?text. b \<noteq> 0xFF" by simp
  then have readable: "buffers_readable ?text" unfolding buffers_readable_def using nth_mem by blast
  have init: "csv_reader_init ?p = ?p" by (simp add: csv_over_def csv_reader_open_def csv_reader_init_def)
  have opens: "csv_reader_open ?fs (Some ''t.csv'') [] (csv_reader_init ?p) = (0, snd (csv_reader_open ?fs (Some ''t.csv'') [] ?p))"
    "csv_alloc (snd (csv_reader_open ?fs (Some ''t.csv'') [] ?p)) = []"
    unfolding init by (simp_all add: csv_reader_open_def take_alloc_def csv_over_def csv_reader_init_def)
  have nl: "end_char [10, 98] = NEWLINE" by (simp add: end_char_def)
  show ?thesis
    using csv_quoted_row_round_trip [OF opens src] readable
    by (simp add: field_end_def nl csv_source_def numeral_2_eq_2 del: read_fields.simps)
qed

text \<open>A non-empty field that does not start with a quote or (as the first field) with the byte
  0xEF, and has no comma and no newline, is returned as it stands, up to the comma, the end of
  the input or the newline; before a newline one carriage return is removed and the line count
  goes up by one.\<close>

lemma csv_plain_field:
  assumes "csv_at (s @ rest) p" "field_end rest" "\<forall>b \<in> set s. b \<noteq> 44 \<and> b \<noteq> 10" "s \<noteq> []"
    and "hd s \<noteq> 34" "hd s \<noteq> 0xEF \<or> csv_bNotFirst p"
  shows "\<exists>p'. csv_read_one_field p =
      (Some (if end_char rest = NEWLINE \<and> last s = 13 then butlast s else s), p') \<and>
    csv_cTerm p' = end_char rest \<and> csv_at (tl rest) p' \<and> csv_bNotFirst p'"
proof -
  obtain b t where s: "s = b # t" using assms(4) by (cases s) auto
  have at: "csv_at (b # t @ rest) (p\<lparr>csv_z := []\<rparr>)"
    using csv_at_start [OF assms(1)] by (simp add: s)
  obtain c p1 where g: "csv_getc (p\<lparr>csv_z := []\<rparr>) = (c, p1)" "read_as c b"
    using csv_getc_at [OF at] by auto
  obtain p2 where u: "csv_unquoted c p1 = (True, end_char rest, p2)" "csv_at (tl rest) p2" "csv_z p2 = s"
    "0 < csv_nAlloc p2"
    using unquoted_text [of s rest "p\<lparr>csv_z := []\<rparr>" c p1] at assms(2,3) g by (auto simp: s)
  have "csv_read_one_field p = csv_read_unquoted c p1"
    using assms(5,6) by (subst csv_read_one_field.simps) (auto simp: g s read_as_chars [OF g(2)])
  then show ?thesis
    using u assms(4) by (auto simp: csv_read_unquoted_def csv_finish_def csv_at_def Let_def)
qed

lemma csv_plain_field_witness:
  "\<exists>p'. csv_read_one_field (csv_over ([97, 34, 13] @ [10, 98])) = (Some [97, 34], p') \<and> csv_at [98] p'"
  using csv_plain_field [of "[97, 34, 13]" "[10, 98]" "csv_over ([97, 34, 13] @ [10, 98])"] csv_over_at [of "[97, 34, 13] @ [10, 98]"]
  by (auto simp: field_end_def end_char_def)

text \<open>A file whose first byte is 0xFF reads as an empty file: csv_getc_refill returns the first
  byte of each refilled buffer as a signed char, so 0xFF becomes EOF and csv_read_one_field
  reports the end of the input although the rest of the file has not been read.\<close>

lemma csv_ff_at_buffer_start_is_eof:
  "\<exists>p'. csv_read_one_field (snd (csv_reader_open [path \<mapsto> 0xFF # s] (Some path) [] (csv_over []))) = (None, p') \<and>
    csv_cTerm p' = EOF \<and> csv_zErr p' = None \<and> csv_zIn p' = take CSV_INBUFSZ (0xFF # s)"
proof -
  have "sint (0xFF :: byte) = - 1" by simp
  then show ?thesis
    by (subst csv_read_one_field.simps)
      (simp add: csv_over_def csv_reader_open_def csv_reader_init_def take_alloc_def csv_getc_def csv_getc_refill_def)
qed

end
