(* ===== verification/Uring.thy ===== *)
theory Uring
  imports Vfs
begin

text \<open>
  The io_uring backend of \<open>fts_vfs.c\<close> (the \<open>FTS_USE_URING\<close> branch). \<open>liburing\<close> is not part
  of the repository: its functions are the fields of the parameter \<open>lib\<close>, which act on the
  world \<open>'w\<close> (rings, files and buffers); nothing is known about them except what a theorem
  assumes by name. A completion is a pair of the result and the user data.
\<close>

section \<open>The library's functions\<close>

record 'w liburing =
  queue_init :: "u32 \<Rightarrow> 'w \<Rightarrow> int \<times> 'w"
  queue_exit :: "'w \<Rightarrow> 'w"
  get_sqe :: "'w \<Rightarrow> bool \<times> 'w"
  prep_read :: "int \<Rightarrow> mem \<Rightarrow> nat \<Rightarrow> nat \<Rightarrow> 'w \<Rightarrow> 'w"
  prep_write :: "int \<Rightarrow> mem \<Rightarrow> nat \<Rightarrow> nat \<Rightarrow> 'w \<Rightarrow> 'w"
  sqe_set_data :: "nat \<Rightarrow> 'w \<Rightarrow> 'w"
  submit :: "'w \<Rightarrow> int \<times> 'w"
  wait_cqe :: "'w \<Rightarrow> (int \<times> nat) \<times> 'w"
  cqe_seen :: "'w \<Rightarrow> 'w"
  read_buffer :: "'w \<Rightarrow> mem"

record 'w uring_ctx =
  uc_ring :: 'w
  uc_submitted_count :: nat
  uc_initialized :: bool

section \<open>Operations\<close>

definition uring_vfs_init :: "'w liburing \<Rightarrow> u32 \<Rightarrow> 'w uring_ctx \<Rightarrow> int \<times> 'w uring_ctx" where
  "uring_vfs_init lib queue_size ctx =
     (let (r, w) = queue_init lib queue_size (uc_ring ctx) in
      if r < 0 then (- 1, ctx\<lparr>uc_ring := w\<rparr>)
      else (0, ctx\<lparr>uc_ring := w, uc_initialized := True\<rparr>))"

definition uring_vfs_destroy :: "'w liburing \<Rightarrow> 'w uring_ctx \<Rightarrow> 'w uring_ctx" where
  "uring_vfs_destroy lib ctx =
     (if uc_initialized ctx then ctx\<lparr>uc_ring := queue_exit lib (uc_ring ctx), uc_initialized := False\<rparr>
      else ctx)"

text \<open>Submitting the one prepared request and waiting for a completion, whichever it is.\<close>

definition submit_and_reap :: "'w liburing \<Rightarrow> 'w \<Rightarrow> int \<times> 'w" where
  "submit_and_reap lib w =
     (let w = snd (submit lib w); (cqe, w) = wait_cqe lib w in (fst cqe, cqe_seen lib w))"

definition uring_vfs_read_sync ::
  "'w liburing \<Rightarrow> 'w uring_ctx \<Rightarrow> int \<Rightarrow> mem \<Rightarrow> nat \<Rightarrow> nat \<Rightarrow> int \<times> mem \<times> 'w uring_ctx" where
  "uring_vfs_read_sync lib ctx fd buf cnt off =
     (let (ok, w) = get_sqe lib (uc_ring ctx) in
      if \<not> ok then (- 1, buf, ctx\<lparr>uc_ring := w\<rparr>)
      else let (res, w) = submit_and_reap lib (prep_read lib fd buf cnt off w)
        in (res, read_buffer lib w, ctx\<lparr>uc_ring := w\<rparr>))"

definition uring_vfs_write_sync ::
  "'w liburing \<Rightarrow> 'w uring_ctx \<Rightarrow> int \<Rightarrow> mem \<Rightarrow> nat \<Rightarrow> nat \<Rightarrow> int \<times> 'w uring_ctx" where
  "uring_vfs_write_sync lib ctx fd buf cnt off =
     (let (ok, w) = get_sqe lib (uc_ring ctx) in
      if \<not> ok then (- 1, ctx\<lparr>uc_ring := w\<rparr>)
      else let (res, w) = submit_and_reap lib (prep_write lib fd buf cnt off w)
        in (res, ctx\<lparr>uc_ring := w\<rparr>))"

definition uring_batch_begin :: "'w uring_ctx \<Rightarrow> 'w uring_ctx" where
  "uring_batch_begin ctx = ctx\<lparr>uc_submitted_count := 0\<rparr>"

definition uring_batch_add_write ::
  "'w liburing \<Rightarrow> 'w uring_ctx \<Rightarrow> int \<Rightarrow> mem \<Rightarrow> nat \<Rightarrow> nat \<Rightarrow> nat \<Rightarrow> int \<times> 'w uring_ctx" where
  "uring_batch_add_write lib ctx fd buf cnt off user_data =
     (let (ok, w) = get_sqe lib (uc_ring ctx) in
      if \<not> ok then (- 1, ctx\<lparr>uc_ring := w\<rparr>)
      else (0, ctx\<lparr>uc_ring := sqe_set_data lib user_data (prep_write lib fd buf cnt off w),
                  uc_submitted_count := uc_submitted_count ctx + 1\<rparr>))"

fun reap :: "'w liburing \<Rightarrow> nat \<Rightarrow> nat \<Rightarrow> nat list \<Rightarrow> 'w \<Rightarrow> nat list \<times> 'w" where
  "reap lib 0 max_events completed w = (completed, w)"
| "reap lib (Suc i) max_events completed w =
     (let (cqe, w) = wait_cqe lib w;
          completed = (if length completed < max_events \<and> 0 \<le> fst cqe
                       then completed @ [snd cqe] else completed)
      in reap lib i max_events completed (cqe_seen lib w))"

definition uring_batch_submit_and_wait ::
  "'w liburing \<Rightarrow> 'w uring_ctx \<Rightarrow> nat \<Rightarrow> nat list \<times> 'w uring_ctx" where
  "uring_batch_submit_and_wait lib ctx max_events =
     (if uc_submitted_count ctx = 0 then ([], ctx)
      else let w = snd (submit lib (uc_ring ctx));
               (completed, w) = reap lib (uc_submitted_count ctx) max_events [] w
        in (completed, ctx\<lparr>uc_ring := w\<rparr>))"

section \<open>What the backend relies on\<close>

text \<open>\<open>Q\<close> is the user data of the prepared entries in order, \<open>R\<close> the results with which the
  kernel is going to complete them if they are submitted now, and \<open>S\<close> the completions the ring
  owes: a submission turns every prepared entry into one completion with its result, and a wait
  hands out one of those owed, in any order, which the acknowledgement removes.\<close>

definition ring_contract ::
  "'w liburing \<Rightarrow> ('w \<Rightarrow> nat list) \<Rightarrow> ('w \<Rightarrow> int list) \<Rightarrow> ('w \<Rightarrow> (int \<times> nat) multiset) \<Rightarrow> bool" where
  "ring_contract lib Q R S \<longleftrightarrow>
     (\<forall>w w' fd buf cnt off d. get_sqe lib w = (True, w') \<longrightarrow>
        Q (sqe_set_data lib d (prep_write lib fd buf cnt off w')) = Q w @ [d] \<and>
        S (sqe_set_data lib d (prep_write lib fd buf cnt off w')) = S w) \<and>
     (\<forall>w. length (R w) = length (Q w) \<and> Q (snd (submit lib w)) = [] \<and>
        S (snd (submit lib w)) = S w + mset (zip (R w) (Q w))) \<and>
     (\<forall>w cqe w'. S w \<noteq> {#} \<and> wait_cqe lib w = (cqe, w') \<longrightarrow>
        cqe \<in># S w \<and> S (cqe_seen lib w') = S w - {#cqe#} \<and> Q (cqe_seen lib w') = Q w)"

lemma ring_add:
  "ring_contract lib Q R S \<Longrightarrow> get_sqe lib w = (True, w') \<Longrightarrow>
    Q (sqe_set_data lib d (prep_write lib fd buf cnt off w')) = Q w @ [d] \<and>
    S (sqe_set_data lib d (prep_write lib fd buf cnt off w')) = S w"
  unfolding ring_contract_def by blast

lemma ring_submit:
  "ring_contract lib Q R S \<Longrightarrow> length (R w) = length (Q w) \<and> Q (snd (submit lib w)) = [] \<and>
    S (snd (submit lib w)) = S w + mset (zip (R w) (Q w))"
  unfolding ring_contract_def by blast

lemma ring_wait:
  "ring_contract lib Q R S \<Longrightarrow> S w \<noteq> {#} \<Longrightarrow> wait_cqe lib w = (cqe, w') \<Longrightarrow>
    cqe \<in># S w \<and> S (cqe_seen lib w') = S w - {#cqe#} \<and> Q (cqe_seen lib w') = Q w"
  unfolding ring_contract_def by blast

abbreviation succeeded :: "(int \<times> nat) multiset \<Rightarrow> nat multiset" where
  "succeeded M \<equiv> image_mset snd (filter_mset (\<lambda>c. 0 \<le> fst c) M)"

lemma reap_all:
  assumes ring: "ring_contract lib Q R S"
  shows "size (S w) = n \<Longrightarrow> length done' + n \<le> max_events \<Longrightarrow>
    \<exists>L w'. reap lib n max_events done' w = (done' @ L, w') \<and> mset L = succeeded (S w) \<and>
      S w' = {#} \<and> Q w' = Q w"
proof (induction n arbitrary: w done')
  case 0
  then show ?case by simp
next
  case (Suc n)
  obtain cqe w1 where w1: "wait_cqe lib w = (cqe, w1)" by fastforce
  have "S w \<noteq> {#}" using Suc.prems by auto
  note wait = ring_wait [OF ring this w1]
  let ?d = "if 0 \<le> fst cqe then done' @ [snd cqe] else done'"
  have n: "size (S (cqe_seen lib w1)) = n" using wait Suc.prems by (simp add: size_Diff_singleton)
  have S: "S w = add_mset cqe (S (cqe_seen lib w1))" using wait by simp
  obtain L w' where L: "reap lib n max_events ?d (cqe_seen lib w1) = (?d @ L, w')"
    "mset L = succeeded (S (cqe_seen lib w1))" "S w' = {#}" "Q w' = Q w"
    using Suc.IH [OF n, of ?d] Suc.prems wait by (cases "0 \<le> fst cqe") auto
  have "reap lib (Suc n) max_events done' w = (?d @ L, w')"
    using L(1) Suc.prems by (auto simp: w1)
  then show ?case using L S by (cases "0 \<le> fst cqe") auto
qed

text \<open>Adding a list of writes; all of them found a free entry.\<close>

fun uring_add_all ::
  "'w liburing \<Rightarrow> int \<Rightarrow> (mem \<times> nat \<times> nat \<times> nat) list \<Rightarrow> 'w uring_ctx \<Rightarrow> bool \<times> 'w uring_ctx" where
  "uring_add_all lib fd [] ctx = (True, ctx)"
| "uring_add_all lib fd ((buf, cnt, off, d) # reqs) ctx =
     (let (r, ctx) = uring_batch_add_write lib ctx fd buf cnt off d in
      if r = 0 then uring_add_all lib fd reqs ctx else (False, ctx))"

lemma add_all_law:
  assumes ring: "ring_contract lib Q R S"
  shows "uring_add_all lib fd reqs ctx = (True, ctx') \<Longrightarrow>
    Q (uc_ring ctx') = Q (uc_ring ctx) @ map (\<lambda>(b, c, off, d). d) reqs \<and> S (uc_ring ctx') = S (uc_ring ctx) \<and>
    uc_submitted_count ctx' = uc_submitted_count ctx + length reqs"
proof (induction reqs arbitrary: ctx)
  case Nil
  then show ?case by simp
next
  case (Cons req reqs)
  obtain buf cnt off d where req: "req = (buf, cnt, off, d)" by (cases req)
  obtain ok w where g: "get_sqe lib (uc_ring ctx) = (ok, w)" by fastforce
  have ok: "ok" using Cons.prems by (cases ok) (simp_all add: req uring_batch_add_write_def g)
  then show ?case
    using Cons.prems Cons.IH ring_add [OF ring, of "uc_ring ctx" w]
    by (auto simp: req uring_batch_add_write_def g)
qed

section \<open>Properties\<close>

text \<open>C35: With any ring that owes one completion per submitted entry, in any order and with any
  results, a batch that begins on an idle ring, accepts all its writes and is then submitted
  reports exactly the requests that the ring completes with a result that is not negative, each
  once, and none of those it fails. Every completion of the batch is reaped, so that none can be
  mistaken for that of a later request.\<close>

theorem uring_batch_reaps_every_write:
  assumes ring: "ring_contract lib Q R S" and idle: "Q (uc_ring ctx) = []" "S (uc_ring ctx) = {#}"
    and added: "uring_add_all lib fd reqs (uring_batch_begin ctx) = (True, ctx1)"
    and room: "length reqs \<le> max_events"
  shows "\<exists>L ctx2. uring_batch_submit_and_wait lib ctx1 max_events = (L, ctx2) \<and>
    mset L = mset (map snd (filter (\<lambda>(res, d). 0 \<le> res) (zip (R (uc_ring ctx1)) (map (\<lambda>(b, c, off, d). d) reqs)))) \<and>
    length (R (uc_ring ctx1)) = length reqs \<and> Q (uc_ring ctx2) = [] \<and> S (uc_ring ctx2) = {#}"
proof -
  let ?ds = "map (\<lambda>(b, c, off, d). d) reqs" and ?rs = "R (uc_ring ctx1)"
  have a: "Q (uc_ring ctx1) = ?ds" "S (uc_ring ctx1) = {#}" "uc_submitted_count ctx1 = length reqs"
    using add_all_law [OF ring added] idle by (simp_all add: uring_batch_begin_def)
  have succ: "succeeded (mset (zip ?rs ?ds)) = mset (map snd (filter (\<lambda>(res, d). 0 \<le> res) (zip ?rs ?ds)))"
    by (simp add: case_prod_unfold)
  have rs: "length ?rs = length reqs" "S (snd (submit lib (uc_ring ctx1))) = mset (zip ?rs ?ds)"
    "Q (snd (submit lib (uc_ring ctx1))) = []"
    using ring_submit [OF ring, of "uc_ring ctx1"] a by simp_all
  show ?thesis
  proof (cases "reqs = []")
    case True
    then show ?thesis using a rs(1) by (auto simp: uring_batch_submit_and_wait_def)
  next
    case False
    have "size (S (snd (submit lib (uc_ring ctx1)))) = length reqs" using rs by simp
    then obtain L w' where "reap lib (length reqs) max_events [] (snd (submit lib (uc_ring ctx1))) = ([] @ L, w')"
      "mset L = succeeded (mset (zip ?rs ?ds))" "S w' = {#}" "Q w' = []"
      using reap_all [OF ring, of "snd (submit lib (uc_ring ctx1))" _ "[]" max_events] room rs by fastforce
    then show ?thesis using False a rs(1) succ by (auto simp: uring_batch_submit_and_wait_def)
  qed
qed

text \<open>A ring that completes the newest entry first and fails the requests with odd user data.\<close>

definition stack_ring :: "(nat list \<times> (int \<times> nat) list) liburing" where
  "stack_ring =
     \<lparr>queue_init = (\<lambda>n w. (0, ([], []))), queue_exit = (\<lambda>w. w), get_sqe = (\<lambda>w. (True, w)),
      prep_read = (\<lambda>fd buf cnt off w. w), prep_write = (\<lambda>fd buf cnt off w. w),
      sqe_set_data = (\<lambda>d (q, s). (q @ [d], s)),
      submit = (\<lambda>(q, s). (int (length q), ([], rev (map (\<lambda>d. (if odd d then - 5 else 4096, d)) q) @ s))),
      wait_cqe = (\<lambda>(q, s). (hd (s @ [(- 1, 0)]), (q, s))), cqe_seen = (\<lambda>(q, s). (q, tl s)),
      read_buffer = (\<lambda>w _. 0)\<rparr>"

definition stack_results :: "nat list \<times> (int \<times> nat) list \<Rightarrow> int list" where
  "stack_results w = map (\<lambda>d. if odd d then - 5 else 4096) (fst w)"

lemma stack_ring_contract: "ring_contract stack_ring fst stack_results (mset \<circ> snd)"
  unfolding ring_contract_def
  by (auto simp: stack_ring_def stack_results_def zip_map1 zip_same_conv_map comp_def neq_Nil_conv split: prod.splits)

theorem uring_batch_reaps_every_write_witness:
  "\<exists>ctx2. uring_batch_submit_and_wait stack_ring
      (snd (uring_add_all stack_ring 3 [(\<lambda>_. 0, 4096, 0, 2), (\<lambda>_. 0, 4096, 8192, 7)]
        \<lparr>uc_ring = ([], []), uc_submitted_count = 0, uc_initialized = True\<rparr>)) 32 = ([2], ctx2) \<and>
    uc_ring ctx2 = ([], [])"
proof -
  let ?reqs = "[(\<lambda>_. 0, 4096, 0, 2), (\<lambda>_. 0, 4096, 8192, 7)] :: (mem \<times> nat \<times> nat \<times> nat) list"
  let ?ctx = "\<lparr>uc_ring = ([], []), uc_submitted_count = 0, uc_initialized = True\<rparr> :: (nat list \<times> (int \<times> nat) list) uring_ctx"
  let ?ctx1 = "snd (uring_add_all stack_ring 3 ?reqs ?ctx)"
  have b: "uring_batch_begin ?ctx = ?ctx" by (simp add: uring_batch_begin_def)
  have a: "uring_add_all stack_ring 3 ?reqs (uring_batch_begin ?ctx) = (True, ?ctx1)"
    by (simp add: b uring_batch_add_write_def stack_ring_def)
  have q: "stack_results (uc_ring ?ctx1) = [4096, - 5]"
    by (simp add: uring_batch_add_write_def stack_ring_def stack_results_def)
  obtain L ctx2 where r: "uring_batch_submit_and_wait stack_ring ?ctx1 32 = (L, ctx2)" "mset L = {#2#}"
    "fst (uc_ring ctx2) = []" "snd (uc_ring ctx2) = []"
    using uring_batch_reaps_every_write [OF stack_ring_contract _ _ a, of 32] unfolding q by auto
  have "L = [2]" using r(2) by (metis mset_single_iff)
  then show ?thesis using r by (intro exI [of _ ctx2]) (simp add: prod_eq_iff)
qed

end
