(* ===== verification/Spec2Isabelle.thy ===== *)
theory Spec2Isabelle
  imports TableProperties CrashProperties EngineProperties RestartProperties AsyncProperties VtabProperties PhraseIndex CatalogProperties PostingWorker
    Demos PoolDurability BTreeProperties CsvReader Uring ResultOrder LexiconProperties
begin

text \<open>
  Verification library of the Gorgonzola full-text and vector search engine, the C program
  under \<open>src/\<close> that stores documents in shards and exposes them as an SQLite virtual table.

  The program and how its parts interact. A document is routed by a hash of its node id to a
  shard. A shard has a data file of 4096-byte pages, a write-ahead log and a metadata file. All
  access to the pages goes through its buffer pool, which reads and writes the file through a
  small VFS (io_uring or \<open>pread\<close>/\<open>pwrite\<close>) and syncs the log before it writes a dirty page. Page 0
  is the root of a B-tree that maps a term id to the first page of the term's postings; page 1
  is the tombstone bitset; the other pages are slotted data pages with document records or
  posting pages. A search scores the records of a shard with BM25F or the cosine of their
  embeddings; the engine merges the shards' results, synchronously or on the thread pool of
  libuv, by rank fusion. The virtual table tokenises the query, maps words to term ids in the
  lexicon and drives the asynchronous search; Python bindings insert documents through it.

  Conventions. A C integer is a word of its width. A page and any packed struct is a function
  from addresses to bytes, read and written by the \<open>get_\<close> and \<open>put_\<close> functions of \<open>Prelude\<close>, so
  that overlays of two structs on one page are faithful. A \<open>Frame *\<close> is the frame's index, a
  pointer to an engine a handle into a heap. A C double is \<open>Fin r\<close>, an infinity or NaN with
  round-to-nearest-even (\<open>CDouble\<close>); \<open>log\<close> and \<open>sqrt\<close> round the real result. Results of system
  calls are part of the state: a file carries a plan with the outcome (full, short, error) of
  each coming request. What is not C code of the repository is a parameter: the ring of
  liburing, \<open>qsort\<close>, the order in which libuv runs work items, the return codes of SQLite,
  whether \<open>malloc\<close> succeeds. \<open>None\<close> as the result of an operation means that a loop over tree
  pages does not end (\<open>partial_function (option)\<close>), or that the process exits; the theorems
  show that it returns. No fuel is used elsewhere: other loops are structural or have a measure.

  Theories, in the order of the layers:
  \<^item> \<open>Prelude\<close>: bytes, words and pages; the lemma collections \<open>mem_simps\<close> and \<open>wf_intros\<close>.
  \<^item> \<open>SlottedPage\<close> (\<open>slotted_page.c\<close>): header, CRC, tuples. Insertion appends to the list of
    tuples or refuses; a run of insertions is read back tuple by tuple; a stamped page detects
    every changed byte; the CRC is the complement of the IEEE CRC.
  \<^item> \<open>Vfs\<close> and \<open>Uring\<close> (\<open>fts_vfs.c\<close>): the portable and the io_uring backend. A batch
    reports exactly the writes whose completion has a result that is not negative. The pool is composed with the
    portable backend; the io_uring one is modelled beside it, for any ring that meets \<open>ring_contract\<close>.
  \<^item> \<open>Wal\<close> (\<open>wal.c\<close>): append, sync, replay. Replay returns the appended records and drops a
    torn payload.
  \<^item> \<open>PageCache\<close>, \<open>BufferPool\<close>, \<open>PoolDurability\<close> (\<open>buffer_pool.c\<close>): the contract of a page cache as
    a locale; frames, clock eviction, pins, flushing; the pool provides the contract for four
    simultaneous pins; a fetch serves the page's current content whatever was evicted, a flush
    syncs the log before it touches the file, in every state between its system calls
    (\<open>flush_page_states\<close>), but does not stop when the sync fails; flushing all makes every page durable.
  \<^item> \<open>TermMap\<close>, \<open>BTree\<close>, \<open>BTreeProperties\<close> (\<open>btree.c\<close>): the contract of a term map; leaves, splits
    and the sibling chain; a tree is a finite map, its operations return and touch no other page.
  \<^item> \<open>CDouble\<close>, \<open>Ranking\<close>, \<open>ResultOrder\<close> (scoring and fusion in \<open>shard_worker.c\<close>, \<open>unified_shard.c\<close>):
    doubles, scores, bounded result arrays, sorting; collected results are the best, sorted
    results are ranked, fused results have distinct nodes.
  \<^item> \<open>FtsIndexer\<close> (\<open>fts_indexer.c\<close>): tombstone bitset and length map with their page limits.
  \<^item> \<open>ShardState\<close>, \<open>ShardSearch\<close> (\<open>unified_shard.c\<close>): records, deletion, sequential search; the
    searches score exactly the live records of the data pages.
  \<^item> \<open>InvertedIndex\<close>, \<open>PostingLists\<close>, \<open>PhraseProperties\<close>, \<open>PhraseIndex\<close> (\<open>inverted_index.c\<close>): posting pages, adding
    and reading, indexed and phrase search; the index refines lists of blocks, which the locale
    \<open>posting_index\<close> offers to the insertion; the phrase merge finds exactly the phrases on
    ascending lists; on the lists of the index, newest page first, it finds documents of one page only.
  \<^item> \<open>ShardMeta\<close>, \<open>UnifiedShard\<close> (\<open>shard_meta.c\<close>, \<open>unified_shard.c\<close>): metadata, opening, closing,
    inserting, the engine and its synchronous search. \<open>CDoubleBits\<close>: every operation on doubles
    yields a binary64 value, and such values survive their bit pattern, so the metadata file is
    read back as it was saved.
  \<^item> \<open>RecordStore\<close>, \<open>ShardInsert\<close>, \<open>ShardOpen\<close>, \<open>ShardStore\<close>, \<open>ShardProperties\<close>: the shard as a
    whole. \<open>shard_inv\<close> ties tree, posting, data and tombstone pages together; opening on empty
    files establishes it, insertions, deletions and searches keep it; a shard refines a list of
    documents with terms and deletions.
  \<^item> \<open>ShardRestart\<close>, \<open>RestartProperties\<close>: closing and opening again. The flushed file is the pool,
    the reopened shard satisfies \<open>shard_inv\<close> for the same documents; a posting page that looks
    like a data page is the exception, which a theorem exhibits. The statistics of a shard are
    the exact sums and rounded averages of its insertions.
  \<^item> \<open>ShardFrame\<close>: what an operation leaves alone, stated once for any field of a shard by the locales
    \<open>untouched_field\<close> and \<open>fixed_field\<close>, and interpreted for its number, identity, sums and statistics.
  \<^item> \<open>CrashProperties\<close>: opening after a crash. The page counter restored from an old metadata file
    makes the shard allocate a page that is in use.
  \<^item> \<open>AsyncSearch\<close>, \<open>AsyncProperties\<close> (\<open>async_search.c\<close>): the work items and the completion
    callback, which takes a shard's number for its index. An engine numbers its shards so that this is
    right; then every search completes, and its result does not depend on the order of the items.
  \<^item> \<open>ScoreRange\<close>, \<open>EngineSearch\<close>, \<open>EngineStore\<close>, \<open>EngineProperties\<close>: the engine end to end. The scores of
    a new engine stay in range and are positive exactly for documents with a term; documents
    inserted through the engine are found, all and only, by a text query over all shards.
    \<open>EngineRestart\<close>: closing an engine and opening it again keeps the documents of all shards.
  \<^item> \<open>Lexicon\<close>, \<open>LexiconProperties\<close> (\<open>lexicon.c\<close>, \<open>lexicon_map.c\<close>): hash table, tokenizer, idf.
  \<^item> \<open>VtabBridge\<close>, \<open>VtabSkeleton\<close>, \<open>VtabProperties\<close> (\<open>vtab_bridge.c\<close>, \<open>vtab_bridge_skeleton.c\<close>): engines
    by path with reference counts, cursors; open tables keep their engines alive; a cursor
    yields each result once. The locale \<open>row_cursor\<close> is shared by both forms.
  \<^item> \<open>TableSearch\<close>, \<open>TableProperties\<close>: the layers composed. A table opened on empty files, filled with
    texts through the bindings and queried returns exactly the documents that share a word with
    the query; so it does after it was disconnected and connected again in a new process.
  \<^item> \<open>Catalog\<close>, \<open>CatalogProperties\<close> (\<open>catalog.c\<close>, \<open>tabular_worker.c\<close>, \<open>main_tabular.c\<close>): shard pruning
    and page aggregation.
  \<^item> \<open>PostingWorker\<close> (\<open>shard_worker.c\<close>, \<open>uv_loop.c\<close>, \<open>main.c\<close>), \<open>Shm\<close> (\<open>shm_manager.c\<close>), \<open>Demos\<close>
    (\<open>main_wal_bp.c\<close>, \<open>main_phase2_3.c\<close>), \<open>CsvReader\<close> (\<open>sqlite_vtab_example_csv.c\<close>).

  Bounds. The page-cache contract needs four frames that are not pinned; the engine gives a
  shard at least 1024. Page ids stay below \<open>2 ^ 32 - 1\<close>; the theorems count the pages an operation
  may allocate. The indexed search reads a million postings at most.

  Not modelled: the SQLite amalgamation, which the repository holds under
  \<open>sqlite-amalgamation-3470200/\<close> and again as \<open>src/db_engine.c\<close>, \<open>src/db_shell.c\<close> and their headers
  (third-party code); the test programs and the Makefile; printed text other than as a value;
  creating the base directory; null pointer arguments; the owner thread id of a shard; reads
  past the eight positions of a posting, which the index never writes. The CSV file of the
  repository ends inside its virtual table, so only its reader is modelled. A crash is modelled for
  the log, for single flushes and as an old metadata file beside a grown data file; the shard
  never replays its log, so nothing more survives. End-to-end theorems cover text queries;
  vector queries and quoted phrases are covered per shard and per posting list.
\<close>

end
